(* ===== verification/Nitrox_Prelude.thy ===== *)
theory Nitrox_Prelude
  imports Main "HOL-Library.Word" "HOL-Library.Multiset"
begin

unbundle bit_operations_syntax

text \<open>
  The shared base of the development: names for Rust's integer types, the result type, intrusive
  singly linked lists through a next field, circular buffers and the bounded-queue interface they
  implement, and the word facts the components use.
\<close>

type_synonym u8 = "8 word"
type_synonym u16 = "16 word"
type_synonym u32 = "32 word"
type_synonym u64 = "64 word"

text \<open>Rust's Result: \<open>Inl\<close> carries the error.\<close>

type_synonym ('a, 'e) result = "'e + 'a"

named_theorems kdefs \<open>definitions of the model that proofs unfold together\<close>
named_theorems klaws \<open>invariants and laws of the components\<close>

section \<open>Result and option\<close>

lemma case_sum_Inr_iff:
  "(case r of Inl e \<Rightarrow> Inl e | Inr x \<Rightarrow> f x) = Inr y \<longleftrightarrow> (\<exists>x. r = Inr x \<and> f x = Inr y)"
  by (cases r) auto

lemma case_option_Some_iff:
  "(case r of None \<Rightarrow> None | Some x \<Rightarrow> f x) = Some y \<longleftrightarrow> (\<exists>x. r = Some x \<and> f x = Some y)"
  by (cases r) auto

section \<open>Lists\<close>

text \<open>An update that keeps a field of the element keeps it everywhere.\<close>

lemma update_field: "f x = f (xs ! j) \<Longrightarrow> f (xs[j := x] ! i) = f (xs ! i)"
  by (cases "j < length xs"; cases "i = j") (simp_all add: list_update_beyond)

section \<open>Words\<close>

lemma unat_inject [simp]: "unat (x :: 'a::len word) = unat y \<longleftrightarrow> x = y"
  by (simp add: word_unat_eq_iff)

lemma no_bits_zero: "(\<And>i. \<not> bit (x :: 'a::len word) i) \<Longrightarrow> x = 0"
  by (rule bit_word_eqI) simp

lemma and_one_zero_iff [simp]: "(x :: 'a::len word) AND 1 = 0 \<longleftrightarrow> even x"
  by (simp add: and_one_eq mod_2_eq_odd)

lemma unat_u32_lt: "unat (x :: u32) < 4294967296"
  using unsigned_less [where ?'a = nat, of x] by simp

lemma unat_u64_lt: "unat (x :: u64) < 18446744073709551616"
  using unsigned_less [where ?'a = nat, of x] by simp

lemma lt_exp_iff_bits:
  fixes x :: "'a::len word"
  assumes "n < LENGTH('a)"
  shows "x < 2 ^ n \<longleftrightarrow> (\<forall>i. n \<le> i \<longrightarrow> \<not> bit x i)"
proof -
  have "x < 2 ^ n \<longleftrightarrow> take_bit n (uint x) = uint x"
    using assms by (simp add: word_2p_lem word_size take_bit_int_eq_self_iff)
  also have "\<dots> \<longleftrightarrow> (\<forall>i. bit (take_bit n (uint x)) i = bit (uint x) i)" by (metis bit_eqI)
  also have "\<dots> \<longleftrightarrow> (\<forall>i. n \<le> i \<longrightarrow> \<not> bit x i)"
    by (metis bit_take_bit_iff bit_uint_iff bit_imp_le_length linorder_not_less)
  finally show ?thesis .
qed

section \<open>Lists through a next field\<close>

text \<open>
  \<open>chain nx e p as\<close>: following \<open>nx\<close> from \<open>p\<close> visits exactly the nodes \<open>as\<close> and ends at the
  sentinel \<open>e\<close>, which is never a node.
\<close>

primrec chain :: "('a \<Rightarrow> 'a) \<Rightarrow> 'a \<Rightarrow> 'a \<Rightarrow> 'a list \<Rightarrow> bool" where
  "chain nx e p [] \<longleftrightarrow> p = e"
| "chain nx e p (a # as) \<longleftrightarrow> p = a \<and> a \<noteq> e \<and> chain nx e (nx a) as"

lemma chain_end [simp]: "chain nx e e as \<longleftrightarrow> as = []"
  by (cases as) auto

lemma chain_nonempty: "p \<noteq> e \<Longrightarrow> chain nx e p as \<longleftrightarrow> (\<exists>bs. as = p # bs \<and> chain nx e (nx p) bs)"
  by (cases as) auto

lemma chain_sentinel: "chain nx e p as \<Longrightarrow> e \<notin> set as"
  by (induction as arbitrary: p) auto

lemma chain_cong: "(\<And>a. a \<in> set as \<Longrightarrow> nx a = nx' a) \<Longrightarrow> chain nx e p as = chain nx' e p as"
  by (induction as arbitrary: p) auto

lemma chain_frame [simp]: "x \<notin> set as \<Longrightarrow> chain (nx(x := y)) e p as = chain nx e p as"
  by (rule chain_cong) auto

lemma chain_unique: "chain nx e p as \<Longrightarrow> chain nx e p bs \<Longrightarrow> as = bs"
proof (induction as arbitrary: p bs)
  case Nil
  then show ?case by simp
next
  case (Cons a as)
  then show ?case by (cases bs) auto
qed

lemma chain_suffix: "chain nx e p (as @ b # bs) \<Longrightarrow> chain nx e b (b # bs)"
  by (induction as arbitrary: p) auto

lemma chain_distinct: "chain nx e p as \<Longrightarrow> distinct as"
proof (induction as arbitrary: p)
  case Nil
  then show ?case by simp
next
  case (Cons a as)
  have "a \<notin> set as"
  proof
    assume "a \<in> set as"
    then obtain bs cs where as: "as = bs @ a # cs" by (meson split_list)
    from Cons.prems have "chain nx e a ((a # bs) @ a # cs)" by (simp add: as)
    from chain_suffix [OF this] have "chain nx e a (a # cs)" .
    with Cons.prems have "as = cs" by (auto dest: chain_unique)
    then show False by (simp add: as)
  qed
  with Cons show ?case by auto
qed

lemma chain_push: "chain nx e p as \<Longrightarrow> x \<notin> set as \<Longrightarrow> x \<noteq> e \<Longrightarrow> chain (nx(x := p)) e x (x # as)"
  by simp

text \<open>Threading a list of distinct nodes onto the next field yields that list.\<close>

lemma chain_thread:
  assumes "as \<noteq> []" and "\<And>k. k + 1 < length as \<Longrightarrow> nx (as ! k) = as ! (k + 1)"
    and "nx (last as) = e" and "e \<notin> set as"
  shows "chain nx e (hd as) as"
  using assms
proof (induction as)
  case Nil
  then show ?case by simp
next
  case (Cons a as)
  show ?case
  proof (cases as)
    case Nil
    with Cons.prems show ?thesis by simp
  next
    case (Cons b bs)
    have "chain nx e (hd as) as"
    proof (rule Cons.IH)
      show "as \<noteq> []" by (simp add: Cons)
      show "nx (as ! k) = as ! (k + 1)" if "k + 1 < length as" for k
        using Cons.prems(2) [of "Suc k"] that by simp
      show "nx (last as) = e" using Cons.prems(3) by (simp add: Cons)
      show "e \<notin> set as" using Cons.prems(4) by simp
    qed
    moreover have "nx a = hd as" using Cons.prems(2) [of 0] by (simp add: Cons)
    ultimately show ?thesis using Cons.prems(4) by (auto simp: Cons)
  qed
qed

section \<open>Circular buffers\<close>

text \<open>The live elements of a circular buffer, oldest first.\<close>

definition ring_list :: "'a list \<Rightarrow> nat \<Rightarrow> nat \<Rightarrow> 'a list" where
  "ring_list buf h n = map (\<lambda>i. buf ! ((h + i) mod length buf)) [0..<n]"

lemma length_ring_list [simp]: "length (ring_list buf h n) = n"
  by (simp add: ring_list_def)

lemma ring_list_0 [simp]: "ring_list buf h 0 = []"
  by (simp add: ring_list_def)

lemma nth_ring_list: "i < n \<Longrightarrow> ring_list buf h n ! i = buf ! ((h + i) mod length buf)"
  by (simp add: ring_list_def)

lemma mod_add_inj_less:
  fixes h i n c :: nat
  assumes "i < n" "n < c"
  shows "(h + i) mod c \<noteq> (h + n) mod c"
proof
  assume "(h + i) mod c = (h + n) mod c"
  then have "(h + n) mod c = (h + i) mod c" ..
  then have "c dvd (h + n) - (h + i)" using assms(1) by (subst (asm) mod_eq_dvd_iff_nat) simp_all
  then have "c dvd n - i" by simp
  with assms show False using dvd_imp_le [of c "n - i"] by simp
qed

lemma ring_list_push:
  assumes "n < length buf"
  shows "ring_list (buf[(h + n) mod length buf := x]) h (Suc n) = ring_list buf h n @ [x]"
proof (rule nth_equalityI)
  show "length (ring_list (buf[(h + n) mod length buf := x]) h (Suc n)) = length (ring_list buf h n @ [x])"
    by simp
next
  fix i
  assume "i < length (ring_list (buf[(h + n) mod length buf := x]) h (Suc n))"
  then have i: "i < Suc n" by simp
  have c: "(h + n) mod length buf < length buf" using assms by (intro mod_less_divisor) linarith
  show "ring_list (buf[(h + n) mod length buf := x]) h (Suc n) ! i = (ring_list buf h n @ [x]) ! i"
  proof (cases "i = n")
    case True
    with c show ?thesis by (simp add: nth_ring_list nth_append)
  next
    case False
    with i have "i < n" by simp
    with assms mod_add_inj_less [of i n "length buf" h] show ?thesis
      by (simp add: nth_ring_list nth_append)
  qed
qed

lemma ring_list_pop:
  assumes "0 < length buf"
  shows "ring_list buf h (Suc n) = buf ! (h mod length buf) # ring_list buf ((h + 1) mod length buf) n"
proof (rule nth_equalityI)
  fix i
  assume "i < length (ring_list buf h (Suc n))"
  then show "ring_list buf h (Suc n) ! i =
      (buf ! (h mod length buf) # ring_list buf ((h + 1) mod length buf) n) ! i"
    using assms by (cases i) (auto simp: nth_ring_list mod_add_left_eq)
qed simp

lemma ring_list_frame:
  assumes "\<And>i. i < n \<Longrightarrow> (h + i) mod length buf \<noteq> k"
  shows "ring_list (buf[k := x]) h n = ring_list buf h n"
proof (rule nth_equalityI)
  fix i
  assume "i < length (ring_list (buf[k := x]) h n)"
  with assms [of i] show "ring_list (buf[k := x]) h n ! i = ring_list buf h n ! i"
    by (simp add: nth_ring_list nth_list_update_neq [OF not_sym])
qed simp

lemma ring_list_pop_take:
  assumes "0 < length buf" and "h < length buf" and "Suc n \<le> length buf"
  shows "ring_list (buf[h := x]) ((h + 1) mod length buf) n = tl (ring_list buf h (Suc n))"
proof -
  have "((h + 1) mod length buf + i) mod length buf \<noteq> h" if "i < n" for i
  proof
    assume "((h + 1) mod length buf + i) mod length buf = h"
    then have "(h + Suc i) mod length buf = (h + 0) mod length buf"
      using assms(2) by (simp add: mod_add_left_eq)
    then show False
      using mod_add_inj_less [of 0 "Suc i" "length buf" h] that assms(3) by simp
  qed
  then have "ring_list (buf[h := x]) ((h + 1) mod length buf) n = ring_list buf ((h + 1) mod length buf) n"
    by (rule ring_list_frame)
  with assms show ?thesis by (simp add: ring_list_pop)
qed

section \<open>The bounded queue interface\<close>

text \<open>
  What a fixed-capacity first-in first-out queue promises, over the list of its elements: a push is
  refused exactly when the queue is full and otherwise appends; a pop is refused exactly when it is
  empty and otherwise takes the oldest.
\<close>

locale bounded_queue =
  fixes invar :: "'q \<Rightarrow> bool"
    and contents :: "'q \<Rightarrow> 'a list"
    and capacity :: "'q \<Rightarrow> nat"
    and push :: "'q \<Rightarrow> 'a \<Rightarrow> 'q option"
    and pop :: "'q \<Rightarrow> ('a \<times> 'q) option"
  assumes bound: "invar q \<Longrightarrow> length (contents q) \<le> capacity q"
    and push_full: "invar q \<Longrightarrow> push q x = None \<longleftrightarrow> length (contents q) = capacity q"
    and push_some: "invar q \<Longrightarrow> push q x = Some q' \<Longrightarrow>
      invar q' \<and> contents q' = contents q @ [x] \<and> capacity q' = capacity q"
    and pop_empty: "invar q \<Longrightarrow> pop q = None \<longleftrightarrow> contents q = []"
    and pop_some: "invar q \<Longrightarrow> pop q = Some (x, q') \<Longrightarrow>
      invar q' \<and> contents q = x # contents q' \<and> capacity q' = capacity q"
begin

primrec push_all :: "'q \<Rightarrow> 'a list \<Rightarrow> 'q option" where
  "push_all q [] = Some q"
| "push_all q (x # xs) = (case push q x of None \<Rightarrow> None | Some q' \<Rightarrow> push_all q' xs)"

primrec pop_n :: "nat \<Rightarrow> 'q \<Rightarrow> ('a list \<times> 'q) option" where
  "pop_n 0 q = Some ([], q)"
| "pop_n (Suc n) q = (case pop q of None \<Rightarrow> None | Some (x, q') \<Rightarrow>
     (case pop_n n q' of None \<Rightarrow> None | Some (xs, q'') \<Rightarrow> Some (x # xs, q'')))"

lemma push_all_fits:
  "invar q \<Longrightarrow> length (contents q) + length xs \<le> capacity q \<Longrightarrow>
    \<exists>q'. push_all q xs = Some q' \<and> invar q' \<and> contents q' = contents q @ xs \<and> capacity q' = capacity q"
proof (induction xs arbitrary: q)
  case Nil
  then show ?case by simp
next
  case (Cons x xs)
  then obtain q1 where q1: "push q x = Some q1" using push_full [of q x] by fastforce
  with Cons.prems push_some have "invar q1 \<and> contents q1 = contents q @ [x] \<and> capacity q1 = capacity q"
    by blast
  with Cons.IH [of q1] Cons.prems q1 show ?case by auto
qed

lemma pop_n_takes:
  "invar q \<Longrightarrow> n \<le> length (contents q) \<Longrightarrow>
    \<exists>q'. pop_n n q = Some (take n (contents q), q') \<and> invar q' \<and> contents q' = drop n (contents q)
       \<and> capacity q' = capacity q"
proof (induction n arbitrary: q)
  case 0
  then show ?case by simp
next
  case (Suc n)
  then have "contents q \<noteq> []" by auto
  with Suc.prems obtain x q1 where q1: "pop q = Some (x, q1)"
    using pop_empty [of q] by fastforce
  with Suc.prems pop_some have *: "invar q1 \<and> contents q = x # contents q1 \<and> capacity q1 = capacity q"
    by blast
  with Suc.IH [of q1] Suc.prems q1 show ?case by auto
qed

text \<open>First in, first out: what was pushed onto an empty queue comes out in the same order.\<close>

lemma fifo:
  assumes "invar q" "contents q = []" "length xs \<le> capacity q"
  shows "\<exists>q' q''. push_all q xs = Some q' \<and> pop_n (length xs) q' = Some (xs, q'') \<and> contents q'' = []"
proof -
  from push_all_fits [of q xs] assms obtain q' where
    q': "push_all q xs = Some q'" "invar q'" "contents q' = xs" by auto
  with pop_n_takes [of q' "length xs"] show ?thesis by auto
qed

end

end
