(* ===== verification/Handle_Values.thy ===== *)
theory Handle_Values
  imports Nitrox_Prelude
begin

text \<open>
  The value types of the handle system (\<^verbatim>\<open>kernel/src/libkern/handle.rs\<close>): the packed 64-bit
  \<^verbatim>\<open>RawHandle\<close>, the \<^verbatim>\<open>Rights\<close> bit set, the \<^verbatim>\<open>KObjectType\<close> tag with its wire
  discriminants, and the allocation-time check of rights against a type
  (\<^verbatim>\<open>kernel/src/handle/type_rights.rs\<close>).
  A \<^verbatim>\<open>RawHandle\<close> and a \<^verbatim>\<open>Rights\<close> are \<^verbatim>\<open>u64\<close> newtypes, so both are \<^typ>\<open>u64\<close> here.
\<close>

section \<open>RawHandle\<close>

definition RawHandle_NULL :: u64 where
  "RawHandle_NULL = 0"

definition GENERATION_BITS :: nat where
  "GENERATION_BITS = 31"

definition GENERATION_MAX :: u32 where
  "GENERATION_MAX = push_bit GENERATION_BITS 1 - 1"

text \<open>
  The release-build body: the debug assertions on the field widths are the hypotheses of the
  theorems, not part of the value.
\<close>

definition RawHandle_encode :: "u32 \<Rightarrow> u32 \<Rightarrow> u32 \<Rightarrow> u64" where
  "RawHandle_encode seg_id slot_id generation =
     (let slot = push_bit 20 (ucast seg_id :: u64) OR ucast slot_id
      in push_bit 32 (ucast generation :: u64) OR slot)"

definition RawHandle_decode :: "u64 \<Rightarrow> u32 \<times> u32 \<times> u32" where
  "RawHandle_decode h =
     (let slot = (ucast h :: u32);
          seg_id = drop_bit 20 slot;
          slot_id = slot AND (push_bit 20 1 - 1);
          generation = (ucast (drop_bit 32 h) :: u32)
      in (seg_id, slot_id, generation))"

definition RawHandle_is_null :: "u64 \<Rightarrow> bool" where
  "RawHandle_is_null h \<longleftrightarrow> h = 0"

section \<open>Rights\<close>

definition Rights_DUPLICATE :: u64 where "Rights_DUPLICATE = push_bit 0 1"
definition Rights_TRANSFER :: u64 where "Rights_TRANSFER = push_bit 1 1"
definition Rights_INSPECT :: u64 where "Rights_INSPECT = push_bit 2 1"
definition Rights_WAIT :: u64 where "Rights_WAIT = push_bit 3 1"
definition Rights_READ :: u64 where "Rights_READ = push_bit 8 1"
definition Rights_WRITE :: u64 where "Rights_WRITE = push_bit 9 1"
definition Rights_EXECUTE :: u64 where "Rights_EXECUTE = push_bit 10 1"
definition Rights_SIGNAL :: u64 where "Rights_SIGNAL = push_bit 11 1"
definition Rights_TERMINATE :: u64 where "Rights_TERMINATE = push_bit 12 1"
definition Rights_LOOKUP :: u64 where "Rights_LOOKUP = push_bit 13 1"
definition Rights_BIND :: u64 where "Rights_BIND = push_bit 14 1"
definition Rights_MAP_READ :: u64 where "Rights_MAP_READ = push_bit 15 1"
definition Rights_MAP_WRITE :: u64 where "Rights_MAP_WRITE = push_bit 16 1"
definition Rights_MAP_EXEC :: u64 where "Rights_MAP_EXEC = push_bit 17 1"
definition Rights_SEND :: u64 where "Rights_SEND = push_bit 18 1"
definition Rights_RECV :: u64 where "Rights_RECV = push_bit 19 1"
definition Rights_SEEK :: u64 where "Rights_SEEK = push_bit 32 1"
definition Rights_APPEND :: u64 where "Rights_APPEND = push_bit 33 1"
definition Rights_TRUNCATE :: u64 where "Rights_TRUNCATE = push_bit 34 1"
definition Rights_UNBIND :: u64 where "Rights_UNBIND = push_bit 35 1"
definition Rights_ENUMERATE :: u64 where "Rights_ENUMERATE = push_bit 36 1"
definition Rights_INSPECT_MEMORY :: u64 where "Rights_INSPECT_MEMORY = push_bit 37 1"

lemmas rights_bits =
  Rights_DUPLICATE_def Rights_TRANSFER_def Rights_INSPECT_def Rights_WAIT_def
  Rights_READ_def Rights_WRITE_def Rights_EXECUTE_def Rights_SIGNAL_def Rights_TERMINATE_def
  Rights_LOOKUP_def Rights_BIND_def Rights_MAP_READ_def Rights_MAP_WRITE_def Rights_MAP_EXEC_def
  Rights_SEND_def Rights_RECV_def Rights_SEEK_def Rights_APPEND_def Rights_TRUNCATE_def
  Rights_UNBIND_def Rights_ENUMERATE_def Rights_INSPECT_MEMORY_def

definition Rights_empty :: u64 where
  "Rights_empty = 0"

definition Rights_contains :: "u64 \<Rightarrow> u64 \<Rightarrow> bool" where
  "Rights_contains self other \<longleftrightarrow> self AND other = other"

definition Rights_union :: "u64 \<Rightarrow> u64 \<Rightarrow> u64" where
  "Rights_union self other = self OR other"

definition Rights_intersection :: "u64 \<Rightarrow> u64 \<Rightarrow> u64" where
  "Rights_intersection self other = self AND other"

definition Rights_difference :: "u64 \<Rightarrow> u64 \<Rightarrow> u64" where
  "Rights_difference self other = self AND NOT other"

definition Rights_is_subset_of :: "u64 \<Rightarrow> u64 \<Rightarrow> bool" where
  "Rights_is_subset_of self other \<longleftrightarrow> self AND other = self"

section \<open>KObjectType\<close>

datatype KObjectType =
    KInvalid | KProcess | KThread | KNamespace | KMemoryObject | KIpcChannel
  | KNotificationChannel | KTimer | KInterruptObject | KPendingOperation | KIoRing
  | KEntropyObject | KDeviceNode | KUserspaceServerReg | KFileObject | KSystemControl

text \<open>The cast \<^verbatim>\<open>ty as u32\<close>: the declared discriminants.\<close>

fun KObjectType_as_u32 :: "KObjectType \<Rightarrow> u32" where
  "KObjectType_as_u32 KInvalid = 0"
| "KObjectType_as_u32 KProcess = 1"
| "KObjectType_as_u32 KThread = 2"
| "KObjectType_as_u32 KNamespace = 3"
| "KObjectType_as_u32 KMemoryObject = 4"
| "KObjectType_as_u32 KIpcChannel = 5"
| "KObjectType_as_u32 KNotificationChannel = 6"
| "KObjectType_as_u32 KTimer = 7"
| "KObjectType_as_u32 KInterruptObject = 8"
| "KObjectType_as_u32 KPendingOperation = 9"
| "KObjectType_as_u32 KIoRing = 10"
| "KObjectType_as_u32 KEntropyObject = 11"
| "KObjectType_as_u32 KDeviceNode = 12"
| "KObjectType_as_u32 KUserspaceServerReg = 13"
| "KObjectType_as_u32 KFileObject = 14"
| "KObjectType_as_u32 KSystemControl = 15"

definition KObjectType_from_u32 :: "u32 \<Rightarrow> KObjectType option" where
  "KObjectType_from_u32 v = map_of
    [(0, KInvalid), (1, KProcess), (2, KThread), (3, KNamespace), (4, KMemoryObject),
     (5, KIpcChannel), (6, KNotificationChannel), (7, KTimer), (8, KInterruptObject),
     (9, KPendingOperation), (10, KIoRing), (11, KEntropyObject), (12, KDeviceNode),
     (13, KUserspaceServerReg), (14, KFileObject), (15, KSystemControl)] v"

section \<open>The type-rights matrix\<close>

definition PRINCIPAL_MASK :: u64 where
  "PRINCIPAL_MASK = Rights_READ OR Rights_WRITE OR Rights_EXECUTE OR Rights_SIGNAL OR
     Rights_TERMINATE OR Rights_LOOKUP OR Rights_BIND OR Rights_MAP_READ OR Rights_MAP_WRITE OR
     Rights_MAP_EXEC OR Rights_SEND OR Rights_RECV"

definition PROCESS_PRINCIPALS :: u64 where
  "PROCESS_PRINCIPALS = Rights_SIGNAL OR Rights_TERMINATE"

definition THREAD_PRINCIPALS :: u64 where
  "THREAD_PRINCIPALS = Rights_SIGNAL OR Rights_TERMINATE"

definition NAMESPACE_PRINCIPALS :: u64 where
  "NAMESPACE_PRINCIPALS = Rights_LOOKUP OR Rights_BIND"

definition MEMORY_OBJECT_PRINCIPALS :: u64 where
  "MEMORY_OBJECT_PRINCIPALS = Rights_MAP_READ OR Rights_MAP_WRITE OR Rights_MAP_EXEC"

definition FILE_OBJECT_PRINCIPALS :: u64 where
  "FILE_OBJECT_PRINCIPALS = MEMORY_OBJECT_PRINCIPALS"

definition IPC_CHANNEL_PRINCIPALS :: u64 where
  "IPC_CHANNEL_PRINCIPALS = Rights_SEND OR Rights_RECV"

definition IO_RING_PRINCIPALS :: u64 where
  "IO_RING_PRINCIPALS = Rights_READ OR Rights_WRITE"

definition ENTROPY_PRINCIPALS :: u64 where
  "ENTROPY_PRINCIPALS = Rights_READ"

definition DEVICE_NODE_PRINCIPALS :: u64 where
  "DEVICE_NODE_PRINCIPALS = Rights_union Rights_READ Rights_WRITE"

definition SYSTEM_CONTROL_PRINCIPALS :: u64 where
  "SYSTEM_CONTROL_PRINCIPALS = Rights_WRITE"

definition WAIT_ONLY_PRINCIPALS :: u64 where
  "WAIT_ONLY_PRINCIPALS = Rights_empty"

lemmas principals =
  PRINCIPAL_MASK_def PROCESS_PRINCIPALS_def THREAD_PRINCIPALS_def NAMESPACE_PRINCIPALS_def
  MEMORY_OBJECT_PRINCIPALS_def FILE_OBJECT_PRINCIPALS_def IPC_CHANNEL_PRINCIPALS_def
  IO_RING_PRINCIPALS_def ENTROPY_PRINCIPALS_def DEVICE_NODE_PRINCIPALS_def
  SYSTEM_CONTROL_PRINCIPALS_def WAIT_ONLY_PRINCIPALS_def

text \<open>The \<^verbatim>\<open>match\<close> of \<^verbatim>\<open>is_rights_compatible\<close>; \<^const>\<open>None\<close> is its early \<^verbatim>\<open>return false\<close>.\<close>

fun allowed_principal :: "KObjectType \<Rightarrow> u64 option" where
  "allowed_principal KProcess = Some PROCESS_PRINCIPALS"
| "allowed_principal KThread = Some THREAD_PRINCIPALS"
| "allowed_principal KNamespace = Some NAMESPACE_PRINCIPALS"
| "allowed_principal KMemoryObject = Some MEMORY_OBJECT_PRINCIPALS"
| "allowed_principal KFileObject = Some FILE_OBJECT_PRINCIPALS"
| "allowed_principal KIpcChannel = Some IPC_CHANNEL_PRINCIPALS"
| "allowed_principal KNotificationChannel = Some WAIT_ONLY_PRINCIPALS"
| "allowed_principal KTimer = Some WAIT_ONLY_PRINCIPALS"
| "allowed_principal KInterruptObject = Some WAIT_ONLY_PRINCIPALS"
| "allowed_principal KPendingOperation = Some WAIT_ONLY_PRINCIPALS"
| "allowed_principal KIoRing = Some IO_RING_PRINCIPALS"
| "allowed_principal KEntropyObject = Some ENTROPY_PRINCIPALS"
| "allowed_principal KDeviceNode = Some DEVICE_NODE_PRINCIPALS"
| "allowed_principal KSystemControl = Some SYSTEM_CONTROL_PRINCIPALS"
| "allowed_principal KInvalid = None"
| "allowed_principal KUserspaceServerReg = None"

definition is_rights_compatible :: "KObjectType \<Rightarrow> u64 \<Rightarrow> bool" where
  "is_rights_compatible ty rights =
    (case allowed_principal ty of
       None \<Rightarrow> False
     | Some allowed \<Rightarrow> Rights_is_subset_of (Rights_intersection rights PRINCIPAL_MASK) allowed)"

section \<open>Lemmas on handles\<close>

lemma GENERATION_MAX_val: "GENERATION_MAX = mask 31"
  by (simp add: GENERATION_MAX_def GENERATION_BITS_def mask_eq_exp_minus_1 push_bit_eq_mult)

lemma bit_mask20 [simp]: "bit (1048575 :: int) i \<longleftrightarrow> i < 20"
proof -
  have "(1048575 :: int) = mask 20" by (simp add: mask_eq_exp_minus_1)
  then show ?thesis by (simp only: bit_mask_iff) auto
qed

lemma bits_small: "x < (4096 :: u32) \<Longrightarrow> bit x i \<Longrightarrow> i < 12"
  using lt_exp_iff_bits [of 12 x] by (auto simp: not_le [symmetric])

lemma bits_small20: "x < (1048576 :: u32) \<Longrightarrow> bit x i \<Longrightarrow> i < 20"
  using lt_exp_iff_bits [of 20 x] by (auto simp: not_le [symmetric])

lemma decode_encode:
  assumes "seg < 4096" and "slot < 1048576"
  shows "RawHandle_decode (RawHandle_encode seg slot g) = (seg, slot, g)"
proof -
  let ?h = "RawHandle_encode seg slot g"
  have h: "?h = push_bit 32 (ucast g) OR (push_bit 20 (ucast seg) OR ucast slot)"
    by (simp add: RawHandle_encode_def)
  note small = bits_small [OF assms(1)] bits_small20 [OF assms(2)]
  have "drop_bit 20 (ucast ?h :: u32) = seg"
    by (intro bit_word_eqI) (auto simp: h bit_simps dest: small)
  moreover have "(ucast ?h :: u32) AND (push_bit 20 1 - 1) = slot"
    by (intro bit_word_eqI) (auto simp: h bit_simps dest: small)
  moreover have "(ucast (drop_bit 32 ?h) :: u32) = g"
    by (intro bit_word_eqI) (auto simp: h bit_simps dest: small)
  ultimately show ?thesis by (simp add: RawHandle_decode_def)
qed

lemma encode_decode: "(case RawHandle_decode h of (seg, slot, g) \<Rightarrow> RawHandle_encode seg slot g) = h"
proof (rule bit_word_eqI)
  fix n
  assume n: "n < LENGTH(64)"
  consider "n < 20" | "20 \<le> n" "n < 32" | "32 \<le> n" by linarith
  then show "bit (case RawHandle_decode h of (seg, slot, g) \<Rightarrow> RawHandle_encode seg slot g) n = bit h n"
    using n by cases (simp_all add: RawHandle_decode_def RawHandle_encode_def Let_def bit_simps less_diff_conv2)
qed

lemma decode_seg_bound: "RawHandle_decode h = (seg, slot, g) \<Longrightarrow> seg < 4096"
proof -
  assume "RawHandle_decode h = (seg, slot, g)"
  then have "seg = drop_bit 20 (ucast h :: u32)" by (simp add: RawHandle_decode_def Let_def)
  then have "\<not> bit seg i" if "12 \<le> i" for i using that by (simp add: bit_simps)
  then show ?thesis using lt_exp_iff_bits [of 12 seg] by simp
qed

lemma decode_slot_bound: "RawHandle_decode h = (seg, slot, g) \<Longrightarrow> slot < 1048576"
proof -
  assume "RawHandle_decode h = (seg, slot, g)"
  then have "slot = (ucast h :: u32) AND (push_bit 20 1 - 1)" by (simp add: RawHandle_decode_def Let_def)
  then have "\<not> bit slot i" if "20 \<le> i" for i using that by (simp add: bit_simps)
  then show ?thesis using lt_exp_iff_bits [of 20 slot] by simp
qed

lemma encode_bit63:
  assumes "seg < 4096" "slot < 1048576" "g \<le> GENERATION_MAX"
  shows "\<not> bit (RawHandle_encode seg slot g) 63"
proof -
  have "g < 2 ^ 31"
    by (rule order_le_less_trans [OF assms(3)]) (simp add: GENERATION_MAX_val mask_eq_exp_minus_1)
  then have "\<not> bit g 31" using lt_exp_iff_bits [of 31 g] by simp
  moreover have "\<not> bit seg 43" "\<not> bit slot 63"
    using bit_imp_le_length [of seg 43] bit_imp_le_length [of slot 63] by auto
  ultimately show ?thesis by (simp add: RawHandle_encode_def bit_simps)
qed

lemma encode_inj:
  assumes "seg < 4096" "slot < 1048576" "seg' < 4096" "slot' < 1048576"
    and "RawHandle_encode seg slot g = RawHandle_encode seg' slot' g'"
  shows "seg = seg' \<and> slot = slot' \<and> g = g'"
  using decode_encode [OF assms(1,2)] decode_encode [OF assms(3,4)] assms(5) by (metis prod.inject)

lemma encode_null_iff:
  assumes "seg < 4096" "slot < 1048576"
  shows "RawHandle_is_null (RawHandle_encode seg slot g) \<longleftrightarrow> seg = 0 \<and> slot = 0 \<and> g = 0"
proof -
  have "RawHandle_encode 0 0 0 = 0" by (simp add: RawHandle_encode_def)
  then show ?thesis
    using encode_inj [OF assms, of 0 0 g 0] by (auto simp: RawHandle_is_null_def)
qed

section \<open>Lemmas on rights\<close>

text \<open>A right set as the set of its bit positions.\<close>

definition rights_set :: "u64 \<Rightarrow> nat set" where
  "rights_set r = {n. bit r n}"

lemma rights_set_inter [simp]: "rights_set (Rights_intersection r s) = rights_set r \<inter> rights_set s"
  by (auto simp: rights_set_def Rights_intersection_def bit_simps)

lemma rights_set_union [simp]: "rights_set (Rights_union r s) = rights_set r \<union> rights_set s"
  by (auto simp: rights_set_def Rights_union_def bit_simps)

lemma rights_set_difference [simp]: "rights_set (Rights_difference r s) = rights_set r - rights_set s"
  by (auto simp: rights_set_def Rights_difference_def bit_and_iff bit_not_iff dest: bit_imp_le_length)

lemma rights_set_empty [simp]: "rights_set Rights_empty = {}"
  by (simp add: rights_set_def Rights_empty_def)

lemma rights_set_inject: "rights_set r = rights_set s \<longleftrightarrow> r = s"
  by (auto simp: rights_set_def set_eq_iff intro: bit_word_eqI)

lemma subset_of_iff: "Rights_is_subset_of r s \<longleftrightarrow> rights_set r \<subseteq> rights_set s"
proof -
  have "r AND s = r \<longleftrightarrow> (\<forall>n. bit (r AND s) n = bit r n)" by (metis bit_eqI)
  then show ?thesis by (auto simp: Rights_is_subset_of_def rights_set_def bit_simps)
qed

lemma contains_iff: "Rights_contains r s \<longleftrightarrow> rights_set s \<subseteq> rights_set r"
  using subset_of_iff [of s r]
  by (simp add: Rights_contains_def Rights_is_subset_of_def and.commute)

lemma subset_of_refl [simp]: "Rights_is_subset_of r r"
  by (simp add: subset_of_iff)

lemma subset_of_trans: "Rights_is_subset_of r s \<Longrightarrow> Rights_is_subset_of s t \<Longrightarrow> Rights_is_subset_of r t"
  by (auto simp: subset_of_iff)

lemma inter_subset [simp]:
  "Rights_is_subset_of (Rights_intersection r s) r" "Rights_is_subset_of (Rights_intersection r s) s"
  by (auto simp: subset_of_iff)

lemma compatible_mono:
  "is_rights_compatible ty r \<Longrightarrow> Rights_is_subset_of r' r \<Longrightarrow> is_rights_compatible ty r'"
  by (auto simp: is_rights_compatible_def subset_of_iff split: option.splits)

lemma from_u32_as_u32 [simp]: "KObjectType_from_u32 (KObjectType_as_u32 ty) = Some ty"
  by (cases ty) (simp_all add: KObjectType_from_u32_def)

lemma from_u32_Some: "KObjectType_from_u32 v = Some ty \<longleftrightarrow> v = KObjectType_as_u32 ty"
proof
  assume "KObjectType_from_u32 v = Some ty"
  from map_of_SomeD [OF this [unfolded KObjectType_from_u32_def]]
  show "v = KObjectType_as_u32 ty" by auto
qed simp

end
