(* ===== verification/Prng.thy ===== *)
theory Prng
  imports Nitrox_Prelude
begin

text \<open>
  The xorshift generator that shuffles a new handle segment's free list
  (\<^verbatim>\<open>kernel/src/handle/prng.rs\<close>). \<^verbatim>\<open>gen_below\<close> rejects draws in a loop with no bound in
  the source; the loop is shown to end within 65 draws from every state, so it is a total function
  here. The reason is linear algebra over bits: the low half of a draw is accepted whenever its top
  bit is clear, and a dependency with an odd number of terms among 65 successive top bits rules out
  that all of them are set.
\<close>

definition FALLBACK_SEED :: u64 where
  "FALLBACK_SEED = 0xDEADBEEFCAFEF00D"

definition Xorshift64_new :: "u64 \<Rightarrow> u64" where
  "Xorshift64_new seed = (if seed = 0 then FALLBACK_SEED else seed)"

text \<open>The new state, which is also the output.\<close>

definition next_u64 :: "u64 \<Rightarrow> u64" where
  "next_u64 s =
     (let x = s;
          x = x XOR push_bit 13 x;
          x = x XOR drop_bit 7 x;
          x = x XOR push_bit 17 x
      in x)"

definition gen_bound :: "u32 \<Rightarrow> u32" where
  "gen_bound n = - 1 - (- 1) mod n"

section \<open>A linear form on words\<close>

text \<open>\<open>dot m x\<close>: the parity of the bits of \<open>x\<close> selected by \<open>m\<close>.\<close>

definition dot :: "u64 \<Rightarrow> u64 \<Rightarrow> bool" where
  "dot m x \<longleftrightarrow> odd (card {i. bit m i \<and> bit x i})"

lemma finite_bits [simp]: "finite {i. bit (m :: 'a::len word) i \<and> P i}"
  by (rule finite_subset [of _ "{..<LENGTH('a)}"]) (auto dest: bit_imp_le_length)

lemma odd_card_sym_diff:
  assumes "finite A" "finite B"
  shows "odd (card ((A - B) \<union> (B - A))) \<longleftrightarrow> odd (card A) \<noteq> odd (card B)"
proof -
  have "card ((A - B) \<union> (B - A)) = card (A - B) + card (B - A)"
    using assms by (intro card_Un_disjoint) auto
  moreover have "card A = card (A - B) + card (A \<inter> B)"
    using assms by (metis card_Int_Diff add.commute)
  moreover have "card B = card (B - A) + card (A \<inter> B)"
    using assms by (metis card_Int_Diff add.commute inf_commute)
  ultimately show ?thesis by auto
qed

lemma dot_commute: "dot m x = dot x m"
  by (simp add: dot_def conj_commute)

lemma dot_zero [simp]: "\<not> dot 0 x"
  by (simp add: dot_def)

lemma dot_xor: "dot m (x XOR y) \<longleftrightarrow> dot m x \<noteq> dot m y"
proof -
  let ?A = "{i. bit m i \<and> bit x i}" and ?B = "{i. bit m i \<and> bit y i}"
  have "{i. bit m i \<and> bit (x XOR y) i} = (?A - ?B) \<union> (?B - ?A)"
    by (auto simp: bit_xor_iff)
  then show ?thesis
    using odd_card_sym_diff [of ?A ?B] by (simp add: dot_def)
qed

lemma dot_xor_left: "dot (m XOR m') x \<longleftrightarrow> dot m x \<noteq> dot m' x"
  using dot_xor [of x m m'] by (simp add: dot_commute)

lemma dot_push_bit: "dot m (push_bit k x) = dot (drop_bit k m) x"
proof -
  have "{i. bit m i \<and> bit (push_bit k x) i} = (\<lambda>j. k + j) ` {j. bit (drop_bit k m) j \<and> bit x j}"
  proof (intro equalityI subsetI)
    fix i
    assume "i \<in> {i. bit m i \<and> bit (push_bit k x) i}"
    then have "bit m i" "k \<le> i" "bit x (i - k)" by (auto simp: bit_push_bit_iff)
    then have "i = k + (i - k)" "i - k \<in> {j. bit (drop_bit k m) j \<and> bit x j}"
      by (auto simp: bit_drop_bit_eq)
    then show "i \<in> (\<lambda>j. k + j) ` {j. bit (drop_bit k m) j \<and> bit x j}" by blast
  next
    fix i
    assume "i \<in> (\<lambda>j. k + j) ` {j. bit (drop_bit k m) j \<and> bit x j}"
    then show "i \<in> {i. bit m i \<and> bit (push_bit k x) i}"
      by (auto simp: bit_push_bit_iff bit_drop_bit_eq dest: bit_imp_le_length [of m])
  qed
  then show ?thesis by (simp add: dot_def card_image)
qed

lemma dot_drop_bit: "dot m (drop_bit k x) = dot (push_bit k m) x"
  using dot_push_bit [of x k m] by (simp add: dot_commute)

lemma dot_exp: "dot (2 ^ k) x \<longleftrightarrow> k < 64 \<and> bit x k"
proof (cases "k < 64 \<and> bit x k")
  case True
  then have "{i. bit (2 ^ k :: u64) i \<and> bit x i} = {k}" by (auto simp: bit_exp_iff)
  with True show ?thesis by (simp add: dot_def)
next
  case False
  then have "{i. bit (2 ^ k :: u64) i \<and> bit x i} = {}"
    by (auto simp: bit_exp_iff dest: bit_imp_le_length)
  with False show ?thesis by (simp only: dot_def) simp
qed

lemma dot_shl: "dot m (x XOR push_bit k x) = dot (m XOR drop_bit k m) x"
  by (simp add: dot_xor dot_xor_left dot_push_bit)

lemma dot_shr: "dot m (x XOR drop_bit k x) = dot (m XOR push_bit k m) x"
  by (simp add: dot_xor dot_xor_left dot_drop_bit)

section \<open>The adjoint of a generator step\<close>

definition next_u64_adj :: "u64 \<Rightarrow> u64" where
  "next_u64_adj m =
     (let m = m XOR drop_bit 17 m;
          m = m XOR push_bit 7 m
      in m XOR drop_bit 13 m)"

lemma dot_next_u64: "dot m (next_u64 x) = dot (next_u64_adj m) x"
  by (simp only: next_u64_def next_u64_adj_def Let_def dot_shl dot_shr)

primrec combine :: "bool list \<Rightarrow> u64 \<Rightarrow> u64" where
  "combine [] m = 0"
| "combine (b # bs) m = (if b then m else 0) XOR combine bs (next_u64_adj m)"

lemma dot_combine:
  "(\<And>k. k < length bs \<Longrightarrow> dot m ((next_u64 ^^ k) x)) \<Longrightarrow> dot (combine bs m) x \<longleftrightarrow> odd (count_list bs True)"
proof (induction bs arbitrary: m)
  case Nil
  then show ?case by simp
next
  case (Cons b bs)
  have "dot (next_u64_adj m) ((next_u64 ^^ k) x)" if "k < length bs" for k
    using Cons.prems [of "Suc k"] that by (simp add: dot_next_u64)
  from Cons.IH [OF this] have "dot (combine bs (next_u64_adj m)) x = odd (count_list bs True)" .
  moreover have "dot m x" using Cons.prems [of 0] by simp
  ultimately show ?case by (cases b) (simp_all add: dot_xor_left)
qed

text \<open>The characteristic polynomial of a step, lowest coefficient first: 25 of 65 terms.\<close>

definition step_poly :: "bool list" where
  "step_poly =
    [True, False, False, False, False, False, False, False, False, True, False, False, True,
     True, False, False, True, False, False, False, True, False, False, True, False, False,
     False, True, True, False, True, False, True, True, False, False, False, True, False,
     True, False, False, True, False, True, False, True, True, False, True, True, True, True,
     True, False, False, True, False, False, False, False, False, False, False, True]"

lemma length_step_poly: "length step_poly = 65"
  by (simp add: step_poly_def)

lemma step_poly_odd: "odd (count_list step_poly True)"
  by (simp add: step_poly_def)

lemma step_poly_annihilates: "combine step_poly (2 ^ 31) = 0"
  by (simp add: step_poly_def next_u64_adj_def)

lemma some_top_bit_clear: "\<exists>k<65. \<not> bit ((next_u64 ^^ k) x) 31"
proof (rule ccontr)
  assume "\<not> ?thesis"
  then have "dot (2 ^ 31) ((next_u64 ^^ k) x)" if "k < length step_poly" for k
    using that by (subst dot_exp) (simp add: length_step_poly)
  with dot_combine [of step_poly "2 ^ 31" x] have "dot (combine step_poly (2 ^ 31)) x"
    using step_poly_odd by blast
  then show False
    by (simp only: step_poly_annihilates dot_zero)
qed

section \<open>Bounded draws\<close>

lemma gen_bound_ge:
  assumes "0 < n"
  shows "2 ^ 31 \<le> gen_bound n"
proof -
  let ?m = "(4294967295 :: nat)"
  have n: "0 < unat n" using assms by (simp add: word_less_nat_alt)
  have M: "unat (- 1 :: u32) = ?m"
    by (simp only: unsigned_minus_1_eq_mask) (simp add: mask_eq_exp_minus_1)
  have mod: "unat ((- 1 :: u32) mod n) = ?m mod unat n" by (simp only: unat_mod M)
  have small: "?m mod unat n \<le> 2147483647"
  proof (cases "unat n \<le> 2147483648")
    case True
    with n have "?m mod unat n < unat n" by simp
    with True show ?thesis by linarith
  next
    case False
    have "unat n \<le> ?m" using unat_u32_lt [of n] by simp
    moreover have "?m < 2 * unat n" using False by simp
    ultimately have "?m mod unat n = ?m - unat n"
      by (simp add: mod_if)
    with False show ?thesis by simp
  qed
  have "(- 1 :: u32) mod n \<le> - 1" by (rule word_order.extremum)
  then have "unat (gen_bound n) = ?m - ?m mod unat n"
    by (simp only: gen_bound_def unat_sub M mod)
  then show ?thesis using small by (simp add: word_le_nat_alt)
qed

lemma accept_if_top_clear:
  assumes "0 < n" and "\<not> bit x 31"
  shows "(ucast x :: u32) < gen_bound n"
proof -
  have "\<not> bit (ucast x :: u32) i" if "31 \<le> i" for i
    using that assms(2) by (cases "i = 31") (auto simp: bit_ucast_iff dest: bit_imp_le_length)
  then have "(ucast x :: u32) < 2 ^ 31" by (subst lt_exp_iff_bits) auto
  with gen_bound_ge [OF assms(1)] show ?thesis by (meson order_less_le_trans)
qed

lemma some_draw_accepted: "0 < n \<Longrightarrow> \<exists>k<65. (ucast ((next_u64 ^^ Suc k) s) :: u32) < gen_bound n"
  using some_top_bit_clear [of "next_u64 s"] accept_if_top_clear
  by (metis funpow_Suc_right comp_apply)

definition draws_left :: "u64 \<times> u32 \<Rightarrow> nat" where
  "draws_left = (\<lambda>(s, n). LEAST k. (ucast ((next_u64 ^^ Suc k) s) :: u32) < gen_bound n)"

lemma draws_left_decreases:
  assumes "0 < n" and "\<not> (ucast (next_u64 s) :: u32) < gen_bound n"
  shows "draws_left (next_u64 s, n) < draws_left (s, n)"
proof -
  let ?P = "\<lambda>s k. (ucast ((next_u64 ^^ Suc k) s) :: u32) < gen_bound n"
  obtain k where k: "?P s k" using some_draw_accepted [OF assms(1)] by blast
  define m where "m = (LEAST k. ?P s k)"
  have m: "?P s m" unfolding m_def using k by (rule LeastI)
  have "m \<noteq> 0" using m assms(2) by (intro notI) simp
  then obtain j where j: "m = Suc j" by (cases m) auto
  have "?P (next_u64 s) j" using m by (simp add: j funpow_swap1)
  then have "(LEAST k. ?P (next_u64 s) k) \<le> j" by (rule Least_le)
  then show ?thesis using j m_def by (simp add: draws_left_def)
qed

text \<open>
  The rejection loop of \<^verbatim>\<open>gen_below\<close>: the accepted draw reduced modulo \<open>n\<close>, and the new state.
  It is entered with \<open>0 < n\<close> only; \<open>n = 0\<close> has panicked in the remainder before it.
\<close>

function gen_below_loop :: "u64 \<Rightarrow> u32 \<Rightarrow> u32 \<times> u64" where
  "gen_below_loop s n =
     (let s' = next_u64 s; v = (ucast s' :: u32)
      in if n = 0 \<or> v < gen_bound n then (v mod n, s') else gen_below_loop s' n)"
  by pat_completeness auto
termination
  by (relation "measure draws_left") (auto intro: draws_left_decreases simp: word_neq_0_conv)

declare gen_below_loop.simps [simp del]

text \<open>\<^const>\<open>None\<close>: the panic of the remainder by zero.\<close>

definition gen_below :: "u64 \<Rightarrow> u32 \<Rightarrow> (u32 \<times> u64) option" where
  "gen_below s n = (if n = 0 then None else Some (gen_below_loop s n))"

lemma gen_below_loop_lt: "0 < n \<Longrightarrow> fst (gen_below_loop s n) < n"
proof (induction s n rule: gen_below_loop.induct)
  case (1 s n)
  then show ?case
    by (subst gen_below_loop.simps) (auto simp: Let_def word_mod_less_divisor)
qed

text \<open>How many draws a call makes.\<close>

lemma gen_below_loop_draws:
  assumes "0 < n"
  shows "\<exists>k\<le>65. 0 < k \<and> snd (gen_below_loop s n) = (next_u64 ^^ k) s
    \<and> fst (gen_below_loop s n) = ucast ((next_u64 ^^ k) s) mod n
    \<and> (\<forall>j. 0 < j \<longrightarrow> j < k \<longrightarrow> \<not> (ucast ((next_u64 ^^ j) s) :: u32) < gen_bound n)"
proof -
  let ?P = "\<lambda>k. (ucast ((next_u64 ^^ Suc k) s) :: u32) < gen_bound n"
  obtain k where k: "k < 65" "?P k" using some_draw_accepted [OF assms] by blast
  define m where "m = (LEAST k. ?P k)"
  have m: "?P m" "m \<le> k" and least: "\<And>j. j < m \<Longrightarrow> \<not> ?P j"
    unfolding m_def using k(2) by (auto intro: LeastI Least_le dest: not_less_Least)
  have step: "gen_below_loop s n = gen_below_loop ((next_u64 ^^ j) s) n" if "j \<le> m" for j
    using that
  proof (induction j)
    case 0
    then show ?case by simp
  next
    case (Suc j)
    then have "\<not> ?P j" using least by simp
    moreover have "n \<noteq> 0" using assms by auto
    ultimately have "gen_below_loop ((next_u64 ^^ j) s) n = gen_below_loop ((next_u64 ^^ Suc j) s) n"
      by (subst gen_below_loop.simps) (simp add: Let_def)
    with Suc show ?case by simp
  qed
  have "gen_below_loop ((next_u64 ^^ m) s) n = (ucast ((next_u64 ^^ Suc m) s) mod n, (next_u64 ^^ Suc m) s)"
    using m(1) by (subst gen_below_loop.simps) (simp add: Let_def)
  then have "gen_below_loop s n = (ucast ((next_u64 ^^ Suc m) s) mod n, (next_u64 ^^ Suc m) s)"
    using step [of m] by simp
  moreover have "\<not> (ucast ((next_u64 ^^ j) s) :: u32) < gen_bound n" if "0 < j" "j < Suc m" for j
    using least [of "j - 1"] that by (cases j) auto
  moreover have "Suc m \<le> 65" using m(2) k(1) by simp
  ultimately show ?thesis by (intro exI [of _ "Suc m"]) simp
qed

text \<open>Never the zero state, from which the generator would not move.\<close>

lemma xor_zero_eq: "(x :: 'a::len word) XOR y = 0 \<Longrightarrow> x = y"
proof -
  assume "x XOR y = 0"
  moreover have "x = (x XOR y) XOR y" by (simp add: xor.assoc)
  ultimately show ?thesis by simp
qed

lemma xorshift_push_inj:
  assumes "0 < k" and "(x :: u64) XOR push_bit k x = 0"
  shows "x = 0"
proof (rule no_bits_zero)
  have eq: "x = push_bit k x" using assms(2) by (rule xor_zero_eq)
  show "\<not> bit x i" for i
  proof (induction i rule: less_induct)
    case (less i)
    show ?case
    proof
      assume "bit x i"
      then have "bit (push_bit k x) i" using eq by simp
      then have "k \<le> i" "bit x (i - k)" by (simp_all add: bit_push_bit_iff)
      with less.IH [of "i - k"] assms(1) show False by simp
    qed
  qed
qed

lemma xorshift_drop_inj:
  assumes "0 < k" and "(x :: u64) XOR drop_bit k x = 0"
  shows "x = 0"
proof (rule no_bits_zero)
  have eq: "x = drop_bit k x" using assms(2) by (rule xor_zero_eq)
  have step: "bit x i \<Longrightarrow> bit x (k + i)" for i
    using eq by (metis bit_drop_bit_eq comp_apply)
  have up: "bit x i \<Longrightarrow> bit x (j * k + i)" for i j
    by (induction j) (auto dest: step simp: add.assoc)
  show "\<not> bit x i" for i
  proof
    assume "bit x i"
    then have "bit x (64 * k + i)" by (rule up)
    then have "64 * k + i < 64" using bit_imp_le_length [of x "64 * k + i"] by simp
    with assms(1) show False by simp
  qed
qed

lemma next_u64_nonzero: "s \<noteq> 0 \<Longrightarrow> next_u64 s \<noteq> 0"
proof
  assume s: "s \<noteq> 0" and "next_u64 s = 0"
  let ?x = "s XOR push_bit 13 s"
  let ?y = "?x XOR drop_bit 7 ?x"
  have "?y XOR push_bit 17 ?y = 0" using \<open>next_u64 s = 0\<close> by (simp only: next_u64_def Let_def)
  then have "?y = 0" using xorshift_push_inj [of 17 ?y] by simp
  then have "?x = 0" using xorshift_drop_inj [of 7 ?x] by simp
  then show False using xorshift_push_inj [of 13 s] s by simp
qed

lemma Xorshift64_new_nonzero: "Xorshift64_new seed \<noteq> 0"
  by (simp add: Xorshift64_new_def FALLBACK_SEED_def)

end
