(* ===== verification/Handle_Segment.thy ===== *)
theory Handle_Segment
  imports Handle_Values Prng
begin

text \<open>
  One slot of the handle table (\<^verbatim>\<open>kernel/src/handle/entry.rs\<close>) and the construction of a
  segment of them with its shuffled free list (\<^verbatim>\<open>kernel/src/handle/segment.rs\<close>).
  An object pointer is a \<^typ>\<open>u64\<close> address, null being 0. A segment's free list is threaded through
  the slots' \<^verbatim>\<open>free_next\<close> fields; \<^term>\<open>seg_free\<close> states which list of slots it is.
\<close>

definition SEGMENT_LEN :: nat where "SEGMENT_LEN = 4096"

definition DIRECTORY_LEN :: nat where "DIRECTORY_LEN = 256"

definition FREE_NEXT_TAIL :: u32 where "FREE_NEXT_TAIL = - 1"

record HandleEntry =
  he_seq :: u32
  he_generation :: u32
  he_owner_pid :: u32
  he_rights :: u64
  he_object_type :: u32
  he_in_transit :: u32
  he_object :: u64
  he_next_owned :: u64
  he_free_next :: u32
  he_pad2 :: u32

definition HandleEntry_new :: HandleEntry where
  "HandleEntry_new =
     \<lparr>he_seq = 0, he_generation = 0, he_owner_pid = 0, he_rights = 0,
      he_object_type = KObjectType_as_u32 KInvalid, he_in_transit = 0, he_object = 0,
      he_next_owned = RawHandle_NULL, he_free_next = FREE_NEXT_TAIL, he_pad2 = 0\<rparr>"

record EntrySnapshot =
  es_seq :: u32
  es_generation :: u32
  es_owner_pid :: u32
  es_rights :: u64
  es_object_type :: u32

text \<open>
  \<^verbatim>\<open>read_snapshot\<close> run with no writer beside it: an even counter is read twice alike and the
  fields are returned; on an odd one the loop spins without end (\<^const>\<open>None\<close>). The interleaved
  reading is the subject of the theory of the seqlock.
\<close>

definition read_snapshot :: "HandleEntry \<Rightarrow> EntrySnapshot option" where
  "read_snapshot e =
     (if he_seq e AND 1 \<noteq> 0 then None
      else Some \<lparr>es_seq = he_seq e, es_generation = he_generation e, es_owner_pid = he_owner_pid e,
                 es_rights = he_rights e, es_object_type = he_object_type e\<rparr>)"

text \<open>
  The writer window: \<open>WriteGuard_new\<close> makes the counter odd, dropping the guard stores the counter
  it entered with plus two.
\<close>

definition WriteGuard_new :: "HandleEntry \<Rightarrow> HandleEntry" where
  "WriteGuard_new e = e\<lparr>he_seq := he_seq e + 1\<rparr>"

definition WriteGuard_drop :: "u32 \<Rightarrow> HandleEntry \<Rightarrow> HandleEntry" where
  "WriteGuard_drop seq_at_enter e = e\<lparr>he_seq := seq_at_enter + 2\<rparr>"

definition guarded :: "(HandleEntry \<Rightarrow> HandleEntry) \<Rightarrow> HandleEntry \<Rightarrow> HandleEntry" where
  "guarded f e = WriteGuard_drop (he_seq e) (f (WriteGuard_new e))"

section \<open>Building a segment\<close>

record SegmentMeta =
  free_head :: u32
  free_count :: u32

definition SegmentMeta_empty :: SegmentMeta where
  "SegmentMeta_empty = \<lparr>free_head = FREE_NEXT_TAIL, free_count = 0\<rparr>"

definition swap :: "'a list \<Rightarrow> nat \<Rightarrow> nat \<Rightarrow> 'a list" where
  "swap p i j = (let tmp = p ! i in (p[i := p ! j])[j := tmp])"

text \<open>The Fisher-Yates loop for \<open>i = n, n - 1, \<dots>, 1\<close>.\<close>

primrec shuffle :: "nat \<Rightarrow> u64 \<Rightarrow> u32 list \<Rightarrow> u32 list" where
  "shuffle 0 s perm = perm"
| "shuffle (Suc n) s perm =
     (let (j, s') = gen_below_loop s (of_nat (Suc n) + 1)
      in shuffle n s' (swap perm (Suc n) (unat j)))"

text \<open>Threading a permutation onto the entries' \<^verbatim>\<open>free_next\<close> fields.\<close>

fun thread_free :: "u32 list \<Rightarrow> HandleEntry list \<Rightarrow> HandleEntry list" where
  "thread_free [] es = es"
| "thread_free [tail] es = es[unat tail := (es ! unat tail)\<lparr>he_free_next := FREE_NEXT_TAIL\<rparr>]"
| "thread_free (cur # nxt # perm) es =
     thread_free (nxt # perm) (es[unat cur := (es ! unat cur)\<lparr>he_free_next := nxt\<rparr>])"

text \<open>
  The two booleans say whether the two \<^verbatim>\<open>kmalloc\<close> calls (the entries, then the scratch
  permutation) return memory; \<^const>\<open>None\<close> is \<^verbatim>\<open>AllocError\<close>.
\<close>

definition try_alloc_initialised ::
  "bool \<Rightarrow> bool \<Rightarrow> u64 \<Rightarrow> (HandleEntry list \<times> SegmentMeta) option" where
  "try_alloc_initialised entries_mem perm_mem seed =
     (if \<not> entries_mem then None
      else let entries = replicate SEGMENT_LEN HandleEntry_new in
      if \<not> perm_mem then None
      else let perm = map of_nat [0..<SEGMENT_LEN];
               perm = shuffle (SEGMENT_LEN - 1) (Xorshift64_new seed) perm;
               entries = thread_free perm entries
           in Some (entries, \<lparr>free_head = perm ! 0, free_count = of_nat SEGMENT_LEN\<rparr>))"

section \<open>Free lists\<close>

definition seg_next :: "HandleEntry list \<Rightarrow> u32 \<Rightarrow> u32" where
  "seg_next es i = he_free_next (es ! unat i)"

definition seg_free :: "HandleEntry list \<Rightarrow> SegmentMeta \<Rightarrow> u32 list \<Rightarrow> bool" where
  "seg_free es m fl \<longleftrightarrow>
     chain (seg_next es) FREE_NEXT_TAIL (free_head m) fl
     \<and> free_count m = of_nat (length fl) \<and> (\<forall>i\<in>set fl. unat i < length es)"

lemma unat_FREE_NEXT_TAIL: "unat FREE_NEXT_TAIL = 4294967295"
  by (simp only: FREE_NEXT_TAIL_def unsigned_minus_1_eq_mask) (simp add: mask_eq_exp_minus_1)

lemma seg_free_distinct: "seg_free es m fl \<Longrightarrow> distinct fl"
  by (auto simp: seg_free_def dest: chain_distinct)

lemma seg_free_unique: "seg_free es m fl \<Longrightarrow> seg_free es m fl' \<Longrightarrow> fl = fl'"
  by (auto simp: seg_free_def dest: chain_unique)

lemma seg_free_count:
  assumes "seg_free es m fl" and "length es \<le> SEGMENT_LEN"
  shows "unat (free_count m) = length fl"
proof -
  have "length fl = card (unat ` set fl)"
    using distinct_card [OF seg_free_distinct [OF assms(1)]] by (simp add: card_image inj_on_def)
  also have "\<dots> \<le> card {..<length es}"
    using assms(1) by (intro card_mono) (auto simp: seg_free_def)
  finally have "length fl < 2 ^ 32" using assms(2) by (simp add: SEGMENT_LEN_def)
  then show ?thesis using assms(1) by (simp add: seg_free_def unat_of_nat)
qed

lemma seg_free_cong:
  assumes "seg_free es m fl" and "length es' = length es"
    and "\<And>i. i \<in> set fl \<Longrightarrow> he_free_next (es' ! unat i) = he_free_next (es ! unat i)"
  shows "seg_free es' m fl"
  using assms chain_cong [of fl "seg_next es'" "seg_next es"] by (simp add: seg_free_def seg_next_def)

text \<open>Popping the head, and pushing a slot that is not on the list.\<close>

lemma seg_free_pop:
  assumes "seg_free es m fl" and "0 < free_count m"
  shows "\<exists>fl'. fl = free_head m # fl' \<and> unat (free_head m) < length es
    \<and> seg_free es \<lparr>free_head = seg_next es (free_head m), free_count = free_count m - 1\<rparr> fl'"
  using assms by (cases fl) (auto simp: seg_free_def)

lemma seg_free_push:
  assumes "seg_free es m fl" and "slot \<notin> set fl" and "unat slot < length es" and "length es \<le> SEGMENT_LEN"
  shows "seg_free (es[unat slot := (es ! unat slot)\<lparr>he_free_next := free_head m\<rparr>])
    \<lparr>free_head = slot, free_count = free_count m + 1\<rparr> (slot # fl)"
proof -
  let ?es = "es[unat slot := (es ! unat slot)\<lparr>he_free_next := free_head m\<rparr>]"
  have "seg_next ?es slot = free_head m" using assms(3) by (simp add: seg_next_def)
  moreover have "chain (seg_next ?es) FREE_NEXT_TAIL (free_head m) fl
      = chain (seg_next es) FREE_NEXT_TAIL (free_head m) fl"
    using assms(2) by (intro chain_cong) (metis nth_list_update_neq seg_next_def unat_inject)
  moreover have "slot \<noteq> FREE_NEXT_TAIL"
    using assms(3,4) unat_FREE_NEXT_TAIL by (auto simp: SEGMENT_LEN_def)
  ultimately show ?thesis using assms by (simp add: seg_free_def add.commute)
qed

section \<open>A new segment's list\<close>

lemma swap_mset: "i < length p \<Longrightarrow> j < length p \<Longrightarrow> mset (swap p i j) = mset p"
  by (simp add: swap_def Let_def mset_swap)

lemma length_swap [simp]: "length (swap p i j) = length p"
  by (simp add: swap_def Let_def)

lemma shuffle_mset: "n < length p \<Longrightarrow> n + 1 < 2 ^ 32 \<Longrightarrow> mset (shuffle n s p) = mset p"
proof (induction n arbitrary: s p)
  case 0
  then show ?case by simp
next
  case (Suc n)
  obtain j s' where js: "gen_below_loop s (of_nat (Suc n) + 1) = (j, s')" by fastforce
  have "(of_nat (Suc n) + 1 :: u32) = of_nat (n + 2)" by simp
  then have u: "unat (of_nat (Suc n) + 1 :: u32) = n + 2"
    using Suc.prems(2) by (simp only: unat_of_nat) simp
  then have "(0 :: u32) < of_nat (Suc n) + 1" by (simp add: word_less_nat_alt)
  then have "j < of_nat (Suc n) + 1" using gen_below_loop_lt [of "of_nat (Suc n) + 1" s] js by simp
  then have "unat j < length p" using u Suc.prems(1) by (simp add: word_less_nat_alt)
  then have "mset (shuffle n s' (swap p (Suc n) (unat j))) = mset p"
    using Suc.IH [of "swap p (Suc n) (unat j)" s'] Suc.prems by (simp add: swap_mset)
  then show ?case by (simp only: shuffle.simps js Let_def prod.case)
qed

lemma length_thread_free [simp]: "length (thread_free perm es) = length es"
  by (induction perm es rule: thread_free.induct) auto

lemma thread_free_other:
  "unat i \<notin> unat ` set perm \<Longrightarrow> thread_free perm es ! unat i = es ! unat i"
  by (induction perm es rule: thread_free.induct) (auto simp: nth_list_update)

lemma thread_free_fields:
  "unat ` set perm \<subseteq> {..<length es} \<Longrightarrow> k < length es \<Longrightarrow>
    \<exists>nx. thread_free perm es ! k = (es ! k)\<lparr>he_free_next := nx\<rparr>"
proof (induction perm es rule: thread_free.induct)
  case (1 es)
  then show ?case by (intro exI [of _ "he_free_next (es ! k)"]) simp
next
  case (2 tail es)
  then show ?case
    by (cases "k = unat tail") (auto intro: exI [of _ "he_free_next (es ! k)"])
next
  case (3 cur nxt perm es)
  from "3.IH" "3.prems" obtain nx where
    "thread_free (nxt # perm) (es[unat cur := (es ! unat cur)\<lparr>he_free_next := nxt\<rparr>]) ! k
      = (es[unat cur := (es ! unat cur)\<lparr>he_free_next := nxt\<rparr>] ! k)\<lparr>he_free_next := nx\<rparr>" by auto
  then show ?case using "3.prems"
    by (cases "k = unat cur") auto
qed

lemma thread_free_chain:
  assumes "distinct perm" "perm \<noteq> []" "unat ` set perm \<subseteq> {..<length es}" "FREE_NEXT_TAIL \<notin> set perm"
  shows "chain (seg_next (thread_free perm es)) FREE_NEXT_TAIL (hd perm) perm"
  using assms
proof (induction perm es rule: thread_free.induct)
  case (1 es)
  then show ?case by simp
next
  case (2 tail es)
  then show ?case by (auto simp: seg_next_def)
next
  case (3 cur nxt perm es)
  let ?es = "es[unat cur := (es ! unat cur)\<lparr>he_free_next := nxt\<rparr>]"
  have "chain (seg_next (thread_free (nxt # perm) ?es)) FREE_NEXT_TAIL nxt (nxt # perm)"
    using "3.IH" "3.prems" by simp
  moreover have "thread_free (nxt # perm) ?es ! unat cur = ?es ! unat cur"
    using "3.prems"(1) by (intro thread_free_other) auto
  then have "seg_next (thread_free (nxt # perm) ?es) cur = nxt"
    using "3.prems"(3) by (simp add: seg_next_def)
  ultimately show ?case using "3.prems"(4) by auto
qed

text \<open>
  A new segment has every slot free, each exactly once, and every entry blank.
\<close>

lemma try_alloc_initialised_ok:
  assumes "try_alloc_initialised True True seed = Some (es, m)"
  shows "length es = SEGMENT_LEN"
    and "\<exists>fl. seg_free es m fl \<and> unat ` set fl = {..<SEGMENT_LEN}"
    and "\<And>k. k < SEGMENT_LEN \<Longrightarrow> \<exists>nx. es ! k = HandleEntry_new\<lparr>he_free_next := nx\<rparr>"
proof -
  define p0 :: "u32 list" where "p0 = map of_nat [0..<SEGMENT_LEN]"
  define perm where "perm = shuffle (SEGMENT_LEN - 1) (Xorshift64_new seed) p0"
  from assms have es: "es = thread_free perm (replicate SEGMENT_LEN HandleEntry_new)"
    and m: "m = \<lparr>free_head = perm ! 0, free_count = of_nat SEGMENT_LEN\<rparr>"
    by (auto simp: try_alloc_initialised_def perm_def p0_def Let_def)
  have mset: "mset perm = mset p0"
    unfolding perm_def by (rule shuffle_mset) (simp_all add: p0_def SEGMENT_LEN_def)
  have unat_of: "unat (of_nat i :: u32) = i" if "i < SEGMENT_LEN" for i
    using that by (simp add: unat_of_nat SEGMENT_LEN_def)
  have "inj_on (of_nat :: nat \<Rightarrow> u32) {0..<SEGMENT_LEN}"
    by (rule inj_onI) (metis unat_of atLeastLessThan_iff)
  then have "distinct p0" by (simp add: p0_def distinct_map)
  then have dist: "distinct perm" using mset by (metis mset_eq_imp_distinct_iff)
  have len: "length perm = SEGMENT_LEN" using mset_eq_length [OF mset] by (simp add: p0_def)
  have set: "unat ` set perm = {..<SEGMENT_LEN}"
    using mset_eq_setD [OF mset] unat_of by (force simp: p0_def image_iff)
  have ne: "perm \<noteq> []" using len by (auto simp: SEGMENT_LEN_def)
  have tail: "FREE_NEXT_TAIL \<notin> set perm"
    using set unat_FREE_NEXT_TAIL by (force simp: SEGMENT_LEN_def)
  show "length es = SEGMENT_LEN" by (simp add: es)
  have "chain (seg_next es) FREE_NEXT_TAIL (hd perm) perm"
    unfolding es using dist ne set tail by (intro thread_free_chain) simp_all
  moreover have "hd perm = perm ! 0" using ne by (simp add: hd_conv_nth)
  moreover have "\<forall>i\<in>set perm. unat i < length es"
    using set by (auto simp: es)
  ultimately have "seg_free es m perm" using len by (simp add: seg_free_def m)
  with set show "\<exists>fl. seg_free es m fl \<and> unat ` set fl = {..<SEGMENT_LEN}" by blast
  show "\<exists>nx. es ! k = HandleEntry_new\<lparr>he_free_next := nx\<rparr>" if "k < SEGMENT_LEN" for k
    using thread_free_fields [of perm "replicate SEGMENT_LEN HandleEntry_new" k] set that
    by (simp add: es)
qed

lemma try_alloc_initialised_fails:
  "try_alloc_initialised a b seed = None \<longleftrightarrow> \<not> (a \<and> b)"
  by (simp add: try_alloc_initialised_def Let_def)

section \<open>Entries under the write guard\<close>

lemma guarded_sel:
  "he_seq (guarded f e) = he_seq e + 2"
  by (simp add: guarded_def WriteGuard_drop_def)

lemma seq_even_step: "(s :: u32) AND 1 = 0 \<Longrightarrow> (s + 2) AND 1 = 0"
  by simp

end
