(* ===== verification/Object_Header.thy ===== *)
theory Object_Header
  imports Handle_Values
begin

text \<open>
  The reference-counting base of every kernel object (\<^verbatim>\<open>kernel/src/object/header.rs\<close>).
  The kernel's objects are a map from addresses to headers: an address is in the map while the
  object's memory is its own. \<^const>\<open>None\<close> as the outcome of an operation is a panic.
  What a type's own \<^verbatim>\<open>Drop\<close> does beyond giving its memory back is not modelled here.
\<close>

record KObjectHeader =
  kh_refcount :: u64
  kh_object_type :: KObjectType

type_synonym kheap = "u64 \<rightharpoonup> KObjectHeader"

definition MAX_REFCOUNT :: u64 where
  "MAX_REFCOUNT = (- 1) div 2"

definition KObjectHeader_new :: "KObjectType \<Rightarrow> KObjectHeader" where
  "KObjectHeader_new ty = \<lparr>kh_refcount = 1, kh_object_type = ty\<rparr>"

definition header_try_acquire :: "KObjectHeader \<Rightarrow> (bool \<times> KObjectHeader) option" where
  "header_try_acquire hdr =
     (let cur = kh_refcount hdr in
      if cur = 0 then Some (False, hdr)
      else if MAX_REFCOUNT < cur then None
      else Some (True, hdr\<lparr>kh_refcount := cur + 1\<rparr>))"

definition header_bump :: "KObjectHeader \<Rightarrow> KObjectHeader option" where
  "header_bump hdr =
     (let old = kh_refcount hdr in
      if MAX_REFCOUNT < old then None else Some (hdr\<lparr>kh_refcount := old + 1\<rparr>))"

definition header_release :: "KObjectHeader \<Rightarrow> bool \<times> KObjectHeader" where
  "header_release hdr = (kh_refcount hdr = 1, hdr\<lparr>kh_refcount := kh_refcount hdr - 1\<rparr>)"

text \<open>
  \<^verbatim>\<open>dispatch_destroy\<close>: the object's memory goes back, except for the two tags no kernel object
  has, where a release build does nothing.
\<close>

definition dispatch_destroy :: "kheap \<Rightarrow> u64 \<Rightarrow> kheap" where
  "dispatch_destroy hp p =
     (case hp p of
        None \<Rightarrow> hp
      | Some hdr \<Rightarrow> if kh_object_type hdr = KInvalid \<or> kh_object_type hdr = KIoRing then hp
                    else hp(p := None))"

text \<open>\<^verbatim>\<open>ObjectRef::new\<close> on a fresh box at \<open>p\<close>: the creator's reference.\<close>

definition ObjectRef_new :: "kheap \<Rightarrow> u64 \<Rightarrow> KObjectType \<Rightarrow> kheap" where
  "ObjectRef_new hp p ty = hp(p \<mapsto> KObjectHeader_new ty)"

text \<open>\<^verbatim>\<open>try_acquire_refcount\<close> and \<^verbatim>\<open>ObjectRef::try_acquire\<close>: the address must be live.\<close>

definition try_acquire_refcount :: "kheap \<Rightarrow> u64 \<Rightarrow> (bool \<times> kheap) option" where
  "try_acquire_refcount hp p =
     (case hp p of
        None \<Rightarrow> None
      | Some hdr \<Rightarrow> (case header_try_acquire hdr of
          None \<Rightarrow> None
        | Some (ok, hdr') \<Rightarrow> Some (ok, hp(p \<mapsto> hdr'))))"

definition ObjectRef_clone :: "kheap \<Rightarrow> u64 \<Rightarrow> kheap option" where
  "ObjectRef_clone hp p =
     (case hp p of
        None \<Rightarrow> None
      | Some hdr \<Rightarrow> map_option (\<lambda>hdr'. hp(p \<mapsto> hdr')) (header_bump hdr))"

text \<open>Dropping a reference; also \<^verbatim>\<open>release_refcount\<close>, which adopts one and drops it.\<close>

definition ObjectRef_drop :: "kheap \<Rightarrow> u64 \<Rightarrow> kheap" where
  "ObjectRef_drop hp p =
     (case hp p of
        None \<Rightarrow> hp
      | Some hdr \<Rightarrow> (let (last, hdr') = header_release hdr; hp' = hp(p \<mapsto> hdr')
                     in if last then dispatch_destroy hp' p else hp'))"

definition ObjectRef_object_type :: "kheap \<Rightarrow> u64 \<Rightarrow> KObjectType option" where
  "ObjectRef_object_type hp p = map_option kh_object_type (hp p)"

text \<open>\<^verbatim>\<open>downcast\<close>: the same reference as a typed one, or itself back.\<close>

definition ObjectRef_downcast :: "kheap \<Rightarrow> u64 \<Rightarrow> KObjectType \<Rightarrow> u64 + u64" where
  "ObjectRef_downcast hp p ty = (if ObjectRef_object_type hp p = Some ty then Inr p else Inl p)"

section \<open>Counting references\<close>

text \<open>
  \<open>counts hp rs\<close>: the count of every live object is the number of references to it that \<open>rs\<close>
  accounts for, at least one, and \<open>rs\<close> holds no reference to anything else.
\<close>

fun obj_counted :: "KObjectHeader option \<Rightarrow> nat \<Rightarrow> bool" where
  "obj_counted None n \<longleftrightarrow> n = 0"
| "obj_counted (Some hdr) n \<longleftrightarrow> unat (kh_refcount hdr) = n \<and> 0 < n
     \<and> kh_object_type hdr \<noteq> KInvalid \<and> kh_object_type hdr \<noteq> KIoRing"

definition counts :: "kheap \<Rightarrow> (u64 \<Rightarrow> nat) \<Rightarrow> bool" where
  "counts hp rs \<longleftrightarrow> (\<forall>p. obj_counted (hp p) (rs p))"

lemma countsD:
  assumes "counts hp rs" and "hp p = Some hdr"
  shows "unat (kh_refcount hdr) = rs p" "0 < rs p"
    "kh_object_type hdr \<noteq> KInvalid" "kh_object_type hdr \<noteq> KIoRing"
  using assms(1) [unfolded counts_def, rule_format, of p] assms(2) by auto

lemma counts_live: "counts hp rs \<Longrightarrow> 0 < rs p \<Longrightarrow> \<exists>hdr. hp p = Some hdr"
  unfolding counts_def by (drule spec [of _ p]) (cases "hp p", auto)

lemma counts_dead: "counts hp rs \<Longrightarrow> rs p = 0 \<longleftrightarrow> hp p = None"
  unfolding counts_def by (drule spec [of _ p]) (cases "hp p", auto)

lemma counts_upd:
  assumes "counts hp rs" and "unat (kh_refcount hdr') = n" and "0 < n"
    and "kh_object_type hdr' \<noteq> KInvalid" "kh_object_type hdr' \<noteq> KIoRing"
  shows "counts (hp(p \<mapsto> hdr')) (rs(p := n))"
  using assms by (simp add: counts_def)

lemma counts_free: "counts hp rs \<Longrightarrow> counts (hp(p := None)) (rs(p := 0))"
  by (simp add: counts_def)

lemma MAX_REFCOUNT_val: "unat MAX_REFCOUNT = 9223372036854775807"
proof -
  have "unat (- 1 :: u64) = 18446744073709551615"
    by (simp only: unsigned_minus_1_eq_mask) (simp add: mask_eq_exp_minus_1)
  then show ?thesis by (simp only: MAX_REFCOUNT_def unat_div) simp
qed

text \<open>A reference to a live object is granted, and counted, unless the count would overflow.\<close>

lemma try_acquire_counts:
  assumes "counts hp rs" and "0 < rs p" and "rs p \<le> unat MAX_REFCOUNT"
  shows "\<exists>hp'. try_acquire_refcount hp p = Some (True, hp') \<and> counts hp' (rs(p := rs p + 1))
    \<and> (\<forall>q. q \<noteq> p \<longrightarrow> hp' q = hp q)
    \<and> map_option kh_object_type (hp' p) = map_option kh_object_type (hp p)"
proof -
  from counts_live [OF assms(1,2)] obtain hdr where hdr: "hp p = Some hdr" ..
  note c = countsD [OF assms(1) hdr]
  have nz: "kh_refcount hdr \<noteq> 0" using c(1,2) by auto
  have le: "\<not> MAX_REFCOUNT < kh_refcount hdr"
    using c(1) assms(3) by (simp add: word_less_nat_alt)
  have "unat (kh_refcount hdr) + 1 < 2 ^ 64" using c(1) assms(3) by (simp add: MAX_REFCOUNT_val)
  then have inc: "unat (kh_refcount hdr + 1) = rs p + 1"
    using c(1) by (simp add: unat_word_ariths)
  have "header_try_acquire hdr = Some (True, hdr\<lparr>kh_refcount := kh_refcount hdr + 1\<rparr>)"
    using nz le by (simp add: header_try_acquire_def Let_def)
  moreover have "counts (hp(p \<mapsto> hdr\<lparr>kh_refcount := kh_refcount hdr + 1\<rparr>)) (rs(p := rs p + 1))"
    using inc c(3,4) by (intro counts_upd [OF assms(1)]) simp_all
  ultimately show ?thesis by (simp add: try_acquire_refcount_def hdr)
qed

text \<open>Dropping one of several references keeps the object; dropping the last frees it.\<close>

lemma drop_counts:
  assumes "counts hp rs" and "0 < rs p"
  shows "counts (ObjectRef_drop hp p) (rs(p := rs p - 1))"
    and "ObjectRef_drop hp p p = None \<longleftrightarrow> rs p = 1"
    and "q \<noteq> p \<Longrightarrow> ObjectRef_drop hp p q = hp q"
    and "rs p \<noteq> 1 \<Longrightarrow> map_option kh_object_type (ObjectRef_drop hp p p) = map_option kh_object_type (hp p)"
proof -
  from counts_live [OF assms] obtain hdr where hdr: "hp p = Some hdr" ..
  note c = countsD [OF assms(1) hdr]
  let ?hdr = "hdr\<lparr>kh_refcount := kh_refcount hdr - 1\<rparr>"
  have one: "kh_refcount hdr = 1 \<longleftrightarrow> rs p = 1" using c(1) by (auto simp: word_unat_eq_iff)
  have dec: "unat (kh_refcount hdr - 1) = rs p - 1"
    using c(1,2) by (metis unat_eq_zero unat_minus_one neq0_conv)
  have drop: "ObjectRef_drop hp p = (if rs p = 1 then hp(p := None) else hp(p \<mapsto> ?hdr))"
    using c(3,4) one by (auto simp: ObjectRef_drop_def hdr header_release_def dispatch_destroy_def Let_def)
  show "counts (ObjectRef_drop hp p) (rs(p := rs p - 1))"
  proof (cases "rs p = 1")
    case True
    then show ?thesis using counts_free [OF assms(1), of p] by (simp add: drop)
  next
    case False
    with c(2) have "0 < rs p - 1" by simp
    then have "counts (hp(p \<mapsto> ?hdr)) (rs(p := rs p - 1))"
      using dec c(3,4) by (intro counts_upd [OF assms(1)]) simp_all
    with False show ?thesis by (simp add: drop)
  qed
  show "ObjectRef_drop hp p p = None \<longleftrightarrow> rs p = 1" by (simp add: drop)
  show "q \<noteq> p \<Longrightarrow> ObjectRef_drop hp p q = hp q" by (simp add: drop)
  show "rs p \<noteq> 1 \<Longrightarrow> map_option kh_object_type (ObjectRef_drop hp p p) = map_option kh_object_type (hp p)"
    by (simp add: drop hdr)
qed

lemma new_counts:
  assumes "counts hp rs" and "hp p = None" and "ty \<noteq> KInvalid" and "ty \<noteq> KIoRing"
  shows "counts (ObjectRef_new hp p ty) (rs(p := 1))"
  using assms counts_upd [OF assms(1), of "KObjectHeader_new ty" 1 p]
  by (simp add: ObjectRef_new_def KObjectHeader_new_def)

end
