(* ===== verification/Handle_Grace.thy ===== *)
theory Handle_Grace
  imports Nitrox_Prelude
begin

text \<open>
  The grace tracker that delays the reuse of a closed handle's slot until no lookup can still hold
  its object pointer (\<^verbatim>\<open>kernel/src/handle/grace.rs\<close>). \<^const>\<open>None\<close> as the outcome of
  \<^verbatim>\<open>synchronize\<close> is waiting without end for a reader that is in its section.
\<close>

definition MAX_CTX :: nat where "MAX_CTX = 256"

definition QUIESCED_BIT :: u64 where "QUIESCED_BIT = push_bit 63 1"

definition INITIAL_OBSERVED :: u64 where "INITIAL_OBSERVED = QUIESCED_BIT"

record GraceTracker =
  g_epoch :: u64
  g_ctx :: "u64 list"

definition GraceTracker_new :: GraceTracker where
  "GraceTracker_new = \<lparr>g_epoch = 0, g_ctx = replicate MAX_CTX INITIAL_OBSERVED\<rparr>"

definition enter_read :: "GraceTracker \<Rightarrow> u32 \<Rightarrow> GraceTracker" where
  "enter_read g ctx = g\<lparr>g_ctx := (g_ctx g)[unat ctx := g_epoch g]\<rparr>"

definition mark_quiescent :: "GraceTracker \<Rightarrow> u32 \<Rightarrow> GraceTracker" where
  "mark_quiescent g ctx = (let v = g_ctx g ! unat ctx in g\<lparr>g_ctx := (g_ctx g)[unat ctx := v OR QUIESCED_BIT]\<rparr>)"

text \<open>Dropping the guard of \<^verbatim>\<open>enter_read\<close>.\<close>

definition ReadGuard_drop :: "GraceTracker \<Rightarrow> u32 \<Rightarrow> GraceTracker" where
  "ReadGuard_drop g ctx = (let v = g_ctx g ! unat ctx in g\<lparr>g_ctx := (g_ctx g)[unat ctx := v OR QUIESCED_BIT]\<rparr>)"

definition advance_epoch :: "GraceTracker \<Rightarrow> u64 \<times> GraceTracker" where
  "advance_epoch g = (g_epoch g, g\<lparr>g_epoch := g_epoch g + 1\<rparr>)"

text \<open>One context's part of the test, then the test over all of them.\<close>

definition ctx_past :: "u64 \<Rightarrow> u64 \<Rightarrow> bool" where
  "ctx_past deferred_epoch v \<longleftrightarrow>
     (if v AND QUIESCED_BIT \<noteq> 0 then True else deferred_epoch < v AND NOT QUIESCED_BIT)"

definition is_grace_period_past :: "GraceTracker \<Rightarrow> u64 \<Rightarrow> bool" where
  "is_grace_period_past g deferred_epoch \<longleftrightarrow> list_all (ctx_past deferred_epoch) (g_ctx g)"

definition unpublished :: "GraceTracker \<Rightarrow> u64 \<times> GraceTracker" where
  "unpublished g = advance_epoch g"

definition synchronize :: "GraceTracker \<Rightarrow> GraceTracker option" where
  "synchronize g =
     (let (epoch, g') = unpublished g
      in if is_grace_period_past g' epoch then Some g' else None)"

section \<open>Quiescence\<close>

definition quiet :: "GraceTracker \<Rightarrow> bool" where
  "quiet g \<longleftrightarrow> length (g_ctx g) = MAX_CTX \<and> list_all (\<lambda>v. bit v 63) (g_ctx g)"

lemma bit_QUIESCED [simp]: "bit QUIESCED_BIT i \<longleftrightarrow> i = 63"
proof -
  have "QUIESCED_BIT = 2 ^ 63" by (simp add: QUIESCED_BIT_def)
  moreover have "bit (2 ^ 63 :: u64) i \<longleftrightarrow> i = 63" by (subst bit_exp_iff) auto
  ultimately show ?thesis by (simp only:)
qed

lemma and_QUIESCED_iff: "v AND QUIESCED_BIT \<noteq> 0 \<longleftrightarrow> bit v 63"
proof
  assume "v AND QUIESCED_BIT \<noteq> 0"
  then obtain i where "bit (v AND QUIESCED_BIT) i" using no_bits_zero by blast
  then show "bit v 63" by (auto simp: bit_and_iff)
next
  assume "bit v 63"
  then have "bit (v AND QUIESCED_BIT) 63" by (simp add: bit_and_iff)
  then show "v AND QUIESCED_BIT \<noteq> 0" by auto
qed

lemma not_QUIESCED_id: "\<not> bit v 63 \<Longrightarrow> v AND NOT QUIESCED_BIT = v"
  by (rule bit_word_eqI) (auto simp: bit_and_iff bit_not_iff)

lemma ctx_past_iff: "ctx_past e v \<longleftrightarrow> bit v 63 \<or> e < v"
  by (simp add: ctx_past_def and_QUIESCED_iff not_QUIESCED_id)

lemma quiet_past [simp]: "quiet g \<Longrightarrow> is_grace_period_past g e"
  by (auto simp: quiet_def is_grace_period_past_def ctx_past_iff list_all_iff)

lemma quiet_new: "quiet GraceTracker_new"
  by (simp add: quiet_def GraceTracker_new_def INITIAL_OBSERVED_def list_all_iff)

lemma quiet_advance [simp]: "quiet (snd (advance_epoch g)) = quiet g"
  by (simp add: quiet_def advance_epoch_def)

lemma quiet_synchronize: "quiet g \<Longrightarrow> synchronize g = Some (g\<lparr>g_epoch := g_epoch g + 1\<rparr>)"
  by (simp add: synchronize_def unpublished_def advance_epoch_def quiet_def is_grace_period_past_def
      ctx_past_iff list_all_iff)

lemma quiet_synchronize_quiet: "quiet g \<Longrightarrow> synchronize g = Some g' \<Longrightarrow> quiet g'"
  by (auto simp: quiet_synchronize quiet_def)

text \<open>A read section entered and left leaves its context quiescent.\<close>

lemma quiet_read_section:
  assumes "quiet g" "unat ctx < MAX_CTX"
  shows "quiet (ReadGuard_drop (enter_read g ctx) ctx)"
  using assms
  by (auto simp: quiet_def ReadGuard_drop_def enter_read_def Let_def list_all_length nth_list_update bit_or_iff)

lemma read_section_epoch [simp]: "g_epoch (ReadGuard_drop (enter_read g ctx) ctx) = g_epoch g"
  by (simp add: ReadGuard_drop_def enter_read_def Let_def)

text \<open>A context inside its section at an epoch no later than the deferral's holds it back.\<close>

lemma reader_blocks:
  assumes "unat ctx < length (g_ctx g)" and "\<not> bit (g_ctx g ! unat ctx) 63" and "g_ctx g ! unat ctx \<le> e"
  shows "\<not> is_grace_period_past g e"
  using assms by (auto simp: is_grace_period_past_def list_all_length ctx_past_iff not_less [symmetric])

end
