(* ===== verification/Deferred_Queue.thy ===== *)
theory Deferred_Queue
  imports Nitrox_Prelude
begin

text \<open>
  The fixed-capacity ring of deferred closes (\<^verbatim>\<open>DeferredQueue\<close> of
  \<^verbatim>\<open>kernel/src/handle/table.rs\<close>), and that it is a bounded first-in first-out queue.
\<close>

definition DEFER_RING_CAPACITY :: nat where "DEFER_RING_CAPACITY = 256"

record DeferredClose =
  dc_handle :: u64
  dc_epoch :: u64

record DeferredQueue =
  dq_buf :: "DeferredClose option list"
  dq_head :: nat
  dq_len :: nat

definition dq_try_new :: "bool \<Rightarrow> nat \<Rightarrow> DeferredQueue option" where
  "dq_try_new mem capacity =
     (if mem then Some \<lparr>dq_buf = replicate capacity None, dq_head = 0, dq_len = 0\<rparr> else None)"

definition dq_capacity :: "DeferredQueue \<Rightarrow> nat" where
  "dq_capacity q = length (dq_buf q)"

definition dq_is_full :: "DeferredQueue \<Rightarrow> bool" where
  "dq_is_full q \<longleftrightarrow> dq_len q = dq_capacity q"

definition dq_push :: "DeferredQueue \<Rightarrow> DeferredClose \<Rightarrow> DeferredQueue option" where
  "dq_push q d =
     (if dq_is_full q then None
      else let cap = dq_capacity q; pos = (dq_head q + dq_len q) mod cap
           in Some (q\<lparr>dq_buf := (dq_buf q)[pos := Some d], dq_len := dq_len q + 1\<rparr>))"

definition dq_front :: "DeferredQueue \<Rightarrow> DeferredClose option" where
  "dq_front q = (if dq_len q = 0 then None else dq_buf q ! dq_head q)"

definition dq_pop_front :: "DeferredQueue \<Rightarrow> DeferredClose option \<times> DeferredQueue" where
  "dq_pop_front q =
     (if dq_len q = 0 then (None, q)
      else (dq_buf q ! dq_head q,
            q\<lparr>dq_buf := (dq_buf q)[dq_head q := None],
              dq_head := (dq_head q + 1) mod dq_capacity q, dq_len := dq_len q - 1\<rparr>))"

section \<open>The queue it implements\<close>

definition dq_contents :: "DeferredQueue \<Rightarrow> DeferredClose list" where
  "dq_contents q = map the (ring_list (dq_buf q) (dq_head q) (dq_len q))"

definition dq_inv :: "DeferredQueue \<Rightarrow> bool" where
  "dq_inv q \<longleftrightarrow> dq_head q < dq_capacity q \<and> dq_len q \<le> dq_capacity q
     \<and> None \<notin> set (ring_list (dq_buf q) (dq_head q) (dq_len q))"

definition dq_pop :: "DeferredQueue \<Rightarrow> (DeferredClose \<times> DeferredQueue) option" where
  "dq_pop q = (case dq_pop_front q of (None, _) \<Rightarrow> None | (Some d, q') \<Rightarrow> Some (d, q'))"

lemma length_dq_contents [simp]: "length (dq_contents q) = dq_len q"
  by (simp add: dq_contents_def)

lemma dq_push_ok:
  assumes "dq_inv q" and "dq_push q d = Some q'"
  shows "dq_inv q'" "dq_contents q' = dq_contents q @ [d]" "dq_capacity q' = dq_capacity q"
proof -
  from assms have lt: "dq_len q < length (dq_buf q)"
    and q': "q' = q\<lparr>dq_buf := (dq_buf q)[(dq_head q + dq_len q) mod length (dq_buf q) := Some d],
      dq_len := Suc (dq_len q)\<rparr>"
    by (auto simp: dq_inv_def dq_push_def dq_is_full_def dq_capacity_def Let_def split: if_splits)
  have ring: "ring_list (dq_buf q') (dq_head q') (dq_len q')
      = ring_list (dq_buf q) (dq_head q) (dq_len q) @ [Some d]"
    using ring_list_push [OF lt, of "dq_head q" "Some d"] by (simp add: q')
  then show "dq_contents q' = dq_contents q @ [d]" by (simp add: dq_contents_def)
  show "dq_capacity q' = dq_capacity q" by (simp add: q' dq_capacity_def)
  show "dq_inv q'" using assms(1) lt unfolding dq_inv_def ring by (simp add: q' dq_capacity_def)
qed

lemma dq_front_pop:
  assumes "dq_inv q"
  shows "dq_len q = 0 \<Longrightarrow> dq_front q = None" "dq_len q = 0 \<Longrightarrow> dq_pop_front q = (None, q)"
    and "dq_len q \<noteq> 0 \<Longrightarrow> \<exists>d q'. dq_front q = Some d \<and> dq_pop_front q = (Some d, q') \<and> dq_inv q'
      \<and> dq_contents q = d # dq_contents q' \<and> dq_capacity q' = dq_capacity q"
proof -
  show "dq_len q = 0 \<Longrightarrow> dq_front q = None" "dq_len q = 0 \<Longrightarrow> dq_pop_front q = (None, q)"
    by (simp_all add: dq_front_def dq_pop_front_def)
  assume "dq_len q \<noteq> 0"
  then obtain n where n: "dq_len q = Suc n" by (cases "dq_len q") auto
  let ?b = "dq_buf q" and ?h = "dq_head q"
  have c: "?h < length ?b" "Suc n \<le> length ?b" "0 < length ?b"
    using assms n by (auto simp: dq_inv_def dq_capacity_def)
  have hd: "ring_list ?b ?h (Suc n) = ?b ! ?h # ring_list ?b ((?h + 1) mod length ?b) n"
    using ring_list_pop [OF c(3), of ?h n] c(1) by simp
  then obtain d where d: "?b ! ?h = Some d" using assms n by (cases "?b ! ?h") (auto simp: dq_inv_def)
  define q' where "q' = snd (dq_pop_front q)"
  have q': "dq_buf q' = ?b[?h := None]" "dq_head q' = (?h + 1) mod length ?b" "dq_len q' = n"
    by (simp_all add: q'_def dq_pop_front_def n dq_capacity_def)
  have tl: "ring_list (dq_buf q') (dq_head q') (dq_len q') = tl (ring_list ?b ?h (dq_len q))"
    unfolding q' n by (rule ring_list_pop_take [OF c(3,1,2)])
  have "None \<notin> set (ring_list (dq_buf q') (dq_head q') (dq_len q'))"
    using assms unfolding tl n hd by (simp add: dq_inv_def n hd)
  then have "dq_inv q'" using c by (simp add: dq_inv_def dq_capacity_def q')
  moreover have "dq_contents q = d # dq_contents q'"
    unfolding dq_contents_def tl n hd by (simp add: d)
  moreover have "dq_front q = Some d" "dq_pop_front q = (Some d, q')" "dq_capacity q' = dq_capacity q"
    using d n by (simp_all add: dq_front_def q'_def dq_pop_front_def dq_capacity_def)
  ultimately show "\<exists>d q'. dq_front q = Some d \<and> dq_pop_front q = (Some d, q') \<and> dq_inv q'
      \<and> dq_contents q = d # dq_contents q' \<and> dq_capacity q' = dq_capacity q" by blast
qed

lemma dq_try_new_inv:
  assumes "dq_try_new mem cap = Some q" "0 < cap"
  shows "dq_inv q" "dq_contents q = []" "dq_capacity q = cap"
  using assms by (auto simp: dq_try_new_def dq_inv_def dq_contents_def dq_capacity_def split: if_splits)

interpretation dq: bounded_queue dq_inv dq_contents dq_capacity dq_push dq_pop
proof
  fix q x
  assume q: "dq_inv q"
  then show "length (dq_contents q) \<le> dq_capacity q" by (simp add: dq_inv_def)
  show "dq_push q x = None \<longleftrightarrow> length (dq_contents q) = dq_capacity q"
    by (simp add: dq_push_def dq_is_full_def Let_def)
  show "dq_pop q = None \<longleftrightarrow> dq_contents q = []"
    using dq_front_pop [OF q] by (cases "dq_len q = 0") (auto simp: dq_pop_def dq_contents_def)
next
  fix q x q'
  assume "dq_inv q" "dq_push q x = Some q'"
  then show "dq_inv q' \<and> dq_contents q' = dq_contents q @ [x] \<and> dq_capacity q' = dq_capacity q"
    using dq_push_ok by blast
next
  fix q x q'
  assume q: "dq_inv q" and p: "dq_pop q = Some (x, q')"
  then show "dq_inv q' \<and> dq_contents q = x # dq_contents q' \<and> dq_capacity q' = dq_capacity q"
    using dq_front_pop [OF q] by (cases "dq_len q = 0") (auto simp: dq_pop_def)
qed

end
