(* ===== verification/Handle_Table.thy ===== *)
theory Handle_Table
  imports Handle_Segment Object_Header Handle_Grace Deferred_Queue
begin

text \<open>
  The segmented handle table (\<^verbatim>\<open>kernel/src/handle/table.rs\<close>), the exit sweep of \<^verbatim>\<open>handle/global.rs\<close> and the install set of \<^verbatim>\<open>handle/installed.rs\<close>.
  Each operation is modelled as it runs when nothing else runs beside it. An outcome
  \<^const>\<open>None\<close> is not returning: a panic, or waiting for a reader that is in its section. Where
  the code allocates, whether the kernel heap serves it is an argument.
\<close>

datatype HandleError =
  NullHandle | InvalidHandle | NotOwner | NoAccess | OutOfHandles | OutOfMemory | BadRights | WrongType

section \<open>The table\<close>

record HandleTable =
  ht_directory :: "HandleEntry list option list"
  ht_next_segment_hint :: u32
  ht_grace :: GraceTracker
  ht_segment_meta :: "SegmentMeta list"
  ht_segments_count :: u32
  ht_defer_ring :: DeferredQueue
  ht_prng :: u64

text \<open>The table and the objects its entries point at.\<close>

record Kernel =
  k_table :: HandleTable
  k_objs :: kheap

record LookupOk =
  lo_object :: u64
  lo_rights :: u64

record HandleStat =
  hs_object_type :: KObjectType
  hs_rights :: u64
  hs_owner_pid :: u32
  hs_generation :: u32

definition upd_entry :: "HandleTable \<Rightarrow> nat \<Rightarrow> nat \<Rightarrow> (HandleEntry \<Rightarrow> HandleEntry) \<Rightarrow> HandleTable" where
  "upd_entry t seg slot f =
     (case ht_directory t ! seg of
        None \<Rightarrow> t
      | Some es \<Rightarrow> t\<lparr>ht_directory := (ht_directory t)[seg := Some (es[slot := f (es ! slot)])]\<rparr>)"

subsection \<open>Growth\<close>

definition grow_one :: "bool \<times> bool \<Rightarrow> HandleTable \<Rightarrow> HandleTable \<times> (HandleError + unit)" where
  "grow_one mem t =
     (if DIRECTORY_LEN \<le> unat (ht_segments_count t) then (t, Inl OutOfHandles)
      else let next = ht_segments_count t;
               seed = next_u64 (ht_prng t);
               t = t\<lparr>ht_prng := seed\<rparr>
      in case try_alloc_initialised (fst mem) (snd mem) seed of
           None \<Rightarrow> (t, Inl OutOfMemory)
         | Some (entries, meta) \<Rightarrow>
             if next < ht_segments_count t \<or> ht_directory t ! unat next \<noteq> None then (t, Inr ())
             else (t\<lparr>ht_segment_meta := (ht_segment_meta t)[unat next := meta],
                     ht_segments_count := next + 1,
                     ht_directory := (ht_directory t)[unat next := Some entries]\<rparr>, Inr ()))"

definition HandleTable_try_new :: "bool \<Rightarrow> bool \<times> bool \<Rightarrow> u64 \<Rightarrow> HandleError + HandleTable" where
  "HandleTable_try_new ring_mem mem seed =
     (case dq_try_new ring_mem DEFER_RING_CAPACITY of
        None \<Rightarrow> Inl OutOfMemory
      | Some ring \<Rightarrow>
          let t = \<lparr>ht_directory = replicate DIRECTORY_LEN None, ht_next_segment_hint = 0,
                   ht_grace = GraceTracker_new,
                   ht_segment_meta = replicate DIRECTORY_LEN SegmentMeta_empty,
                   ht_segments_count = 0, ht_defer_ring = ring, ht_prng = Xorshift64_new seed\<rparr>
          in case grow_one mem t of (t', Inl e) \<Rightarrow> Inl e | (t', Inr _) \<Rightarrow> Inr t')"

subsection \<open>Reclaiming closed slots\<close>

text \<open>One round of the loop of \<^verbatim>\<open>drain_expired\<close>, for the deferral \<open>d\<close> at the front.\<close>

definition reclaim_front :: "HandleTable \<Rightarrow> DeferredClose \<Rightarrow> HandleTable" where
  "reclaim_front t d =
     (let t = t\<lparr>ht_defer_ring := snd (dq_pop_front (ht_defer_ring t))\<rparr>;
          (seg_id, slot_id, _) = RawHandle_decode (dc_handle d)
      in case ht_directory t ! unat seg_id of
           None \<Rightarrow> t
         | Some _ \<Rightarrow>
             let m = ht_segment_meta t ! unat seg_id;
                 t = upd_entry t (unat seg_id) (unat slot_id) (\<lambda>e. e\<lparr>he_free_next := free_head m\<rparr>)
             in t\<lparr>ht_segment_meta := (ht_segment_meta t)[unat seg_id :=
                   \<lparr>free_head = slot_id, free_count = free_count m + 1\<rparr>]\<rparr>)"

lemma ring_upd_entry [simp]: "ht_defer_ring (upd_entry t a b f) = ht_defer_ring t"
  by (simp add: upd_entry_def split: option.splits)

lemma ring_reclaim_front: "ht_defer_ring (reclaim_front t d) = snd (dq_pop_front (ht_defer_ring t))"
  by (simp add: reclaim_front_def Let_def split: prod.splits option.splits)

function drain_loop :: "HandleTable \<Rightarrow> HandleTable" where
  "drain_loop t =
     (case dq_front (ht_defer_ring t) of
        None \<Rightarrow> t
      | Some d \<Rightarrow> if \<not> is_grace_period_past (ht_grace t) (dc_epoch d) then t
                   else drain_loop (reclaim_front t d))"
  by pat_completeness auto
termination
  by (relation "measure (\<lambda>t. dq_len (ht_defer_ring t))")
    (auto simp: ring_reclaim_front dq_front_def dq_pop_front_def split: if_splits)

declare drain_loop.simps [simp del]

definition drain_expired :: "HandleTable \<Rightarrow> HandleTable" where
  "drain_expired t = (let t = drain_loop t in t\<lparr>ht_grace := snd (advance_epoch (ht_grace t))\<rparr>)"

subsection \<open>Allocation\<close>

definition scan_free :: "HandleTable \<Rightarrow> nat option" where
  "scan_free t =
     (let segments_count = unat (ht_segments_count t);
          hint = min (unat (ht_next_segment_hint t)) (segments_count - 1)
      in find (\<lambda>seg_id. 0 < free_count (ht_segment_meta t ! seg_id))
           ([hint..<segments_count] @ [0..<hint]))"

text \<open>
  The body for the chosen segment: pop the head of its free list, bump the generation within 31
  bits, write the entry under its guard. \<^const>\<open>None\<close> is the null directory pointer that the
  debug assertion excludes.
\<close>

definition take_slot ::
  "HandleTable \<Rightarrow> nat \<Rightarrow> u32 \<Rightarrow> u64 \<Rightarrow> KObjectType \<Rightarrow> u64 \<Rightarrow> (HandleTable \<times> u64) option" where
  "take_slot t seg owner object ty rights =
     (case ht_directory t ! seg of
        None \<Rightarrow> None
      | Some es \<Rightarrow>
          let m = ht_segment_meta t ! seg;
              slot = free_head m;
              entry = es ! unat slot;
              new_gen = (he_generation entry + 1) AND GENERATION_MAX;
              t = t\<lparr>ht_segment_meta := (ht_segment_meta t)[seg :=
                    \<lparr>free_head = he_free_next entry, free_count = free_count m - 1\<rparr>]\<rparr>;
              t = upd_entry t seg (unat slot) (guarded (\<lambda>e. e\<lparr>
                    he_generation := new_gen, he_owner_pid := owner, he_rights := rights,
                    he_object_type := KObjectType_as_u32 ty, he_next_owned := RawHandle_NULL,
                    he_in_transit := 0, he_object := object\<rparr>));
              t = t\<lparr>ht_next_segment_hint := of_nat seg\<rparr>
          in Some (t, RawHandle_encode (of_nat seg) slot new_gen))"

partial_function (option) allocate_loop ::
  "bool \<times> bool \<Rightarrow> HandleTable \<Rightarrow> u32 \<Rightarrow> u64 \<Rightarrow> KObjectType \<Rightarrow> u64
    \<Rightarrow> (HandleTable \<times> (HandleError + u64)) option" where
  "allocate_loop mem t owner object ty rights =
     (let t = drain_expired t in
      case scan_free t of
        Some seg \<Rightarrow> map_option (\<lambda>(t', h). (t', Inr h)) (take_slot t seg owner object ty rights)
      | None \<Rightarrow> (case grow_one mem t of
            (t', Inl e) \<Rightarrow> Some (t', Inl e)
          | (t', Inr _) \<Rightarrow> allocate_loop mem t' owner object ty rights))"

definition allocate ::
  "bool \<times> bool \<Rightarrow> HandleTable \<Rightarrow> u32 \<Rightarrow> u64 \<Rightarrow> KObjectType \<Rightarrow> u64
    \<Rightarrow> (HandleTable \<times> (HandleError + u64)) option" where
  "allocate mem t owner object ty rights =
     (if \<not> is_rights_compatible ty rights then Some (t, Inl BadRights)
      else allocate_loop mem t owner object ty rights)"

text \<open>
  \<^verbatim>\<open>install\<close>: the object's type is its header's; on success the caller's reference becomes the
  entry's, on failure it stays the caller's, so the objects do not change either way.
\<close>

definition install ::
  "bool \<times> bool \<Rightarrow> Kernel \<Rightarrow> u32 \<Rightarrow> u64 \<Rightarrow> u64 \<Rightarrow> (Kernel \<times> (HandleError + u64)) option" where
  "install mem k owner object rights =
     (case ObjectRef_object_type (k_objs k) object of
        None \<Rightarrow> None
      | Some ty \<Rightarrow> map_option (\<lambda>(t', r). (k\<lparr>k_table := t'\<rparr>, r))
                     (allocate mem (k_table k) owner object ty rights))"

subsection \<open>Lookup\<close>

text \<open>
  The read section of a lookup: the context is entered and left again, whatever happens inside.
\<close>

definition read_section :: "Kernel \<Rightarrow> u32 \<Rightarrow> Kernel" where
  "read_section k ctx = k\<lparr>k_table := (k_table k)\<lparr>ht_grace :=
     ReadGuard_drop (enter_read (ht_grace (k_table k)) ctx) ctx\<rparr>\<rparr>"

text \<open>
  Steps 9 to 12 on the reference that step 7 acquired: each failure releases it.
\<close>

definition lookup_checks ::
  "Kernel \<Rightarrow> u64 \<Rightarrow> EntrySnapshot \<Rightarrow> u32 \<Rightarrow> u32 \<Rightarrow> u64 \<Rightarrow> Kernel \<times> (HandleError + LookupOk)" where
  "lookup_checks k obj snap gen_expected caller_pid required =
     (let released = k\<lparr>k_objs := ObjectRef_drop (k_objs k) obj\<rparr> in
      if es_generation snap \<noteq> gen_expected then (released, Inl InvalidHandle)
      else if es_owner_pid snap \<noteq> caller_pid then (released, Inl NotOwner)
      else if \<not> Rights_is_subset_of required (es_rights snap) then (released, Inl NoAccess)
      else (k, Inr \<lparr>lo_object = obj, lo_rights = es_rights snap\<rparr>))"

definition lookup ::
  "Kernel \<Rightarrow> u32 \<Rightarrow> u64 \<Rightarrow> u32 \<Rightarrow> u64 \<Rightarrow> (Kernel \<times> (HandleError + LookupOk)) option" where
  "lookup k ctx h caller_pid required =
     (if RawHandle_is_null h then Some (k, Inl NullHandle)
      else let (seg_id, slot_id, gen_expected) = RawHandle_decode h in
      if DIRECTORY_LEN \<le> unat seg_id then Some (k, Inl InvalidHandle)
      else case ht_directory (k_table k) ! unat seg_id of
        None \<Rightarrow> Some (k, Inl InvalidHandle)
      | Some entries \<Rightarrow>
          if SEGMENT_LEN \<le> unat slot_id then Some (k, Inl InvalidHandle)
          else let entry = entries ! unat slot_id; k = read_section k ctx in
          case read_snapshot entry of
            None \<Rightarrow> None
          | Some snap \<Rightarrow>
              let obj = he_object entry in
              if obj = 0 then Some (k, Inl InvalidHandle)
              else if KObjectType_from_u32 (es_object_type snap) = None then Some (k, Inl InvalidHandle)
              else case try_acquire_refcount (k_objs k) obj of
                None \<Rightarrow> None
              | Some (False, _) \<Rightarrow> Some (k, Inl InvalidHandle)
              | Some (True, hp) \<Rightarrow>
                  if he_seq entry \<noteq> es_seq snap \<or> he_seq entry AND 1 \<noteq> 0 then None
                  else Some (lookup_checks (k\<lparr>k_objs := hp\<rparr>) obj snap gen_expected caller_pid required))"

text \<open>A looked-up reference whose object is of another kind is dropped.\<close>

definition lookup_as ::
  "Kernel \<Rightarrow> u32 \<Rightarrow> u64 \<Rightarrow> u32 \<Rightarrow> u64 \<Rightarrow> KObjectType \<Rightarrow> (Kernel \<times> (HandleError + u64)) option" where
  "lookup_as k ctx h caller_pid required ty =
     (case lookup k ctx h caller_pid required of
        None \<Rightarrow> None
      | Some (k', Inl e) \<Rightarrow> Some (k', Inl e)
      | Some (k', Inr ok) \<Rightarrow> Some (case ObjectRef_downcast (k_objs k') (lo_object ok) ty of
            Inr p \<Rightarrow> (k', Inr p)
          | Inl p \<Rightarrow> (k'\<lparr>k_objs := ObjectRef_drop (k_objs k') p\<rparr>, Inl WrongType)))"

subsection \<open>Claims\<close>

definition entry_of :: "HandleTable \<Rightarrow> u64 \<Rightarrow> (nat \<times> nat \<times> HandleEntry) option" where
  "entry_of t h =
     (let (seg_id, slot_id, generation) = RawHandle_decode h in
      if length (ht_directory t) \<le> unat seg_id then None
      else case ht_directory t ! unat seg_id of
        None \<Rightarrow> None
      | Some es \<Rightarrow>
          if SEGMENT_LEN \<le> unat slot_id then None
          else if he_generation (es ! unat slot_id) = generation
          then Some (unat seg_id, unat slot_id, es ! unat slot_id) else None)"

text \<open>A claim is the handle and its owner; the looked-up reference is dropped when it is refused.\<close>

definition claim ::
  "Kernel \<Rightarrow> u32 \<Rightarrow> u64 \<Rightarrow> u32 \<Rightarrow> u64 \<Rightarrow> (Kernel \<times> (HandleError + LookupOk)) option" where
  "claim k ctx h caller_pid required =
     (case lookup k ctx h caller_pid required of
        None \<Rightarrow> None
      | Some (k, Inl e) \<Rightarrow> Some (k, Inl e)
      | Some (k, Inr ok) \<Rightarrow>
          (let refused = (k\<lparr>k_objs := ObjectRef_drop (k_objs k) (lo_object ok)\<rparr>, Inl InvalidHandle) in
           case entry_of (k_table k) h of
             None \<Rightarrow> Some refused
           | Some (seg, slot, e) \<Rightarrow>
               if he_object e = lo_object ok \<and> he_in_transit e = 0
               then Some (k\<lparr>k_table := upd_entry (k_table k) seg slot (\<lambda>e. e\<lparr>he_in_transit := 1\<rparr>)\<rparr>, Inr ok)
               else Some refused))"

definition Claim_drop :: "Kernel \<Rightarrow> u64 \<Rightarrow> Kernel" where
  "Claim_drop k h =
     (case entry_of (k_table k) h of
        None \<Rightarrow> k
      | Some (seg, slot, _) \<Rightarrow>
          k\<lparr>k_table := upd_entry (k_table k) seg slot (\<lambda>e. e\<lparr>he_in_transit := 0\<rparr>)\<rparr>)"

subsection \<open>Close, restrict, duplicate, stat\<close>

text \<open>
  The checks \<^verbatim>\<open>close\<close> and \<^verbatim>\<open>restrict\<close> make before and under the lock, in their order.
\<close>

definition validate_locked :: "HandleTable \<Rightarrow> u64 \<Rightarrow> u32 \<Rightarrow> HandleError + (nat \<times> nat \<times> HandleEntry)" where
  "validate_locked t h caller_pid =
     (if RawHandle_is_null h then Inl NullHandle
      else let (seg_id, slot_id, gen_expected) = RawHandle_decode h in
      if DIRECTORY_LEN \<le> unat seg_id \<or> SEGMENT_LEN \<le> unat slot_id then Inl InvalidHandle
      else case ht_directory t ! unat seg_id of
        None \<Rightarrow> Inl InvalidHandle
      | Some es \<Rightarrow>
          let entry = es ! unat slot_id in
          if he_generation entry \<noteq> gen_expected then Inl InvalidHandle
          else if he_owner_pid entry \<noteq> caller_pid then Inl NotOwner
          else if he_object entry = 0 then Inl InvalidHandle
          else Inr (unat seg_id, unat slot_id, entry))"

text \<open>
  \<^verbatim>\<open>close\<close>: the reference the entry held is the result. A ring still full after the drain, or a
  reader inside its section, is waited for.
\<close>

definition close :: "HandleTable \<Rightarrow> u64 \<Rightarrow> u32 \<Rightarrow> (HandleTable \<times> (HandleError + u64)) option" where
  "close t h caller_pid =
     (case validate_locked t h caller_pid of
        Inl e \<Rightarrow> Some (t, Inl e)
      | Inr (seg, slot, entry) \<Rightarrow>
          let prev_obj = he_object entry;
              t = upd_entry t seg slot (guarded (\<lambda>e. e\<lparr>he_object := 0\<rparr>));
              epoch = g_epoch (ht_grace t);
              t = drain_expired t
          in case dq_push (ht_defer_ring t) \<lparr>dc_handle = h, dc_epoch = epoch\<rparr> of
               None \<Rightarrow> None
             | Some ring \<Rightarrow> map_option
                 (\<lambda>g. (t\<lparr>ht_defer_ring := ring, ht_grace := g\<rparr>, Inr prev_obj)) (synchronize (ht_grace t)))"

definition restrict :: "HandleTable \<Rightarrow> u64 \<Rightarrow> u32 \<Rightarrow> u64 \<Rightarrow> HandleTable \<times> (HandleError + unit)" where
  "restrict t h caller_pid new_rights =
     (case validate_locked t h caller_pid of
        Inl e \<Rightarrow> (t, Inl e)
      | Inr (seg, slot, entry) \<Rightarrow>
          let new = Rights_intersection (he_rights entry) new_rights
          in (upd_entry t seg slot (guarded (\<lambda>e. e\<lparr>he_rights := new\<rparr>)), Inr ()))"

definition duplicate ::
  "bool \<times> bool \<Rightarrow> Kernel \<Rightarrow> u32 \<Rightarrow> u64 \<Rightarrow> u32 \<Rightarrow> u64 \<Rightarrow> (Kernel \<times> (HandleError + u64)) option" where
  "duplicate mem k ctx h caller_pid new_rights =
     (case lookup k ctx h caller_pid Rights_DUPLICATE of
        None \<Rightarrow> None
      | Some (k, Inl e) \<Rightarrow> Some (k, Inl e)
      | Some (k, Inr info) \<Rightarrow>
          (case install mem k caller_pid (lo_object info) (Rights_intersection (lo_rights info) new_rights) of
             None \<Rightarrow> None
           | Some (k, Inl e) \<Rightarrow> Some (k\<lparr>k_objs := ObjectRef_drop (k_objs k) (lo_object info)\<rparr>, Inl e)
           | Some (k, Inr h') \<Rightarrow> Some (k, Inr h')))"

definition handle_stat ::
  "Kernel \<Rightarrow> u32 \<Rightarrow> u64 \<Rightarrow> u32 \<Rightarrow> (Kernel \<times> (HandleError + HandleStat)) option" where
  "handle_stat k ctx h caller_pid =
     (case lookup k ctx h caller_pid Rights_INSPECT of
        None \<Rightarrow> None
      | Some (k, Inl e) \<Rightarrow> Some (k, Inl e)
      | Some (k, Inr info) \<Rightarrow>
          let (_, _, generation) = RawHandle_decode h in
          (case ObjectRef_object_type (k_objs k) (lo_object info) of
             None \<Rightarrow> None
           | Some ty \<Rightarrow> Some (k\<lparr>k_objs := ObjectRef_drop (k_objs k) (lo_object info)\<rparr>,
               Inr \<lparr>hs_object_type = ty, hs_rights = lo_rights info, hs_owner_pid = caller_pid,
                    hs_generation = generation\<rparr>)))"

text \<open>\<^verbatim>\<open>Claim::commit\<close>: close the handle and release its reference.\<close>

definition close_and_drop :: "Kernel \<Rightarrow> u64 \<Rightarrow> u32 \<Rightarrow> Kernel option" where
  "close_and_drop k h pid =
     (case close (k_table k) h pid of
        None \<Rightarrow> None
      | Some (t, Inl _) \<Rightarrow> Some (k\<lparr>k_table := t\<rparr>)
      | Some (t, Inr p) \<Rightarrow> Some (k\<lparr>k_table := t, k_objs := ObjectRef_drop (k_objs k) p\<rparr>))"

definition Claim_commit :: "Kernel \<Rightarrow> u64 \<Rightarrow> u32 \<Rightarrow> Kernel option" where
  "Claim_commit k h pid = close_and_drop k h pid"

definition segments_allocated :: "HandleTable \<Rightarrow> nat" where
  "segments_allocated t = unat (ht_segments_count t)"

text \<open>In \<^typ>\<open>int\<close>: the subtraction of the ring's length would panic below zero.\<close>

definition allocated_count :: "HandleTable \<Rightarrow> int" where
  "allocated_count t =
     (\<Sum>seg_id \<leftarrow> [0..<unat (ht_segments_count t)].
        int SEGMENT_LEN - int (unat (free_count (ht_segment_meta t ! seg_id))))
     - int (dq_len (ht_defer_ring t))"

subsection \<open>The exit sweep\<close>

record SweepCursor =
  sc_seg :: nat
  sc_slot :: nat

definition SweepCursor_START :: SweepCursor where
  "SweepCursor_START = \<lparr>sc_seg = 0, sc_slot = 0\<rparr>"

text \<open>
  The two nested loops of \<^verbatim>\<open>unpublish_owned_batch\<close>: the table, the cursor, the references
  taken so far and whether more may remain. \<open>n\<close> is the batch size.
\<close>

function sweep_loop ::
  "u32 \<Rightarrow> nat \<Rightarrow> HandleTable \<Rightarrow> nat \<Rightarrow> nat \<Rightarrow> u64 list \<Rightarrow> HandleTable \<times> SweepCursor \<times> u64 list \<times> bool" where
  "sweep_loop pid n t seg slot out =
     (if unat (ht_segments_count t) \<le> seg then (t, \<lparr>sc_seg = seg, sc_slot = slot\<rparr>, out, False)
      else case ht_directory t ! seg of
        None \<Rightarrow> sweep_loop pid n t (Suc seg) 0 out
      | Some es \<Rightarrow>
          if SEGMENT_LEN \<le> slot then sweep_loop pid n t (Suc seg) 0 out
          else let entry = es ! slot in
          if \<not> (he_owner_pid entry = pid \<and> he_object entry \<noteq> 0) then sweep_loop pid n t seg (Suc slot) out
          else if length out = n then (t, \<lparr>sc_seg = seg, sc_slot = slot\<rparr>, out, True)
          else let h = RawHandle_encode (of_nat seg) (of_nat slot) (he_generation entry) in
          (case dq_push (ht_defer_ring t) \<lparr>dc_handle = h, dc_epoch = g_epoch (ht_grace t)\<rparr> of
             None \<Rightarrow> (t, \<lparr>sc_seg = seg, sc_slot = slot\<rparr>, out, True)
           | Some ring \<Rightarrow>
               sweep_loop pid n (upd_entry (t\<lparr>ht_defer_ring := ring\<rparr>) seg slot (guarded (\<lambda>e. e\<lparr>he_object := 0\<rparr>)))
                 seg (Suc slot) (out @ [he_object entry])))"
  by pat_completeness auto
termination
  by (relation "measures [\<lambda>(pid, n, t, seg, slot, out). unat (ht_segments_count t) - seg,
      \<lambda>(pid, n, t, seg, slot, out). SEGMENT_LEN - slot]")
    (auto simp: upd_entry_def split: option.splits)

declare sweep_loop.simps [simp del]

definition unpublish_owned_batch ::
  "u32 \<Rightarrow> nat \<Rightarrow> HandleTable \<Rightarrow> SweepCursor \<Rightarrow> HandleTable \<times> SweepCursor \<times> u64 list \<times> bool" where
  "unpublish_owned_batch pid n t cursor =
     (if n = 0 then (t, cursor, [], True)
      else sweep_loop pid n (drain_expired t) (sc_seg cursor) (sc_slot cursor) [])"

definition close_owned_batch ::
  "u32 \<Rightarrow> nat \<Rightarrow> HandleTable \<Rightarrow> SweepCursor \<Rightarrow> (HandleTable \<times> SweepCursor \<times> u64 list \<times> bool) option" where
  "close_owned_batch pid n t cursor =
     (let (t, cursor, out, remaining) = unpublish_owned_batch pid n t cursor in
      if out \<noteq> [] then map_option (\<lambda>g. (t\<lparr>ht_grace := g\<rparr>, cursor, out, remaining)) (synchronize (ht_grace t))
      else Some (t, cursor, out, remaining))"

definition SWEEP_BATCH :: nat where "SWEEP_BATCH = 16"

partial_function (option) close_all_loop ::
  "u32 \<Rightarrow> Kernel \<Rightarrow> SweepCursor \<Rightarrow> nat \<Rightarrow> (Kernel \<times> nat) option" where
  "close_all_loop pid k cursor closed =
     (case close_owned_batch pid SWEEP_BATCH (k_table k) cursor of
        None \<Rightarrow> None
      | Some (t, cursor', batch, remaining) \<Rightarrow>
          (let k' = k\<lparr>k_table := t, k_objs := fold (\<lambda>p hp. ObjectRef_drop hp p) batch (k_objs k)\<rparr>;
               closed' = closed + length batch
           in if \<not> remaining then Some (k', closed') else close_all_loop pid k' cursor' closed'))"

definition close_all_owned_by :: "u32 \<Rightarrow> Kernel \<Rightarrow> (Kernel \<times> nat) option" where
  "close_all_owned_by pid k = close_all_loop pid k SweepCursor_START 0"

subsection \<open>The install set\<close>

record Installed =
  in_pid :: u32
  in_handles :: "u64 list"
  in_len :: nat

definition Installed_new :: "nat \<Rightarrow> u32 \<Rightarrow> Installed" where
  "Installed_new n pid = \<lparr>in_pid = pid, in_handles = replicate n RawHandle_NULL, in_len = 0\<rparr>"

definition Installed_install ::
  "bool \<times> bool \<Rightarrow> Kernel \<Rightarrow> Installed \<Rightarrow> u64 \<Rightarrow> u64 \<Rightarrow> (Kernel \<times> Installed \<times> (HandleError + u64)) option" where
  "Installed_install mem k ins object rights =
     (if in_len ins = length (in_handles ins) then Some (k, ins, Inl OutOfHandles)
      else case install mem k (in_pid ins) object rights of
        None \<Rightarrow> None
      | Some (k', Inl e) \<Rightarrow> Some (k', ins, Inl e)
      | Some (k', Inr h) \<Rightarrow>
          Some (k', ins\<lparr>in_handles := (in_handles ins)[in_len ins := h], in_len := in_len ins + 1\<rparr>, Inr h))"

primrec close_list :: "Kernel \<Rightarrow> u32 \<Rightarrow> u64 list \<Rightarrow> Kernel option" where
  "close_list k pid [] = Some k"
| "close_list k pid (h # hs) =
     (case close_and_drop k h pid of None \<Rightarrow> None | Some k' \<Rightarrow> close_list k' pid hs)"

definition Installed_drop :: "Kernel \<Rightarrow> Installed \<Rightarrow> Kernel option" where
  "Installed_drop k ins = close_list k (in_pid ins) (take (in_len ins) (in_handles ins))"

definition Installed_commit :: "Kernel \<Rightarrow> Installed \<Rightarrow> Kernel option" where
  "Installed_commit k ins = Installed_drop k (ins\<lparr>in_len := 0\<rparr>)"

end
