(* ===== verification/Handle_Invariant.thy ===== *)
theory Handle_Invariant
  imports Handle_Table
begin

text \<open>
  The well-formedness invariant of the handle table and its preservation. It is stated per segment
  (every slot is live, on the free list, or waiting in the deferred-close ring, and exactly one of
  them) and lifted to the table, so that each operation's proof is one segment step.
\<close>

section \<open>One segment\<close>

fun cap_type :: "KObjectType option \<Rightarrow> u64 \<Rightarrow> bool" where
  "cap_type None r \<longleftrightarrow> False"
| "cap_type (Some ty) r \<longleftrightarrow> is_rights_compatible ty r"

text \<open>
  An entry at rest: no writer is inside, the generation fits its 31 bits, and a live entry names a
  type its rights suit.
\<close>

definition entry_ok :: "HandleEntry \<Rightarrow> bool" where
  "entry_ok e \<longleftrightarrow> even (he_seq e) \<and> he_generation e \<le> GENERATION_MAX
     \<and> (he_object e \<noteq> 0 \<longrightarrow> cap_type (KObjectType_from_u32 (he_object_type e)) (he_rights e))"

definition seg_inv :: "nat set \<Rightarrow> HandleEntry list \<Rightarrow> SegmentMeta \<Rightarrow> bool" where
  "seg_inv ds es m \<longleftrightarrow> length es = SEGMENT_LEN \<and> (\<forall>j<SEGMENT_LEN. entry_ok (es ! j))
     \<and> (\<exists>fl. seg_free es m fl \<and> ds \<inter> unat ` set fl = {}
           \<and> {j. j < SEGMENT_LEN \<and> he_object (es ! j) = 0} = unat ` set fl \<union> ds)"

lemma seg_invD:
  assumes "seg_inv ds es m"
  shows "length es = SEGMENT_LEN" "j < SEGMENT_LEN \<Longrightarrow> entry_ok (es ! j)"
    "d \<in> ds \<Longrightarrow> d < SEGMENT_LEN \<and> he_object (es ! d) = 0"
  using assms by (auto simp: seg_inv_def set_eq_iff)

lemma seg_invI:
  assumes "length es = SEGMENT_LEN" "\<And>j. j < SEGMENT_LEN \<Longrightarrow> entry_ok (es ! j)" "seg_free es m fl"
    "ds \<inter> unat ` set fl = {}" "{j. j < SEGMENT_LEN \<and> he_object (es ! j) = 0} = unat ` set fl \<union> ds"
  shows "seg_inv ds es m"
  using assms by (auto simp: seg_inv_def)

lemma entry_ok_update:
  "seg_inv ds es m \<Longrightarrow> entry_ok e \<Longrightarrow> k < SEGMENT_LEN \<Longrightarrow> entry_ok (es[j := e] ! k)"
  using seg_invD(2) [of ds es m k] by (cases "j = k") (simp_all add: seg_inv_def)

text \<open>Changing an entry in a way that keeps whether it is live, and its link.\<close>

lemma seg_inv_meta_write:
  assumes inv: "seg_inv ds es m" and j: "j < SEGMENT_LEN" and ok: "entry_ok e"
    and eq: "(he_object e = 0) = (he_object (es ! j) = 0)" "he_free_next e = he_free_next (es ! j)"
  shows "seg_inv ds (es[j := e]) m"
proof -
  from inv obtain fl where fl: "seg_free es m fl" "ds \<inter> unat ` set fl = {}"
    "{j. j < SEGMENT_LEN \<and> he_object (es ! j) = 0} = unat ` set fl \<union> ds" and len: "length es = SEGMENT_LEN"
    by (auto simp: seg_inv_def)
  show ?thesis
  proof (rule seg_invI)
    show "seg_free (es[j := e]) m fl"
      by (rule seg_free_cong [OF fl(1)]) (simp_all add: update_field eq(2))
    show "{k. k < SEGMENT_LEN \<and> he_object (es[j := e] ! k) = 0} = unat ` set fl \<union> ds"
      unfolding fl(3) [symmetric] using update_field [of "\<lambda>e. he_object e = 0", OF eq(1)] by simp
  qed (simp_all add: len fl(2) entry_ok_update [OF inv ok])
qed

text \<open>A live entry is closed: its slot joins the deferred ones.\<close>

lemma seg_inv_close:
  assumes inv: "seg_inv ds es m" and j: "j < SEGMENT_LEN" and live: "he_object (es ! j) \<noteq> 0"
    and e: "he_object e = 0" "entry_ok e" "he_free_next e = he_free_next (es ! j)"
  shows "seg_inv (insert j ds) (es[j := e]) m"
proof -
  from inv obtain fl where fl: "seg_free es m fl" "ds \<inter> unat ` set fl = {}"
    "{j. j < SEGMENT_LEN \<and> he_object (es ! j) = 0} = unat ` set fl \<union> ds" and len: "length es = SEGMENT_LEN"
    by (auto simp: seg_inv_def)
  have nin: "j \<notin> unat ` set fl" using fl(3) live by blast
  show ?thesis
  proof (rule seg_invI)
    show "seg_free (es[j := e]) m fl"
      by (rule seg_free_cong [OF fl(1)]) (simp_all add: update_field e(3))
    have "{k. k < SEGMENT_LEN \<and> he_object (es[j := e] ! k) = 0}
        = insert j {k. k < SEGMENT_LEN \<and> he_object (es ! k) = 0}"
      using e(1) len j by (auto simp: nth_list_update)
    then show "{k. k < SEGMENT_LEN \<and> he_object (es[j := e] ! k) = 0} = unat ` set fl \<union> insert j ds"
      unfolding fl(3) by simp
    show "insert j ds \<inter> unat ` set fl = {}" using nin fl(2) by simp
  qed (simp_all add: len entry_ok_update [OF inv e(2)])
qed

text \<open>A deferred slot goes back on the free list.\<close>

lemma seg_inv_reclaim:
  assumes inv: "seg_inv ds es m" and slot: "unat slot \<in> ds"
  shows "seg_inv (ds - {unat slot}) (es[unat slot := (es ! unat slot)\<lparr>he_free_next := free_head m\<rparr>])
    \<lparr>free_head = slot, free_count = free_count m + 1\<rparr>"
proof -
  from inv obtain fl where fl: "seg_free es m fl" "ds \<inter> unat ` set fl = {}"
    "{j. j < SEGMENT_LEN \<and> he_object (es ! j) = 0} = unat ` set fl \<union> ds" and len: "length es = SEGMENT_LEN"
    by (auto simp: seg_inv_def)
  have lt: "unat slot < SEGMENT_LEN" using seg_invD(3) [OF inv slot] by simp
  have nin: "slot \<notin> set fl" using fl(2) slot by auto
  let ?e = "(es ! unat slot)\<lparr>he_free_next := free_head m\<rparr>"
  have ok: "entry_ok ?e" using seg_invD(2) [OF inv lt] by (simp add: entry_ok_def)
  show ?thesis
  proof (rule seg_invI)
    show "seg_free (es[unat slot := ?e]) \<lparr>free_head = slot, free_count = free_count m + 1\<rparr> (slot # fl)"
      by (rule seg_free_push [OF fl(1) nin]) (simp_all add: len lt)
    show "(ds - {unat slot}) \<inter> unat ` set (slot # fl) = {}" using fl(2) by auto
    have "{k. k < SEGMENT_LEN \<and> he_object (es[unat slot := ?e] ! k) = 0} = unat ` set fl \<union> ds"
      unfolding fl(3) [symmetric] by (simp add: update_field)
    then show "{k. k < SEGMENT_LEN \<and> he_object (es[unat slot := ?e] ! k) = 0}
        = unat ` set (slot # fl) \<union> (ds - {unat slot})" using slot by auto
  qed (simp_all add: len entry_ok_update [OF inv ok])
qed

text \<open>The head of a non-empty free list is taken and made live.\<close>

lemma seg_inv_take:
  assumes inv: "seg_inv ds es m" and c: "0 < free_count m"
    and e: "he_object e \<noteq> 0" "entry_ok e" "he_free_next e = he_free_next (es ! unat (free_head m))"
  shows "unat (free_head m) < SEGMENT_LEN" "he_object (es ! unat (free_head m)) = 0" "unat (free_head m) \<notin> ds"
    and "seg_inv ds (es[unat (free_head m) := e])
      \<lparr>free_head = he_free_next (es ! unat (free_head m)), free_count = free_count m - 1\<rparr>"
proof -
  from inv obtain fl where fl: "seg_free es m fl" "ds \<inter> unat ` set fl = {}"
    "{j. j < SEGMENT_LEN \<and> he_object (es ! j) = 0} = unat ` set fl \<union> ds" and len: "length es = SEGMENT_LEN"
    by (auto simp: seg_inv_def)
  let ?s = "free_head m"
  let ?m = "\<lparr>free_head = he_free_next (es ! unat ?s), free_count = free_count m - 1\<rparr>"
  from seg_free_pop [OF fl(1) c] obtain fl' where fl': "fl = ?s # fl'" "seg_free es ?m fl'"
    by (auto simp: seg_next_def)
  have "unat ?s \<in> unat ` set fl \<union> ds" by (simp add: fl'(1))
  then have s: "unat ?s \<in> {j. j < SEGMENT_LEN \<and> he_object (es ! j) = 0}" by (simp add: fl(3))
  then show "unat ?s < SEGMENT_LEN" "he_object (es ! unat ?s) = 0" by simp_all
  show nds: "unat ?s \<notin> ds" using fl(2) by (auto simp: fl'(1))
  have nin: "?s \<notin> set fl'" using seg_free_distinct [OF fl(1)] by (simp add: fl'(1))
  show "seg_inv ds (es[unat ?s := e]) ?m"
  proof (rule seg_invI)
    show "seg_free (es[unat ?s := e]) ?m fl'"
      by (rule seg_free_cong [OF fl'(2)]) (simp_all add: update_field e(3))
    have "{k. k < SEGMENT_LEN \<and> he_object (es[unat ?s := e] ! k) = 0}
        = {k. k < SEGMENT_LEN \<and> he_object (es ! k) = 0} - {unat ?s}"
      using e(1) len s by (auto simp: nth_list_update)
    also have "\<dots> = unat ` set fl' \<union> ds" unfolding fl(3) fl'(1) using nds nin by auto
    finally show "{k. k < SEGMENT_LEN \<and> he_object (es[unat ?s := e] ! k) = 0} = unat ` set fl' \<union> ds" .
    show "ds \<inter> unat ` set fl' = {}" using fl(2) by (auto simp: fl'(1))
  qed (simp_all add: len entry_ok_update [OF inv e(2)])
qed

text \<open>A new segment.\<close>

lemma seg_inv_new:
  assumes "try_alloc_initialised True True seed = Some (es, m)"
  shows "seg_inv {} es m" "\<And>j. j < SEGMENT_LEN \<Longrightarrow> he_object (es ! j) = 0" "0 < free_count m"
proof -
  note ok = try_alloc_initialised_ok [OF assms]
  show obj: "he_object (es ! j) = 0" if "j < SEGMENT_LEN" for j
    using ok(3) [OF that] by (auto simp: HandleEntry_new_def)
  from ok(2) obtain fl where fl: "seg_free es m fl" "unat ` set fl = {..<SEGMENT_LEN}" by blast
  have "entry_ok (es ! j)" if "j < SEGMENT_LEN" for j
    using ok(3) [OF that] by (auto simp: HandleEntry_new_def entry_ok_def)
  then show "seg_inv {} es m" using obj by (intro seg_invI [OF ok(1) _ fl(1)]) (auto simp: fl(2))
  have "0 \<in> unat ` set fl" by (simp add: fl(2) SEGMENT_LEN_def)
  then have "length fl \<noteq> 0" by auto
  then show "0 < free_count m" using seg_free_count [OF fl(1)] ok(1) by (simp add: word_less_nat_alt)
qed

section \<open>The table\<close>

abbreviation segs :: "HandleTable \<Rightarrow> nat" where
  "segs t \<equiv> unat (ht_segments_count t)"

text \<open>The slots the ring holds back, and those of one segment.\<close>

definition slot_of :: "DeferredClose \<Rightarrow> nat \<times> nat" where
  "slot_of d = (case RawHandle_decode (dc_handle d) of (seg, slot, _) \<Rightarrow> (unat seg, unat slot))"

definition ring_slots :: "DeferredQueue \<Rightarrow> (nat \<times> nat) list" where
  "ring_slots q = map slot_of (dq_contents q)"

definition defer_slots :: "DeferredQueue \<Rightarrow> nat \<Rightarrow> nat set" where
  "defer_slots q i = {j. (i, j) \<in> set (ring_slots q)}"

definition ring_ok :: "DeferredQueue \<Rightarrow> bool" where
  "ring_ok q \<longleftrightarrow> dq_inv q \<and> dq_capacity q = DEFER_RING_CAPACITY \<and> distinct (ring_slots q)"

definition table_inv :: "HandleTable \<Rightarrow> bool" where
  "table_inv t \<longleftrightarrow> length (ht_directory t) = DIRECTORY_LEN \<and> length (ht_segment_meta t) = DIRECTORY_LEN
     \<and> segs t \<le> DIRECTORY_LEN
     \<and> (\<forall>i<DIRECTORY_LEN. segs t \<le> i \<longrightarrow> ht_directory t ! i = None \<and> defer_slots (ht_defer_ring t) i = {})
     \<and> (\<forall>i < segs t. \<exists>es. ht_directory t ! i = Some es
          \<and> seg_inv (defer_slots (ht_defer_ring t) i) es (ht_segment_meta t ! i))
     \<and> ring_ok (ht_defer_ring t) \<and> (\<forall>s\<in>set (ring_slots (ht_defer_ring t)). fst s < segs t)
     \<and> length (g_ctx (ht_grace t)) = MAX_CTX"

lemma table_invD:
  assumes "table_inv t"
  shows "length (ht_directory t) = DIRECTORY_LEN" "length (ht_segment_meta t) = DIRECTORY_LEN"
    "segs t \<le> DIRECTORY_LEN" "i < DIRECTORY_LEN \<Longrightarrow> segs t \<le> i \<Longrightarrow> ht_directory t ! i = None"
    "ring_ok (ht_defer_ring t)" "length (g_ctx (ht_grace t)) = MAX_CTX"
    "s \<in> set (ring_slots (ht_defer_ring t)) \<Longrightarrow> fst s < segs t"
  using assms by (simp_all add: table_inv_def)

lemma table_inv_seg:
  assumes "table_inv t" "i < segs t"
  obtains es where "ht_directory t ! i = Some es" "seg_inv (defer_slots (ht_defer_ring t) i) es (ht_segment_meta t ! i)"
  using assms unfolding table_inv_def by blast

lemma table_inv_present:
  assumes "table_inv t" "i < DIRECTORY_LEN" "ht_directory t ! i = Some es"
  shows "i < segs t" "seg_inv (defer_slots (ht_defer_ring t) i) es (ht_segment_meta t ! i)"
proof -
  show i: "i < segs t" using table_invD(4) [OF assms(1,2)] assms(3) by (cases "segs t \<le> i") auto
  show "seg_inv (defer_slots (ht_defer_ring t) i) es (ht_segment_meta t ! i)"
    using table_inv_seg [OF assms(1) i] assms(3) by auto
qed

text \<open>
  The step all operations share: one segment's entries, its free-list head and the ring change
  together, the ring's part in the other segments stays.
\<close>

lemma table_inv_step:
  assumes inv: "table_inv t" and i: "i < segs t"
    and seg: "seg_inv (defer_slots q i) es m" and q: "ring_ok q"
    and other: "\<And>k. k \<noteq> i \<Longrightarrow> defer_slots q k = defer_slots (ht_defer_ring t) k"
    and t': "ht_directory t' = (ht_directory t)[i := Some es]" "ht_segment_meta t' = (ht_segment_meta t)[i := m]"
      "ht_segments_count t' = ht_segments_count t" "ht_defer_ring t' = q" "length (g_ctx (ht_grace t')) = MAX_CTX"
  shows "table_inv t'"
proof -
  have len: "i < length (ht_directory t)" "i < length (ht_segment_meta t)"
    using i table_invD(1-3) [OF inv] by simp_all
  have "\<exists>es. ht_directory t' ! k = Some es \<and> seg_inv (defer_slots q k) es (ht_segment_meta t' ! k)"
    if "k < segs t" for k
  proof (cases "k = i")
    case True
    then show ?thesis using seg len by (simp add: t')
  next
    case False
    then show ?thesis using table_inv_seg [OF inv that] other [OF False] by (auto simp: t')
  qed
  moreover have "ht_directory t' ! k = None \<and> defer_slots q k = {}" if "k < DIRECTORY_LEN" "segs t \<le> k" for k
    using that i inv other [of k] by (auto simp: table_inv_def t')
  moreover have "fst s < segs t" if "s \<in> set (ring_slots q)" for s
  proof (cases "fst s = i")
    case True
    then show ?thesis using i by simp
  next
    case False
    have "snd s \<in> defer_slots q (fst s)" using that by (simp add: defer_slots_def)
    then have "snd s \<in> defer_slots (ht_defer_ring t) (fst s)" by (simp only: other [OF False])
    then have "s \<in> set (ring_slots (ht_defer_ring t))" by (simp add: defer_slots_def)
    then show ?thesis by (rule table_invD(7) [OF inv])
  qed
  ultimately show ?thesis using table_invD(1-3) [OF inv] q t'(5) by (simp add: table_inv_def t'(1-4))
qed

text \<open>Changes outside the directory, the free lists and the ring.\<close>

lemma table_inv_cong:
  assumes "table_inv t" "ht_directory t' = ht_directory t" "ht_segment_meta t' = ht_segment_meta t"
    "ht_segments_count t' = ht_segments_count t" "ht_defer_ring t' = ht_defer_ring t"
    "length (g_ctx (ht_grace t')) = MAX_CTX"
  shows "table_inv t'"
  using assms by (simp add: table_inv_def)

section \<open>The capabilities a table grants\<close>

record cap =
  c_object :: u64
  c_type :: u32
  c_owner :: u32
  c_rights :: u64

definition cap_of :: "HandleEntry \<Rightarrow> cap" where
  "cap_of e = \<lparr>c_object = he_object e, c_type = he_object_type e, c_owner = he_owner_pid e, c_rights = he_rights e\<rparr>"

text \<open>What handle \<open>h\<close> grants if entry \<open>e\<close> is the one it names.\<close>

definition grants :: "HandleEntry \<Rightarrow> u32 \<Rightarrow> cap option" where
  "grants e g = (if he_generation e = g \<and> he_object e \<noteq> 0 then Some (cap_of e) else None)"

definition caps :: "HandleTable \<Rightarrow> u64 \<Rightarrow> cap option" where
  "caps t h = (case entry_of t h of None \<Rightarrow> None
     | Some (_, _, e) \<Rightarrow> if he_object e \<noteq> 0 then Some (cap_of e) else None)"

lemma caps_cong:
  assumes "ht_directory t' = ht_directory t"
  shows "caps t' = caps t"
  unfolding caps_def entry_of_def assms ..

lemma caps_at:
  assumes "RawHandle_decode h = (seg, slot, g)" "unat seg < length (ht_directory t)"
    "ht_directory t ! unat seg = Some es"
  shows "caps t h = (if unat slot < SEGMENT_LEN then grants (es ! unat slot) g else None)"
  using assms by (auto simp: caps_def entry_of_def grants_def)

lemma caps_absent:
  assumes "RawHandle_decode h = (seg, slot, g)"
    "length (ht_directory t) \<le> unat seg \<or> ht_directory t ! unat seg = None \<or> SEGMENT_LEN \<le> unat slot"
  shows "caps t h = None"
  using assms by (auto simp: caps_def entry_of_def split: option.splits)

lemma dir_upd_entry:
  "ht_directory t ! i = Some es \<Longrightarrow>
    ht_directory (upd_entry t i j f) = (ht_directory t)[i := Some (es[j := f (es ! j)])]"
  by (simp add: upd_entry_def)

lemma upd_entry_sel [simp]:
  "ht_segment_meta (upd_entry t i j f) = ht_segment_meta t"
  "ht_segments_count (upd_entry t i j f) = ht_segments_count t"
  "ht_grace (upd_entry t i j f) = ht_grace t"
  "ht_prng (upd_entry t i j f) = ht_prng t"
  "ht_next_segment_hint (upd_entry t i j f) = ht_next_segment_hint t"
  by (simp_all add: upd_entry_def split: option.splits)

text \<open>The effect of rewriting one entry.\<close>

lemma caps_rewrite:
  assumes dir: "i < length (ht_directory t)" "ht_directory t ! i = Some es"
    and j: "j < length es" "length es = SEGMENT_LEN"
    and t': "ht_directory t' = (ht_directory t)[i := Some (es[j := e])]"
    and h: "RawHandle_decode h = (seg, slot, g)"
  shows "caps t' h = (if unat seg = i \<and> unat slot = j then grants e g else caps t h)"
proof (cases "unat seg = i")
  case True
  then have "caps t' h = (if unat slot < SEGMENT_LEN then grants (es[j := e] ! unat slot) g else None)"
    using dir by (intro caps_at [OF h]) (simp_all add: t')
  moreover have "caps t h = (if unat slot < SEGMENT_LEN then grants (es ! unat slot) g else None)"
    using True dir by (intro caps_at [OF h]) simp_all
  ultimately show ?thesis using True j by (simp add: nth_list_update)
next
  case False
  then show ?thesis by (auto simp: caps_def entry_of_def h t' split: option.splits)
qed

lemma caps_same_grants:
  assumes dir: "i < length (ht_directory t)" "ht_directory t ! i = Some es"
    and j: "j < length es" "length es = SEGMENT_LEN"
    and t': "ht_directory t' = (ht_directory t)[i := Some (es[j := e])]"
    and same: "\<And>g. grants e g = grants (es ! j) g"
  shows "caps t' = caps t"
proof
  fix h
  obtain seg slot g where h: "RawHandle_decode h = (seg, slot, g)" by (metis prod_cases3)
  show "caps t' h = caps t h"
  proof (cases "unat seg = i \<and> unat slot = j")
    case True
    then have "caps t h = grants (es ! j) g" using dir j by (simp add: caps_at [OF h])
    with True show ?thesis by (simp add: caps_rewrite [OF dir j t' h] same)
  next
    case False
    then show ?thesis by (simp only: caps_rewrite [OF dir j t' h] if_False)
  qed
qed

end
