(* ===== verification/Handle_Alloc.thy ===== *)
theory Handle_Alloc
  imports Handle_Invariant
begin

text \<open>
  Growth, reclaiming and allocation of the handle table: each keeps the invariant, growth and
  reclaiming change no capability, and allocation adds exactly one, at a handle that granted
  nothing before. Allocation returns.
\<close>

section \<open>Slots and handles\<close>

lemma DIR_LT: "i < DIRECTORY_LEN \<Longrightarrow> i < 256" by (simp add: DIRECTORY_LEN_def)
lemma SEG_LT: "j < SEGMENT_LEN \<Longrightarrow> j < 4096" by (simp add: SEGMENT_LEN_def)

lemma unat_of_nat_u32: "n < 4294967296 \<Longrightarrow> unat (of_nat n :: u32) = n"
  by (simp add: unat_of_nat)

lemma decode_slot:
  assumes "i < DIRECTORY_LEN" "j < SEGMENT_LEN"
  shows "RawHandle_decode (RawHandle_encode (of_nat i) (of_nat j) g) = (of_nat i, of_nat j, g)"
    "unat (of_nat i :: u32) = i" "unat (of_nat j :: u32) = j"
proof -
  show u: "unat (of_nat i :: u32) = i" "unat (of_nat j :: u32) = j"
    using DIR_LT [OF assms(1)] SEG_LT [OF assms(2)] by (simp_all add: unat_of_nat_u32)
  show "RawHandle_decode (RawHandle_encode (of_nat i) (of_nat j) g) = (of_nat i, of_nat j, g)"
    using DIR_LT [OF assms(1)] SEG_LT [OF assms(2)] by (intro decode_encode) (simp_all add: word_less_nat_alt u)
qed

lemma slot_of_encode:
  assumes "i < DIRECTORY_LEN" "j < SEGMENT_LEN"
  shows "slot_of \<lparr>dc_handle = RawHandle_encode (of_nat i) (of_nat j) g, dc_epoch = ep\<rparr> = (i, j)"
  using decode_slot [OF assms] by (simp add: slot_of_def)

lemma encode_of_decode:
  "RawHandle_decode h = (seg, slot, g) \<Longrightarrow> RawHandle_encode (of_nat (unat seg)) (of_nat (unat slot)) g = h"
  using encode_decode [of h] by simp

lemma decode_inject: "RawHandle_decode h = RawHandle_decode h' \<longleftrightarrow> h = h'"
  by (metis encode_decode)

text \<open>
  Rewriting one entry changes the capability of one handle only, provided the entry was dead or
  keeps its generation.
\<close>

lemma caps_write:
  assumes dir: "i < DIRECTORY_LEN" "i < length (ht_directory t)" "ht_directory t ! i = Some es"
    and j: "j < SEGMENT_LEN" "length es = SEGMENT_LEN"
    and t': "ht_directory t' = (ht_directory t)[i := Some (es[j := e])]"
    and old: "he_object (es ! j) = 0 \<or> he_generation (es ! j) = he_generation e"
  shows "caps t' = (caps t)(RawHandle_encode (of_nat i) (of_nat j) (he_generation e) := grants e (he_generation e))"
    (is "_ = (caps t)(?h := _)")
proof
  fix h
  note dec = decode_slot [OF dir(1) j(1)]
  obtain sg sl g where h: "RawHandle_decode h = (sg, sl, g)" by (metis prod_cases3)
  have eq: "h = ?h \<longleftrightarrow> sg = of_nat i \<and> sl = of_nat j \<and> g = he_generation e"
    using decode_inject [of h ?h] unfolding h dec(1) by blast
  have "j < length es" using j by simp
  note rw = caps_rewrite [OF dir(2,3) this j(2) t' h]
  show "caps t' h = ((caps t)(?h := grants e (he_generation e))) h"
  proof (cases "unat sg = i \<and> unat sl = j")
    case True
    then have s: "sg = of_nat i" "sl = of_nat j" using dec(2,3) by (simp_all flip: unat_inject)
    have new: "caps t' h = grants e g" using True by (simp add: rw)
    have "caps t h = grants (es ! j) g" using caps_at [OF h, of t es] True dir j by simp
    then show ?thesis using new s eq old by (auto simp: grants_def)
  next
    case False
    then have "h \<noteq> ?h" using eq dec(2,3) by blast
    moreover have "caps t' h = caps t h" using False by (simp only: rw if_False)
    ultimately show ?thesis by (simp only: fun_upd_apply if_False)
  qed
qed

section \<open>Growth\<close>

lemma grow_one_cases:
  assumes inv: "table_inv t" and g: "grow_one mem t = (t', r)"
  shows "(segs t = DIRECTORY_LEN \<and> t' = t \<and> r = Inl OutOfHandles)
    \<or> (segs t < DIRECTORY_LEN \<and> \<not> (fst mem \<and> snd mem) \<and> t' = t\<lparr>ht_prng := next_u64 (ht_prng t)\<rparr> \<and> r = Inl OutOfMemory)
    \<or> (segs t < DIRECTORY_LEN \<and> fst mem \<and> snd mem \<and> r = Inr ()
       \<and> (\<exists>es m. try_alloc_initialised True True (next_u64 (ht_prng t)) = Some (es, m)
         \<and> t' = t\<lparr>ht_prng := next_u64 (ht_prng t), ht_segment_meta := (ht_segment_meta t)[segs t := m],
             ht_segments_count := ht_segments_count t + 1, ht_directory := (ht_directory t)[segs t := Some es]\<rparr>))"
proof (cases "segs t < DIRECTORY_LEN")
  case False
  then show ?thesis using g table_invD(3) [OF inv] by (auto simp: grow_one_def)
next
  case lt: True
  show ?thesis
  proof (cases "try_alloc_initialised (fst mem) (snd mem) (next_u64 (ht_prng t))")
    case None
    with lt g show ?thesis
      using try_alloc_initialised_fails [of "fst mem" "snd mem"] by (auto simp: grow_one_def Let_def)
  next
    case (Some p)
    then have mem: "fst mem" "snd mem"
      using try_alloc_initialised_fails [of "fst mem" "snd mem" "next_u64 (ht_prng t)"] by auto
    have "ht_directory t ! segs t = None" by (rule table_invD(4) [OF inv lt]) simp
    with lt g Some mem show ?thesis by (cases p) (auto simp: grow_one_def Let_def)
  qed
qed

lemma segs_suc: "segs t < DIRECTORY_LEN \<Longrightarrow> unat (ht_segments_count t + 1) = Suc (segs t)"
  by (simp add: DIRECTORY_LEN_def unat_word_ariths)

lemma grow_one_inv:
  assumes inv: "table_inv t" and g: "grow_one mem t = (t', r)"
  shows "table_inv t'" "caps t' = caps t" "ht_grace t' = ht_grace t"
    and "r = Inr () \<Longrightarrow> segs t < segs t' \<and> 0 < free_count (ht_segment_meta t' ! segs t)"
proof -
  consider "t' = t" "r \<noteq> Inr ()" | "t' = t\<lparr>ht_prng := next_u64 (ht_prng t)\<rparr>" "r \<noteq> Inr ()"
    | es m where "segs t < DIRECTORY_LEN" "try_alloc_initialised True True (next_u64 (ht_prng t)) = Some (es, m)"
        "t' = t\<lparr>ht_prng := next_u64 (ht_prng t), ht_segment_meta := (ht_segment_meta t)[segs t := m],
             ht_segments_count := ht_segments_count t + 1, ht_directory := (ht_directory t)[segs t := Some es]\<rparr>"
    using grow_one_cases [OF inv g] by auto
  then have "table_inv t' \<and> caps t' = caps t \<and> ht_grace t' = ht_grace t
    \<and> (r = Inr () \<longrightarrow> segs t < segs t' \<and> 0 < free_count (ht_segment_meta t' ! segs t))"
  proof cases
    case 1
    with inv show ?thesis by simp
  next
    case 2
    with inv show ?thesis using caps_cong [of t' t] by (auto intro: table_inv_cong simp: table_invD(6))
  next
    case 3
    note seg = seg_inv_new [OF 3(2)]
    note d = table_invD [OF inv]
    have ds: "defer_slots (ht_defer_ring t) (segs t) = {}" using inv 3(1) by (simp add: table_inv_def)
    have nth: "\<And>k. k < Suc (segs t) \<Longrightarrow> \<exists>es. ht_directory t' ! k = Some es
        \<and> seg_inv (defer_slots (ht_defer_ring t) k) es (ht_segment_meta t' ! k)"
      using inv 3(1) seg(1) ds d(1,2) by (auto simp: 3(3) table_inv_def nth_list_update less_Suc_eq)
    have "table_inv t'"
      using inv 3(1) nth unfolding table_inv_def by (auto simp: 3(3) segs_suc [OF 3(1)] less_SucI)
    moreover have "caps t' h = caps t h" for h
    proof -
      obtain sg sl g where h: "RawHandle_decode h = (sg, sl, g)" by (metis prod_cases3)
      show ?thesis
      proof (cases "unat sg = segs t")
        case True
        have "caps t h = None" using True d(4) [OF 3(1)] by (intro caps_absent [OF h]) simp
        moreover have "caps t' h = (if unat sl < SEGMENT_LEN then grants (es ! unat sl) g else None)"
          using True 3(1) d(1) by (intro caps_at [OF h]) (simp_all add: 3(3))
        ultimately show ?thesis using seg(2) by (simp add: grants_def)
      next
        case False
        then show ?thesis by (auto simp: caps_def entry_of_def h 3(3) split: option.splits)
      qed
    qed
    ultimately show ?thesis using seg(3) 3(1) d(2) by (auto simp: 3(3) segs_suc)
  qed
  then show "table_inv t'" "caps t' = caps t" "ht_grace t' = ht_grace t"
    "r = Inr () \<Longrightarrow> segs t < segs t' \<and> 0 < free_count (ht_segment_meta t' ! segs t)" by blast+
qed

section \<open>Reclaiming\<close>

lemma ring_slots_pop:
  assumes "ring_ok q" "dq_front q = Some d"
  shows "ring_ok (snd (dq_pop_front q))" "ring_slots q = slot_of d # ring_slots (snd (dq_pop_front q))"
    "defer_slots (snd (dq_pop_front q)) i = defer_slots q i - {j. slot_of d = (i, j)}"
proof -
  have "dq_len q \<noteq> 0" using assms dq_front_pop(1) by (fastforce simp: ring_ok_def)
  then obtain d' q' where q': "dq_front q = Some d'" "dq_pop_front q = (Some d', q')" "dq_inv q'"
      "dq_contents q = d' # dq_contents q'" "dq_capacity q' = dq_capacity q"
    using dq_front_pop(3) [of q] assms(1) by (auto simp: ring_ok_def)
  show rs: "ring_slots q = slot_of d # ring_slots (snd (dq_pop_front q))"
    using q' assms(2) by (simp add: ring_slots_def)
  show "ring_ok (snd (dq_pop_front q))" using assms(1) rs q' by (simp add: ring_ok_def)
  have "distinct (slot_of d # ring_slots (snd (dq_pop_front q)))" using assms(1) rs by (simp add: ring_ok_def)
  then show "defer_slots (snd (dq_pop_front q)) i = defer_slots q i - {j. slot_of d = (i, j)}"
    by (auto simp: defer_slots_def rs)
qed

lemma reclaim_front_inv:
  assumes inv: "table_inv t" and d: "dq_front (ht_defer_ring t) = Some d"
  shows "table_inv (reclaim_front t d)" "caps (reclaim_front t d) = caps t"
    "ht_grace (reclaim_front t d) = ht_grace t"
proof -
  obtain sg sl g where h: "RawHandle_decode (dc_handle d) = (sg, sl, g)" by (metis prod_cases3)
  note q = ring_slots_pop [OF table_invD(5) [OF inv] d]
  have sd: "slot_of d = (unat sg, unat sl)" by (simp add: slot_of_def h)
  have sg: "unat sg < segs t" using table_invD(7) [OF inv, of "slot_of d"] by (simp add: q(2) sd)
  obtain es where es: "ht_directory t ! unat sg = Some es"
      "seg_inv (defer_slots (ht_defer_ring t) (unat sg)) es (ht_segment_meta t ! unat sg)"
    using table_inv_seg [OF inv sg] .
  let ?m = "ht_segment_meta t ! unat sg"
  let ?e = "(es ! unat sl)\<lparr>he_free_next := free_head ?m\<rparr>"
  have mem: "unat sl \<in> defer_slots (ht_defer_ring t) (unat sg)" by (simp add: defer_slots_def q(2) sd)
  have lt: "unat sl < length es" using seg_invD(1,3) [OF es(2)] mem by simp
  have t': "ht_directory (reclaim_front t d) = (ht_directory t)[unat sg := Some (es[unat sl := ?e])]"
    "ht_segment_meta (reclaim_front t d) = (ht_segment_meta t)[unat sg := \<lparr>free_head = sl, free_count = free_count ?m + 1\<rparr>]"
    "ht_segments_count (reclaim_front t d) = ht_segments_count t"
    "ht_defer_ring (reclaim_front t d) = snd (dq_pop_front (ht_defer_ring t))"
    "ht_grace (reclaim_front t d) = ht_grace t"
    using es(1) by (simp_all add: reclaim_front_def h Let_def upd_entry_def)
  show "ht_grace (reclaim_front t d) = ht_grace t" by (rule t'(5))
  show "table_inv (reclaim_front t d)"
  proof (rule table_inv_step [OF inv sg _ q(1) _ t'(1-4)])
    show "seg_inv (defer_slots (snd (dq_pop_front (ht_defer_ring t))) (unat sg)) (es[unat sl := ?e])
        \<lparr>free_head = sl, free_count = free_count ?m + 1\<rparr>"
      using seg_inv_reclaim [OF es(2) mem] by (simp add: q(3) sd)
    show "defer_slots (snd (dq_pop_front (ht_defer_ring t))) k = defer_slots (ht_defer_ring t) k"
      if "k \<noteq> unat sg" for k using that by (auto simp: q(3) sd)
    show "length (g_ctx (ht_grace (reclaim_front t d))) = MAX_CTX" using table_invD(6) [OF inv] t'(5) by simp
  qed
  show "caps (reclaim_front t d) = caps t"
    using sg table_invD(1,3) [OF inv] seg_invD(1) [OF es(2)]
    by (intro caps_same_grants [OF _ es(1) lt _ t'(1)]) (simp_all add: grants_def cap_of_def)
qed

lemma drain_loop_inv:
  assumes "table_inv t"
  shows "table_inv (drain_loop t) \<and> caps (drain_loop t) = caps t \<and> ht_grace (drain_loop t) = ht_grace t
    \<and> (quiet (ht_grace t) \<longrightarrow> dq_contents (ht_defer_ring (drain_loop t)) = [])"
  using assms
proof (induction t rule: drain_loop.induct)
  case (1 t)
  show ?case
  proof (cases "dq_front (ht_defer_ring t)")
    case None
    have "dq_inv (ht_defer_ring t)" using table_invD(5) [OF "1.prems"] by (simp add: ring_ok_def)
    with None have "dq_len (ht_defer_ring t) = 0" using dq_front_pop(3) by fastforce
    then have "dq_contents (ht_defer_ring t) = []" by (simp add: dq_contents_def)
    with None "1.prems" show ?thesis by (simp add: drain_loop.simps [of t])
  next
    case (Some d)
    note r = reclaim_front_inv [OF "1.prems" Some]
    show ?thesis
    proof (cases "is_grace_period_past (ht_grace t) (dc_epoch d)")
      case True
      with "1.IH" [OF Some] r show ?thesis by (simp add: drain_loop.simps [of t] Some)
    next
      case False
      with "1.prems" show ?thesis using quiet_past by (auto simp: drain_loop.simps [of t] Some)
    qed
  qed
qed

lemma drain_loop_segs: "ht_segments_count (drain_loop t) = ht_segments_count t"
proof (induction t rule: drain_loop.induct)
  case (1 t)
  have r: "ht_segments_count (reclaim_front t d) = ht_segments_count t" for d
    by (simp add: reclaim_front_def Let_def split: prod.splits option.splits)
  show ?case
    using "1.IH" by (simp add: drain_loop.simps [of t] r split: option.splits)
qed

lemma drain_segs [simp]: "ht_segments_count (drain_expired t) = ht_segments_count t"
  by (simp add: drain_expired_def drain_loop_segs Let_def)

lemma drain_expired_inv:
  assumes "table_inv t"
  shows "table_inv (drain_expired t)" "caps (drain_expired t) = caps t"
    "ht_grace (drain_expired t) = (ht_grace t)\<lparr>g_epoch := g_epoch (ht_grace t) + 1\<rparr>"
    "quiet (ht_grace t) \<Longrightarrow> dq_contents (ht_defer_ring (drain_expired t)) = []"
proof -
  note d = drain_loop_inv [OF assms]
  show "table_inv (drain_expired t)"
    using d table_invD(6) [OF assms]
    by (auto simp: drain_expired_def advance_epoch_def intro: table_inv_cong [of "drain_loop t"])
  show "caps (drain_expired t) = caps t"
    using d caps_cong [of "drain_expired t" "drain_loop t"] by (simp add: drain_expired_def)
  show "ht_grace (drain_expired t) = (ht_grace t)\<lparr>g_epoch := g_epoch (ht_grace t) + 1\<rparr>"
    "quiet (ht_grace t) \<Longrightarrow> dq_contents (ht_defer_ring (drain_expired t)) = []"
    using d by (simp_all add: drain_expired_def advance_epoch_def)
qed

section \<open>Allocation\<close>

lemma find_in_set: "find P xs = Some x \<Longrightarrow> x \<in> set xs \<and> P x"
  by (induction xs) (auto split: if_splits)

lemma scan_free_Some:
  assumes "scan_free t = Some seg"
  shows "seg < segs t" "0 < free_count (ht_segment_meta t ! seg)"
proof -
  let ?hint = "min (unat (ht_next_segment_hint t)) (segs t - 1)"
  have "seg \<in> set ([?hint..<segs t] @ [0..<?hint])" "0 < free_count (ht_segment_meta t ! seg)"
    using find_in_set [OF assms [unfolded scan_free_def Let_def]] by simp_all
  then show "seg < segs t" "0 < free_count (ht_segment_meta t ! seg)" by auto
qed

lemma scan_free_None:
  assumes "scan_free t = None" "i < segs t"
  shows "free_count (ht_segment_meta t ! i) = 0"
proof -
  let ?hint = "min (unat (ht_next_segment_hint t)) (segs t - 1)"
  have "i \<in> set ([?hint..<segs t] @ [0..<?hint])" using assms(2) by auto
  then show ?thesis using assms(1) unfolding scan_free_def Let_def find_None_iff by (metis word_neq_0_conv)
qed

lemma generation_le: "(g :: u32) AND GENERATION_MAX \<le> GENERATION_MAX"
  by (metis and.commute word_and_le2)

lemma take_slot_inv:
  assumes inv: "table_inv t" and seg: "seg < segs t" "0 < free_count (ht_segment_meta t ! seg)"
    and ok: "object \<noteq> 0" "is_rights_compatible ty rights"
  obtains t' h es where "take_slot t seg owner object ty rights = Some (t', h)" "table_inv t'"
    "ht_directory t ! seg = Some es"
    "h = RawHandle_encode (of_nat seg) (free_head (ht_segment_meta t ! seg))
       ((he_generation (es ! unat (free_head (ht_segment_meta t ! seg))) + 1) AND GENERATION_MAX)"
    "unat (free_head (ht_segment_meta t ! seg)) < SEGMENT_LEN"
    "caps t h = None" "ht_grace t' = ht_grace t" "ht_defer_ring t' = ht_defer_ring t"
    "caps t' = (caps t)(h \<mapsto> \<lparr>c_object = object, c_type = KObjectType_as_u32 ty, c_owner = owner, c_rights = rights\<rparr>)"
proof -
  obtain es where es: "ht_directory t ! seg = Some es"
      "seg_inv (defer_slots (ht_defer_ring t) seg) es (ht_segment_meta t ! seg)"
    using table_inv_seg [OF inv seg(1)] .
  let ?m = "ht_segment_meta t ! seg"
  let ?s = "free_head ?m"
  let ?g = "(he_generation (es ! unat ?s) + 1) AND GENERATION_MAX"
  let ?h = "RawHandle_encode (of_nat seg) ?s ?g"
  define e where "e = guarded (\<lambda>e. e\<lparr>he_generation := ?g, he_owner_pid := owner, he_rights := rights,
      he_object_type := KObjectType_as_u32 ty, he_next_owned := RawHandle_NULL,
      he_in_transit := 0, he_object := object\<rparr>) (es ! unat ?s)"
  define m where "m = \<lparr>free_head = he_free_next (es ! unat ?s), free_count = free_count ?m - 1\<rparr>"
  define t' where "t' = (upd_entry (t\<lparr>ht_segment_meta := (ht_segment_meta t)[seg := m]\<rparr>) seg (unat ?s) (\<lambda>_. e))
      \<lparr>ht_next_segment_hint := of_nat seg\<rparr>"
  have take: "take_slot t seg owner object ty rights = Some (t', ?h)"
    by (simp add: take_slot_def es(1) Let_def t'_def m_def e_def upd_entry_def)
  have e: "he_object e \<noteq> 0" "he_free_next e = he_free_next (es ! unat ?s)" "he_generation e = ?g"
    "cap_of e = \<lparr>c_object = object, c_type = KObjectType_as_u32 ty, c_owner = owner, c_rights = rights\<rparr>"
    "he_seq e = he_seq (es ! unat ?s) + 2"
    using ok(1) by (simp_all add: e_def guarded_def WriteGuard_new_def WriteGuard_drop_def cap_of_def)
  have c: "0 < free_count ?m" by (rule seg(2))
  have s: "unat ?s < SEGMENT_LEN" "he_object (es ! unat ?s) = 0"
  proof -
    from es(2) obtain fl where "seg_free es ?m fl" "length es = SEGMENT_LEN"
      "{j. j < SEGMENT_LEN \<and> he_object (es ! j) = 0} = unat ` set fl \<union> defer_slots (ht_defer_ring t) seg"
      unfolding seg_inv_def by blast
    moreover from this(1) c have "?s \<in> set fl" using seg_free_pop by fastforce
    ultimately have "unat ?s \<in> {j. j < SEGMENT_LEN \<and> he_object (es ! j) = 0}" by simp
    then show "unat ?s < SEGMENT_LEN" "he_object (es ! unat ?s) = 0" by simp_all
  qed
  have "cap_type (KObjectType_from_u32 (he_object_type e)) (he_rights e)"
    using e(4) ok(2) by (simp add: cap_of_def)
  then have eok: "entry_ok e"
    using seg_invD(2) [OF es(2) s(1)] by (simp add: entry_ok_def e(3,5) generation_le)
  have len: "seg < length (ht_directory t)" "unat ?s < length es" "length es = SEGMENT_LEN"
    using seg(1) table_invD(1,3) [OF inv] s(1) seg_invD(1) [OF es(2)] by simp_all
  have sel: "ht_directory t' = (ht_directory t)[seg := Some (es[unat ?s := e])]"
    "ht_segment_meta t' = (ht_segment_meta t)[seg := m]" "ht_segments_count t' = ht_segments_count t"
    "ht_defer_ring t' = ht_defer_ring t" "ht_grace t' = ht_grace t"
    using es(1) by (simp_all add: t'_def upd_entry_def)
  have tinv: "table_inv t'"
    using seg_inv_take(4) [OF es(2) c e(1) eok e(2)] table_invD(5,6) [OF inv]
    by (intro table_inv_step [OF inv seg(1) _ _ _ sel(1-4)]) (simp_all add: m_def sel(5))
  have dir: "seg < DIRECTORY_LEN" using seg(1) table_invD(3) [OF inv] by simp
  have dec: "RawHandle_decode ?h = (of_nat seg, ?s, ?g)" "unat (of_nat seg :: u32) = seg"
    using decode_slot(1) [OF dir s(1), of ?g] decode_slot(2) [OF dir s(1)] by simp_all
  have none: "caps t ?h = None"
    using caps_at [OF dec(1), of t es] len es(1) s by (simp add: dec(2) grants_def)
  have "caps t' = (caps t)(?h \<mapsto> cap_of e)"
    using caps_write [OF dir len(1) es(1) s(1) len(3) sel(1)] s(2) by (simp add: e(1,3) grants_def)
  with that [OF take tinv es(1) refl s(1) none sel(5,4)] e(4) show ?thesis by simp
qed

text \<open>
  Allocation returns on every well-formed table, after at most one growth.
\<close>

lemma allocate_loop_returns:
  assumes inv: "table_inv t" and ok: "object \<noteq> 0" "is_rights_compatible ty rights"
  shows "\<exists>t' r. allocate_loop mem t owner object ty rights = Some (t', r) \<and> table_inv t'
    \<and> (quiet (ht_grace t) \<longrightarrow> quiet (ht_grace t'))
    \<and> (case r of Inl e \<Rightarrow> caps t' = caps t
          \<and> (e = OutOfHandles \<and> segs t' = DIRECTORY_LEN \<and> (\<forall>i < DIRECTORY_LEN. free_count (ht_segment_meta t' ! i) = 0)
            \<or> e = OutOfMemory \<and> \<not> (fst mem \<and> snd mem))
       | Inr h \<Rightarrow> caps t h = None \<and> caps t' = (caps t)(h \<mapsto>
           \<lparr>c_object = object, c_type = KObjectType_as_u32 ty, c_owner = owner, c_rights = rights\<rparr>))"
  using inv
proof (induction "DIRECTORY_LEN - segs t" arbitrary: t rule: less_induct)
  case less
  note d = drain_expired_inv [OF less.prems]
  let ?t = "drain_expired t"
  have quiet: "quiet (ht_grace ?t) = quiet (ht_grace t)" by (simp add: d(3) quiet_def)
  show ?case
  proof (cases "scan_free ?t")
    case (Some seg)
    note sc = scan_free_Some [OF Some]
    obtain t' h where "take_slot ?t seg owner object ty rights = Some (t', h)" "table_inv t'"
      "caps ?t h = None" "ht_grace t' = ht_grace ?t"
      "caps t' = (caps ?t)(h \<mapsto> \<lparr>c_object = object, c_type = KObjectType_as_u32 ty, c_owner = owner, c_rights = rights\<rparr>)"
      using take_slot_inv [OF d(1) sc ok] by metis
    then show ?thesis using quiet d(2) by (simp add: allocate_loop.simps [of mem t] Some)
  next
    case None
    obtain t' r where g: "grow_one mem ?t = (t', r)" by fastforce
    note gi = grow_one_inv [OF d(1) g]
    show ?thesis
    proof (cases r)
      case (Inl e)
      have "segs ?t = DIRECTORY_LEN \<and> t' = ?t \<and> e = OutOfHandles \<or> e = OutOfMemory \<and> \<not> (fst mem \<and> snd mem)"
        using grow_one_cases [OF d(1) g] Inl by auto
      then show ?thesis using gi quiet d(2) scan_free_None [OF None]
        by (auto simp: allocate_loop.simps [of mem t] None g Inl)
    next
      case (Inr u)
      then have lt: "segs ?t < segs t'" using gi(4) by (cases r) auto
      have seg: "segs ?t = segs t" by simp
      have "DIRECTORY_LEN - segs t' < DIRECTORY_LEN - segs t"
        using lt seg table_invD(3) [OF gi(1)] by simp
      note ih = less.hyps [OF this gi(1), unfolded gi(2,3) d(2) quiet]
      show ?thesis using ih by (simp add: allocate_loop.simps [of mem t] None g Inr)
    qed
  qed
qed

end
