(* ===== verification/Handle_Close.thy ===== *)
theory Handle_Close
  imports Handle_Alloc
begin

text \<open>
  Closing, restricting and claiming handles: what the locked validation decides, that each
  operation keeps the table's invariant, and its exact effect on the capabilities.
\<close>

section \<open>The entry behind a capability\<close>

lemma caps_SomeE:
  assumes inv: "table_inv t" and c: "caps t h = Some c"
  obtains i j es where "i < segs t" "i < DIRECTORY_LEN" "ht_directory t ! i = Some es"
    "seg_inv (defer_slots (ht_defer_ring t) i) es (ht_segment_meta t ! i)" "j < SEGMENT_LEN"
    "RawHandle_decode h = (of_nat i, of_nat j, he_generation (es ! j))"
    "h = RawHandle_encode (of_nat i) (of_nat j) (he_generation (es ! j))"
    "he_object (es ! j) \<noteq> 0" "c = cap_of (es ! j)"
proof -
  obtain sg sl g where h: "RawHandle_decode h = (sg, sl, g)" by (metis prod_cases3)
  have "\<not> (length (ht_directory t) \<le> unat sg \<or> ht_directory t ! unat sg = None \<or> SEGMENT_LEN \<le> unat sl)"
    using c caps_absent [OF h, of t] by (metis option.distinct(1))
  then have dir: "unat sg < DIRECTORY_LEN" "unat sl < SEGMENT_LEN" "ht_directory t ! unat sg \<noteq> None"
    using table_invD(1) [OF inv] by simp_all
  then obtain es where es: "ht_directory t ! unat sg = Some es" by auto
  have "grants (es ! unat sl) g = Some c"
    using c caps_at [OF h _ es] dir table_invD(1) [OF inv] by simp
  then have e: "he_generation (es ! unat sl) = g" "he_object (es ! unat sl) \<noteq> 0" "c = cap_of (es ! unat sl)"
    by (auto simp: grants_def split: if_splits)
  note p = table_inv_present [OF inv dir(1) es]
  have "RawHandle_decode h = (of_nat (unat sg), of_nat (unat sl), he_generation (es ! unat sl))"
    by (simp add: h e(1))
  from that [OF p(1) dir(1) es p(2) dir(2) this _ e(2,3)] show ?thesis
    using encode_of_decode [OF h] unfolding e(1) by metis
qed

section \<open>Validation under the lock\<close>

lemma validate_cap:
  assumes inv: "table_inv t" and c: "caps t h = Some c" and h: "h \<noteq> 0"
  shows "validate_locked t h pid =
    (if c_owner c \<noteq> pid then Inl NotOwner
     else (case RawHandle_decode h of (sg, sl, g) \<Rightarrow>
       Inr (unat sg, unat sl, the (ht_directory t ! unat sg) ! unat sl)))"
proof -
  from caps_SomeE [OF inv c] obtain i j es where e: "i < DIRECTORY_LEN" "ht_directory t ! i = Some es"
    "j < SEGMENT_LEN" "RawHandle_decode h = (of_nat i, of_nat j, he_generation (es ! j))"
    "he_object (es ! j) \<noteq> 0" "c = cap_of (es ! j)" by metis
  note u = decode_slot(2,3) [OF e(1,3)]
  show ?thesis using e h by (simp add: validate_locked_def RawHandle_is_null_def u cap_of_def)
qed

lemma validate_no_cap:
  assumes inv: "table_inv t" and c: "caps t h = None" and h: "h \<noteq> 0"
  shows "validate_locked t h pid \<in> {Inl InvalidHandle, Inl NotOwner}"
proof -
  obtain sg sl g where d: "RawHandle_decode h = (sg, sl, g)" by (metis prod_cases3)
  show ?thesis
  proof (cases "unat sg < DIRECTORY_LEN \<and> unat sl < SEGMENT_LEN \<and> ht_directory t ! unat sg \<noteq> None")
    case True
    then obtain es where es: "ht_directory t ! unat sg = Some es" by auto
    have "grants (es ! unat sl) g = None"
      using c caps_at [OF d _ es] True table_invD(1) [OF inv] by simp
    then show ?thesis
      using True es h by (auto simp: validate_locked_def RawHandle_is_null_def d grants_def Let_def split: if_splits)
  next
    case False
    then show ?thesis using h by (auto simp: validate_locked_def RawHandle_is_null_def d split: option.splits)
  qed
qed

lemma validate_null: "validate_locked t 0 pid = Inl NullHandle"
  by (simp add: validate_locked_def RawHandle_is_null_def)

section \<open>Taking a live entry out\<close>

abbreviation unpublish :: "HandleEntry \<Rightarrow> HandleEntry" where
  "unpublish \<equiv> guarded (\<lambda>e. e\<lparr>he_object := 0\<rparr>)"

lemma unpublish_sel:
  "he_object (unpublish e) = 0" "he_generation (unpublish e) = he_generation e"
  "he_free_next (unpublish e) = he_free_next e" "he_seq (unpublish e) = he_seq e + 2"
  by (simp_all add: guarded_def WriteGuard_new_def WriteGuard_drop_def)

lemma entry_ok_unpublish: "entry_ok e \<Longrightarrow> entry_ok (unpublish e)"
  by (simp add: entry_ok_def unpublish_sel)

lemma unpublish_inv:
  assumes inv: "table_inv t" and i: "i < segs t" "ht_directory t ! i = Some es" and j: "j < SEGMENT_LEN"
    and live: "he_object (es ! j) \<noteq> 0"
    and push: "dq_push (ht_defer_ring t) d = Some q" and d: "slot_of d = (i, j)"
  shows "table_inv (upd_entry (t\<lparr>ht_defer_ring := q\<rparr>) i j unpublish)"
    "caps (upd_entry (t\<lparr>ht_defer_ring := q\<rparr>) i j unpublish)
      = (caps t)(RawHandle_encode (of_nat i) (of_nat j) (he_generation (es ! j)) := None)"
proof -
  let ?t = "upd_entry (t\<lparr>ht_defer_ring := q\<rparr>) i j unpublish"
  have dir: "i < DIRECTORY_LEN" "i < length (ht_directory t)"
    using i table_invD(1,3) [OF inv] by simp_all
  note seg = table_inv_present(2) [OF inv dir(1) i(2)]
  have ring: "dq_inv q" "dq_contents q = dq_contents (ht_defer_ring t) @ [d]"
    "dq_capacity q = dq_capacity (ht_defer_ring t)"
    using dq_push_ok [OF _ push] table_invD(5) [OF inv] by (simp_all add: ring_ok_def)
  have rs: "ring_slots q = ring_slots (ht_defer_ring t) @ [(i, j)]"
    by (simp add: ring_slots_def ring(2) d)
  have "(i, j) \<notin> set (ring_slots (ht_defer_ring t))"
    using seg_invD(3) [OF seg, of j] live by (auto simp: defer_slots_def)
  then have q: "ring_ok q" using table_invD(5) [OF inv] ring rs by (simp add: ring_ok_def)
  have ds: "defer_slots q k = (if k = i then insert j (defer_slots (ht_defer_ring t) k)
      else defer_slots (ht_defer_ring t) k)" for k by (auto simp: defer_slots_def rs)
  have sel: "ht_directory ?t = (ht_directory t)[i := Some (es[j := unpublish (es ! j)])]"
    "ht_segment_meta ?t = (ht_segment_meta t)[i := ht_segment_meta t ! i]"
    "ht_segments_count ?t = ht_segments_count t" "ht_defer_ring ?t = q" "ht_grace ?t = ht_grace t"
    using i(2) by (simp_all add: upd_entry_def)
  show "table_inv ?t"
    using seg_inv_close [OF seg j live unpublish_sel(1) entry_ok_unpublish unpublish_sel(3)]
      seg_invD(2) [OF seg j] q table_invD(6) [OF inv]
    by (intro table_inv_step [OF inv i(1) _ _ _ sel(1-4)]) (simp_all add: ds sel(5))
  show "caps ?t = (caps t)(RawHandle_encode (of_nat i) (of_nat j) (he_generation (es ! j)) := None)"
    using caps_write [OF dir i(2) j seg_invD(1) [OF seg] sel(1)]
    by (simp add: unpublish_sel grants_def)
qed

section \<open>Draining beside a slot that is not in the ring\<close>

lemma reclaim_front_commute:
  assumes inv: "table_inv t" and d: "dq_front (ht_defer_ring t) = Some d" and ij: "slot_of d \<noteq> (i, j)"
    and dir: "ht_directory t ! i \<noteq> None" "i < length (ht_directory t)"
  shows "reclaim_front (upd_entry t i j f) d = upd_entry (reclaim_front t d) i j f"
proof -
  obtain sg sl g where h: "RawHandle_decode (dc_handle d) = (sg, sl, g)" by (metis prod_cases3)
  obtain es where es: "ht_directory t ! i = Some es" using dir by auto
  have sg: "unat sg < segs t"
    using table_invD(7) [OF inv, of "slot_of d"] ring_slots_pop(2) [OF table_invD(5) [OF inv] d]
    by (simp add: slot_of_def h)
  obtain es' where es': "ht_directory t ! unat sg = Some es'" using table_inv_seg [OF inv sg] by metis
  show ?thesis
  proof (cases "unat sg = i")
    case True
    then have "unat sl \<noteq> j" using ij by (auto simp: slot_of_def h)
    then have "(es[j := f (es ! j)])[unat sl := y] = (es[unat sl := y])[j := f (es ! j)]" for y
      by (rule list_update_swap [OF not_sym])
    then show ?thesis
      using True es dir(2) \<open>unat sl \<noteq> j\<close> by (simp add: reclaim_front_def h Let_def upd_entry_def)
  next
    case False
    then have "(ht_directory t)[i := x, unat sg := y] = (ht_directory t)[unat sg := y, i := x]" for x y
      by (rule list_update_swap [OF not_sym])
    then show ?thesis
      using es es' dir(2) False by (simp add: reclaim_front_def h Let_def upd_entry_def)
  qed
qed

lemma reclaim_front_dir:
  "(ht_directory (reclaim_front t d) ! i = None) = (ht_directory t ! i = None)"
  "length (ht_directory (reclaim_front t d)) = length (ht_directory t)"
  by (simp_all add: reclaim_front_def Let_def upd_entry_def update_field [where f = "\<lambda>x. x = None"]
      split: prod.splits option.splits)

lemma drain_loop_commute:
  assumes "table_inv t" "(i, j) \<notin> set (ring_slots (ht_defer_ring t))"
    "ht_directory t ! i \<noteq> None" "i < length (ht_directory t)"
  shows "drain_loop (upd_entry t i j f) = upd_entry (drain_loop t) i j f"
  using assms
proof (induction t rule: drain_loop.induct)
  case (1 t)
  show ?case
  proof (cases "dq_front (ht_defer_ring t)")
    case None
    then show ?thesis by (simp add: drain_loop.simps [of t] drain_loop.simps [of "upd_entry t i j f"])
  next
    case (Some d)
    note q = ring_slots_pop [OF table_invD(5) [OF "1.prems"(1)] Some]
    have ij: "slot_of d \<noteq> (i, j)" using "1.prems"(2) q(2) by auto
    note r = reclaim_front_inv [OF "1.prems"(1) Some]
    have dir: "ht_directory (reclaim_front t d) ! i \<noteq> None" "i < length (ht_directory (reclaim_front t d))"
      using "1.prems"(3,4) reclaim_front_dir by simp_all
    have nin: "(i, j) \<notin> set (ring_slots (ht_defer_ring (reclaim_front t d)))"
      using "1.prems"(2) q(2) by (simp add: ring_reclaim_front)
    show ?thesis
      using "1.IH" [OF Some _ r(1) nin dir] reclaim_front_commute [OF "1.prems"(1) Some ij "1.prems"(3,4)]
      by (simp add: drain_loop.simps [of t] drain_loop.simps [of "upd_entry t i j f"] Some)
  qed
qed

lemma drain_expired_commute:
  assumes "table_inv t" "(i, j) \<notin> set (ring_slots (ht_defer_ring t))"
    "ht_directory t ! i \<noteq> None" "i < length (ht_directory t)"
  shows "drain_expired (upd_entry t i j f) = upd_entry (drain_expired t) i j f"
  unfolding drain_expired_def Let_def drain_loop_commute [OF assms]
  by (simp add: upd_entry_def split: option.splits)

section \<open>Close\<close>

lemma close_ok:
  assumes inv: "table_inv t" and q: "quiet (ht_grace t)"
    and c: "caps t h = Some c" "h \<noteq> 0" "c_owner c = pid"
  shows "\<exists>t'. close t h pid = Some (t', Inr (c_object c)) \<and> table_inv t' \<and> quiet (ht_grace t')
    \<and> caps t' = (caps t)(h := None)"
proof -
  from caps_SomeE [OF inv c(1)] obtain i j es where e: "i < segs t" "i < DIRECTORY_LEN"
    "ht_directory t ! i = Some es" "seg_inv (defer_slots (ht_defer_ring t) i) es (ht_segment_meta t ! i)"
    "j < SEGMENT_LEN" "RawHandle_decode h = (of_nat i, of_nat j, he_generation (es ! j))"
    "he_object (es ! j) \<noteq> 0" "c = cap_of (es ! j)" by metis
  note u = decode_slot(2,3) [OF e(2,5)]
  have val: "validate_locked t h pid = Inr (i, j, es ! j)"
    using validate_cap [OF inv c(1,2)] c(3) by (simp add: e(3,6) u)
  have nin: "(i, j) \<notin> set (ring_slots (ht_defer_ring t))"
    using seg_invD(3) [OF e(4), of j] e(7) by (auto simp: defer_slots_def)
  have dir: "ht_directory t ! i \<noteq> None" "i < length (ht_directory t)"
    using e(2,3) table_invD(1) [OF inv] by simp_all
  note drain = drain_expired_inv [OF inv]
  let ?t = "drain_expired t" and ?d = "\<lparr>dc_handle = h, dc_epoch = g_epoch (ht_grace t)\<rparr>"
  have comm: "drain_expired (upd_entry t i j unpublish) = upd_entry ?t i j unpublish"
    by (rule drain_expired_commute [OF inv nin dir])
  have c': "caps ?t h = Some c" using c(1) drain(2) by simp
  from caps_SomeE [OF drain(1) c'] obtain i' j' es' where e': "i' < segs ?t" "i' < DIRECTORY_LEN"
    "ht_directory ?t ! i' = Some es'" "j' < SEGMENT_LEN"
    "RawHandle_decode h = (of_nat i', of_nat j', he_generation (es' ! j'))"
    "h = RawHandle_encode (of_nat i') (of_nat j') (he_generation (es' ! j'))" "he_object (es' ! j') \<noteq> 0"
    by metis
  have same: "i' = i" "j' = j" using e(6) e'(5) u decode_slot(2,3) [OF e'(2,4)] by auto
  have "dq_contents (ht_defer_ring ?t) = []" by (rule drain(4) [OF q])
  then have "dq_push (ht_defer_ring ?t) ?d \<noteq> None"
    using dq.push_full [of "ht_defer_ring ?t" ?d] table_invD(5) [OF drain(1)]
    by (simp add: ring_ok_def DEFER_RING_CAPACITY_def)
  then obtain ring where ring: "dq_push (ht_defer_ring ?t) ?d = Some ring" by auto
  have so: "slot_of ?d = (i, j)" by (simp add: slot_of_def e(6) u)
  note un = unpublish_inv [OF drain(1) e'(1,3,4,7) ring, unfolded same, OF so]
  have q': "quiet (ht_grace ?t)" using q by (simp add: drain(3) quiet_def)
  let ?g = "(ht_grace ?t)\<lparr>g_epoch := g_epoch (ht_grace ?t) + 1\<rparr>"
  let ?t' = "(upd_entry ?t i j unpublish)\<lparr>ht_defer_ring := ring, ht_grace := ?g\<rparr>"
  have close: "close t h pid = Some (?t', Inr (c_object c))"
    using ring by (simp add: close_def val Let_def comm quiet_synchronize [OF q'] e(8) cap_of_def)
  have eq: "ht_directory ?t' = ht_directory (upd_entry (?t\<lparr>ht_defer_ring := ring\<rparr>) i j unpublish)"
    by (simp add: upd_entry_def split: option.splits)
  have "table_inv ?t'"
    using q' by (intro table_inv_cong [OF un(1) eq]) (simp_all add: quiet_def)
  moreover have "caps ?t' = (caps t)(h := None)"
    using caps_cong [OF eq] un(2) e'(6) by (simp add: same drain(2))
  moreover have "quiet (ht_grace ?t')" using q' by (simp add: quiet_def)
  ultimately show ?thesis using close by blast
qed

lemma close_refused:
  assumes inv: "table_inv t" and c: "\<not> (h \<noteq> 0 \<and> (\<exists>c. caps t h = Some c \<and> c_owner c = pid))"
  shows "\<exists>e. close t h pid = Some (t, Inl e) \<and> (h = 0 \<longrightarrow> e = NullHandle)
    \<and> (h \<noteq> 0 \<longrightarrow> e \<in> {InvalidHandle, NotOwner}) \<and> (h \<noteq> 0 \<longrightarrow> caps t h \<noteq> None \<longrightarrow> e = NotOwner)"
proof (cases "h = 0")
  case True
  then show ?thesis by (simp add: close_def validate_null)
next
  case False
  show ?thesis
  proof (cases "caps t h")
    case None
    with validate_no_cap [OF inv None False, of pid] False show ?thesis by (auto simp: close_def)
  next
    case (Some cc)
    with validate_cap [OF inv Some False, of pid] False c show ?thesis by (auto simp: close_def)
  qed
qed

section \<open>Restrict\<close>

lemma restrict_ok:
  assumes inv: "table_inv t" and c: "caps t h = Some c" "h \<noteq> 0" "c_owner c = pid"
  shows "\<exists>t'. restrict t h pid r = (t', Inr ()) \<and> table_inv t' \<and> ht_grace t' = ht_grace t
    \<and> caps t' = (caps t)(h \<mapsto> c\<lparr>c_rights := Rights_intersection (c_rights c) r\<rparr>)"
proof -
  from caps_SomeE [OF inv c(1)] obtain i j es where e: "i < segs t" "i < DIRECTORY_LEN"
    "ht_directory t ! i = Some es" "seg_inv (defer_slots (ht_defer_ring t) i) es (ht_segment_meta t ! i)"
    "j < SEGMENT_LEN" "RawHandle_decode h = (of_nat i, of_nat j, he_generation (es ! j))"
    "h = RawHandle_encode (of_nat i) (of_nat j) (he_generation (es ! j))"
    "he_object (es ! j) \<noteq> 0" "c = cap_of (es ! j)" by metis
  note u = decode_slot(2,3) [OF e(2,5)]
  have val: "validate_locked t h pid = Inr (i, j, es ! j)"
    using validate_cap [OF inv c(1,2)] c(3) by (simp add: e(3,6) u)
  define e' where "e' = guarded (\<lambda>x. x\<lparr>he_rights := Rights_intersection (he_rights (es ! j)) r\<rparr>) (es ! j)"
  have sel: "he_object e' = he_object (es ! j)" "he_generation e' = he_generation (es ! j)"
    "he_free_next e' = he_free_next (es ! j)" "cap_of e' = c\<lparr>c_rights := Rights_intersection (c_rights c) r\<rparr>"
    "he_seq e' = he_seq (es ! j) + 2" "he_object_type e' = he_object_type (es ! j)"
    "he_rights e' = Rights_intersection (he_rights (es ! j)) r"
    by (simp_all add: e'_def guarded_def WriteGuard_new_def WriteGuard_drop_def cap_of_def e(9))
  define t' where "t' = upd_entry t i j (\<lambda>_. e')"
  have r: "restrict t h pid r = (t', Inr ())"
    by (simp add: restrict_def val Let_def t'_def e'_def upd_entry_def e(3))
  have ok: "entry_ok e'"
    using seg_invD(2) [OF e(4,5)] e(8) compatible_mono
    by (cases "KObjectType_from_u32 (he_object_type (es ! j))") (auto simp: entry_ok_def sel)
  have t: "ht_directory t' = (ht_directory t)[i := Some (es[j := e'])]"
    "ht_segment_meta t' = (ht_segment_meta t)[i := ht_segment_meta t ! i]"
    "ht_segments_count t' = ht_segments_count t" "ht_defer_ring t' = ht_defer_ring t" "ht_grace t' = ht_grace t"
    using e(3) by (simp_all add: t'_def upd_entry_def)
  have "table_inv t'"
    using seg_inv_meta_write [OF e(4,5) ok] sel table_invD(5,6) [OF inv]
    by (intro table_inv_step [OF inv e(1) _ _ _ t(1-4)]) (simp_all add: t(5))
  moreover have "caps t' = (caps t)(h \<mapsto> c\<lparr>c_rights := Rights_intersection (c_rights c) r\<rparr>)"
    using caps_write [OF e(2) _ e(3,5) seg_invD(1) [OF e(4)] t(1)] table_invD(1) [OF inv] e(2,7,8)
    by (simp add: sel grants_def)
  ultimately show ?thesis using r t(5) by blast
qed

lemma restrict_refused:
  assumes inv: "table_inv t" and c: "\<not> (h \<noteq> 0 \<and> (\<exists>c. caps t h = Some c \<and> c_owner c = pid))"
  shows "\<exists>e. restrict t h pid r = (t, Inl e) \<and> (h = 0 \<longrightarrow> e = NullHandle)
    \<and> (h \<noteq> 0 \<longrightarrow> e \<in> {InvalidHandle, NotOwner}) \<and> (h \<noteq> 0 \<longrightarrow> caps t h \<noteq> None \<longrightarrow> e = NotOwner)"
proof (cases "h = 0")
  case True
  then show ?thesis by (simp add: restrict_def validate_null)
next
  case False
  show ?thesis
  proof (cases "caps t h")
    case None
    with validate_no_cap [OF inv None False, of pid] False show ?thesis by (auto simp: restrict_def)
  next
    case (Some cc)
    with validate_cap [OF inv Some False, of pid] False c show ?thesis by (auto simp: restrict_def)
  qed
qed

end
