(* ===== verification/Handle_Lookup.thy ===== *)
theory Handle_Lookup
  imports Handle_Close
begin

text \<open>
  The kernel-wide invariant of the handle system: the table is well formed, every object's count is
  the number of handles that name it plus the references held outside the table, and each handle's
  type tag is its object's. Lookup, and every operation built on it, keeps the invariant and is
  decided by the capability of the handle alone.
\<close>

section \<open>Handles that name an object\<close>

definition refs :: "(u64 \<Rightarrow> cap option) \<Rightarrow> u64 \<Rightarrow> nat" where
  "refs m p = card {h. \<exists>c. m h = Some c \<and> c_object c = p}"

lemma refs_insert:
  assumes "m h = None"
  shows "refs (m(h \<mapsto> c)) = (refs m)(c_object c := refs m (c_object c) + 1)"
proof
  fix p
  have "{x. \<exists>d. (m(h \<mapsto> c)) x = Some d \<and> c_object d = p}
      = (if c_object c = p then insert h {x. \<exists>d. m x = Some d \<and> c_object d = p}
         else {x. \<exists>d. m x = Some d \<and> c_object d = p})"
    using assms by auto
  then show "refs (m(h \<mapsto> c)) p = ((refs m)(c_object c := refs m (c_object c) + 1)) p"
    using assms by (auto simp: refs_def)
qed

lemma refs_delete:
  assumes "m h = Some c"
  shows "refs m = (refs (m(h := None)))(c_object c := refs (m(h := None)) (c_object c) + 1)"
  using refs_insert [of "m(h := None)" h c] fun_upd_idem [of m h "Some c", OF assms] by simp

lemma refs_pos: "m h = Some c \<Longrightarrow> 0 < refs m (c_object c)"
  by (subst refs_delete [of m h c]) simp_all

lemma refs_modify:
  assumes "m h = Some c" "c_object c' = c_object c"
  shows "refs (m(h \<mapsto> c')) = refs m"
  using refs_insert [of "m(h := None)" h c'] refs_delete [of m, OF assms(1)] assms(2) by simp

section \<open>The invariant\<close>

definition cap_typed :: "kheap \<Rightarrow> cap \<Rightarrow> bool" where
  "cap_typed hp c \<longleftrightarrow> map_option (\<lambda>hdr. KObjectType_as_u32 (kh_object_type hdr)) (hp (c_object c)) = Some (c_type c)"

definition kernel_inv :: "Kernel \<Rightarrow> (u64 \<Rightarrow> nat) \<Rightarrow> bool" where
  "kernel_inv k held \<longleftrightarrow> table_inv (k_table k)
     \<and> counts (k_objs k) (\<lambda>p. refs (caps (k_table k)) p + held p)
     \<and> (\<forall>h c. caps (k_table k) h = Some c \<longrightarrow> cap_typed (k_objs k) c) \<and> k_objs k 0 = None"

text \<open>No object has more references than its counter may reach.\<close>

definition countable_refs :: "Kernel \<Rightarrow> (u64 \<Rightarrow> nat) \<Rightarrow> bool" where
  "countable_refs k held \<longleftrightarrow> (\<forall>p. refs (caps (k_table k)) p + held p \<le> unat MAX_REFCOUNT)"

lemma kernel_invD:
  assumes "kernel_inv k held"
  shows "table_inv (k_table k)" "counts (k_objs k) (\<lambda>p. refs (caps (k_table k)) p + held p)"
    "caps (k_table k) h = Some c \<Longrightarrow> cap_typed (k_objs k) c" "k_objs k 0 = None"
  using assms by (simp_all add: kernel_inv_def)

text \<open>A change of the heap that keeps the objects' types keeps what the handles say of them.\<close>

lemma cap_typed_cong:
  assumes "map_option kh_object_type (hp' (c_object c)) = map_option kh_object_type (hp (c_object c))"
  shows "cap_typed hp' c = cap_typed hp c"
  using assms by (cases "hp (c_object c)"; cases "hp' (c_object c)") (auto simp: cap_typed_def)

lemma kernel_inv_held_pos: "kernel_inv k held \<Longrightarrow> 0 < held p \<Longrightarrow> p \<noteq> 0"
  using counts_live [of "k_objs k" "\<lambda>p. refs (caps (k_table k)) p + held p" p]
  by (auto simp: kernel_inv_def)

text \<open>Releasing a held reference.\<close>

lemma release_held:
  assumes inv: "kernel_inv k held" and p: "0 < held p"
  shows "kernel_inv (k\<lparr>k_objs := ObjectRef_drop (k_objs k) p\<rparr>) (held(p := held p - 1))"
proof -
  let ?rs = "\<lambda>p. refs (caps (k_table k)) p + held p"
  note c = kernel_invD [OF inv]
  have pos: "0 < ?rs p" using p by simp
  note d = drop_counts [OF c(2) pos]
  have eq: "?rs(p := ?rs p - 1) = (\<lambda>q. refs (caps (k_table k)) q + (held(p := held p - 1)) q)"
    using p by (intro ext) simp
  have 1: "counts (ObjectRef_drop (k_objs k) p) (\<lambda>q. refs (caps (k_table k)) q + (held(p := held p - 1)) q)"
    using d(1) by (simp only: eq)
  have 2: "cap_typed (ObjectRef_drop (k_objs k) p) cc" if cc: "caps (k_table k) h = Some cc" for h cc
  proof -
    have "map_option kh_object_type (ObjectRef_drop (k_objs k) p (c_object cc))
        = map_option kh_object_type (k_objs k (c_object cc))"
    proof (cases "c_object cc = p")
      case True
      have "?rs p \<noteq> 1" using refs_pos [of "caps (k_table k)", OF cc] p True by simp
      then show ?thesis using d(4) True by simp
    next
      case False
      then show ?thesis by (simp add: d(3))
    qed
    from cap_typed_cong [of "ObjectRef_drop (k_objs k) p" cc "k_objs k", OF this] show ?thesis using c(3) [OF cc] by simp
  qed
  have "p \<noteq> 0" using kernel_inv_held_pos [OF inv p] .
  then have 3: "ObjectRef_drop (k_objs k) p 0 = None" using d(3) [of 0] c(4) by simp
  show ?thesis using c(1) 1 2 3 by (simp add: kernel_inv_def)
qed

text \<open>Acquiring a reference to an object a handle names.\<close>

lemma acquire_named:
  assumes inv: "kernel_inv k held" and mx: "countable_refs k held"
    and p: "0 < refs (caps (k_table k)) p + held p"
  shows "\<exists>hp. try_acquire_refcount (k_objs k) p = Some (True, hp)
    \<and> kernel_inv (k\<lparr>k_objs := hp\<rparr>) (held(p := held p + 1))"
proof -
  let ?rs = "\<lambda>p. refs (caps (k_table k)) p + held p"
  note c = kernel_invD [OF inv]
  have "?rs p \<le> unat MAX_REFCOUNT" using mx by (simp add: countable_refs_def)
  from try_acquire_counts [OF c(2) p this] obtain hp where
    hp: "try_acquire_refcount (k_objs k) p = Some (True, hp)" "counts hp (?rs(p := ?rs p + 1))"
      "\<And>q. q \<noteq> p \<Longrightarrow> hp q = k_objs k q"
      "map_option kh_object_type (hp p) = map_option kh_object_type (k_objs k p)" by blast
  have "?rs(p := ?rs p + 1) = (\<lambda>q. refs (caps (k_table k)) q + (held(p := held p + 1)) q)" by auto
  then have 1: "counts hp (\<lambda>q. refs (caps (k_table k)) q + (held(p := held p + 1)) q)" using hp(2) by simp
  have 2: "cap_typed hp cc" if "caps (k_table k) h = Some cc" for h cc
    using c(3) [OF that] hp(3,4) cap_typed_cong [of hp cc "k_objs k"] by (cases "c_object cc = p") simp_all
  have "p \<noteq> 0" using c(4) counts_live [OF c(2) p] by auto
  then have "hp 0 = None" using hp(3) c(4) by simp
  with c(1) 1 2 hp(1) show ?thesis by (simp add: kernel_inv_def)
qed

lemma acquire_release:
  assumes "kernel_inv (k\<lparr>k_objs := hp\<rparr>) (held(p := held p + 1))"
  shows "kernel_inv (k\<lparr>k_objs := ObjectRef_drop hp p\<rparr>) held"
  using release_held [OF assms, of p] by simp

section \<open>Lookup\<close>

lemma read_section_sel [simp]:
  "k_objs (read_section k ctx) = k_objs k"
  "caps (k_table (read_section k ctx)) = caps (k_table k)"
  "ht_directory (k_table (read_section k ctx)) = ht_directory (k_table k)"
  using caps_cong [of "k_table (read_section k ctx)" "k_table k"] by (simp_all add: read_section_def)

lemma read_section_inv:
  assumes "kernel_inv k held"
  shows "kernel_inv (read_section k ctx) held"
proof -
  have "table_inv (k_table (read_section k ctx))"
    using table_invD(6) [OF kernel_invD(1) [OF assms]]
    by (intro table_inv_cong [OF kernel_invD(1) [OF assms]])
      (simp_all add: read_section_def ReadGuard_drop_def enter_read_def Let_def)
  then show ?thesis using assms by (simp add: kernel_inv_def)
qed

lemma read_section_quiet:
  "quiet (ht_grace (k_table k)) \<Longrightarrow> unat ctx < MAX_CTX \<Longrightarrow> quiet (ht_grace (k_table (read_section k ctx)))"
  by (simp add: read_section_def quiet_read_section)

lemma read_section_countable: "countable_refs (read_section k ctx) held = countable_refs k held"
  by (simp add: countable_refs_def)

text \<open>What a lookup answers, from the capabilities alone.\<close>

definition lookup_decision :: "(u64 \<Rightarrow> cap option) \<Rightarrow> u64 \<Rightarrow> u32 \<Rightarrow> u64 \<Rightarrow> HandleError + LookupOk" where
  "lookup_decision m h pid required =
     (if h = 0 then Inl NullHandle
      else case m h of None \<Rightarrow> Inl InvalidHandle
      | Some c \<Rightarrow> if c_owner c \<noteq> pid then Inl NotOwner
                  else if \<not> Rights_is_subset_of required (c_rights c) then Inl NoAccess
                  else Inr \<lparr>lo_object = c_object c, lo_rights = c_rights c\<rparr>)"

text \<open>The references held outside the table after a lookup that answered \<open>r\<close>.\<close>

fun held_after :: "(u64 \<Rightarrow> nat) \<Rightarrow> HandleError + LookupOk \<Rightarrow> u64 \<Rightarrow> nat" where
  "held_after held (Inl _) = held"
| "held_after held (Inr ok) = held(lo_object ok := held (lo_object ok) + 1)"

text \<open>A lookup that reaches a live entry.\<close>

lemma lookup_live:
  assumes inv: "kernel_inv k held" and mx: "countable_refs k held"
    and h: "h \<noteq> 0" "RawHandle_decode h = (sg, sl, g)" "unat sg < DIRECTORY_LEN" "unat sl < SEGMENT_LEN"
    and es: "ht_directory (k_table k) ! unat sg = Some es" and live: "he_object (es ! unat sl) \<noteq> 0"
  shows "\<exists>k'. lookup k ctx h pid required = Some (k', lookup_decision (caps (k_table k)) h pid required)
    \<and> k_table k' = k_table (read_section k ctx)
    \<and> kernel_inv k' (held_after held (lookup_decision (caps (k_table k)) h pid required))"
proof -
  let ?e = "es ! unat sl" and ?k = "read_section k ctx"
  note t = kernel_invD(1) [OF inv]
  note p = table_inv_present [OF t h(3) es]
  have ok: "entry_ok ?e" using seg_invD(2) [OF p(2) h(4)] .
  have "caps (k_table k) (RawHandle_encode (of_nat (unat sg)) (of_nat (unat sl)) (he_generation ?e)) = Some (cap_of ?e)"
    using caps_at [OF decode_slot(1) [OF h(3,4)], of "k_table k" es] h(3,4) es live table_invD(1) [OF t]
    by (simp add: grants_def)
  from refs_pos [of "caps (k_table k)", OF this] have pos: "0 < refs (caps (k_table ?k)) (he_object ?e) + held (he_object ?e)"
    by (simp add: cap_of_def)
  from acquire_named [OF read_section_inv [OF inv] _ pos] mx obtain hp where
    hp: "try_acquire_refcount (k_objs k) (he_object ?e) = Some (True, hp)"
      "kernel_inv (?k\<lparr>k_objs := hp\<rparr>) (held(he_object ?e := held (he_object ?e) + 1))"
    by (auto simp: read_section_countable)
  have snap: "read_snapshot ?e = Some \<lparr>es_seq = he_seq ?e, es_generation = he_generation ?e,
      es_owner_pid = he_owner_pid ?e, es_rights = he_rights ?e, es_object_type = he_object_type ?e\<rparr>"
    using ok by (simp add: read_snapshot_def entry_ok_def)
  obtain ty where ty: "KObjectType_from_u32 (he_object_type ?e) = Some ty"
    using ok live by (cases "KObjectType_from_u32 (he_object_type ?e)") (auto simp: entry_ok_def)
  have even: "even (he_seq ?e)" using ok by (simp add: entry_ok_def)
  have c: "caps (k_table k) h = grants ?e g"
    using caps_at [OF h(2) _ es] h(3,4) table_invD(1) [OF t] by simp
  have "lookup k ctx h pid required = Some (lookup_checks (?k\<lparr>k_objs := hp\<rparr>) (he_object ?e)
      \<lparr>es_seq = he_seq ?e, es_generation = he_generation ?e, es_owner_pid = he_owner_pid ?e,
       es_rights = he_rights ?e, es_object_type = he_object_type ?e\<rparr> g pid required)"
    using h es live ty even by (simp add: lookup_def RawHandle_is_null_def snap Let_def hp(1))
  then show ?thesis
    using hp(2) acquire_release [OF hp(2)] h(1) live
    by (auto simp: lookup_checks_def Let_def lookup_decision_def c grants_def cap_of_def)
qed

lemma lookup_spec:
  assumes inv: "kernel_inv k held" and mx: "countable_refs k held" and q: "quiet (ht_grace (k_table k))" "unat ctx < MAX_CTX"
  shows "\<exists>k'. lookup k ctx h pid required = Some (k', lookup_decision (caps (k_table k)) h pid required)
    \<and> caps (k_table k') = caps (k_table k) \<and> quiet (ht_grace (k_table k'))
    \<and> kernel_inv k' (held_after held (lookup_decision (caps (k_table k)) h pid required))"
proof (cases "h = 0")
  case True
  then show ?thesis using inv q by (simp add: lookup_def lookup_decision_def RawHandle_is_null_def)
next
  case h: False
  obtain sg sl g where d: "RawHandle_decode h = (sg, sl, g)" by (metis prod_cases3)
  note t = kernel_invD(1) [OF inv]
  consider (absent) "DIRECTORY_LEN \<le> unat sg \<or> ht_directory (k_table k) ! unat sg = None \<or> SEGMENT_LEN \<le> unat sl"
    | (here) es where "unat sg < DIRECTORY_LEN" "unat sl < SEGMENT_LEN" "ht_directory (k_table k) ! unat sg = Some es"
    by (meson not_le option.exhaust)
  then show ?thesis
  proof cases
    case absent
    then have "caps (k_table k) h = None" using table_invD(1) [OF t] by (intro caps_absent [OF d]) auto
    then show ?thesis using absent h inv q
      by (auto simp: lookup_def lookup_decision_def RawHandle_is_null_def d split: option.splits)
  next
    case here
    show ?thesis
    proof (cases "he_object (es ! unat sl) = 0")
      case True
      have "caps (k_table k) h = None"
        using caps_at [OF d _ here(3)] here True table_invD(1) [OF t] by (simp add: grants_def)
      moreover have "read_snapshot (es ! unat sl) \<noteq> None"
        using seg_invD(2) [OF table_inv_present(2) [OF t here(1,3)] here(2)]
        by (simp add: read_snapshot_def entry_ok_def)
      ultimately show ?thesis
        using here True h read_section_inv [OF inv] read_section_quiet [OF q]
        by (auto simp: lookup_def lookup_decision_def RawHandle_is_null_def d Let_def)
    next
      case False
      then show ?thesis
        using lookup_live [OF inv mx h d here(1,2,3) False, of ctx pid required]
          read_section_quiet [OF q] read_section_sel(2) [of k ctx] by metis
    qed
  qed
qed

end
