(* ===== verification/Handle_Kernel.thy ===== *)
theory Handle_Kernel
  imports Handle_Lookup
begin

text \<open>
  The operations that move references between the table and their callers: install, duplicate,
  claim, close, stat and the install set. Each keeps the kernel-wide invariant, with the references
  held outside the table changed by exactly the ones it hands out or takes in.
\<close>

section \<open>References move in and out of the table\<close>

lemma kernel_inv_table:
  assumes inv: "kernel_inv k held" and t: "table_inv t'" and c: "caps t' = caps (k_table k)"
  shows "kernel_inv (k\<lparr>k_table := t'\<rparr>) held"
  using assms by (simp add: kernel_inv_def)

lemma move_in:
  assumes inv: "kernel_inv k held" and t: "table_inv t'"
    and c: "caps (k_table k) h = None" "caps t' = (caps (k_table k))(h \<mapsto> c)" "cap_typed (k_objs k) c"
    and p: "0 < held (c_object c)"
  shows "kernel_inv (k\<lparr>k_table := t'\<rparr>) (held(c_object c := held (c_object c) - 1))"
proof -
  have r: "refs (caps t') = (refs (caps (k_table k)))(c_object c := refs (caps (k_table k)) (c_object c) + 1)"
    unfolding c(2) by (rule refs_insert) (rule c(1))
  have "(\<lambda>q. refs (caps t') q + (held(c_object c := held (c_object c) - 1)) q)
      = (\<lambda>q. refs (caps (k_table k)) q + held q)"
    using p by (intro ext) (simp add: r)
  then have "counts (k_objs k) (\<lambda>q. refs (caps t') q + (held(c_object c := held (c_object c) - 1)) q)"
    using kernel_invD(2) [OF inv] by simp
  moreover have "cap_typed (k_objs k) d" if "caps t' x = Some d" for x d
    using that c(3) kernel_invD(3) [OF inv, of x] by (cases "x = h") (simp_all add: c(2))
  ultimately show ?thesis using t kernel_invD(4) [OF inv] by (simp add: kernel_inv_def)
qed

lemma move_out:
  assumes inv: "kernel_inv k held" and t: "table_inv t'"
    and c: "caps (k_table k) h = Some c" "caps t' = (caps (k_table k))(h := None)"
  shows "kernel_inv (k\<lparr>k_table := t'\<rparr>) (held(c_object c := held (c_object c) + 1))"
proof -
  have r: "refs (caps (k_table k)) = (refs (caps t'))(c_object c := refs (caps t') (c_object c) + 1)"
    unfolding c(2) by (rule refs_delete) (rule c(1))
  have "(\<lambda>q. refs (caps t') q + (held(c_object c := held (c_object c) + 1)) q)
      = (\<lambda>q. refs (caps (k_table k)) q + held q)"
    by (intro ext) (simp add: r)
  then have "counts (k_objs k) (\<lambda>q. refs (caps t') q + (held(c_object c := held (c_object c) + 1)) q)"
    using kernel_invD(2) [OF inv] by simp
  moreover have "cap_typed (k_objs k) d" if "caps t' x = Some d" for x d
    using that kernel_invD(3) [OF inv, of x] by (cases "x = h") (simp_all add: c(2))
  ultimately show ?thesis using t kernel_invD(4) [OF inv] by (simp add: kernel_inv_def)
qed

section \<open>Install\<close>

lemma install_spec:
  assumes inv: "kernel_inv k held" and p: "0 < held object"
    and ty: "ObjectRef_object_type (k_objs k) object = Some ty"
  shows "\<exists>k' r. install mem k owner object rights = Some (k', r) \<and> k_objs k' = k_objs k
    \<and> (quiet (ht_grace (k_table k)) \<longrightarrow> quiet (ht_grace (k_table k')))
    \<and> (case r of
         Inl e \<Rightarrow> caps (k_table k') = caps (k_table k) \<and> kernel_inv k' held
           \<and> (e = BadRights \<and> \<not> is_rights_compatible ty rights
              \<or> e \<in> {OutOfHandles, OutOfMemory} \<and> is_rights_compatible ty rights)
       | Inr h \<Rightarrow> is_rights_compatible ty rights \<and> caps (k_table k) h = None
           \<and> caps (k_table k') = (caps (k_table k))(h \<mapsto> \<lparr>c_object = object, c_type = KObjectType_as_u32 ty,
               c_owner = owner, c_rights = rights\<rparr>)
           \<and> kernel_inv k' (held(object := held object - 1)))"
proof (cases "is_rights_compatible ty rights")
  case False
  then show ?thesis using inv by (simp add: install_def ty allocate_def)
next
  case True
  note t = kernel_invD(1) [OF inv]
  have nz: "object \<noteq> 0" by (rule kernel_inv_held_pos [OF inv p])
  let ?c = "\<lparr>c_object = object, c_type = KObjectType_as_u32 ty, c_owner = owner, c_rights = rights\<rparr>"
  have typed: "cap_typed (k_objs k) ?c"
    using ty by (auto simp: cap_typed_def ObjectRef_object_type_def)
  from allocate_loop_returns [OF t nz True, of mem owner] obtain t' r where
    a: "allocate_loop mem (k_table k) owner object ty rights = Some (t', r)" "table_inv t'"
      "quiet (ht_grace (k_table k)) \<longrightarrow> quiet (ht_grace t')"
    and r: "case r of Inl e \<Rightarrow> caps t' = caps (k_table k) \<and> (e = OutOfHandles \<or> e = OutOfMemory)
       | Inr h \<Rightarrow> caps (k_table k) h = None \<and> caps t' = (caps (k_table k))(h \<mapsto> ?c)"
    by (fastforce split: sum.splits)
  have i: "install mem k owner object rights = Some (k\<lparr>k_table := t'\<rparr>, r)"
    by (simp add: install_def ty allocate_def True a(1))
  show ?thesis
  proof (cases r)
    case (Inl e)
    then show ?thesis using i a r True kernel_inv_table [OF inv a(2)] by simp
  next
    case (Inr h)
    then have c: "caps (k_table k) h = None" "caps t' = (caps (k_table k))(h \<mapsto> ?c)" using r by simp_all
    have "kernel_inv (k\<lparr>k_table := t'\<rparr>) (held(object := held object - 1))"
      using move_in [OF inv a(2) c typed] p by simp
    then show ?thesis using i a c True Inr by simp
  qed
qed

section \<open>Rights suit the object\<close>

lemma cap_compatible:
  assumes inv: "kernel_inv k held" and c: "caps (k_table k) h = Some c"
  obtains ty where "ObjectRef_object_type (k_objs k) (c_object c) = Some ty" "c_type c = KObjectType_as_u32 ty"
    "is_rights_compatible ty (c_rights c)"
proof -
  from caps_SomeE [OF kernel_invD(1) [OF inv] c] obtain i j es where
    e: "seg_inv (defer_slots (ht_defer_ring (k_table k)) i) es (ht_segment_meta (k_table k) ! i)" "j < SEGMENT_LEN"
      "he_object (es ! j) \<noteq> 0" "c = cap_of (es ! j)" by metis
  obtain hdr where hdr: "k_objs k (c_object c) = Some hdr" "c_type c = KObjectType_as_u32 (kh_object_type hdr)"
    using kernel_invD(3) [OF inv c] by (auto simp: cap_typed_def)
  have "cap_type (KObjectType_from_u32 (c_type c)) (c_rights c)"
    using seg_invD(2) [OF e(1,2)] e(3,4) by (simp add: entry_ok_def cap_of_def)
  then have "is_rights_compatible (kh_object_type hdr) (c_rights c)" by (simp add: hdr(2))
  then show ?thesis using that hdr by (simp add: ObjectRef_object_type_def)
qed

section \<open>Duplicate\<close>

lemma held_upd_back: "(held :: u64 \<Rightarrow> nat)(p := held p + 1, p := (held(p := held p + 1)) p - 1) = held"
  by auto

lemma duplicate_spec:
  assumes inv: "kernel_inv k held" and mx: "countable_refs k held"
    and q: "quiet (ht_grace (k_table k))" "unat ctx < MAX_CTX"
  shows "\<exists>k' r. duplicate mem k ctx h pid new_rights = Some (k', r) \<and> kernel_inv k' held
    \<and> quiet (ht_grace (k_table k'))
    \<and> (case r of
         Inl e \<Rightarrow> caps (k_table k') = caps (k_table k) \<and>
           (lookup_decision (caps (k_table k)) h pid Rights_DUPLICATE = Inl e \<or> e \<in> {OutOfHandles, OutOfMemory})
       | Inr h' \<Rightarrow> \<exists>c. h \<noteq> 0 \<and> caps (k_table k) h = Some c \<and> c_owner c = pid
           \<and> Rights_is_subset_of Rights_DUPLICATE (c_rights c) \<and> caps (k_table k) h' = None
           \<and> caps (k_table k') = (caps (k_table k))(h' \<mapsto> c\<lparr>c_rights := Rights_intersection (c_rights c) new_rights\<rparr>))"
proof -
  let ?d = "lookup_decision (caps (k_table k)) h pid Rights_DUPLICATE"
  from lookup_spec [OF inv mx q, of h pid Rights_DUPLICATE] obtain k1 where
    k1: "lookup k ctx h pid Rights_DUPLICATE = Some (k1, ?d)" "caps (k_table k1) = caps (k_table k)"
      "quiet (ht_grace (k_table k1))" "kernel_inv k1 (held_after held ?d)" by blast
  show ?thesis
  proof (cases ?d)
    case (Inl e)
    then show ?thesis using k1 by (simp add: duplicate_def)
  next
    case (Inr info)
    from Inr obtain c where c: "h \<noteq> 0" "caps (k_table k) h = Some c" "c_owner c = pid"
      "Rights_is_subset_of Rights_DUPLICATE (c_rights c)" "info = \<lparr>lo_object = c_object c, lo_rights = c_rights c\<rparr>"
      by (auto simp: lookup_decision_def split: if_splits option.splits)
    let ?p = "c_object c" and ?r = "Rights_intersection (c_rights c) new_rights"
    have inv1: "kernel_inv k1 (held(?p := held ?p + 1))" using k1(4) by (simp add: Inr c(5))
    from cap_compatible [OF inv1] c(2) k1(2) obtain ty where
      ty: "ObjectRef_object_type (k_objs k1) ?p = Some ty" "c_type c = KObjectType_as_u32 ty"
        "is_rights_compatible ty (c_rights c)" by metis
    have ok: "is_rights_compatible ty ?r" using compatible_mono [OF ty(3)] by simp
    have pos: "0 < (held(?p := held ?p + 1)) ?p" by simp
    obtain k2 r where i: "install mem k1 pid ?p ?r = Some (k2, r)" "k_objs k2 = k_objs k1"
        "quiet (ht_grace (k_table k2))"
      and r: "case r of Inl e \<Rightarrow> caps (k_table k2) = caps (k_table k1) \<and> kernel_inv k2 (held(?p := held ?p + 1))
           \<and> (e = OutOfHandles \<or> e = OutOfMemory)
         | Inr h' \<Rightarrow> caps (k_table k1) h' = None \<and> caps (k_table k2) = (caps (k_table k1))(h' \<mapsto>
             \<lparr>c_object = ?p, c_type = c_type c, c_owner = pid, c_rights = ?r\<rparr>) \<and> kernel_inv k2 held"
      using install_spec [OF inv1 pos ty(1), of mem pid ?r] k1(3) ok ty(2) held_upd_back [of held ?p]
      by (fastforce split: sum.splits)
    show ?thesis
    proof (cases r)
      case Err: (Inl e)
      then have inv2: "kernel_inv k2 (held(?p := held ?p + 1))" using r by simp
      have "kernel_inv (k2\<lparr>k_objs := ObjectRef_drop (k_objs k2) ?p\<rparr>) held"
        using release_held [OF inv2, of ?p] by simp
      then show ?thesis using Err r i k1(1,2) by (auto simp: duplicate_def Inr c(5))
    next
      case Ok: (Inr h')
      have eq: "c\<lparr>c_rights := ?r\<rparr> = \<lparr>c_object = ?p, c_type = c_type c, c_owner = pid, c_rights = ?r\<rparr>"
        using c(3) by simp
      show ?thesis using Ok r i k1(1,2) c by (simp add: duplicate_def Inr eq)
    qed
  qed
qed

section \<open>Close with release, and stat\<close>

lemma close_and_drop_spec:
  assumes inv: "kernel_inv k held" and q: "quiet (ht_grace (k_table k))"
  shows "\<exists>k'. close_and_drop k h pid = Some k' \<and> kernel_inv k' held \<and> quiet (ht_grace (k_table k'))
    \<and> caps (k_table k') = (if h \<noteq> 0 \<and> map_option c_owner (caps (k_table k) h) = Some pid
         then (caps (k_table k))(h := None) else caps (k_table k))"
proof (cases "h \<noteq> 0 \<and> map_option c_owner (caps (k_table k) h) = Some pid")
  case True
  then obtain c where c: "h \<noteq> 0" "caps (k_table k) h = Some c" "c_owner c = pid" by auto
  note t = kernel_invD(1) [OF inv]
  from close_ok [OF t q c(2,1,3)] obtain t' where t': "close (k_table k) h pid = Some (t', Inr (c_object c))"
    "table_inv t'" "quiet (ht_grace t')" "caps t' = (caps (k_table k))(h := None)" by blast
  have "kernel_inv (k\<lparr>k_table := t'\<rparr>) (held(c_object c := held (c_object c) + 1))"
    by (rule move_out [OF inv t'(2) c(2) t'(4)])
  from release_held [OF this, of "c_object c"]
  have "kernel_inv (k\<lparr>k_table := t', k_objs := ObjectRef_drop (k_objs k) (c_object c)\<rparr>) held" by simp
  then show ?thesis using True t' by (simp add: close_and_drop_def)
next
  case False
  then have "\<not> (h \<noteq> 0 \<and> (\<exists>c. caps (k_table k) h = Some c \<and> c_owner c = pid))" by auto
  from close_refused [OF kernel_invD(1) [OF inv] this] show ?thesis
    using inv q False by (auto simp: close_and_drop_def)
qed

lemma handle_stat_spec:
  assumes inv: "kernel_inv k held" and mx: "countable_refs k held"
    and q: "quiet (ht_grace (k_table k))" "unat ctx < MAX_CTX"
  shows "\<exists>k' r. handle_stat k ctx h pid = Some (k', r) \<and> kernel_inv k' held
    \<and> caps (k_table k') = caps (k_table k)
    \<and> (case r of Inl e \<Rightarrow> lookup_decision (caps (k_table k)) h pid Rights_INSPECT = Inl e
       | Inr s \<Rightarrow> \<exists>c. h \<noteq> 0 \<and> caps (k_table k) h = Some c \<and> c_owner c = pid
           \<and> Rights_is_subset_of Rights_INSPECT (c_rights c)
           \<and> KObjectType_as_u32 (hs_object_type s) = c_type c \<and> hs_rights s = c_rights c \<and> hs_owner_pid s = pid
           \<and> hs_generation s = snd (snd (RawHandle_decode h)))"
proof -
  let ?d = "lookup_decision (caps (k_table k)) h pid Rights_INSPECT"
  from lookup_spec [OF inv mx q, of h pid Rights_INSPECT] obtain k1 where
    k1: "lookup k ctx h pid Rights_INSPECT = Some (k1, ?d)" "caps (k_table k1) = caps (k_table k)"
      "kernel_inv k1 (held_after held ?d)" by blast
  show ?thesis
  proof (cases ?d)
    case (Inl e)
    then show ?thesis using k1 by (simp add: handle_stat_def)
  next
    case (Inr info)
    from Inr obtain c where c: "h \<noteq> 0" "caps (k_table k) h = Some c" "c_owner c = pid"
      "Rights_is_subset_of Rights_INSPECT (c_rights c)" "info = \<lparr>lo_object = c_object c, lo_rights = c_rights c\<rparr>"
      by (auto simp: lookup_decision_def split: if_splits option.splits)
    have inv1: "kernel_inv k1 (held(c_object c := held (c_object c) + 1))" using k1(3) by (simp add: Inr c(5))
    from cap_compatible [OF inv1] c(2) k1(2) obtain ty where
      ty: "ObjectRef_object_type (k_objs k1) (c_object c) = Some ty" "c_type c = KObjectType_as_u32 ty" by metis
    have "kernel_inv (k1\<lparr>k_objs := ObjectRef_drop (k_objs k1) (c_object c)\<rparr>) held"
      using release_held [OF inv1, of "c_object c"] by simp
    then show ?thesis using k1 c ty by (auto simp: handle_stat_def Inr Let_def split: prod.splits)
  qed
qed

end
