(* ===== verification/Handle_Sweep.thy ===== *)
theory Handle_Sweep
  imports Handle_Kernel
begin

text \<open>
  The exit sweep (\<^verbatim>\<open>close_owned_batch\<close> and \<^verbatim>\<open>close_all_owned_by\<close>): it ends, it closes every
  handle of the process and no other, and it releases exactly the references they held.
\<close>

section \<open>One batch\<close>

text \<open>The handles of \<open>pid\<close>, and that none of them lies before the cursor.\<close>

definition owned :: "(u64 \<Rightarrow> cap option) \<Rightarrow> u32 \<Rightarrow> u64 set" where
  "owned m pid = {h. \<exists>c. m h = Some c \<and> c_owner c = pid}"

definition before :: "nat \<Rightarrow> nat \<Rightarrow> u64 \<Rightarrow> bool" where
  "before seg slot h \<longleftrightarrow> (case RawHandle_decode h of (sg, sl, _) \<Rightarrow>
     unat sg < seg \<or> unat sg = seg \<and> unat sl < slot)"

definition swept :: "(u64 \<Rightarrow> cap option) \<Rightarrow> u32 \<Rightarrow> nat \<Rightarrow> nat \<Rightarrow> bool" where
  "swept m pid seg slot \<longleftrightarrow> (\<forall>h\<in>owned m pid. \<not> before seg slot h)"

lemma swept_start: "swept m pid 0 0"
  by (simp add: swept_def before_def split: prod.splits)

lemma caps_slot:
  assumes inv: "table_inv t" and c: "caps t h = Some c" and d: "RawHandle_decode h = (sg, sl, g)"
  shows "unat sg < segs t" "unat sl < SEGMENT_LEN"
    "\<exists>es. ht_directory t ! unat sg = Some es \<and> g = he_generation (es ! unat sl)
      \<and> he_object (es ! unat sl) \<noteq> 0 \<and> c = cap_of (es ! unat sl)"
proof -
  from caps_SomeE [OF inv c] obtain i j es where e: "i < segs t" "i < DIRECTORY_LEN"
    "ht_directory t ! i = Some es" "j < SEGMENT_LEN" "RawHandle_decode h = (of_nat i, of_nat j, he_generation (es ! j))"
    "he_object (es ! j) \<noteq> 0" "c = cap_of (es ! j)" by metis
  then have "unat sg = i" "unat sl = j" "g = he_generation (es ! j)"
    using d decode_slot(2,3) [OF e(2,4)] by auto
  with e show "unat sg < segs t" "unat sl < SEGMENT_LEN"
    "\<exists>es. ht_directory t ! unat sg = Some es \<and> g = he_generation (es ! unat sl)
      \<and> he_object (es ! unat sl) \<noteq> 0 \<and> c = cap_of (es ! unat sl)" by auto
qed

lemma swept_next_seg:
  assumes inv: "table_inv t" and sw: "swept (caps t) pid seg slot" and slot: "SEGMENT_LEN \<le> slot"
  shows "swept (caps t) pid (Suc seg) 0"
  unfolding swept_def
proof
  fix h
  assume h: "h \<in> owned (caps t) pid"
  then obtain c where c: "caps t h = Some c" by (auto simp: owned_def)
  obtain sg sl g where d: "RawHandle_decode h = (sg, sl, g)" by (metis prod_cases3)
  have "unat sl < slot" using caps_slot(2) [OF inv c d] slot by simp
  then show "\<not> before (Suc seg) 0 h" using sw h by (auto simp: swept_def before_def d less_Suc_eq)
qed

lemma swept_next_slot:
  assumes inv: "table_inv t" and sw: "swept (caps t) pid seg slot" and es: "ht_directory t ! seg = Some es"
    and other: "\<not> (he_owner_pid (es ! slot) = pid \<and> he_object (es ! slot) \<noteq> 0)"
  shows "swept (caps t) pid seg (Suc slot)"
  unfolding swept_def
proof
  fix h
  assume h: "h \<in> owned (caps t) pid"
  then obtain c where c: "caps t h = Some c" "c_owner c = pid" by (auto simp: owned_def)
  obtain sg sl g where d: "RawHandle_decode h = (sg, sl, g)" by (metis prod_cases3)
  have "\<not> (unat sg = seg \<and> unat sl = slot)"
    using caps_slot(3) [OF inv c(1) d] c(2) es other by (auto simp: cap_of_def)
  then show "\<not> before seg (Suc slot) h" using sw h by (auto simp: swept_def before_def d less_Suc_eq)
qed

lemma swept_unpublish:
  assumes inv: "table_inv t" and sw: "swept (caps t) pid seg slot" and es: "ht_directory t ! seg = Some es"
    and ij: "seg < DIRECTORY_LEN" "slot < SEGMENT_LEN"
    and m: "m = (caps t)(RawHandle_encode (of_nat seg) (of_nat slot) (he_generation (es ! slot)) := None)"
  shows "swept m pid seg (Suc slot)"
  unfolding swept_def
proof
  fix h
  assume h: "h \<in> owned m pid"
  let ?h = "RawHandle_encode (of_nat seg) (of_nat slot) (he_generation (es ! slot))"
  have h': "h \<in> owned (caps t) pid" "h \<noteq> ?h" using h by (auto simp: owned_def m split: if_splits)
  then obtain c where c: "caps t h = Some c" by (auto simp: owned_def)
  obtain sg sl g where d: "RawHandle_decode h = (sg, sl, g)" by (metis prod_cases3)
  have "\<not> (unat sg = seg \<and> unat sl = slot)"
    using caps_slot(3) [OF inv c d] es encode_of_decode [OF d] h'(2) by auto
  then show "\<not> before seg (Suc slot) h" using sw h'(1) by (auto simp: swept_def before_def d less_Suc_eq)
qed

lemma swept_all:
  assumes inv: "table_inv t" and sw: "swept (caps t) pid seg slot" and seg: "segs t \<le> seg"
  shows "owned (caps t) pid = {}"
proof (rule ccontr)
  assume "owned (caps t) pid \<noteq> {}"
  then obtain h c where h: "h \<in> owned (caps t) pid" "caps t h = Some c" by (auto simp: owned_def)
  obtain sg sl g where d: "RawHandle_decode h = (sg, sl, g)" by (metis prod_cases3)
  have "unat sg < seg" using caps_slot(1) [OF inv h(2) d] seg by simp
  then show False using sw h(1) by (auto simp: swept_def before_def d)
qed

text \<open>
  What one run of the scan leaves, from a table with room in its ring for the rest of the batch:
  the handles it took are the process's, their references are now the batch's, and it stops early
  only with a full batch.
\<close>

definition sweep_post ::
  "u32 \<Rightarrow> nat \<Rightarrow> HandleTable \<Rightarrow> u64 list \<Rightarrow> HandleTable \<times> SweepCursor \<times> u64 list \<times> bool \<Rightarrow> bool" where
  "sweep_post pid n t out res = (case res of (t', cur, out', remaining) \<Rightarrow>
     table_inv t' \<and> ht_grace t' = ht_grace t \<and> length out' \<le> n
     \<and> swept (caps t') pid (sc_seg cur) (sc_slot cur) \<and> (remaining \<longrightarrow> length out' = n)
     \<and> (\<not> remaining \<longrightarrow> owned (caps t') pid = {})
     \<and> (\<exists>hs. hs \<subseteq> owned (caps t) pid \<and> card hs + length out = length out' \<and> caps t' = caps t |` (- hs))
     \<and> (\<forall>k held. kernel_inv (k\<lparr>k_table := t\<rparr>) (\<lambda>p. held p + count_list out p) \<longrightarrow>
          kernel_inv (k\<lparr>k_table := t'\<rparr>) (\<lambda>p. held p + count_list out' p)))"

lemma owned_restrict: "owned (m |` (- hs)) pid = owned m pid - hs"
  by (auto simp: owned_def restrict_map_def split: if_splits)

lemma move_out_batch:
  assumes inv: "kernel_inv (k\<lparr>k_table := t\<rparr>) (\<lambda>p. held p + count_list out p)" and t: "table_inv t1"
    and c: "caps t1 = (caps t)(h := None)" "caps t h = Some c"
  shows "kernel_inv (k\<lparr>k_table := t1\<rparr>) (\<lambda>p. held p + count_list (out @ [c_object c]) p)"
proof -
  have eq: "(\<lambda>p. held p + count_list out p)(c_object c := (held (c_object c) + count_list out (c_object c)) + 1)
      = (\<lambda>p. held p + count_list (out @ [c_object c]) p)" by (intro ext) simp
  have c': "caps (k_table (k\<lparr>k_table := t\<rparr>)) h = Some c" "caps t1 = (caps (k_table (k\<lparr>k_table := t\<rparr>)))(h := None)"
    using c by simp_all
  show ?thesis using move_out [OF inv t c'] unfolding eq by simp
qed

lemma sweep_post_take:
  assumes c: "caps t1 = (caps t)(h := None)" "caps t h = Some c" "c_owner c = pid"
    and g: "ht_grace t1 = ht_grace t" "table_inv t1"
    and post: "sweep_post pid n t1 (out @ [c_object c]) res"
  shows "sweep_post pid n t out res"
proof -
  obtain t' cur out' remaining where res: "res = (t', cur, out', remaining)" by (metis prod_cases4)
  note p = post [unfolded sweep_post_def res prod.case]
  from p obtain hs where hs: "hs \<subseteq> owned (caps t1) pid" "card hs + Suc (length out) = length out'"
    "caps t' = caps t1 |` (- hs)" by auto
  have h: "h \<notin> hs" using hs(1) by (auto simp: owned_def c(1))
  have "insert h hs \<subseteq> owned (caps t) pid" using hs(1) c by (auto simp: owned_def split: if_splits)
  moreover have "card (insert h hs) + length out = length out'" using hs(2) h by simp
  moreover have "caps t' = caps t |` (- insert h hs)"
    using hs(3) by (auto simp: c(1) restrict_map_def fun_eq_iff)
  ultimately have "\<exists>hs. hs \<subseteq> owned (caps t) pid \<and> card hs + length out = length out' \<and> caps t' = caps t |` (- hs)"
    by blast
  moreover have "kernel_inv (k\<lparr>k_table := t'\<rparr>) (\<lambda>p. held p + count_list out' p)"
    if "kernel_inv (k\<lparr>k_table := t\<rparr>) (\<lambda>p. held p + count_list out p)" for k held
    using p move_out_batch [OF that g(2) c(1,2)] by blast
  ultimately show ?thesis using p unfolding sweep_post_def res prod.case g(1) by blast
qed

lemma sweep_loop_spec:
  assumes "table_inv t" "swept (caps t) pid seg slot" "length out \<le> n"
    "dq_len (ht_defer_ring t) + (n - length out) \<le> DEFER_RING_CAPACITY"
  shows "sweep_post pid n t out (sweep_loop pid n t seg slot out)"
  using assms
proof (induction pid n t seg slot out rule: sweep_loop.induct)
  case (1 pid n t seg slot out)
  note inv = "1.prems"(1) and sw = "1.prems"(2) and out = "1.prems"(3) and room = "1.prems"(4)
  have stop: "sweep_post pid n t out (t, \<lparr>sc_seg = seg, sc_slot = slot\<rparr>, out, b)"
    if "b \<longrightarrow> length out = n" "\<not> b \<longrightarrow> owned (caps t) pid = {}" for b
    using that inv sw out by (auto simp: sweep_post_def restrict_map_def intro!: exI [of _ "{}"])
  show ?case
  proof (cases "segs t \<le> seg")
    case True
    then show ?thesis using stop [of False] swept_all [OF inv sw True] by (simp add: sweep_loop.simps [of pid n t])
  next
    case lt: False
    then have seg: "seg < segs t" "seg < DIRECTORY_LEN" "seg < length (ht_directory t)"
      using table_invD(1,3) [OF inv] by simp_all
    obtain es where es: "ht_directory t ! seg = Some es"
      "seg_inv (defer_slots (ht_defer_ring t) seg) es (ht_segment_meta t ! seg)"
      using table_inv_seg [OF inv seg(1)] .
    show ?thesis
    proof (cases "SEGMENT_LEN \<le> slot")
      case True
      then show ?thesis
        using "1.IH"(2) [OF lt es(1) True inv swept_next_seg [OF inv sw True] out room] lt es(1)
        by (simp add: sweep_loop.simps [of pid n t seg])
    next
      case slot: False
      let ?e = "es ! slot"
      show ?thesis
      proof (cases "he_owner_pid ?e = pid \<and> he_object ?e \<noteq> 0")
        case False
        then show ?thesis
          using "1.IH"(3) [OF lt es(1) slot refl False inv swept_next_slot [OF inv sw es(1) False] out room] lt es(1) slot
          by (simp add: sweep_loop.simps [of pid n t seg slot] Let_def)
      next
        case mine: True
        show ?thesis
        proof (cases "length out = n")
          case True
          then show ?thesis using stop [of True] lt es(1) slot mine
            by (simp add: sweep_loop.simps [of pid n t seg slot])
        next
          case more: False
          let ?h = "RawHandle_encode (of_nat seg) (of_nat slot) (he_generation ?e)"
          let ?d = "\<lparr>dc_handle = ?h, dc_epoch = g_epoch (ht_grace t)\<rparr>"
          have slot_lt: "slot < SEGMENT_LEN" using slot by simp
          have "dq_push (ht_defer_ring t) ?d \<noteq> None"
            using more out room table_invD(5) [OF inv]
            by (simp add: dq_push_def dq_is_full_def ring_ok_def Let_def)
          then obtain ring where ring: "dq_push (ht_defer_ring t) ?d = Some ring" by auto
          let ?t = "upd_entry (t\<lparr>ht_defer_ring := ring\<rparr>) seg slot unpublish"
          have live: "he_object ?e \<noteq> 0" using mine by simp
          note un = unpublish_inv [OF inv seg(1) es(1) slot_lt live ring slot_of_encode [OF seg(2) slot_lt]]
          note sw' = swept_unpublish [OF inv sw es(1) seg(2) slot_lt un(2)]
          have len: "dq_len ring = Suc (dq_len (ht_defer_ring t))"
            using ring by (auto simp: dq_push_def Let_def split: if_splits)
          have cap: "caps t ?h = Some (cap_of ?e)"
            using caps_at [OF decode_slot(1) [OF seg(2) slot_lt], of t es] decode_slot(2,3) [OF seg(2) slot_lt]
              es(1) seg slot_lt mine table_invD(1) [OF inv] by (simp add: grants_def)
          have ih: "sweep_post pid n ?t (out @ [he_object ?e]) (sweep_loop pid n ?t seg (Suc slot) (out @ [he_object ?e]))"
            using out more room len mine
            by (intro "1.IH"(4) [OF lt es(1) slot refl _ more refl ring un(1) sw']) simp_all
          have "sweep_post pid n t out (sweep_loop pid n ?t seg (Suc slot) (out @ [he_object ?e]))"
            using mine un ih by (intro sweep_post_take [OF _ cap]) (simp_all add: cap_of_def)
          then show ?thesis using lt es(1) slot mine more ring
            by (simp add: sweep_loop.simps [of pid n t seg slot] Let_def)
        qed
      qed
    qed
  qed
qed

section \<open>The whole sweep\<close>

lemma close_owned_batch_spec:
  assumes inv: "table_inv t" and q: "quiet (ht_grace t)" and n: "0 < n" "n \<le> DEFER_RING_CAPACITY"
    and sw: "swept (caps t) pid (sc_seg cursor) (sc_slot cursor)"
  shows "\<exists>t' cur out remaining. close_owned_batch pid n t cursor = Some (t', cur, out, remaining)
    \<and> table_inv t' \<and> quiet (ht_grace t') \<and> swept (caps t') pid (sc_seg cur) (sc_slot cur)
    \<and> (remaining \<longrightarrow> length out = n) \<and> (\<not> remaining \<longrightarrow> owned (caps t') pid = {})
    \<and> (\<exists>hs. hs \<subseteq> owned (caps t) pid \<and> card hs = length out \<and> caps t' = caps t |` (- hs))
    \<and> (\<forall>k held. kernel_inv (k\<lparr>k_table := t\<rparr>) held \<longrightarrow>
         kernel_inv (k\<lparr>k_table := t'\<rparr>) (\<lambda>p. held p + count_list out p))"
proof -
  let ?t = "drain_expired t"
  note d = drain_expired_inv [OF inv]
  obtain t1 cur out remaining where
    u: "sweep_loop pid n ?t (sc_seg cursor) (sc_slot cursor) [] = (t1, cur, out, remaining)" by (metis prod_cases4)
  have "dq_len (ht_defer_ring ?t) = 0" using d(4) [OF q] length_dq_contents [of "ht_defer_ring ?t"] by simp
  then have "sweep_post pid n ?t [] (t1, cur, out, remaining)"
    using sweep_loop_spec [OF d(1), of pid "sc_seg cursor" "sc_slot cursor" "[]" n] sw n u by (simp add: d(2))
  then have p: "table_inv t1" "ht_grace t1 = ht_grace ?t" "swept (caps t1) pid (sc_seg cur) (sc_slot cur)"
    "remaining \<longrightarrow> length out = n" "\<not> remaining \<longrightarrow> owned (caps t1) pid = {}"
    "\<exists>hs. hs \<subseteq> owned (caps t) pid \<and> card hs = length out \<and> caps t1 = caps t |` (- hs)"
    "\<And>k held. kernel_inv (k\<lparr>k_table := ?t\<rparr>) held \<Longrightarrow> kernel_inv (k\<lparr>k_table := t1\<rparr>) (\<lambda>p. held p + count_list out p)"
    by (simp_all add: sweep_post_def d(2))
  have q1: "quiet (ht_grace t1)" using q by (simp add: p(2) d(3) quiet_def)
  define g where "g = (if out \<noteq> [] then (ht_grace t1)\<lparr>g_epoch := g_epoch (ht_grace t1) + 1\<rparr> else ht_grace t1)"
  have g: "quiet g" using q1 by (simp add: g_def quiet_def)
  have c: "close_owned_batch pid n t cursor = Some (t1\<lparr>ht_grace := g\<rparr>, cur, out, remaining)"
    using n(1) by (simp add: close_owned_batch_def unpublish_owned_batch_def u quiet_synchronize [OF q1] g_def)
  have t': "table_inv (t1\<lparr>ht_grace := g\<rparr>)"
    using g by (intro table_inv_cong [OF p(1)]) (simp_all add: quiet_def)
  have caps': "caps (t1\<lparr>ht_grace := g\<rparr>) = caps t1" by (rule caps_cong) simp
  have "kernel_inv (k\<lparr>k_table := t1\<lparr>ht_grace := g\<rparr>\<rparr>) (\<lambda>p. held p + count_list out p)"
    if k: "kernel_inv (k\<lparr>k_table := t\<rparr>) held" for k held
  proof -
    have "kernel_inv (k\<lparr>k_table := ?t\<rparr>) held" using kernel_inv_table [OF k d(1)] d(2) by simp
    from kernel_inv_table [OF p(7) [OF this] t'] show ?thesis by (simp add: caps')
  qed
  then show ?thesis using c t' g p(3-6) by (auto simp: caps')
qed

lemma drop_batch:
  "kernel_inv k (\<lambda>p. held p + count_list batch p) \<Longrightarrow>
    kernel_inv (k\<lparr>k_objs := fold (\<lambda>p hp. ObjectRef_drop hp p) batch (k_objs k)\<rparr>) held"
proof (induction batch arbitrary: k)
  case Nil
  then show ?case by simp
next
  case (Cons p batch)
  have "(\<lambda>q. held q + count_list (p # batch) q)(p := held p + count_list (p # batch) p - 1)
      = (\<lambda>q. held q + count_list batch q)" by (intro ext) simp
  with release_held [OF Cons.prems, of p]
  have "kernel_inv (k\<lparr>k_objs := ObjectRef_drop (k_objs k) p\<rparr>) (\<lambda>q. held q + count_list batch q)" by simp
  from Cons.IH [OF this] show ?case by simp
qed

lemma close_all_loop_spec:
  assumes "kernel_inv k held" "quiet (ht_grace (k_table k))"
    "swept (caps (k_table k)) pid (sc_seg cursor) (sc_slot cursor)"
  shows "\<exists>k'. close_all_loop pid k cursor closed = Some (k', closed + card (owned (caps (k_table k)) pid))
    \<and> kernel_inv k' held \<and> quiet (ht_grace (k_table k'))
    \<and> caps (k_table k') = caps (k_table k) |` (- owned (caps (k_table k)) pid)"
  using assms
proof (induction "card (owned (caps (k_table k)) pid)" arbitrary: k cursor closed rule: less_induct)
  case less
  have n: "0 < SWEEP_BATCH" "SWEEP_BATCH \<le> DEFER_RING_CAPACITY"
    by (simp_all add: SWEEP_BATCH_def DEFER_RING_CAPACITY_def)
  from close_owned_batch_spec [OF kernel_invD(1) [OF less.prems(1)] less.prems(2) n less.prems(3)]
  obtain t' cur out remaining hs where
    c: "close_owned_batch pid SWEEP_BATCH (k_table k) cursor = Some (t', cur, out, remaining)"
      "table_inv t'" "quiet (ht_grace t')" "swept (caps t') pid (sc_seg cur) (sc_slot cur)"
      "remaining \<longrightarrow> length out = SWEEP_BATCH" "\<not> remaining \<longrightarrow> owned (caps t') pid = {}"
    and hs: "hs \<subseteq> owned (caps (k_table k)) pid" "card hs = length out" "caps t' = caps (k_table k) |` (- hs)"
    and inv: "\<And>k' held. kernel_inv (k'\<lparr>k_table := k_table k\<rparr>) held \<Longrightarrow>
         kernel_inv (k'\<lparr>k_table := t'\<rparr>) (\<lambda>p. held p + count_list out p)" by blast
  define k1 where "k1 = k\<lparr>k_table := t', k_objs := fold (\<lambda>p hp. ObjectRef_drop hp p) out (k_objs k)\<rparr>"
  have "kernel_inv (k\<lparr>k_table := t'\<rparr>) (\<lambda>p. held p + count_list out p)"
    using inv [of k held] less.prems(1) by simp
  from drop_batch [OF this] have inv1: "kernel_inv k1 held" by (simp add: k1_def)
  have t1: "k_table k1 = t'" by (simp add: k1_def)
  have own: "owned (caps t') pid = owned (caps (k_table k)) pid - hs" by (simp add: hs(3) owned_restrict)
  have card: "card (owned (caps (k_table k)) pid) = length out + card (owned (caps t') pid)"
    using card_Diff_subset [OF _ hs(1)] card_mono [OF _ hs(1)] hs(2) by (simp add: own)
  show ?case
  proof (cases remaining)
    case False
    then have "hs = owned (caps (k_table k)) pid" using c(6) own hs(1) by auto
    then show ?thesis
      using False c hs inv1 t1 card own by (simp add: close_all_loop.simps [of pid k] k1_def [symmetric])
  next
    case True
    then have "card (owned (caps t') pid) < card (owned (caps (k_table k)) pid)"
      using c(5) card by (simp add: SWEEP_BATCH_def)
    from less.hyps [of k1 cur "closed + length out", unfolded t1, OF this inv1 c(3,4)]
    obtain k' where k': "close_all_loop pid k1 cur (closed + length out)
        = Some (k', closed + length out + card (owned (caps t') pid))" "kernel_inv k' held"
      "quiet (ht_grace (k_table k'))" "caps (k_table k') = caps t' |` (- owned (caps t') pid)" by blast
    have "- hs \<inter> - (owned (caps (k_table k)) pid - hs) = - owned (caps (k_table k)) pid" using hs(1) by auto
    then have "caps (k_table k') = caps (k_table k) |` (- owned (caps (k_table k)) pid)"
      unfolding k'(4) own by (simp only: hs(3) restrict_restrict)
    then show ?thesis
      using k' True c(1) card by (simp add: close_all_loop.simps [of pid k] k1_def [symmetric] add.assoc)
  qed
qed

end
