(* ===== verification/Handle_Confinement.thy ===== *)
theory Handle_Confinement
  imports Handle_Sweep
begin

text \<open>
  The contract a capability table offers its clients, and what follows from it for any sequence of
  close, restrict and duplicate calls: a process gains no authority it did not hold, and no process
  touches another's handles. The handle table is shown to offer it.
\<close>

section \<open>The contract\<close>

datatype cap_op =
    OpClose u32 u64
  | OpRestrict u32 u64 u64
  | OpDuplicate u32 u64 u64

primrec op_pid :: "cap_op \<Rightarrow> u32" where
  "op_pid (OpClose pid h) = pid"
| "op_pid (OpRestrict pid h r) = pid"
| "op_pid (OpDuplicate pid h r) = pid"

text \<open>
  \<open>weaker m m' pid\<close>: every cap of \<open>m'\<close> is one of \<open>m\<close> or is \<open>pid\<close>'s and no stronger than one \<open>pid\<close>
  had, and the others' caps stay.
\<close>

definition no_stronger :: "cap \<Rightarrow> cap \<Rightarrow> bool" where
  "no_stronger c' c \<longleftrightarrow> c_owner c = c_owner c' \<and> c_object c = c_object c' \<and> c_type c = c_type c'
     \<and> Rights_is_subset_of (c_rights c') (c_rights c)"

definition weaker :: "(u64 \<Rightarrow> cap option) \<Rightarrow> (u64 \<Rightarrow> cap option) \<Rightarrow> u32 \<Rightarrow> bool" where
  "weaker m m' pid \<longleftrightarrow> (\<forall>h c'. m' h = Some c' \<longrightarrow> (\<exists>h0 c. m h0 = Some c \<and> no_stronger c' c))
     \<and> (\<forall>h c. m h = Some c \<longrightarrow> c_owner c \<noteq> pid \<longrightarrow> m' h = Some c)"

lemma no_stronger_refl [simp]: "no_stronger c c"
  by (simp add: no_stronger_def)

lemma no_stronger_trans: "no_stronger a b \<Longrightarrow> no_stronger b c \<Longrightarrow> no_stronger a c"
  by (auto simp: no_stronger_def intro: subset_of_trans)

lemma weaker_refl [simp]: "weaker m m pid"
  unfolding weaker_def using no_stronger_refl by blast

lemma weaker_remove:
  assumes "m h = Some c" "c_owner c = pid"
  shows "weaker m (m(h := None)) pid"
  unfolding weaker_def
proof (intro conjI allI impI)
  fix x c'
  assume "(m(h := None)) x = Some c'"
  then have "m x = Some c'" by (simp split: if_splits)
  then show "\<exists>h0 c. m h0 = Some c \<and> no_stronger c' c" using no_stronger_refl by blast
next
  fix x c'
  assume "m x = Some c'" "c_owner c' \<noteq> pid"
  then show "(m(h := None)) x = Some c'" using assms by (cases "x = h") simp_all
qed

lemma weaker_put:
  assumes c: "m h = Some c" "c_owner c = pid" "h' = h \<or> m h' = None"
  shows "weaker m (m(h' \<mapsto> c\<lparr>c_rights := Rights_intersection (c_rights c) r\<rparr>)) pid"
  unfolding weaker_def
proof (intro conjI allI impI)
  fix x c'
  assume x: "(m(h' \<mapsto> c\<lparr>c_rights := Rights_intersection (c_rights c) r\<rparr>)) x = Some c'"
  show "\<exists>h0 c. m h0 = Some c \<and> no_stronger c' c"
  proof (cases "x = h'")
    case True
    then have "no_stronger c' c" using x by (auto simp: no_stronger_def)
    then show ?thesis using c(1) by blast
  next
    case False
    then have "m x = Some c'" using x by simp
    then show ?thesis using no_stronger_refl by blast
  qed
next
  fix x c'
  assume "m x = Some c'" "c_owner c' \<noteq> pid"
  then show "(m(h' \<mapsto> c\<lparr>c_rights := Rights_intersection (c_rights c) r\<rparr>)) x = Some c'"
    using c by (cases "x = h'") auto
qed

locale capability_table =
  fixes inv :: "'s \<Rightarrow> bool" and env_ok :: "'e \<Rightarrow> bool"
    and cap_map :: "'s \<Rightarrow> u64 \<Rightarrow> cap option"
    and cap_close :: "'s \<Rightarrow> u32 \<Rightarrow> u64 \<Rightarrow> 's option"
    and cap_restrict :: "'s \<Rightarrow> u32 \<Rightarrow> u64 \<Rightarrow> u64 \<Rightarrow> 's"
    and cap_duplicate :: "'e \<Rightarrow> 's \<Rightarrow> u32 \<Rightarrow> u64 \<Rightarrow> u64 \<Rightarrow> 's option"
  assumes close_law: "inv s \<Longrightarrow> \<exists>s'. cap_close s pid h = Some s' \<and> inv s'
      \<and> (cap_map s' = cap_map s \<or> (\<exists>c. cap_map s h = Some c \<and> c_owner c = pid \<and> cap_map s' = (cap_map s)(h := None)))"
    and restrict_law: "inv s \<Longrightarrow> inv (cap_restrict s pid h r)
      \<and> (cap_map (cap_restrict s pid h r) = cap_map s
         \<or> (\<exists>c. cap_map s h = Some c \<and> c_owner c = pid
              \<and> cap_map (cap_restrict s pid h r) = (cap_map s)(h \<mapsto> c\<lparr>c_rights := Rights_intersection (c_rights c) r\<rparr>)))"
    and duplicate_law: "inv s \<Longrightarrow> env_ok e \<Longrightarrow> \<exists>s'. cap_duplicate e s pid h r = Some s' \<and> inv s'
      \<and> (cap_map s' = cap_map s
         \<or> (\<exists>c h'. cap_map s h = Some c \<and> c_owner c = pid \<and> Rights_is_subset_of Rights_DUPLICATE (c_rights c)
              \<and> cap_map s h' = None
              \<and> cap_map s' = (cap_map s)(h' \<mapsto> c\<lparr>c_rights := Rights_intersection (c_rights c) r\<rparr>)))"
begin

primrec step :: "'e \<Rightarrow> 's \<Rightarrow> cap_op \<Rightarrow> 's option" where
  "step e s (OpClose pid h) = cap_close s pid h"
| "step e s (OpRestrict pid h r) = Some (cap_restrict s pid h r)"
| "step e s (OpDuplicate pid h r) = cap_duplicate e s pid h r"

primrec run :: "'s \<Rightarrow> ('e \<times> cap_op) list \<Rightarrow> 's option" where
  "run s [] = Some s"
| "run s (eo # ops) = (case step (fst eo) s (snd eo) of None \<Rightarrow> None | Some s' \<Rightarrow> run s' ops)"

text \<open>One step changes at most one handle, of the caller, to a cap no stronger than one it had.\<close>

lemma step_effect:
  assumes "inv s" "env_ok e"
  shows "\<exists>s'. step e s op = Some s' \<and> inv s' \<and> weaker (cap_map s) (cap_map s') (op_pid op)"
proof (cases op)
  case (OpClose pid h)
  then show ?thesis using close_law [OF assms(1), of pid h] weaker_remove [of "cap_map s" h _ pid] by auto
next
  case (OpRestrict pid h r)
  then show ?thesis
    using restrict_law [OF assms(1), of pid h r] weaker_put [of "cap_map s" h _ pid h r] by auto
next
  case (OpDuplicate pid h r)
  then show ?thesis
    using duplicate_law [OF assms, of pid h r] weaker_put [of "cap_map s" h _ pid _ r] by (fastforce simp del: fun_upd_apply)
qed

lemma run_confined:
  assumes "inv s" "\<forall>eo\<in>set ops. env_ok (fst eo)"
  shows "\<exists>s'. run s ops = Some s' \<and> inv s'
    \<and> (\<forall>h c'. cap_map s' h = Some c' \<longrightarrow> (\<exists>h0 c. cap_map s h0 = Some c \<and> no_stronger c' c))
    \<and> (\<forall>h c. cap_map s h = Some c \<longrightarrow> c_owner c \<notin> (op_pid \<circ> snd) ` set ops \<longrightarrow> cap_map s' h = Some c)"
  using assms
proof (induction ops arbitrary: s)
  case Nil
  then show ?case using no_stronger_refl by fastforce
next
  case (Cons eo ops)
  then have "env_ok (fst eo)" by simp
  from step_effect [OF Cons.prems(1) this, of "snd eo"] obtain s1 where
    s1: "step (fst eo) s (snd eo) = Some s1" "inv s1" "weaker (cap_map s) (cap_map s1) (op_pid (snd eo))" by blast
  from Cons.IH [OF s1(2)] Cons.prems(2) obtain s' where
    s': "run s1 ops = Some s'" "inv s'"
    and new: "\<And>h c'. cap_map s' h = Some c' \<Longrightarrow> \<exists>h0 c. cap_map s1 h0 = Some c \<and> no_stronger c' c"
    and old: "\<And>h c. cap_map s1 h = Some c \<Longrightarrow> c_owner c \<notin> (op_pid \<circ> snd) ` set ops \<Longrightarrow> cap_map s' h = Some c"
    by auto
  have "\<exists>h0 c. cap_map s h0 = Some c \<and> no_stronger c' c" if c': "cap_map s' h = Some c'" for h c'
  proof -
    from new [OF c'] obtain h1 c1 where "cap_map s1 h1 = Some c1" "no_stronger c' c1" by blast
    then show ?thesis using s1(3) no_stronger_trans unfolding weaker_def by metis
  qed
  moreover have "cap_map s' h = Some c"
    if "cap_map s h = Some c" "c_owner c \<notin> (op_pid \<circ> snd) ` set (eo # ops)" for h c
    using s1(3) old [of h c] that unfolding weaker_def by auto
  ultimately show ?case using s1(1) s' by auto
qed

end

section \<open>How many handles there can be\<close>

lemma card_owned_caps:
  assumes inv: "table_inv t"
  shows "card (dom (caps t)) \<le> DIRECTORY_LEN * SEGMENT_LEN"
proof -
  let ?f = "\<lambda>h. case RawHandle_decode h of (sg, sl, g) \<Rightarrow> (unat sg, unat sl)"
  have f: "\<exists>i j es. i < DIRECTORY_LEN \<and> j < SEGMENT_LEN \<and> ?f h = (i, j) \<and> ht_directory t ! i = Some es
      \<and> h = RawHandle_encode (of_nat i) (of_nat j) (he_generation (es ! j))" if h: "h \<in> dom (caps t)" for h
  proof -
    from h obtain c where c: "caps t h = Some c" by auto
    from caps_SomeE [OF inv c] obtain i j es where e: "i < DIRECTORY_LEN" "ht_directory t ! i = Some es"
      "j < SEGMENT_LEN" "RawHandle_decode h = (of_nat i, of_nat j, he_generation (es ! j))"
      "h = RawHandle_encode (of_nat i) (of_nat j) (he_generation (es ! j))" by metis
    then have "?f h = (i, j)" using decode_slot(2,3) [OF e(1,3)] by simp
    with e show ?thesis by blast
  qed
  have "inj_on ?f (dom (caps t))"
  proof (rule inj_onI)
    fix h h'
    assume h: "h \<in> dom (caps t)" "h' \<in> dom (caps t)" "?f h = ?f h'"
    from f [OF h(1)] f [OF h(2)] h(3) show "h = h'" by (metis option.inject prod.inject)
  qed
  moreover have "?f ` dom (caps t) \<subseteq> {..<DIRECTORY_LEN} \<times> {..<SEGMENT_LEN}"
  proof
    fix x
    assume "x \<in> ?f ` dom (caps t)"
    then obtain h where "h \<in> dom (caps t)" "x = ?f h" by blast
    with f [of h] show "x \<in> {..<DIRECTORY_LEN} \<times> {..<SEGMENT_LEN}" by fastforce
  qed
  ultimately have "card (dom (caps t)) \<le> card ({..<DIRECTORY_LEN} \<times> {..<SEGMENT_LEN})"
    by (intro card_inj_on_le) auto
  then show ?thesis by (simp add: card_cartesian_product)
qed

text \<open>
  References held outside the table leave room for every handle it can hold; then no count of the
  table's objects can overflow.
\<close>

definition held_small :: "(u64 \<Rightarrow> nat) \<Rightarrow> bool" where
  "held_small held \<longleftrightarrow> (\<forall>p. held p + DIRECTORY_LEN * SEGMENT_LEN \<le> unat MAX_REFCOUNT)"

lemma countable_from_held:
  assumes "kernel_inv k held" "held_small held"
  shows "countable_refs k held"
proof -
  have "refs (caps (k_table k)) p \<le> DIRECTORY_LEN * SEGMENT_LEN" for p
  proof -
    have "refs (caps (k_table k)) p \<le> card (dom (caps (k_table k)))"
      unfolding refs_def by (intro card_mono) auto
    then show ?thesis using card_owned_caps [OF kernel_invD(1) [OF assms(1)]] by simp
  qed
  then show ?thesis using assms(2) unfolding countable_refs_def held_small_def
    by (metis add.commute add_le_mono1 order_trans)
qed

section \<open>The handle table offers the contract\<close>

definition kernel_ok :: "(u64 \<Rightarrow> nat) \<Rightarrow> Kernel \<Rightarrow> bool" where
  "kernel_ok held k \<longleftrightarrow> kernel_inv k held \<and> held_small held \<and> quiet (ht_grace (k_table k))"

definition k_close :: "Kernel \<Rightarrow> u32 \<Rightarrow> u64 \<Rightarrow> Kernel option" where
  "k_close k pid h = close_and_drop k h pid"

definition k_restrict :: "Kernel \<Rightarrow> u32 \<Rightarrow> u64 \<Rightarrow> u64 \<Rightarrow> Kernel" where
  "k_restrict k pid h r = k\<lparr>k_table := fst (restrict (k_table k) h pid r)\<rparr>"

definition k_duplicate :: "(bool \<times> bool) \<times> u32 \<Rightarrow> Kernel \<Rightarrow> u32 \<Rightarrow> u64 \<Rightarrow> u64 \<Rightarrow> Kernel option" where
  "k_duplicate env k pid h r = map_option fst (duplicate (fst env) k (snd env) h pid r)"

definition env_ctx_ok :: "(bool \<times> bool) \<times> u32 \<Rightarrow> bool" where
  "env_ctx_ok env \<longleftrightarrow> unat (snd env) < MAX_CTX"

lemma k_restrict_inv:
  assumes inv: "kernel_inv k held"
  shows "kernel_inv (k_restrict k pid h r) held \<and> ht_grace (k_table (k_restrict k pid h r)) = ht_grace (k_table k)
    \<and> (caps (k_table (k_restrict k pid h r)) = caps (k_table k)
       \<or> (\<exists>c. caps (k_table k) h = Some c \<and> c_owner c = pid \<and> caps (k_table (k_restrict k pid h r))
            = (caps (k_table k))(h \<mapsto> c\<lparr>c_rights := Rights_intersection (c_rights c) r\<rparr>)))"
proof (cases "h \<noteq> 0 \<and> (\<exists>c. caps (k_table k) h = Some c \<and> c_owner c = pid)")
  case True
  then obtain c where c: "h \<noteq> 0" "caps (k_table k) h = Some c" "c_owner c = pid" by auto
  from restrict_ok [OF kernel_invD(1) [OF inv] c(2,1,3), of r] obtain t' where
    t': "restrict (k_table k) h pid r = (t', Inr ())" "table_inv t'" "ht_grace t' = ht_grace (k_table k)"
      "caps t' = (caps (k_table k))(h \<mapsto> c\<lparr>c_rights := Rights_intersection (c_rights c) r\<rparr>)" by blast
  have "refs (caps t') = refs (caps (k_table k))"
    unfolding t'(4) by (rule refs_modify) (simp_all add: c(2))
  moreover have "cap_typed (k_objs k) d" if "caps t' x = Some d" for x d
    using that kernel_invD(3) [OF inv, of x] kernel_invD(3) [OF inv c(2)]
    by (cases "x = h") (auto simp: t'(4) cap_typed_def)
  ultimately have "kernel_inv (k\<lparr>k_table := t'\<rparr>) held" using inv t'(2) by (simp add: kernel_inv_def)
  then show ?thesis using t' c by (auto simp: k_restrict_def)
next
  case False
  from restrict_refused [OF kernel_invD(1) [OF inv] False, of r] show ?thesis
    using inv by (auto simp: k_restrict_def)
qed

interpretation ht: capability_table "kernel_ok held" env_ctx_ok "\<lambda>k. caps (k_table k)" k_close k_restrict k_duplicate
proof
  fix s pid h
  assume s: "kernel_ok held s"
  then have inv: "kernel_inv s held" "quiet (ht_grace (k_table s))" by (simp_all add: kernel_ok_def)
  from close_and_drop_spec [OF inv, of h pid] obtain k' where
    k': "close_and_drop s h pid = Some k'" "kernel_inv k' held" "quiet (ht_grace (k_table k'))"
      "caps (k_table k') = (if h \<noteq> 0 \<and> map_option c_owner (caps (k_table s) h) = Some pid
         then (caps (k_table s))(h := None) else caps (k_table s))" by blast
  show "\<exists>s'. k_close s pid h = Some s' \<and> kernel_ok held s'
      \<and> (caps (k_table s') = caps (k_table s) \<or> (\<exists>c. caps (k_table s) h = Some c \<and> c_owner c = pid
           \<and> caps (k_table s') = (caps (k_table s))(h := None)))"
    using k' s by (auto simp: k_close_def kernel_ok_def)
next
  fix s pid h r
  assume s: "kernel_ok held s"
  then have "kernel_inv s held" by (simp add: kernel_ok_def)
  from k_restrict_inv [OF this, of pid h r] s
  show "kernel_ok held (k_restrict s pid h r) \<and> (caps (k_table (k_restrict s pid h r)) = caps (k_table s)
      \<or> (\<exists>c. caps (k_table s) h = Some c \<and> c_owner c = pid \<and> caps (k_table (k_restrict s pid h r))
           = (caps (k_table s))(h \<mapsto> c\<lparr>c_rights := Rights_intersection (c_rights c) r\<rparr>)))"
    by (simp add: kernel_ok_def)
next
  fix s e pid h r
  assume s: "kernel_ok held s" and e: "env_ctx_ok e"
  then have inv: "kernel_inv s held" "countable_refs s held" "quiet (ht_grace (k_table s))" "unat (snd e) < MAX_CTX"
    by (auto simp: kernel_ok_def env_ctx_ok_def countable_from_held)
  from duplicate_spec [OF inv, of "fst e" h pid r] obtain k' x where
    k': "duplicate (fst e) s (snd e) h pid r = Some (k', x)" "kernel_inv k' held" "quiet (ht_grace (k_table k'))"
    and x: "case x of Inl er \<Rightarrow> caps (k_table k') = caps (k_table s)
       | Inr h' \<Rightarrow> \<exists>c. caps (k_table s) h = Some c \<and> c_owner c = pid
           \<and> Rights_is_subset_of Rights_DUPLICATE (c_rights c) \<and> caps (k_table s) h' = None
           \<and> caps (k_table k') = (caps (k_table s))(h' \<mapsto> c\<lparr>c_rights := Rights_intersection (c_rights c) r\<rparr>)"
    by (fastforce split: sum.splits)
  show "\<exists>s'. k_duplicate e s pid h r = Some s' \<and> kernel_ok held s'
      \<and> (caps (k_table s') = caps (k_table s)
         \<or> (\<exists>c h'. caps (k_table s) h = Some c \<and> c_owner c = pid \<and> Rights_is_subset_of Rights_DUPLICATE (c_rights c)
              \<and> caps (k_table s) h' = None
              \<and> caps (k_table s') = (caps (k_table s))(h' \<mapsto> c\<lparr>c_rights := Rights_intersection (c_rights c) r\<rparr>)))"
    using k' x s by (auto simp: k_duplicate_def kernel_ok_def split: sum.splits)
qed

end
