(* ===== verification/Handle_Claims.thy ===== *)
theory Handle_Claims
  imports Handle_Confinement
begin

text \<open>
  The first state of the table, claims (a handle on its way to another process), typed lookup and
  the all-or-nothing install set.
\<close>

section \<open>The first table\<close>

lemma try_new_ok:
  assumes "HandleTable_try_new ring_mem mem seed = Inr t"
  shows "table_inv t" "caps t = Map.empty" "quiet (ht_grace t)"
proof -
  from assms obtain ring where ring: "dq_try_new ring_mem DEFER_RING_CAPACITY = Some ring"
    by (auto simp: HandleTable_try_new_def split: option.splits)
  define t0 where "t0 = \<lparr>ht_directory = replicate DIRECTORY_LEN None, ht_next_segment_hint = 0,
      ht_grace = GraceTracker_new, ht_segment_meta = replicate DIRECTORY_LEN SegmentMeta_empty,
      ht_segments_count = 0, ht_defer_ring = ring, ht_prng = Xorshift64_new seed\<rparr>"
  have g: "grow_one mem t0 = (t, Inr ())"
    using assms ring by (auto simp: HandleTable_try_new_def t0_def split: prod.splits sum.splits)
  have "dq_inv ring" "dq_contents ring = []" "dq_capacity ring = DEFER_RING_CAPACITY"
    using dq_try_new_inv [OF ring] by (simp_all add: DEFER_RING_CAPACITY_def)
  moreover have "quiet GraceTracker_new" by (rule quiet_new)
  ultimately have inv: "table_inv t0" and q: "quiet (ht_grace t0)"
    by (simp_all add: table_inv_def t0_def ring_ok_def ring_slots_def defer_slots_def quiet_def)
  have "caps t0 = Map.empty"
    by (auto simp: caps_def entry_of_def t0_def fun_eq_iff split: prod.splits option.splits)
  with grow_one_inv [OF inv g] q show "table_inv t" "caps t = Map.empty" "quiet (ht_grace t)" by simp_all
qed

lemma kernel_inv_boot:
  assumes "HandleTable_try_new ring_mem mem seed = Inr t"
  shows "kernel_inv \<lparr>k_table = t, k_objs = Map.empty\<rparr> (\<lambda>_. 0)"
  using try_new_ok [OF assms] by (simp add: kernel_inv_def counts_def refs_def)

section \<open>Claims\<close>

definition claimed :: "HandleTable \<Rightarrow> u64 \<Rightarrow> bool" where
  "claimed t h = (case entry_of t h of None \<Rightarrow> False | Some (_, _, e) \<Rightarrow> he_in_transit e \<noteq> 0)"

lemma entry_of_cap:
  assumes inv: "table_inv t" and c: "caps t h = Some c"
  obtains i j es where "entry_of t h = Some (i, j, es ! j)" "i < segs t" "i < DIRECTORY_LEN" "j < SEGMENT_LEN"
    "ht_directory t ! i = Some es" "seg_inv (defer_slots (ht_defer_ring t) i) es (ht_segment_meta t ! i)"
    "h = RawHandle_encode (of_nat i) (of_nat j) (he_generation (es ! j))" "he_object (es ! j) \<noteq> 0" "c = cap_of (es ! j)"
proof -
  from caps_SomeE [OF inv c] obtain i j es where e: "i < segs t" "i < DIRECTORY_LEN" "ht_directory t ! i = Some es"
    "seg_inv (defer_slots (ht_defer_ring t) i) es (ht_segment_meta t ! i)" "j < SEGMENT_LEN"
    "RawHandle_decode h = (of_nat i, of_nat j, he_generation (es ! j))"
    "h = RawHandle_encode (of_nat i) (of_nat j) (he_generation (es ! j))" "he_object (es ! j) \<noteq> 0" "c = cap_of (es ! j)"
    by metis
  have "entry_of t h = Some (i, j, es ! j)"
    using decode_slot(2,3) [OF e(2,5)] e table_invD(1) [OF inv] by (simp add: entry_of_def)
  from that [OF this e(1,2,5,3,4,7-9)] show ?thesis .
qed

text \<open>Writing the in-transit mark changes that mark only.\<close>

lemma mark_transit:
  assumes inv: "table_inv t" and c: "caps t h = Some c" and e: "entry_of t h = Some (i, j, e)"
  shows "table_inv (upd_entry t i j (\<lambda>e. e\<lparr>he_in_transit := v\<rparr>))"
    "caps (upd_entry t i j (\<lambda>e. e\<lparr>he_in_transit := v\<rparr>)) = caps t"
    "claimed (upd_entry t i j (\<lambda>e. e\<lparr>he_in_transit := v\<rparr>)) h \<longleftrightarrow> v \<noteq> 0"
proof -
  let ?t = "upd_entry t i j (\<lambda>e. e\<lparr>he_in_transit := v\<rparr>)"
  from entry_of_cap [OF inv c] e obtain es where es: "i < segs t" "i < DIRECTORY_LEN" "j < SEGMENT_LEN"
    "ht_directory t ! i = Some es" "seg_inv (defer_slots (ht_defer_ring t) i) es (ht_segment_meta t ! i)"
    "h = RawHandle_encode (of_nat i) (of_nat j) (he_generation (es ! j))" "he_object (es ! j) \<noteq> 0"
    by (metis option.inject prod.inject)
  let ?e = "(es ! j)\<lparr>he_in_transit := v\<rparr>"
  have ok: "entry_ok ?e" using seg_invD(2) [OF es(5,3)] by (simp add: entry_ok_def)
  have sel: "ht_directory ?t = (ht_directory t)[i := Some (es[j := ?e])]"
    "ht_segment_meta ?t = (ht_segment_meta t)[i := ht_segment_meta t ! i]"
    "ht_segments_count ?t = ht_segments_count t" "ht_defer_ring ?t = ht_defer_ring t" "ht_grace ?t = ht_grace t"
    using es(4) by (simp_all add: upd_entry_def)
  have len: "length es = SEGMENT_LEN" "i < length (ht_directory t)"
    using seg_invD(1) [OF es(5)] es(2) table_invD(1) [OF inv] by simp_all
  show "table_inv ?t"
    using seg_inv_meta_write [OF es(5,3) ok] table_invD(5,6) [OF inv]
    by (intro table_inv_step [OF inv es(1) _ _ _ sel(1-4)]) (simp_all add: sel(5))
  show "caps ?t = caps t"
    using es(3) len by (intro caps_same_grants [OF len(2) es(4) _ len(1) sel(1)]) (simp_all add: grants_def cap_of_def)
  have "entry_of ?t h = Some (i, j, ?e)"
    using decode_slot [OF es(2,3)] es(3) len by (simp add: entry_of_def es(6) sel(1))
  then show "claimed ?t h \<longleftrightarrow> v \<noteq> 0" by (simp add: claimed_def)
qed

lemma claimed_cong:
  assumes "ht_directory t' = ht_directory t"
  shows "claimed t' = claimed t" "entry_of t' = entry_of t"
  unfolding claimed_def entry_of_def assms by (rule refl)+

lemma lookup_dir: "lookup k ctx h pid req = Some (k', r) \<Longrightarrow> ht_directory (k_table k') = ht_directory (k_table k)"
  by (auto simp: lookup_def lookup_checks_def Let_def split: if_splits prod.splits option.splits bool.splits)

text \<open>
  A claim is granted exactly when the lookup is and nobody else has claimed the handle; it leaves
  the capabilities alone and marks the handle.
\<close>

lemma claim_spec:
  fixes h required :: u64 and pid :: u32
  assumes inv: "kernel_inv k held" and mx: "countable_refs k held"
    and q: "quiet (ht_grace (k_table k))" "unat ctx < MAX_CTX"
  defines "d \<equiv> lookup_decision (caps (k_table k)) h pid required"
  defines "r \<equiv> (if claimed (k_table k) h \<and> (\<exists>ok. d = Inr ok) then Inl InvalidHandle else d)"
  shows "\<exists>k'. claim k ctx h pid required = Some (k', r) \<and> caps (k_table k') = caps (k_table k)
    \<and> quiet (ht_grace (k_table k')) \<and> kernel_inv k' (held_after held r)
    \<and> ((\<exists>ok. r = Inr ok) \<longrightarrow> claimed (k_table k') h)"
proof -
  from lookup_spec [OF inv mx q, of h pid required] obtain k1 where
    k1: "lookup k ctx h pid required = Some (k1, d)" "caps (k_table k1) = caps (k_table k)"
      "quiet (ht_grace (k_table k1))" "kernel_inv k1 (held_after held d)" unfolding d_def by blast
  note cong = claimed_cong [OF lookup_dir [OF k1(1)]]
  show ?thesis
  proof (cases d)
    case (Inl e)
    then show ?thesis using k1 by (simp add: claim_def r_def)
  next
    case (Inr ok)
    from Inr obtain c where c: "caps (k_table k) h = Some c" "ok = \<lparr>lo_object = c_object c, lo_rights = c_rights c\<rparr>"
      by (auto simp: d_def lookup_decision_def split: if_splits option.splits)
    have inv1: "kernel_inv k1 (held(c_object c := held (c_object c) + 1))" using k1(4) by (simp add: Inr c(2))
    have c1: "caps (k_table k1) h = Some c" by (simp add: k1(2) c(1))
    from entry_of_cap [OF kernel_invD(1) [OF inv1] c1] obtain i j e where
      e: "entry_of (k_table k1) h = Some (i, j, e)" "c = cap_of e" by metis
    have cl: "claimed (k_table k) h \<longleftrightarrow> he_in_transit e \<noteq> 0" using e(1) by (simp add: cong(1) [symmetric] claimed_def)
    show ?thesis
    proof (cases "claimed (k_table k) h")
      case True
      have "kernel_inv (k1\<lparr>k_objs := ObjectRef_drop (k_objs k1) (c_object c)\<rparr>) held"
        using release_held [OF inv1, of "c_object c"] by simp
      then show ?thesis using True cl k1 e c(2) by (simp add: claim_def Inr r_def cap_of_def)
    next
      case False
      note m = mark_transit [OF kernel_invD(1) [OF inv1] c1 e(1), of 1]
      show ?thesis using False cl k1 e c(2) m kernel_inv_table [OF inv1 m(1,2)]
        by (simp add: claim_def Inr r_def cap_of_def)
    qed
  qed
qed

text \<open>Dropping a claim clears the mark and nothing else.\<close>

lemma Claim_drop_spec:
  assumes inv: "kernel_inv k held" and c: "caps (k_table k) h = Some c"
  shows "kernel_inv (Claim_drop k h) held" "caps (k_table (Claim_drop k h)) = caps (k_table k)"
    "\<not> claimed (k_table (Claim_drop k h)) h" "ht_grace (k_table (Claim_drop k h)) = ht_grace (k_table k)"
proof -
  from entry_of_cap [OF kernel_invD(1) [OF inv] c] obtain i j e where
    e: "entry_of (k_table k) h = Some (i, j, e)" by metis
  note m = mark_transit [OF kernel_invD(1) [OF inv] c e, of 0]
  show "kernel_inv (Claim_drop k h) held" using kernel_inv_table [OF inv m(1,2)] by (simp add: Claim_drop_def e)
  show "caps (k_table (Claim_drop k h)) = caps (k_table k)" "\<not> claimed (k_table (Claim_drop k h)) h"
    "ht_grace (k_table (Claim_drop k h)) = ht_grace (k_table k)"
    using m by (simp_all add: Claim_drop_def e)
qed

section \<open>Typed lookup\<close>

lemma lookup_as_spec:
  assumes inv: "kernel_inv k held" and mx: "countable_refs k held"
    and q: "quiet (ht_grace (k_table k))" "unat ctx < MAX_CTX"
  shows "\<exists>k' r. lookup_as k ctx h pid required ty = Some (k', r) \<and> caps (k_table k') = caps (k_table k)
    \<and> (case lookup_decision (caps (k_table k)) h pid required of
         Inl e \<Rightarrow> r = Inl e \<and> kernel_inv k' held
       | Inr ok \<Rightarrow> if map_option c_type (caps (k_table k) h) = Some (KObjectType_as_u32 ty)
           then r = Inr (lo_object ok) \<and> kernel_inv k' (held(lo_object ok := held (lo_object ok) + 1))
           else r = Inl WrongType \<and> kernel_inv k' held)"
proof -
  let ?d = "lookup_decision (caps (k_table k)) h pid required"
  from lookup_spec [OF inv mx q, of h pid required] obtain k1 where
    k1: "lookup k ctx h pid required = Some (k1, ?d)" "caps (k_table k1) = caps (k_table k)"
      "kernel_inv k1 (held_after held ?d)" by blast
  show ?thesis
  proof (cases ?d)
    case (Inl e)
    then show ?thesis using k1 by (simp add: lookup_as_def)
  next
    case (Inr ok)
    from Inr obtain c where c: "caps (k_table k) h = Some c" "ok = \<lparr>lo_object = c_object c, lo_rights = c_rights c\<rparr>"
      by (auto simp: lookup_decision_def split: if_splits option.splits)
    have inv1: "kernel_inv k1 (held(c_object c := held (c_object c) + 1))" using k1(3) by (simp add: Inr c(2))
    from cap_compatible [OF inv1] c(1) k1(2) obtain ty' where
      ty': "ObjectRef_object_type (k_objs k1) (c_object c) = Some ty'" "c_type c = KObjectType_as_u32 ty'" by metis
    have inj: "KObjectType_as_u32 ty' = KObjectType_as_u32 ty \<longleftrightarrow> ty' = ty"
      by (metis from_u32_as_u32 option.inject)
    have "kernel_inv (k1\<lparr>k_objs := ObjectRef_drop (k_objs k1) (c_object c)\<rparr>) held"
      using release_held [OF inv1, of "c_object c"] by simp
    then show ?thesis
      using k1 inv1 c ty' inj by (simp add: lookup_as_def Inr ObjectRef_downcast_def)
  qed
qed

section \<open>The install set\<close>

lemma close_list_spec:
  assumes "kernel_inv k held" "quiet (ht_grace (k_table k))"
  shows "\<exists>k'. close_list k pid hs = Some k' \<and> kernel_inv k' held \<and> quiet (ht_grace (k_table k'))
    \<and> caps (k_table k') = caps (k_table k) |` (- (set hs \<inter> owned (caps (k_table k)) pid - {0}))"
  using assms
proof (induction hs arbitrary: k)
  case Nil
  then show ?case by (simp add: restrict_map_def)
next
  case (Cons h hs)
  from close_and_drop_spec [OF Cons.prems, of h pid] obtain k1 where
    k1: "close_and_drop k h pid = Some k1" "kernel_inv k1 held" "quiet (ht_grace (k_table k1))"
      "caps (k_table k1) = (if h \<noteq> 0 \<and> map_option c_owner (caps (k_table k) h) = Some pid
         then (caps (k_table k))(h := None) else caps (k_table k))" by blast
  have c1: "caps (k_table k1) = caps (k_table k) |` (- ({h} \<inter> owned (caps (k_table k)) pid - {0}))"
    unfolding k1(4) by (auto simp: fun_eq_iff restrict_map_def owned_def)
  from Cons.IH [OF k1(2,3)] obtain k' where
    k': "close_list k1 pid hs = Some k'" "kernel_inv k' held" "quiet (ht_grace (k_table k'))"
      "caps (k_table k') = caps (k_table k1) |` (- (set hs \<inter> owned (caps (k_table k1)) pid - {0}))" by blast
  have "caps (k_table k') = caps (k_table k) |` (- (set (h # hs) \<inter> owned (caps (k_table k)) pid - {0}))"
    unfolding k'(4) c1 owned_restrict restrict_restrict by (rule arg_cong [where f = "\<lambda>A. caps (k_table k) |` A"]) auto
  then show ?case using k1(1) k' by auto
qed

text \<open>
  \<open>ins\<close> holds exactly the handles that were added to the capabilities \<open>m\<close> since the set was made.
\<close>

definition installed_since :: "(u64 \<Rightarrow> cap option) \<Rightarrow> Kernel \<Rightarrow> Installed \<Rightarrow> bool" where
  "installed_since m k ins \<longleftrightarrow> in_len ins \<le> length (in_handles ins)
     \<and> set (take (in_len ins) (in_handles ins)) \<subseteq> owned (caps (k_table k)) (in_pid ins)
     \<and> m = caps (k_table k) |` (- set (take (in_len ins) (in_handles ins)))"

lemma installed_since_new: "installed_since (caps (k_table k)) k (Installed_new n pid)"
  by (simp add: installed_since_def Installed_new_def restrict_map_def)

lemma Installed_install_spec:
  assumes inv: "kernel_inv k held" and p: "0 < held object"
    and ty: "ObjectRef_object_type (k_objs k) object = Some ty" and ins: "installed_since m k ins"
  shows "\<exists>k' ins' r. Installed_install mem k ins object rights = Some (k', ins', r)
    \<and> installed_since m k' ins' \<and> in_pid ins' = in_pid ins \<and> (quiet (ht_grace (k_table k)) \<longrightarrow> quiet (ht_grace (k_table k')))
    \<and> k_objs k' = k_objs k
    \<and> (case r of Inl _ \<Rightarrow> kernel_inv k' held | Inr h \<Rightarrow> kernel_inv k' (held(object := held object - 1)))"
proof (cases "in_len ins = length (in_handles ins)")
  case True
  then show ?thesis using inv ins by (simp add: Installed_install_def)
next
  case False
  let ?n = "in_len ins" and ?hs = "in_handles ins"
    and ?c = "\<lparr>c_object = object, c_type = KObjectType_as_u32 ty, c_owner = in_pid ins, c_rights = rights\<rparr>"
  have lt: "?n < length ?hs" using False ins by (simp add: installed_since_def)
  obtain k' r where i: "install mem k (in_pid ins) object rights = Some (k', r)" "k_objs k' = k_objs k"
      "quiet (ht_grace (k_table k)) \<longrightarrow> quiet (ht_grace (k_table k'))"
    and r: "case r of Inl e \<Rightarrow> caps (k_table k') = caps (k_table k) \<and> kernel_inv k' held
       | Inr h \<Rightarrow> caps (k_table k) h = None \<and> caps (k_table k') = (caps (k_table k))(h \<mapsto> ?c)
           \<and> kernel_inv k' (held(object := held object - 1))"
    using install_spec [OF inv p ty, of mem "in_pid ins" rights] by (fastforce split: sum.splits)
  show ?thesis
  proof (cases r)
    case (Inl e)
    then show ?thesis using i r ins False by (simp add: Installed_install_def installed_since_def)
  next
    case (Inr h)
    let ?ins = "ins\<lparr>in_handles := ?hs[?n := h], in_len := ?n + 1\<rparr>"
    have c: "caps (k_table k) h = None" "c_owner ?c = in_pid ins"
      "caps (k_table k') = (caps (k_table k))(h \<mapsto> ?c)" "kernel_inv k' (held(object := held object - 1))"
      using r Inr by auto
    have tk: "take (Suc ?n) (?hs[?n := h]) = take ?n ?hs @ [h]"
      using lt by (simp add: take_Suc_conv_app_nth)
    have sub: "set (take ?n ?hs) \<subseteq> owned (caps (k_table k)) (in_pid ins)" using ins by (simp add: installed_since_def)
    have "h \<notin> set (take ?n ?hs)" using sub c(1) by (auto simp: owned_def)
    then have "m = caps (k_table k') |` (- set (take (Suc ?n) (?hs[?n := h])))"
      using ins c(1) by (auto simp: installed_since_def tk c(3) restrict_map_def fun_eq_iff)
    moreover have "set (take (Suc ?n) (?hs[?n := h])) \<subseteq> owned (caps (k_table k')) (in_pid ins)"
      using sub c by (auto simp: tk owned_def)
    ultimately have "installed_since m k' ?ins" using lt by (simp add: installed_since_def)
    then show ?thesis using i Inr c(4) False by (simp add: Installed_install_def)
  qed
qed

lemma Installed_drop_spec:
  assumes inv: "kernel_inv k held" "quiet (ht_grace (k_table k))" and ins: "installed_since m k ins"
    and nn: "0 \<notin> set (take (in_len ins) (in_handles ins))"
  shows "\<exists>k'. Installed_drop k ins = Some k' \<and> kernel_inv k' held \<and> caps (k_table k') = m"
proof -
  have "set (take (in_len ins) (in_handles ins)) \<inter> owned (caps (k_table k)) (in_pid ins) - {0}
      = set (take (in_len ins) (in_handles ins))" using ins nn by (auto simp: installed_since_def)
  then show ?thesis
    using close_list_spec [OF inv, of "in_pid ins" "take (in_len ins) (in_handles ins)"] ins
    by (auto simp: Installed_drop_def installed_since_def)
qed

end
