(* ===== verification/Handle_Example.thy ===== *)
theory Handle_Example
  imports Handle_Claims
begin

text \<open>
  A concrete kernel state: one segment whose slot 0 is a live IPC channel handle of process 7, all
  other slots free in order, an empty ring, and one object. It satisfies the invariant, so the
  theorems about well-formed states speak of something.
\<close>

definition demo_rights :: u64 where
  "demo_rights = 262149"

definition demo_entry :: "nat \<Rightarrow> HandleEntry" where
  "demo_entry j =
     (if j = 0 then HandleEntry_new\<lparr>he_generation := 1, he_owner_pid := 7, he_rights := demo_rights,
        he_object_type := 5, he_object := 4096\<rparr>
      else HandleEntry_new\<lparr>he_free_next := (if j = SEGMENT_LEN - 1 then FREE_NEXT_TAIL else of_nat (j + 1))\<rparr>)"

definition demo_table :: HandleTable where
  "demo_table = \<lparr>ht_directory = Some (map demo_entry [0..<SEGMENT_LEN]) # replicate (DIRECTORY_LEN - 1) None,
     ht_next_segment_hint = 0, ht_grace = GraceTracker_new,
     ht_segment_meta = \<lparr>free_head = 1, free_count = of_nat (SEGMENT_LEN - 1)\<rparr> # replicate (DIRECTORY_LEN - 1) SegmentMeta_empty,
     ht_segments_count = 1,
     ht_defer_ring = \<lparr>dq_buf = replicate DEFER_RING_CAPACITY None, dq_head = 0, dq_len = 0\<rparr>, ht_prng = 1\<rparr>"

definition demo_kernel :: Kernel where
  "demo_kernel = \<lparr>k_table = demo_table, k_objs = [4096 \<mapsto> \<lparr>kh_refcount = 1, kh_object_type = KIpcChannel\<rparr>]\<rparr>"

definition demo_handle :: u64 where
  "demo_handle = 4294967296"

definition demo_cap :: cap where
  "demo_cap = \<lparr>c_object = 4096, c_type = 5, c_owner = 7, c_rights = demo_rights\<rparr>"

lemma demo_nth: "j < SEGMENT_LEN \<Longrightarrow> map demo_entry [0..<SEGMENT_LEN] ! j = demo_entry j"
  by simp

text \<open>Slots linked in ascending order from \<open>lo\<close> to the end are a free list.\<close>

lemma ascending_free:
  assumes len: "length es = SEGMENT_LEN" and lo: "lo < SEGMENT_LEN"
    and nx: "\<And>j. lo \<le> j \<Longrightarrow> j < SEGMENT_LEN \<Longrightarrow>
      he_free_next (es ! j) = (if j = SEGMENT_LEN - 1 then FREE_NEXT_TAIL else of_nat (j + 1))"
  shows "seg_free es \<lparr>free_head = of_nat lo, free_count = of_nat (SEGMENT_LEN - lo)\<rparr> (map of_nat [lo..<SEGMENT_LEN])"
proof -
  let ?fl = "map of_nat [lo..<SEGMENT_LEN] :: u32 list"
  have ne: "?fl \<noteq> []" using lo by simp
  have nth: "?fl ! k = of_nat (lo + k)" if "lo + k < SEGMENT_LEN" for k using that by (simp add: nth_upt)
  have u: "unat (of_nat n :: u32) = n" if "n < SEGMENT_LEN" for n using that by (simp add: SEGMENT_LEN_def unat_of_nat)
  have next_free: "seg_next es (of_nat n) = (if n = SEGMENT_LEN - 1 then FREE_NEXT_TAIL else of_nat (n + 1))"
    if "lo \<le> n" "n < SEGMENT_LEN" for n
    using nx [OF that] u [OF that(2)] by (simp add: seg_next_def)
  have last: "last ?fl = of_nat (SEGMENT_LEN - 1)"
    using lo nth [of "SEGMENT_LEN - 1 - lo"] ne by (simp add: last_conv_nth)
  have "chain (seg_next es) FREE_NEXT_TAIL (hd ?fl) ?fl"
  proof (rule chain_thread [OF ne])
    show "seg_next es (?fl ! k) = ?fl ! (k + 1)" if k: "k + 1 < length ?fl" for k
    proof -
      have lt: "lo + k < SEGMENT_LEN" "lo + (k + 1) < SEGMENT_LEN" "lo + k \<noteq> SEGMENT_LEN - 1" using k by auto
      then have "seg_next es (of_nat (lo + k)) = of_nat (lo + k + 1)" using next_free [of "lo + k"] by simp
      then show ?thesis unfolding nth [OF lt(1)] nth [OF lt(2)] by (simp add: add.assoc)
    qed
    show "seg_next es (last ?fl) = FREE_NEXT_TAIL" using next_free [of "SEGMENT_LEN - 1"] last lo by simp
    show "FREE_NEXT_TAIL \<notin> set ?fl"
    proof
      assume "FREE_NEXT_TAIL \<in> set ?fl"
      then obtain n where "n < SEGMENT_LEN" "FREE_NEXT_TAIL = of_nat n" by auto
      then show False using u [of n] unat_FREE_NEXT_TAIL by (simp add: SEGMENT_LEN_def)
    qed
  qed
  moreover have "hd ?fl = of_nat lo" using lo by (simp add: upt_conv_Cons)
  ultimately show ?thesis using u len by (auto simp: seg_free_def)
qed

lemma ascending_slots: "unat ` set (map of_nat [lo..<SEGMENT_LEN] :: u32 list) = {lo..<SEGMENT_LEN}"
  by (auto simp: image_image SEGMENT_LEN_def unat_of_nat image_iff)

lemma demo_free: "seg_free (map demo_entry [0..<SEGMENT_LEN]) \<lparr>free_head = 1, free_count = of_nat (SEGMENT_LEN - 1)\<rparr>
    (map of_nat [1..<SEGMENT_LEN])"
  using ascending_free [of "map demo_entry [0..<SEGMENT_LEN]" 1] by (simp add: demo_entry_def SEGMENT_LEN_def)

lemma demo_rights_ok: "is_rights_compatible KIpcChannel demo_rights"
  by (simp add: is_rights_compatible_def principals rights_bits demo_rights_def Rights_is_subset_of_def Rights_intersection_def)

lemma demo_seg: "seg_inv {} (map demo_entry [0..<SEGMENT_LEN]) \<lparr>free_head = 1, free_count = of_nat (SEGMENT_LEN - 1)\<rparr>"
proof (rule seg_invI [OF _ _ demo_free])
  have ty: "KObjectType_from_u32 5 = Some KIpcChannel" using from_u32_as_u32 [of KIpcChannel] by simp
  show "entry_ok (map demo_entry [0..<SEGMENT_LEN] ! j)" if "j < SEGMENT_LEN" for j
    using that demo_rights_ok by (simp add: entry_ok_def demo_entry_def HandleEntry_new_def ty GENERATION_MAX_val mask_eq_exp_minus_1)
  show "{j. j < SEGMENT_LEN \<and> he_object (map demo_entry [0..<SEGMENT_LEN] ! j) = 0}
      = unat ` set (map of_nat [1..<SEGMENT_LEN] :: u32 list) \<union> {}"
    unfolding ascending_slots by (auto simp: demo_entry_def HandleEntry_new_def split: if_splits)
qed simp_all

lemma demo_dir:
  "ht_directory demo_table ! 0 = Some (map demo_entry [0..<SEGMENT_LEN])"
  "0 < i \<Longrightarrow> i < DIRECTORY_LEN \<Longrightarrow> ht_directory demo_table ! i = None"
  by (cases i; simp add: demo_table_def)+

lemma demo_table_inv: "table_inv demo_table"
  unfolding table_inv_def
proof (intro conjI allI impI)
  show "\<exists>es. ht_directory demo_table ! i = Some es
      \<and> seg_inv (defer_slots (ht_defer_ring demo_table) i) es (ht_segment_meta demo_table ! i)"
    if "i < segs demo_table" for i
    using that demo_seg by (simp add: demo_table_def defer_slots_def ring_slots_def dq_contents_def)
qed (auto simp: demo_table_def defer_slots_def ring_slots_def dq_contents_def ring_ok_def dq_inv_def
    dq_capacity_def DEFER_RING_CAPACITY_def DIRECTORY_LEN_def GraceTracker_new_def nth_Cons' numeral_eq_Suc)

lemma demo_handle_decode: "RawHandle_decode demo_handle = (0, 0, 1)"
  by (simp add: RawHandle_decode_def demo_handle_def)

lemma demo_caps: "caps demo_table = [demo_handle \<mapsto> demo_cap]"
proof
  fix h
  obtain sg sl g where h: "RawHandle_decode h = (sg, sl, g)" by (metis prod_cases3)
  have eq: "h = demo_handle \<longleftrightarrow> sg = 0 \<and> sl = 0 \<and> g = 1"
    using decode_inject [of h demo_handle] by (simp add: h demo_handle_decode)
  have len: "length (ht_directory demo_table) = DIRECTORY_LEN" by (simp add: demo_table_def DIRECTORY_LEN_def)
  show "caps demo_table h = [demo_handle \<mapsto> demo_cap] h"
  proof (cases "sg = 0 \<and> unat sl < SEGMENT_LEN")
    case True
    then have "caps demo_table h = grants (demo_entry (unat sl)) g"
      using caps_at [OF h, of demo_table] demo_dir(1) len by (simp add: DIRECTORY_LEN_def)
    then show ?thesis
      using True eq by (auto simp: unat_eq_zero grants_def demo_entry_def HandleEntry_new_def cap_of_def demo_cap_def)
  next
    case False
    then have "caps demo_table h = None"
      using demo_dir(2) [of "unat sg"] len by (intro caps_absent [OF h]) (auto simp: not_le unat_gt_0)
    then show ?thesis using False eq by (auto simp: SEGMENT_LEN_def)
  qed
qed

lemma demo_kernel_inv: "kernel_inv demo_kernel (\<lambda>_. 0)"
proof -
  have r: "refs (caps demo_table) p = (if p = 4096 then 1 else 0)" for p
    using refs_insert [of Map.empty demo_handle demo_cap] by (simp add: demo_caps demo_cap_def refs_def)
  have "counts (k_objs demo_kernel) (\<lambda>p. refs (caps demo_table) p + 0)"
    by (auto simp: counts_def demo_kernel_def r)
  then show ?thesis
    using demo_table_inv by (auto simp: kernel_inv_def demo_kernel_def demo_caps cap_typed_def demo_cap_def split: if_splits)
qed

lemma demo_quiet: "quiet (ht_grace (k_table demo_kernel))"
  by (simp add: demo_kernel_def demo_table_def quiet_new)

lemma demo_held: "held_small (\<lambda>_. 0)"
  by (simp add: held_small_def MAX_REFCOUNT_val DIRECTORY_LEN_def SEGMENT_LEN_def)

lemma demo_countable: "countable_refs demo_kernel (\<lambda>_. 0)"
  by (rule countable_from_held [OF demo_kernel_inv demo_held])

lemma demo_ok: "kernel_ok (\<lambda>_. 0) demo_kernel"
  by (simp add: kernel_ok_def demo_kernel_inv demo_held demo_quiet)

lemmas demo = demo_kernel_inv demo_quiet demo_held demo_countable demo_ok demo_table_inv

section \<open>A slot about to wrap its generation\<close>

text \<open>All slots free in order, slot 0 issued \<open>2 ^ 31 - 1\<close> times already.\<close>

definition wrap_entry :: "nat \<Rightarrow> HandleEntry" where
  "wrap_entry j = HandleEntry_new\<lparr>he_generation := (if j = 0 then GENERATION_MAX else 0),
     he_free_next := (if j = SEGMENT_LEN - 1 then FREE_NEXT_TAIL else of_nat (j + 1))\<rparr>"

definition wrap_table :: HandleTable where
  "wrap_table = demo_table\<lparr>
     ht_directory := Some (map wrap_entry [0..<SEGMENT_LEN]) # replicate (DIRECTORY_LEN - 1) None,
     ht_segment_meta := \<lparr>free_head = 0, free_count = of_nat SEGMENT_LEN\<rparr> # replicate (DIRECTORY_LEN - 1) SegmentMeta_empty\<rparr>"

lemma wrap_seg: "seg_inv {} (map wrap_entry [0..<SEGMENT_LEN]) \<lparr>free_head = 0, free_count = of_nat SEGMENT_LEN\<rparr>"
proof (rule seg_invI)
  show "seg_free (map wrap_entry [0..<SEGMENT_LEN]) \<lparr>free_head = 0, free_count = of_nat SEGMENT_LEN\<rparr>
      (map of_nat [0..<SEGMENT_LEN])"
    using ascending_free [of "map wrap_entry [0..<SEGMENT_LEN]" 0] by (simp add: wrap_entry_def SEGMENT_LEN_def)
  show "entry_ok (map wrap_entry [0..<SEGMENT_LEN] ! j)" if "j < SEGMENT_LEN" for j
    using that by (simp add: entry_ok_def wrap_entry_def HandleEntry_new_def)
  show "{j. j < SEGMENT_LEN \<and> he_object (map wrap_entry [0..<SEGMENT_LEN] ! j) = 0}
      = unat ` set (map of_nat [0..<SEGMENT_LEN] :: u32 list) \<union> {}"
    unfolding ascending_slots by (auto simp: wrap_entry_def HandleEntry_new_def)
qed simp_all

lemma wrap_table_inv: "table_inv wrap_table"
  unfolding table_inv_def
proof (intro conjI allI impI)
  show "\<exists>es. ht_directory wrap_table ! i = Some es
      \<and> seg_inv (defer_slots (ht_defer_ring wrap_table) i) es (ht_segment_meta wrap_table ! i)"
    if "i < segs wrap_table" for i
    using that wrap_seg by (simp add: wrap_table_def demo_table_def defer_slots_def ring_slots_def dq_contents_def)
qed (auto simp: wrap_table_def demo_table_def defer_slots_def ring_slots_def dq_contents_def ring_ok_def dq_inv_def
    dq_capacity_def DEFER_RING_CAPACITY_def DIRECTORY_LEN_def GraceTracker_new_def nth_Cons' numeral_eq_Suc)

end
