(* ===== verification/Handle_Count.thy ===== *)
theory Handle_Count
  imports Handle_Confinement
begin

text \<open>
  What \<^verbatim>\<open>allocated_count\<close> counts, and what an allocation does when the slot it takes has used up
  its generations.
\<close>

section \<open>The number of live handles\<close>

definition live_slots :: "HandleTable \<Rightarrow> nat \<Rightarrow> nat set" where
  "live_slots t i = {j. j < SEGMENT_LEN \<and> (\<exists>es. ht_directory t ! i = Some es \<and> he_object (es ! j) \<noteq> 0)}"

lemma finite_live [simp]: "finite (live_slots t i)"
  by (simp add: live_slots_def)

text \<open>In one segment every slot is free, waiting or live.\<close>

lemma segment_count:
  assumes inv: "table_inv t" and i: "i < segs t"
  shows "int SEGMENT_LEN - int (unat (free_count (ht_segment_meta t ! i)))
    = int (card (live_slots t i)) + int (card (defer_slots (ht_defer_ring t) i))"
proof -
  obtain es where es: "ht_directory t ! i = Some es"
    "seg_inv (defer_slots (ht_defer_ring t) i) es (ht_segment_meta t ! i)" using table_inv_seg [OF inv i] .
  let ?ds = "defer_slots (ht_defer_ring t) i" and ?m = "ht_segment_meta t ! i"
  from es(2) obtain fl where fl: "seg_free es ?m fl" "?ds \<inter> unat ` set fl = {}" "length es = SEGMENT_LEN"
    "{j. j < SEGMENT_LEN \<and> he_object (es ! j) = 0} = unat ` set fl \<union> ?ds" unfolding seg_inv_def by blast
  have "finite (unat ` set fl \<union> ?ds)" unfolding fl(4) [symmetric] by simp
  then have fin: "finite ?ds" by simp
  have live: "live_slots t i = {..<SEGMENT_LEN} - (unat ` set fl \<union> ?ds)"
    unfolding fl(4) [symmetric] by (auto simp: live_slots_def es(1))
  have sub: "unat ` set fl \<union> ?ds \<subseteq> {..<SEGMENT_LEN}" unfolding fl(4) [symmetric] by auto
  have "card (unat ` set fl) = length fl"
    using distinct_card [OF seg_free_distinct [OF fl(1)]] by (simp add: card_image inj_on_def)
  then have dead: "card (unat ` set fl \<union> ?ds) = unat (free_count ?m) + card ?ds"
    using fl(2) fin seg_free_count [OF fl(1)] fl(3) by (subst card_Un_disjoint) auto
  have "card (live_slots t i) = SEGMENT_LEN - card (unat ` set fl \<union> ?ds)"
    unfolding live using sub by (subst card_Diff_subset) (auto intro: finite_subset)
  moreover have "card (unat ` set fl \<union> ?ds) \<le> SEGMENT_LEN" using card_mono [OF _ sub] by simp
  ultimately show ?thesis using dead by simp
qed

lemma ring_count:
  assumes inv: "table_inv t"
  shows "dq_len (ht_defer_ring t) = (\<Sum>i \<in> {..< (segs t)}. card (defer_slots (ht_defer_ring t) i))"
proof -
  let ?q = "ht_defer_ring t"
  have set: "set (ring_slots ?q) = Sigma {..<segs t} (defer_slots ?q)"
    using table_invD(7) [OF inv] by (auto simp: defer_slots_def)
  have fin: "finite (defer_slots ?q i)" for i
    by (rule finite_subset [of _ "snd ` set (ring_slots ?q)"]) (force simp: defer_slots_def)+
  have "dq_len ?q = length (ring_slots ?q)" by (simp add: ring_slots_def)
  also have "\<dots> = card (set (ring_slots ?q))"
    using table_invD(5) [OF inv] by (simp add: ring_ok_def distinct_card)
  finally show ?thesis using fin by (simp add: set)
qed

lemma handles_count:
  assumes inv: "table_inv t"
  shows "card (dom (caps t)) = (\<Sum>i \<in> {..< (segs t)}. card (live_slots t i))"
proof -
  let ?f = "\<lambda>(i, j). RawHandle_encode (of_nat i) (of_nat j) (he_generation (the (ht_directory t ! i) ! j))"
  let ?S = "Sigma {..<segs t} (live_slots t)"
  have dir: "i < segs t \<Longrightarrow> i < DIRECTORY_LEN" for i using table_invD(3) [OF inv] by simp
  have inj: "inj_on ?f ?S"
  proof (rule inj_onI, clarify)
    fix i j i' j'
    assume ij: "i < segs t" "j \<in> live_slots t i" "i' < segs t" "j' \<in> live_slots t i'"
      and eq: "RawHandle_encode (of_nat i) (of_nat j) (he_generation (the (ht_directory t ! i) ! j))
        = RawHandle_encode (of_nat i') (of_nat j') (he_generation (the (ht_directory t ! i') ! j'))"
    have j: "j < SEGMENT_LEN" "j' < SEGMENT_LEN" using ij by (auto simp: live_slots_def)
    note d = decode_slot [OF dir [OF ij(1)] j(1)] and d' = decode_slot [OF dir [OF ij(3)] j(2)]
    from arg_cong [OF eq, of RawHandle_decode] have "(of_nat i :: u32) = of_nat i' \<and> (of_nat j :: u32) = of_nat j'"
      unfolding d(1) d'(1) by blast
    then show "i = i' \<and> j = j'" using d(2,3) d'(2,3) by metis
  qed
  have img: "?f ` ?S = dom (caps t)"
  proof (rule set_eqI, rule iffI)
    fix h
    assume "h \<in> ?f ` ?S"
    then obtain i j where ij: "i < segs t" "j \<in> live_slots t i" "h = ?f (i, j)" by auto
    then obtain es where es: "j < SEGMENT_LEN" "ht_directory t ! i = Some es" "he_object (es ! j) \<noteq> 0"
      by (auto simp: live_slots_def)
    note d = decode_slot [OF dir [OF ij(1)] es(1)]
    have "caps t (RawHandle_encode (of_nat i) (of_nat j) (he_generation (es ! j)))
        = (if j < SEGMENT_LEN then grants (es ! j) (he_generation (es ! j)) else None)"
      using caps_at [OF d(1), of t es "he_generation (es ! j)"] dir [OF ij(1)] table_invD(1) [OF inv] es(2)
      unfolding d(2,3) by simp
    moreover have "h = RawHandle_encode (of_nat i) (of_nat j) (he_generation (es ! j))" using ij(3) es(2) by simp
    ultimately have "caps t h = Some (cap_of (es ! j))" using es by (simp add: grants_def)
    then show "h \<in> dom (caps t)" by blast
  next
    fix h
    assume "h \<in> dom (caps t)"
    then obtain c where c: "caps t h = Some c" by blast
    from caps_SomeE [OF inv c] obtain i j es where "i < segs t" "ht_directory t ! i = Some es" "j < SEGMENT_LEN"
      "h = RawHandle_encode (of_nat i) (of_nat j) (he_generation (es ! j))" "he_object (es ! j) \<noteq> 0" by metis
    then have "(i, j) \<in> ?S" "h = ?f (i, j)" by (auto simp: live_slots_def)
    then show "h \<in> ?f ` ?S" by blast
  qed
  show ?thesis using card_image [OF inj] unfolding img by simp
qed

lemma allocated_count_handles:
  assumes inv: "table_inv t"
  shows "allocated_count t = int (card (dom (caps t)))"
proof -
  have "(\<Sum>i \<leftarrow> [0..<segs t]. int SEGMENT_LEN - int (unat (free_count (ht_segment_meta t ! i))))
      = (\<Sum>i \<in> {..< (segs t)}. int (card (live_slots t i)) + int (card (defer_slots (ht_defer_ring t) i)))"
    using segment_count [OF inv] by (simp add: interv_sum_list_conv_sum_set_nat atLeast0LessThan)
  then show ?thesis
    by (simp add: allocated_count_def ring_count [OF inv] handles_count [OF inv] sum.distrib)
qed

section \<open>Generation wrap of slot 0\<close>

lemma drain_empty:
  assumes "dq_len (ht_defer_ring t) = 0"
  shows "drain_expired t = t\<lparr>ht_grace := snd (advance_epoch (ht_grace t))\<rparr>"
  using assms by (simp add: drain_expired_def drain_loop.simps [of t] dq_front_def Let_def)

lemma allocate_wraps_to_null:
  assumes inv: "table_inv t" and ring: "dq_len (ht_defer_ring t) = 0" and seg: "0 < segs t" "ht_next_segment_hint t = 0"
    and es: "ht_directory t ! 0 = Some es" "0 < free_count (ht_segment_meta t ! 0)" "free_head (ht_segment_meta t ! 0) = 0"
    and gen: "he_generation (es ! 0) = GENERATION_MAX" and ok: "object \<noteq> 0" "is_rights_compatible ty rights"
  shows "\<exists>t'. allocate mem t owner object ty rights = Some (t', Inr RawHandle_NULL) \<and> table_inv t'
    \<and> caps t' RawHandle_NULL = Some \<lparr>c_object = object, c_type = KObjectType_as_u32 ty, c_owner = owner, c_rights = rights\<rparr>"
proof -
  let ?t = "t\<lparr>ht_grace := snd (advance_epoch (ht_grace t))\<rparr>"
  have d: "drain_expired t = ?t" by (rule drain_empty [OF ring])
  have tinv: "table_inv ?t" using drain_expired_inv(1) [OF inv] by (simp add: d)
  have scan: "scan_free ?t = Some 0" using seg es by (simp add: scan_free_def upt_conv_Cons)
  have seg': "0 < segs ?t" "0 < free_count (ht_segment_meta ?t ! 0)" using seg es by simp_all
  obtain t' h es' where t': "take_slot ?t 0 owner object ty rights = Some (t', h)" "table_inv t'"
    "ht_directory ?t ! 0 = Some es'"
    "h = RawHandle_encode (of_nat 0) (free_head (ht_segment_meta ?t ! 0))
       ((he_generation (es' ! unat (free_head (ht_segment_meta ?t ! 0))) + 1) AND GENERATION_MAX)"
    "caps t' = (caps ?t)(h \<mapsto> \<lparr>c_object = object, c_type = KObjectType_as_u32 ty, c_owner = owner, c_rights = rights\<rparr>)"
    using take_slot_inv [OF tinv seg' ok, of owner] by metis
  have "(GENERATION_MAX + 1) AND GENERATION_MAX = 0"
    by (simp add: GENERATION_MAX_val mask_eq_exp_minus_1)
  then have "h = RawHandle_NULL"
    using t'(3,4) es gen by (simp add: RawHandle_encode_def RawHandle_NULL_def)
  then show ?thesis
    using t' scan ok by (simp add: allocate_def allocate_loop.simps [of mem t] d)
qed

end
