(* ===== verification/Handle_Seqlock.thy ===== *)
theory Handle_Seqlock
  imports Handle_Segment
begin

text \<open>
  The seqlock of a handle entry with a writer and a reader interleaved step by step
  (\<^verbatim>\<open>read_snapshot\<close> and \<^verbatim>\<open>WriteGuard\<close> of \<^verbatim>\<open>kernel/src/handle/entry.rs\<close>). Each
  step is one load or store and the memory is sequentially consistent. The writer holds the table's
  lock, so there is one at a time.
\<close>

section \<open>The reader, one load at a time\<close>

datatype reader =
    RStart
  | RSeq u32
  | RGen u32 u32
  | ROwner u32 u32 u32
  | RRights u32 u32 u32 u64
  | RType u32 u32 u32 u64 u32
  | RDone EntrySnapshot

fun reader_step :: "HandleEntry \<Rightarrow> reader \<Rightarrow> reader" where
  "reader_step e RStart = (if he_seq e AND 1 \<noteq> 0 then RStart else RSeq (he_seq e))"
| "reader_step e (RSeq s1) = RGen s1 (he_generation e)"
| "reader_step e (RGen s1 g) = ROwner s1 g (he_owner_pid e)"
| "reader_step e (ROwner s1 g ow) = RRights s1 g ow (he_rights e)"
| "reader_step e (RRights s1 g ow r) = RType s1 g ow r (he_object_type e)"
| "reader_step e (RType s1 g ow r ty) =
     (let s2 = he_seq e in
      if s1 = s2
      then RDone \<lparr>es_seq = s1, es_generation = g, es_owner_pid = ow, es_rights = r, es_object_type = ty\<rparr>
      else RStart)"
| "reader_step e (RDone snap) = RDone snap"

text \<open>With no writer beside it the reader returns what the sequential model returns.\<close>

lemma reader_alone: "read_snapshot e = Some snap \<Longrightarrow> ((reader_step e) ^^ 6) RStart = RDone snap"
  by (auto simp: read_snapshot_def numeral_eq_Suc split: if_splits)

section \<open>The interleaving\<close>

text \<open>
  Beside the entry: the counter the writer entered with while it is inside, the reader, and three
  values only the statement needs: the fields as they stood when the reader loaded the counter, the
  windows opened since then, and that number when the reader accepted its snapshot.
\<close>

type_synonym fields = "u32 \<times> u32 \<times> u64 \<times> u32"

definition fields_of :: "HandleEntry \<Rightarrow> fields" where
  "fields_of e = (he_generation e, he_owner_pid e, he_rights e, he_object_type e)"

record seqsys =
  sl_entry :: HandleEntry
  sl_writer :: "u32 option"
  sl_reader :: reader
  sl_base :: fields
  sl_windows :: nat
  sl_accepted :: nat

text \<open>One store of the writer to a field the guard covers.\<close>

inductive field_store :: "HandleEntry \<Rightarrow> HandleEntry \<Rightarrow> bool" where
  "field_store e (e\<lparr>he_generation := v\<rparr>)"
| "field_store e (e\<lparr>he_owner_pid := w\<rparr>)"
| "field_store e (e\<lparr>he_rights := x\<rparr>)"
| "field_store e (e\<lparr>he_object_type := y\<rparr>)"
| "field_store e (e\<lparr>he_object := z\<rparr>)"
| "field_store e (e\<lparr>he_next_owned := u\<rparr>)"
| "field_store e (e\<lparr>he_in_transit := i\<rparr>)"

inductive seq_step :: "seqsys \<Rightarrow> seqsys \<Rightarrow> bool" where
  enter: "sl_writer s = None \<Longrightarrow>
     seq_step s (s\<lparr>sl_entry := WriteGuard_new (sl_entry s), sl_writer := Some (he_seq (sl_entry s)),
       sl_windows := sl_windows s + 1\<rparr>)"
| store: "sl_writer s = Some q \<Longrightarrow> field_store (sl_entry s) e \<Longrightarrow> seq_step s (s\<lparr>sl_entry := e\<rparr>)"
| leave: "sl_writer s = Some q \<Longrightarrow>
     seq_step s (s\<lparr>sl_entry := WriteGuard_drop q (sl_entry s), sl_writer := None\<rparr>)"
| start: "sl_reader s = RStart \<Longrightarrow> seq_step s (s\<lparr>sl_reader := reader_step (sl_entry s) RStart,
     sl_base := fields_of (sl_entry s), sl_windows := 0\<rparr>)"
| read: "sl_reader s \<noteq> RStart \<Longrightarrow> seq_step s (s\<lparr>sl_reader := reader_step (sl_entry s) (sl_reader s),
     sl_accepted := (case sl_reader s of RDone _ \<Rightarrow> sl_accepted s | _ \<Rightarrow> sl_windows s)\<rparr>)"
| again: "sl_reader s = RDone snap \<Longrightarrow> seq_step s (s\<lparr>sl_reader := RStart\<rparr>)"

inductive seq_reach :: "seqsys \<Rightarrow> bool" where
  init: "even (he_seq e) \<Longrightarrow> seq_reach \<lparr>sl_entry = e, sl_writer = None, sl_reader = RStart,
     sl_base = fields_of e, sl_windows = 0, sl_accepted = 0\<rparr>"
| step: "seq_reach s \<Longrightarrow> seq_step s s' \<Longrightarrow> seq_reach s'"

section \<open>The invariant\<close>

definition writer_ok :: "seqsys \<Rightarrow> bool" where
  "writer_ok s \<longleftrightarrow> (case sl_writer s of None \<Rightarrow> even (he_seq (sl_entry s))
     | Some q \<Rightarrow> even q \<and> he_seq (sl_entry s) = q + 1)"

text \<open>
  While the reader is under way from \<open>s1\<close>: the counter is \<open>s1\<close> plus two for each window closed since,
  and one more inside a window; with no window since, the fields are still those at the start.
\<close>

definition closed_windows :: "seqsys \<Rightarrow> nat" where
  "closed_windows s = (if sl_writer s = None then sl_windows s else sl_windows s - 1)"

definition under_way :: "seqsys \<Rightarrow> u32 \<Rightarrow> bool" where
  "under_way s s1 \<longleftrightarrow> even s1 \<and> (sl_writer s \<noteq> None \<longrightarrow> 0 < sl_windows s)
     \<and> he_seq (sl_entry s) = s1 + 2 * of_nat (closed_windows s) + (if sl_writer s = None then 0 else 1)
     \<and> (sl_windows s = 0 \<longrightarrow> fields_of (sl_entry s) = sl_base s)"

fun reader_ok :: "seqsys \<Rightarrow> reader \<Rightarrow> bool" where
  "reader_ok s RStart \<longleftrightarrow> True"
| "reader_ok s (RSeq s1) \<longleftrightarrow> under_way s s1"
| "reader_ok s (RGen s1 g) \<longleftrightarrow> under_way s s1 \<and> (sl_windows s = 0 \<longrightarrow> g = fst (sl_base s))"
| "reader_ok s (ROwner s1 g ow) \<longleftrightarrow> under_way s s1
     \<and> (sl_windows s = 0 \<longrightarrow> g = fst (sl_base s) \<and> ow = fst (snd (sl_base s)))"
| "reader_ok s (RRights s1 g ow r) \<longleftrightarrow> under_way s s1
     \<and> (sl_windows s = 0 \<longrightarrow> g = fst (sl_base s) \<and> ow = fst (snd (sl_base s)) \<and> r = fst (snd (snd (sl_base s))))"
| "reader_ok s (RType s1 g ow r ty) \<longleftrightarrow> under_way s s1
     \<and> (sl_windows s = 0 \<longrightarrow> g = fst (sl_base s) \<and> ow = fst (snd (sl_base s)) \<and> r = fst (snd (snd (sl_base s)))
        \<and> ty = snd (snd (snd (sl_base s))))"
| "reader_ok s (RDone snap) \<longleftrightarrow> (sl_accepted s < 2 ^ 31 \<longrightarrow>
     (es_generation snap, es_owner_pid snap, es_rights snap, es_object_type snap) = sl_base s)"

text \<open>An equal counter after fewer than \<open>2 ^ 31\<close> windows means there was none.\<close>

lemma same_counter_no_window:
  assumes u: "under_way s s1" and eq: "he_seq (sl_entry s) = s1" and lt: "sl_windows s < 2 ^ 31"
  shows "sl_windows s = 0 \<and> sl_writer s = None"
proof -
  let ?k = "2 * closed_windows s + (if sl_writer s = None then 0 else 1)"
  have "closed_windows s < 2 ^ 31" using lt by (auto simp: closed_windows_def)
  then have k: "?k < 2 ^ 32" by simp
  have "s1 + of_nat ?k = s1" using u eq by (auto simp: under_way_def)
  then have "(of_nat ?k :: u32) = 0" by simp
  then have "2 ^ 32 dvd ?k" by (simp only: word_of_nat_eq_0_iff) simp
  then have "?k = 0" using k by (meson dvd_imp_le neq0_conv not_le)
  then show ?thesis by (auto simp: closed_windows_def split: if_splits)
qed

lemma field_store_seq: "field_store e e' \<Longrightarrow> he_seq e' = he_seq e"
  by (cases rule: field_store.cases) auto

text \<open>Steps of the writer keep a read under way consistent.\<close>

lemma under_way_enter:
  assumes "sl_writer s = None" "under_way s s1"
  shows "under_way (s\<lparr>sl_entry := WriteGuard_new (sl_entry s), sl_writer := Some q, sl_windows := sl_windows s + 1\<rparr>) s1"
  using assms by (simp add: under_way_def closed_windows_def WriteGuard_new_def)

lemma under_way_store:
  assumes "sl_writer s = Some q" "field_store (sl_entry s) e" "under_way s s1"
  shows "under_way (s\<lparr>sl_entry := e\<rparr>) s1"
  using assms field_store_seq [OF assms(2)] by (simp add: under_way_def closed_windows_def)

lemma under_way_leave:
  assumes w: "sl_writer s = Some q" "writer_ok s" and u: "under_way s s1"
  shows "under_way (s\<lparr>sl_entry := WriteGuard_drop q (sl_entry s), sl_writer := None\<rparr>) s1"
proof -
  obtain n where n: "sl_windows s = Suc n" using u w(1) by (cases "sl_windows s") (auto simp: under_way_def)
  have "q + 1 = s1 + 2 * of_nat n + 1"
    using u w n by (simp add: under_way_def closed_windows_def writer_ok_def)
  then have "q = s1 + 2 * of_nat n" by simp
  then show ?thesis using u by (simp add: under_way_def closed_windows_def WriteGuard_drop_def n algebra_simps)
qed

lemma reader_ok_writer:
  assumes "\<And>s1. under_way s s1 \<Longrightarrow> under_way s' s1" "sl_base s' = sl_base s" "sl_accepted s' = sl_accepted s"
    "sl_windows s' = 0 \<Longrightarrow> sl_windows s = 0" "reader_ok s r"
  shows "reader_ok s' r"
  using assms by (cases r) auto

lemma writer_ok_cong: "sl_entry s' = sl_entry s \<Longrightarrow> sl_writer s' = sl_writer s \<Longrightarrow> writer_ok s' = writer_ok s"
  by (cases "sl_writer s") (simp_all add: writer_ok_def)

lemma under_way_upd [simp]: "under_way (s\<lparr>sl_reader := a, sl_accepted := b\<rparr>) s1 = under_way s s1"
  by (simp add: under_way_def closed_windows_def)

lemma under_way_fields:
  assumes "under_way s s1" "sl_windows s = 0"
  shows "he_generation (sl_entry s) = fst (sl_base s)" "he_owner_pid (sl_entry s) = fst (snd (sl_base s))"
    "he_rights (sl_entry s) = fst (snd (snd (sl_base s)))" "he_object_type (sl_entry s) = snd (snd (snd (sl_base s)))"
proof -
  have "fields_of (sl_entry s) = sl_base s" using assms by (simp add: under_way_def)
  then show "he_generation (sl_entry s) = fst (sl_base s)" "he_owner_pid (sl_entry s) = fst (snd (sl_base s))"
    "he_rights (sl_entry s) = fst (snd (snd (sl_base s)))" "he_object_type (sl_entry s) = snd (snd (snd (sl_base s)))"
    by (metis fields_of_def fst_conv snd_conv)+
qed

text \<open>A load of the reader.\<close>

lemma reader_ok_read:
  assumes ok: "reader_ok s (sl_reader s)" and r: "sl_reader s \<noteq> RStart"
  shows "reader_ok (s\<lparr>sl_reader := reader_step (sl_entry s) (sl_reader s),
      sl_accepted := (case sl_reader s of RDone _ \<Rightarrow> sl_accepted s | _ \<Rightarrow> sl_windows s)\<rparr>)
    (reader_step (sl_entry s) (sl_reader s))" (is "reader_ok ?s _")
proof (cases "sl_reader s")
  case RStart
  then show ?thesis using r by simp
next
  case (RSeq s1)
  then show ?thesis using ok under_way_fields(1) [of s s1] by simp
next
  case (RGen s1 g)
  then show ?thesis using ok under_way_fields(2) [of s s1] by simp
next
  case (ROwner s1 g ow)
  then show ?thesis using ok under_way_fields(3) [of s s1] by simp
next
  case (RRights s1 g ow r)
  then show ?thesis using ok under_way_fields(4) [of s s1] by simp
next
  case (RType s1 g ow r ty)
  show ?thesis
  proof (cases "s1 = he_seq (sl_entry s)")
    case True
    have u: "under_way s s1" "sl_windows s = 0 \<longrightarrow> (g, ow, r, ty) = sl_base s"
      using ok RType by (simp_all add: prod_eq_iff)
    have "(g, ow, r, ty) = sl_base s" if "sl_windows s < 2 ^ 31"
      using same_counter_no_window [OF u(1) True [symmetric] that] u(2) by blast
    then show ?thesis using RType True by simp
  next
    case False
    then show ?thesis using RType by simp
  qed
next
  case (RDone snap)
  then show ?thesis using ok by simp
qed

lemma seq_inv: "seq_reach s \<Longrightarrow> writer_ok s \<and> reader_ok s (sl_reader s)"
proof (induction rule: seq_reach.induct)
  case (init e)
  then show ?case by (simp add: writer_ok_def)
next
  case (step s s')
  from step(2) show ?case
  proof cases
    case enter
    have "reader_ok s' (sl_reader s)" unfolding enter(1)
      by (rule reader_ok_writer [of s, OF under_way_enter [OF enter(2)]]) (use step.IH in simp_all)
    then show ?thesis using step.IH enter by (simp add: writer_ok_def WriteGuard_new_def)
  next
    case (store q e)
    have "reader_ok s' (sl_reader s)" unfolding store(1)
      by (rule reader_ok_writer [of s, OF under_way_store [OF store(2,3)]]) (use step.IH in simp_all)
    then show ?thesis using step.IH store field_store_seq [OF store(3)] by (simp add: writer_ok_def)
  next
    case (leave q)
    have "reader_ok s' (sl_reader s)" unfolding leave(1)
      by (rule reader_ok_writer [of s, OF under_way_leave [OF leave(2)]]) (use step.IH in simp_all)
    then show ?thesis using step.IH leave by (simp add: writer_ok_def WriteGuard_drop_def)
  next
    case start
    have w: "even (he_seq (sl_entry s)) \<Longrightarrow> sl_writer s = None"
      using step.IH by (cases "sl_writer s") (auto simp: writer_ok_def)
    have "under_way s' (he_seq (sl_entry s))" if "even (he_seq (sl_entry s))"
      using w [OF that] that by (simp add: start(1) under_way_def closed_windows_def)
    then show ?thesis using step.IH writer_ok_cong [of s' s] by (simp add: start(1))
  next
    case read
    then show ?thesis using step.IH reader_ok_read [of s] writer_ok_cong [of s' s] by simp
  next
    case (again snap)
    then show ?thesis using step.IH writer_ok_cong [of s' s] by simp
  qed
qed

end
