(* ===== verification/Handle_Reclaim.thy ===== *)
theory Handle_Reclaim
  imports Handle_Grace
begin

text \<open>
  Closing a handle beside lookups on other processors (\<^verbatim>\<open>close\<close> and steps 5 to 8 of
  \<^verbatim>\<open>lookup\<close> in \<^verbatim>\<open>kernel/src/handle/table.rs\<close>, over the tracker of \<^verbatim>\<open>grace.rs\<close>), one
  load or store at a time on a sequentially consistent memory. One handle and its object are
  followed. The walk over the contexts is not atomic: each context is looked at in turn, and one
  that fails starts the walk again.
\<close>

section \<open>The interleaving\<close>

text \<open>
  A lookup on one context: it loads the epoch, stores it in its context, loads the object pointer
  (or finds it null and leaves), takes a reference, leaves the section, and later releases.
\<close>

datatype lookup_pc = LIdle | LLoaded u64 | LEntered | LPtr | LHeld | LOut

text \<open>The close: it nulls the pointer, takes a new epoch, walks the contexts, and releases.\<close>

datatype close_pc = CIdle | CUnpublished | CWalk u64 nat | CDone

record reclaim =
  rc_grace :: GraceTracker
  rc_slot :: bool
  rc_count :: nat
  rc_look :: "nat \<Rightarrow> lookup_pc"
  rc_close :: close_pc

text \<open>Epochs stay below the mark bit: fewer than \<open>2 ^ 63\<close> of them are ever taken.\<close>

definition epoch_fits :: "GraceTracker \<Rightarrow> bool" where
  "epoch_fits g \<longleftrightarrow> unat (g_epoch g) + 1 < 2 ^ 63"

inductive reclaim_step :: "reclaim \<Rightarrow> reclaim \<Rightarrow> bool" where
  bump: "epoch_fits (rc_grace s) \<Longrightarrow> reclaim_step s (s\<lparr>rc_grace := snd (advance_epoch (rc_grace s))\<rparr>)"
| load: "i < MAX_CTX \<Longrightarrow> rc_look s i = LIdle \<Longrightarrow>
     reclaim_step s (s\<lparr>rc_look := (rc_look s)(i := LLoaded (g_epoch (rc_grace s)))\<rparr>)"
| enter: "i < MAX_CTX \<Longrightarrow> rc_look s i = LLoaded e \<Longrightarrow>
     reclaim_step s (s\<lparr>rc_grace := (rc_grace s)\<lparr>g_ctx := (g_ctx (rc_grace s))[i := e]\<rparr>,
       rc_look := (rc_look s)(i := LEntered)\<rparr>)"
| pointer: "i < MAX_CTX \<Longrightarrow> rc_look s i = LEntered \<Longrightarrow> rc_slot s \<Longrightarrow>
     reclaim_step s (s\<lparr>rc_look := (rc_look s)(i := LPtr)\<rparr>)"
| null: "i < MAX_CTX \<Longrightarrow> rc_look s i = LEntered \<Longrightarrow> \<not> rc_slot s \<Longrightarrow>
     reclaim_step s (s\<lparr>rc_grace := ReadGuard_drop (rc_grace s) (of_nat i), rc_look := (rc_look s)(i := LIdle)\<rparr>)"
| acquire: "i < MAX_CTX \<Longrightarrow> rc_look s i = LPtr \<Longrightarrow> rc_count s \<noteq> 0 \<Longrightarrow>
     reclaim_step s (s\<lparr>rc_count := rc_count s + 1, rc_look := (rc_look s)(i := LHeld)\<rparr>)"
| refused: "i < MAX_CTX \<Longrightarrow> rc_look s i = LPtr \<Longrightarrow> rc_count s = 0 \<Longrightarrow>
     reclaim_step s (s\<lparr>rc_grace := ReadGuard_drop (rc_grace s) (of_nat i), rc_look := (rc_look s)(i := LIdle)\<rparr>)"
| leave: "i < MAX_CTX \<Longrightarrow> rc_look s i = LHeld \<Longrightarrow>
     reclaim_step s (s\<lparr>rc_grace := ReadGuard_drop (rc_grace s) (of_nat i), rc_look := (rc_look s)(i := LOut)\<rparr>)"
| release: "i < MAX_CTX \<Longrightarrow> rc_look s i = LOut \<Longrightarrow>
     reclaim_step s (s\<lparr>rc_count := rc_count s - 1, rc_look := (rc_look s)(i := LIdle)\<rparr>)"
| unpublish: "rc_close s = CIdle \<Longrightarrow> reclaim_step s (s\<lparr>rc_slot := False, rc_close := CUnpublished\<rparr>)"
| epoch: "rc_close s = CUnpublished \<Longrightarrow> epoch_fits (rc_grace s) \<Longrightarrow>
     reclaim_step s (s\<lparr>rc_grace := snd (unpublished (rc_grace s)),
       rc_close := CWalk (fst (unpublished (rc_grace s))) 0\<rparr>)"
| pass: "rc_close s = CWalk e j \<Longrightarrow> j < MAX_CTX \<Longrightarrow> ctx_past e (g_ctx (rc_grace s) ! j) \<Longrightarrow>
     reclaim_step s (s\<lparr>rc_close := CWalk e (Suc j)\<rparr>)"
| wait: "rc_close s = CWalk e j \<Longrightarrow> j < MAX_CTX \<Longrightarrow> \<not> ctx_past e (g_ctx (rc_grace s) ! j) \<Longrightarrow>
     reclaim_step s (s\<lparr>rc_close := CWalk e 0\<rparr>)"
| finish: "rc_close s = CWalk e MAX_CTX \<Longrightarrow>
     reclaim_step s (s\<lparr>rc_count := rc_count s - 1, rc_close := CDone\<rparr>)"

text \<open>The table's entry holds the one reference at first and every context is quiescent.\<close>

definition reclaim_start :: reclaim where
  "reclaim_start = \<lparr>rc_grace = GraceTracker_new, rc_slot = True, rc_count = 1, rc_look = (\<lambda>_. LIdle), rc_close = CIdle\<rparr>"

inductive reclaim_reach :: "reclaim \<Rightarrow> bool" where
  first: "reclaim_reach reclaim_start"
| then_step: "reclaim_reach s \<Longrightarrow> reclaim_step s s' \<Longrightarrow> reclaim_reach s'"

section \<open>The invariant\<close>

definition holding :: "reclaim \<Rightarrow> nat set" where
  "holding s = {i. i < MAX_CTX \<and> rc_look s i \<in> {LHeld, LOut}}"

text \<open>A lookup between entering and leaving.\<close>

fun inside :: "lookup_pc \<Rightarrow> bool" where
  "inside LEntered = True"
| "inside LPtr = True"
| "inside LHeld = True"
| "inside _ = False"

fun walk_ok :: "reclaim \<Rightarrow> close_pc \<Rightarrow> bool" where
  "walk_ok s CIdle \<longleftrightarrow> rc_slot s"
| "walk_ok s CUnpublished \<longleftrightarrow> \<not> rc_slot s"
| "walk_ok s (CWalk e j) \<longleftrightarrow> \<not> rc_slot s \<and> j \<le> MAX_CTX \<and> (\<forall>i<MAX_CTX. rc_look s i = LPtr \<longrightarrow> g_ctx (rc_grace s) ! i \<le> e)
     \<and> (\<forall>i<j. rc_look s i \<noteq> LPtr)"
| "walk_ok s CDone \<longleftrightarrow> \<not> rc_slot s \<and> (\<forall>i<MAX_CTX. rc_look s i \<noteq> LPtr)"

text \<open>
  The tracker's part: epochs are below the mark bit, and a context inside its section shows an epoch
  no later than the current one, unmarked.
\<close>

definition grace_ok :: "reclaim \<Rightarrow> bool" where
  "grace_ok s \<longleftrightarrow> length (g_ctx (rc_grace s)) = MAX_CTX \<and> g_epoch (rc_grace s) < 2 ^ 63
     \<and> (\<forall>i e. rc_look s i = LLoaded e \<longrightarrow> e \<le> g_epoch (rc_grace s))
     \<and> (\<forall>i<MAX_CTX. inside (rc_look s i) \<longrightarrow> g_ctx (rc_grace s) ! i \<le> g_epoch (rc_grace s))"

definition count_ok :: "reclaim \<Rightarrow> bool" where
  "count_ok s \<longleftrightarrow> rc_count s = (if rc_close s = CDone then 0 else 1) + card (holding s)"

definition reclaim_inv :: "reclaim \<Rightarrow> bool" where
  "reclaim_inv s \<longleftrightarrow> grace_ok s \<and> walk_ok s (rc_close s) \<and> count_ok s"

lemma finite_holding [simp]: "finite (holding s)"
  by (rule finite_subset [of _ "{..<MAX_CTX}"]) (auto simp: holding_def)

lemma small_not_bit63: "(x :: u64) < 2 ^ 63 \<Longrightarrow> \<not> bit x 63"
  using lt_exp_iff_bits [of 63 x] by simp

text \<open>A context that passes for \<open>e\<close> is not inside at an epoch up to \<open>e\<close>.\<close>

lemma past_not_ptr:
  assumes g: "grace_ok s" and j: "j < MAX_CTX" and past: "ctx_past e (g_ctx (rc_grace s) ! j)"
    and le: "rc_look s j = LPtr \<Longrightarrow> g_ctx (rc_grace s) ! j \<le> e"
  shows "rc_look s j \<noteq> LPtr"
proof
  assume p: "rc_look s j = LPtr"
  have "g_ctx (rc_grace s) ! j \<le> g_epoch (rc_grace s)" using g j p by (simp add: grace_ok_def)
  also have "\<dots> < 2 ^ 63" using g by (simp add: grace_ok_def)
  finally have "\<not> bit (g_ctx (rc_grace s) ! j) 63" by (rule small_not_bit63)
  then show False using past le [OF p] by (simp add: ctx_past_iff not_less [symmetric])
qed

lemma next_epoch:
  assumes "epoch_fits g"
  shows "g_epoch g < g_epoch g + 1" "g_epoch g + 1 < 2 ^ 63"
proof -
  have "unat (g_epoch g + 1) = unat (g_epoch g) + 1"
    using assms by (simp add: epoch_fits_def unat_word_ariths)
  then show "g_epoch g < g_epoch g + 1" "g_epoch g + 1 < 2 ^ 63"
    using assms by (simp_all add: epoch_fits_def word_less_nat_alt)
qed

section \<open>Its preservation\<close>

lemma unat_ctx: "i < MAX_CTX \<Longrightarrow> unat (of_nat i :: u32) = i"
  by (simp add: MAX_CTX_def unat_of_nat)

lemma drop_sel:
  assumes "i < MAX_CTX"
  shows "g_epoch (ReadGuard_drop g (of_nat i)) = g_epoch g"
    "length (g_ctx (ReadGuard_drop g (of_nat i))) = length (g_ctx g)"
    "k \<noteq> i \<Longrightarrow> g_ctx (ReadGuard_drop g (of_nat i)) ! k = g_ctx g ! k"
  using unat_ctx [OF assms] by (simp_all add: ReadGuard_drop_def Let_def)

text \<open>A context leaves its section, or starts or ends a lookup outside it.\<close>

lemma grace_ok_drop:
  assumes "grace_ok s" "i < MAX_CTX" "\<not> inside p" "\<And>e. p \<noteq> LLoaded e"
  shows "grace_ok (s\<lparr>rc_grace := ReadGuard_drop (rc_grace s) (of_nat i), rc_look := (rc_look s)(i := p)\<rparr>)"
  using assms by (auto simp: grace_ok_def drop_sel [OF assms(2)])

lemma grace_ok_look:
  assumes "grace_ok s" "inside p \<Longrightarrow> inside (rc_look s i)" "\<And>e. p = LLoaded e \<Longrightarrow> e \<le> g_epoch (rc_grace s)"
  shows "grace_ok (s\<lparr>rc_look := (rc_look s)(i := p)\<rparr>)"
  using assms by (auto simp: grace_ok_def)

lemma grace_ok_enter:
  assumes "grace_ok s" "rc_look s i = LLoaded e"
  shows "grace_ok (s\<lparr>rc_grace := (rc_grace s)\<lparr>g_ctx := (g_ctx (rc_grace s))[i := e]\<rparr>, rc_look := (rc_look s)(i := LEntered)\<rparr>)"
  using assms by (auto simp: grace_ok_def nth_list_update)

lemma grace_ok_bump:
  assumes g: "grace_ok s" and f: "epoch_fits (rc_grace s)"
  shows "grace_ok (s\<lparr>rc_grace := (rc_grace s)\<lparr>g_epoch := g_epoch (rc_grace s) + 1\<rparr>\<rparr>)"
proof -
  have "x \<le> g_epoch (rc_grace s) + 1" if "x \<le> g_epoch (rc_grace s)" for x
    using that next_epoch(1) [OF f] by (rule order_trans [OF _ less_imp_le])
  then show ?thesis using g next_epoch(2) [OF f] by (auto simp: grace_ok_def)
qed

lemma grace_ok_cong:
  "rc_grace s' = rc_grace s \<Longrightarrow> rc_look s' = rc_look s \<Longrightarrow> grace_ok s' = grace_ok s"
  by (simp add: grace_ok_def)

text \<open>The walk's claims survive any step of a lookup that does not end with a pointer.\<close>

lemma walk_ok_look:
  assumes "walk_ok s c" "p \<noteq> LPtr" "rc_slot s' = rc_slot s" "rc_look s' = (rc_look s)(i := p)"
    "\<And>k. k \<noteq> i \<Longrightarrow> g_ctx (rc_grace s') ! k = g_ctx (rc_grace s) ! k"
  shows "walk_ok s' c"
  using assms by (cases c) auto

lemma walk_ok_ptr:
  assumes "walk_ok s c" "rc_slot s"
  shows "walk_ok (s\<lparr>rc_look := f\<rparr>) c"
  using assms by (cases c) auto

lemma walk_ok_cong:
  "rc_slot s' = rc_slot s \<Longrightarrow> rc_look s' = rc_look s \<Longrightarrow> g_ctx (rc_grace s') = g_ctx (rc_grace s) \<Longrightarrow>
    walk_ok s' c = walk_ok s c"
  by (cases c) auto

lemma holding_look:
  "rc_look s' = (rc_look s)(i := p) \<Longrightarrow> i < MAX_CTX \<Longrightarrow>
    holding s' = (if p \<in> {LHeld, LOut} then insert i (holding s) else holding s - {i})"
  by (auto simp: holding_def)

lemma not_holding: "rc_look s i \<notin> {LHeld, LOut} \<Longrightarrow> i \<notin> holding s"
  by (simp add: holding_def)

lemma is_holding: "rc_look s i \<in> {LHeld, LOut} \<Longrightarrow> i < MAX_CTX \<Longrightarrow> i \<in> holding s"
  by (simp add: holding_def)

text \<open>A step that neither takes nor gives back a reference.\<close>

lemma count_ok_same:
  assumes "count_ok s" "i < MAX_CTX" "rc_look s' = (rc_look s)(i := p)" "rc_count s' = rc_count s" "rc_close s' = rc_close s"
    "(p \<in> {LHeld, LOut}) = (rc_look s i \<in> {LHeld, LOut})"
  shows "count_ok s'"
proof -
  have "holding s' = holding s"
    using holding_look [OF assms(3,2)] assms(6) not_holding [of s i] is_holding [of s i] assms(2) by auto
  then show ?thesis using assms(1,4,5) by (simp add: count_ok_def)
qed

lemma reclaim_inv_start: "reclaim_inv reclaim_start"
  by (simp add: reclaim_inv_def reclaim_start_def grace_ok_def count_ok_def holding_def GraceTracker_new_def)

lemma reclaim_inv_step:
  assumes "reclaim_inv s" "reclaim_step s s'"
  shows "reclaim_inv s'"
proof -
  have g: "grace_ok s" and w: "walk_ok s (rc_close s)" and c: "count_ok s"
    using assms(1) by (simp_all add: reclaim_inv_def)
  from assms(2) show ?thesis
  proof cases
    case bump
    have "count_ok s'" using c by (simp add: bump(1) count_ok_def holding_def)
    moreover have "walk_ok s' (rc_close s)" using w walk_ok_cong [of s' s] by (simp add: bump(1) advance_epoch_def)
    ultimately show ?thesis using grace_ok_bump [OF g bump(2)] by (simp add: reclaim_inv_def bump(1) advance_epoch_def)
  next
    case (load i)
    have "count_ok s'"
      by (rule count_ok_same [OF c load(2), where p = "LLoaded (g_epoch (rc_grace s))"]) (auto simp: load)
    moreover have "walk_ok s' (rc_close s)" by (rule walk_ok_look [OF w]) (simp_all add: load)
    moreover have "grace_ok s'" unfolding load(1) by (rule grace_ok_look [OF g]) simp_all
    ultimately show ?thesis by (simp add: reclaim_inv_def load(1))
  next
    case (enter i e)
    have "count_ok s'" by (rule count_ok_same [OF c enter(2)]) (auto simp: enter)
    moreover have "walk_ok s' (rc_close s)" by (rule walk_ok_look [OF w, where i = i and p = LEntered]) (auto simp: enter)
    ultimately show ?thesis using grace_ok_enter [OF g enter(3)] by (simp add: reclaim_inv_def enter(1))
  next
    case (pointer i)
    have "count_ok s'" by (rule count_ok_same [OF c pointer(2)]) (auto simp: pointer)
    moreover have "walk_ok s' (rc_close s)" unfolding pointer(1) by (rule walk_ok_ptr [OF w pointer(4)])
    moreover have "grace_ok s'" unfolding pointer(1) by (rule grace_ok_look [OF g]) (simp_all add: pointer)
    ultimately show ?thesis by (simp add: reclaim_inv_def pointer(1))
  next
    case (null i)
    have "count_ok s'" by (rule count_ok_same [OF c null(2)]) (auto simp: null)
    moreover have "walk_ok s' (rc_close s)"
      by (rule walk_ok_look [OF w, where i = i and p = LIdle]) (simp_all add: null(1) drop_sel(3) [OF null(2)])
    moreover have "grace_ok s'" unfolding null(1) by (rule grace_ok_drop [OF g null(2)]) simp_all
    ultimately show ?thesis by (simp add: reclaim_inv_def null(1))
  next
    case (acquire i)
    have "holding s' = insert i (holding s)" using holding_look [of s' s i LHeld] acquire(2) by (simp add: acquire(1))
    then have "count_ok s'" using c not_holding [of s i] acquire(3) by (simp add: acquire(1) count_ok_def)
    moreover have "walk_ok s' (rc_close s)" by (rule walk_ok_look [OF w]) (simp_all add: acquire)
    moreover have "grace_ok (s\<lparr>rc_look := (rc_look s)(i := LHeld)\<rparr>)" by (rule grace_ok_look [OF g]) (simp_all add: acquire)
    then have "grace_ok s'" by (subst grace_ok_cong [of _ "s\<lparr>rc_look := (rc_look s)(i := LHeld)\<rparr>"]) (simp_all add: acquire(1))
    ultimately show ?thesis by (simp add: reclaim_inv_def acquire(1))
  next
    case (refused i)
    have "count_ok s'" by (rule count_ok_same [OF c refused(2)]) (auto simp: refused)
    moreover have "walk_ok s' (rc_close s)"
      by (rule walk_ok_look [OF w, where i = i and p = LIdle]) (simp_all add: refused(1) drop_sel(3) [OF refused(2)])
    moreover have "grace_ok s'" unfolding refused(1) by (rule grace_ok_drop [OF g refused(2)]) simp_all
    ultimately show ?thesis by (simp add: reclaim_inv_def refused(1))
  next
    case (leave i)
    have "count_ok s'" by (rule count_ok_same [OF c leave(2)]) (auto simp: leave)
    moreover have "walk_ok s' (rc_close s)"
      by (rule walk_ok_look [OF w, where i = i and p = LOut]) (simp_all add: leave(1) drop_sel(3) [OF leave(2)])
    moreover have "grace_ok s'" unfolding leave(1) by (rule grace_ok_drop [OF g leave(2)]) simp_all
    ultimately show ?thesis by (simp add: reclaim_inv_def leave(1))
  next
    case (release i)
    have h: "i \<in> holding s" using is_holding [of s i] release(2,3) by simp
    have "holding s' = holding s - {i}" using holding_look [of s' s i LIdle] release(2) by (simp add: release(1))
    then have "card (holding s) = Suc (card (holding s'))" using card.remove [OF finite_holding h] by simp
    then have "count_ok s'" using c by (simp add: release(1) count_ok_def)
    moreover have "walk_ok s' (rc_close s)" by (rule walk_ok_look [OF w]) (simp_all add: release)
    moreover have "grace_ok (s\<lparr>rc_look := (rc_look s)(i := LIdle)\<rparr>)" by (rule grace_ok_look [OF g]) simp_all
    then have "grace_ok s'" by (subst grace_ok_cong [of _ "s\<lparr>rc_look := (rc_look s)(i := LIdle)\<rparr>"]) (simp_all add: release(1))
    ultimately show ?thesis by (simp add: reclaim_inv_def release(1))
  next
    case unpublish
    then show ?thesis using g c grace_ok_cong [of s' s] by (simp add: reclaim_inv_def count_ok_def holding_def)
  next
    case epoch
    have "walk_ok s' (rc_close s')" using w g
      by (auto simp: epoch(1,2) unpublished_def advance_epoch_def grace_ok_def)
    then show ?thesis using c grace_ok_bump [OF g epoch(3)] grace_ok_cong [of s' "s\<lparr>rc_grace := snd (unpublished (rc_grace s))\<rparr>"]
      by (simp add: reclaim_inv_def count_ok_def holding_def epoch(1,2) unpublished_def advance_epoch_def)
  next
    case (pass e j)
    have "rc_look s j \<noteq> LPtr" using w pass(2,3) by (intro past_not_ptr [OF g pass(3,4)]) simp
    then show ?thesis using w c g pass grace_ok_cong [of s' s]
      by (auto simp: reclaim_inv_def count_ok_def holding_def less_Suc_eq)
  next
    case (wait e j)
    then show ?thesis using w c g grace_ok_cong [of s' s] by (simp add: reclaim_inv_def count_ok_def holding_def)
  next
    case (finish e)
    then show ?thesis using w c g grace_ok_cong [of s' s] by (simp add: reclaim_inv_def count_ok_def holding_def)
  qed
qed

lemma reclaim_inv_reach: "reclaim_reach s \<Longrightarrow> reclaim_inv s"
  by (induction rule: reclaim_reach.induct) (auto intro: reclaim_inv_start reclaim_inv_step)

text \<open>A lookup holds a pointer only while the close has not released the table's reference.\<close>

lemma reclaim_inv_ptr: "reclaim_inv s \<Longrightarrow> i < MAX_CTX \<Longrightarrow> rc_look s i = LPtr \<Longrightarrow> rc_close s \<noteq> CDone"
  by (auto simp: reclaim_inv_def)

end
