(* ===== verification/Handle_Properties.thy ===== *)
theory Handle_Properties
  imports Handle_Example Handle_Count Handle_Seqlock Handle_Reclaim
begin

text \<open>
  The properties of the handle system, each with a concrete instance where it has hypotheses.
\<close>

section \<open>Sequences of operations\<close>

primrec k_step :: "(bool \<times> bool) \<times> u32 \<Rightarrow> Kernel \<Rightarrow> cap_op \<Rightarrow> Kernel option" where
  "k_step env k (OpClose pid h) = k_close k pid h"
| "k_step env k (OpRestrict pid h r) = Some (k_restrict k pid h r)"
| "k_step env k (OpDuplicate pid h r) = k_duplicate env k pid h r"

primrec k_run :: "Kernel \<Rightarrow> (((bool \<times> bool) \<times> u32) \<times> cap_op) list \<Rightarrow> Kernel option" where
  "k_run k [] = Some k"
| "k_run k (eo # ops) = (case k_step (fst eo) k (snd eo) of None \<Rightarrow> None | Some k' \<Rightarrow> k_run k' ops)"

lemma k_step_is: "k_step env k op = ht.step env k op"
  by (cases op) simp_all

lemma k_run_is: "k_run k ops = ht.run k ops"
  by (induction ops arbitrary: k) (simp_all add: k_step_is split: option.splits)

text \<open>
  C1. Authority confinement: any sequence of close, restrict and duplicate calls by any processes
  returns, keeps the kernel well formed, and every capability afterwards is no stronger than one the
  same process held on the same object before.
\<close>

theorem authority_confinement:
  assumes "kernel_ok held k" and "list_all (\<lambda>eo. env_ctx_ok (fst eo)) ops"
  shows "\<exists>k'. k_run k ops = Some k' \<and> kernel_ok held k'
    \<and> (\<forall>h c'. caps (k_table k') h = Some c' \<longrightarrow> (\<exists>h0 c. caps (k_table k) h0 = Some c \<and> no_stronger c' c))"
  using ht.run_confined [of held k ops] assms unfolding k_run_is list_all_iff by blast

theorem authority_confinement_witness:
  "\<exists>k'. k_run demo_kernel [(((True, True), 0), OpDuplicate 7 demo_handle 4), (((True, True), 1), OpClose 7 demo_handle)] = Some k'
    \<and> kernel_ok (\<lambda>_. 0) k'
    \<and> (\<forall>h c'. caps (k_table k') h = Some c' \<longrightarrow> (\<exists>h0 c. caps (k_table demo_kernel) h0 = Some c \<and> no_stronger c' c))"
  by (rule authority_confinement [OF demo_ok]) (simp add: env_ctx_ok_def MAX_CTX_def)

text \<open>
  C8. Isolation: such a sequence leaves every capability of a process that made none of the calls
  exactly as it was.
\<close>

theorem process_isolation:
  assumes "kernel_ok held k" and "list_all (\<lambda>eo. env_ctx_ok (fst eo)) ops"
    and "caps (k_table k) h = Some c" and "c_owner c \<notin> (op_pid \<circ> snd) ` set ops"
  shows "\<exists>k'. k_run k ops = Some k' \<and> caps (k_table k') h = Some c"
  using ht.run_confined [of held k ops] assms unfolding k_run_is list_all_iff by blast

theorem process_isolation_witness:
  "\<exists>k'. k_run demo_kernel [(((True, True), 3), OpClose 8 demo_handle)] = Some k'
    \<and> caps (k_table k') demo_handle = Some demo_cap"
  by (rule process_isolation [OF demo_ok])
    (simp_all add: env_ctx_ok_def MAX_CTX_def demo_kernel_def demo_caps demo_cap_def)

section \<open>Lookup\<close>

text \<open>
  C11. A lookup on a well-formed kernel returns, is decided by the capability of the handle alone
  (null, absent, another owner, missing rights, or granted with the full rights), changes no
  capability, and adds exactly one counted reference when it succeeds and none otherwise.
\<close>

theorem lookup_decided:
  assumes "kernel_inv k held" and "countable_refs k held" and "quiet (ht_grace (k_table k))" and "unat ctx < MAX_CTX"
  shows "\<exists>k'. lookup k ctx h pid required = Some (k', lookup_decision (caps (k_table k)) h pid required)
    \<and> caps (k_table k') = caps (k_table k)
    \<and> kernel_inv k' (held_after held (lookup_decision (caps (k_table k)) h pid required))"
  using lookup_spec [OF assms] by blast

theorem lookup_decided_witness:
  "\<exists>k'. lookup demo_kernel 0 demo_handle 7 Rights_SEND = Some (k', Inr \<lparr>lo_object = 4096, lo_rights = demo_rights\<rparr>)
    \<and> kernel_inv k' ((\<lambda>_. 0)(4096 := 1))"
proof -
  have d: "lookup_decision (caps (k_table demo_kernel)) demo_handle 7 Rights_SEND
      = Inr \<lparr>lo_object = 4096, lo_rights = demo_rights\<rparr>"
    by (simp add: lookup_decision_def demo_kernel_def demo_caps demo_cap_def demo_handle_def demo_rights_def
        Rights_is_subset_of_def Rights_SEND_def)
  from lookup_decided [OF demo(1,4,2), of 0 demo_handle 7 Rights_SEND] show ?thesis
    by (auto simp: d MAX_CTX_def fun_upd_def)
qed

text \<open>
  C20. A typed lookup grants the object only when the handle's type is the one asked for, and
  otherwise gives the reference it took back.
\<close>

theorem lookup_as_typed:
  assumes "kernel_inv k held" and "countable_refs k held" and "quiet (ht_grace (k_table k))" and "unat ctx < MAX_CTX"
  shows "\<exists>k' r. lookup_as k ctx h pid required ty = Some (k', r) \<and> caps (k_table k') = caps (k_table k)
    \<and> (case lookup_decision (caps (k_table k)) h pid required of
         Inl e \<Rightarrow> r = Inl e \<and> kernel_inv k' held
       | Inr ok \<Rightarrow> if map_option c_type (caps (k_table k) h) = Some (KObjectType_as_u32 ty)
           then r = Inr (lo_object ok) \<and> kernel_inv k' (held(lo_object ok := held (lo_object ok) + 1))
           else r = Inl WrongType \<and> kernel_inv k' held)"
  by (rule lookup_as_spec [OF assms])

theorem lookup_as_typed_witness:
  "\<exists>k' r. lookup_as demo_kernel 0 demo_handle 7 Rights_SEND KTimer = Some (k', r) \<and> r = Inl WrongType"
proof -
  have d: "lookup_decision (caps (k_table demo_kernel)) demo_handle 7 Rights_SEND
      = Inr \<lparr>lo_object = 4096, lo_rights = demo_rights\<rparr>" "map_option c_type (caps (k_table demo_kernel) demo_handle) = Some 5"
    by (simp_all add: lookup_decision_def demo_kernel_def demo_caps demo_cap_def demo_handle_def demo_rights_def
        Rights_is_subset_of_def Rights_SEND_def)
  from lookup_as_typed [OF demo(1,4,2), of 0 demo_handle 7 Rights_SEND KTimer] show ?thesis
    by (auto simp: d MAX_CTX_def)
qed

section \<open>Install, duplicate, restrict\<close>

text \<open>
  C14. Installing an object returns; on success the handle granted nothing before and now grants
  exactly the owner, rights and type asked for, with the caller's reference moved into the entry; on
  failure nothing changes, and the failure is a rights mismatch exactly when the rights do not suit
  the type.
\<close>

theorem install_fresh:
  assumes "kernel_inv k held" and "0 < held object" and "ObjectRef_object_type (k_objs k) object = Some ty"
  shows "\<exists>k' r. install mem k owner object rights = Some (k', r)
    \<and> (case r of
         Inl e \<Rightarrow> caps (k_table k') = caps (k_table k) \<and> kernel_inv k' held
           \<and> (e = BadRights \<longleftrightarrow> \<not> is_rights_compatible ty rights)
       | Inr h \<Rightarrow> is_rights_compatible ty rights \<and> caps (k_table k) h = None
           \<and> caps (k_table k') = (caps (k_table k))(h \<mapsto> \<lparr>c_object = object, c_type = KObjectType_as_u32 ty,
               c_owner = owner, c_rights = rights\<rparr>)
           \<and> kernel_inv k' (held(object := held object - 1)))"
  using install_spec [OF assms, of mem owner rights] by (fastforce split: sum.splits)

definition demo_held_kernel :: Kernel where
  "demo_held_kernel = demo_kernel\<lparr>k_objs := [4096 \<mapsto> \<lparr>kh_refcount = 2, kh_object_type = KIpcChannel\<rparr>]\<rparr>"

lemma demo_held_inv: "kernel_inv demo_held_kernel ((\<lambda>_. 0)(4096 := 1))"
proof -
  have "try_acquire_refcount (k_objs demo_kernel) 4096 = Some (True, k_objs demo_held_kernel)"
    by (simp add: try_acquire_refcount_def header_try_acquire_def demo_kernel_def demo_held_kernel_def Let_def
        word_less_nat_alt MAX_REFCOUNT_val)
  moreover have "0 < refs (caps (k_table demo_kernel)) 4096 + 0"
    using refs_pos [of "caps demo_table" demo_handle demo_cap] by (simp add: demo_kernel_def demo_caps demo_cap_def)
  ultimately show ?thesis
    using acquire_named [OF demo(1,4), of 4096] by (auto simp: demo_held_kernel_def)
qed

theorem install_fresh_witness:
  "\<exists>k' r. install (True, True) demo_held_kernel 9 4096 Rights_RECV = Some (k', r)
    \<and> (\<forall>e. r = Inl e \<longrightarrow> e \<noteq> BadRights)"
proof -
  have c: "is_rights_compatible KIpcChannel Rights_RECV"
    by (simp add: is_rights_compatible_def principals rights_bits Rights_is_subset_of_def Rights_intersection_def)
  have ty: "ObjectRef_object_type (k_objs demo_held_kernel) 4096 = Some KIpcChannel"
    by (simp add: ObjectRef_object_type_def demo_held_kernel_def)
  from install_fresh [OF demo_held_inv _ ty, of "(True, True)" 9 Rights_RECV] c show ?thesis
    by (fastforce split: sum.splits)
qed

text \<open>
  C16. Duplicating a handle requires it to be the caller's and to carry the duplicate right; the new
  handle is fresh, names the same object, and its rights are the old ones cut by the mask. It never
  fails for the rights: only the lookup's errors or a lack of slots or memory are reported.
\<close>

theorem duplicate_attenuates:
  assumes "kernel_inv k held" and "countable_refs k held" and "quiet (ht_grace (k_table k))" and "unat ctx < MAX_CTX"
  shows "\<exists>k' r. duplicate mem k ctx h pid new_rights = Some (k', r) \<and> kernel_inv k' held
    \<and> (case r of
         Inl e \<Rightarrow> caps (k_table k') = caps (k_table k) \<and> e \<noteq> BadRights
       | Inr h' \<Rightarrow> \<exists>c. h \<noteq> 0 \<and> caps (k_table k) h = Some c \<and> c_owner c = pid
           \<and> Rights_is_subset_of Rights_DUPLICATE (c_rights c) \<and> caps (k_table k) h' = None
           \<and> caps (k_table k') = (caps (k_table k))(h' \<mapsto> c\<lparr>c_rights := Rights_intersection (c_rights c) new_rights\<rparr>))"
proof -
  have "lookup_decision (caps (k_table k)) h pid Rights_DUPLICATE \<noteq> Inl BadRights"
    by (simp add: lookup_decision_def split: option.splits)
  then show ?thesis using duplicate_spec [OF assms, of mem h pid new_rights] by (fastforce split: sum.splits)
qed

theorem duplicate_attenuates_witness:
  "\<exists>k' r. duplicate (True, True) demo_kernel 2 demo_handle 7 Rights_SEND = Some (k', r) \<and> kernel_inv k' (\<lambda>_. 0)"
  using duplicate_attenuates [OF demo(1,4,2), of 2 "(True, True)" demo_handle 7 Rights_SEND]
  by (auto simp: MAX_CTX_def)

text \<open>
  C17. Restricting a handle of the caller cuts its rights by the mask and changes nothing else;
  any other handle is refused and the table stays as it is.
\<close>

theorem restrict_attenuates:
  assumes "table_inv t"
  shows "(\<exists>c t'. h \<noteq> 0 \<and> caps t h = Some c \<and> c_owner c = pid \<and> restrict t h pid r = (t', Inr ())
      \<and> table_inv t' \<and> caps t' = (caps t)(h \<mapsto> c\<lparr>c_rights := Rights_intersection (c_rights c) r\<rparr>))
    \<or> (\<exists>e. restrict t h pid r = (t, Inl e) \<and> (h = 0 \<or> map_option c_owner (caps t h) \<noteq> Some pid))"
proof (cases "h \<noteq> 0 \<and> (\<exists>c. caps t h = Some c \<and> c_owner c = pid)")
  case True
  then obtain c where c: "h \<noteq> 0" "caps t h = Some c" "c_owner c = pid" by blast
  from restrict_ok [OF assms c(2,1,3), of r] c show ?thesis by blast
next
  case False
  from restrict_refused [OF assms False, of r] False show ?thesis by auto
qed

theorem restrict_attenuates_witness:
  "\<exists>t'. restrict demo_table demo_handle 7 Rights_SEND = (t', Inr ()) \<and> table_inv t'
     \<and> caps t' demo_handle = Some (demo_cap\<lparr>c_rights := Rights_intersection demo_rights Rights_SEND\<rparr>)"
  using restrict_attenuates [OF demo(6), of demo_handle 7 Rights_SEND]
  by (auto simp: demo_caps demo_cap_def demo_handle_def)

section \<open>Close and the exit sweep\<close>

text \<open>
  C12. Closing on a well-formed kernel with no reader in its section returns: the caller's own live
  handle is removed and nothing else, every other request leaves the capabilities alone, and in both
  cases every object's count is again exactly its handles plus the references held elsewhere.
\<close>

theorem close_exact:
  assumes "kernel_inv k held" and "quiet (ht_grace (k_table k))"
  shows "\<exists>k'. close_and_drop k h pid = Some k' \<and> kernel_inv k' held \<and> quiet (ht_grace (k_table k'))
    \<and> caps (k_table k') = (if h \<noteq> 0 \<and> map_option c_owner (caps (k_table k) h) = Some pid
         then (caps (k_table k))(h := None) else caps (k_table k))"
  by (rule close_and_drop_spec [OF assms])

theorem close_exact_witness:
  "\<exists>k'. close_and_drop demo_kernel demo_handle 7 = Some k' \<and> kernel_inv k' (\<lambda>_. 0) \<and> caps (k_table k') = Map.empty"
  using close_exact [OF demo(1,2), of demo_handle 7]
  by (auto simp: demo_kernel_def demo_caps demo_cap_def demo_handle_def)

text \<open>
  C15. An object's memory is given back exactly when its last reference goes: on a well-formed kernel
  an address holds an object exactly when some handle names it or a reference outside the table does.
\<close>

theorem object_alive_iff_referenced:
  assumes "kernel_inv k held" and "quiet (ht_grace (k_table k))" and "close_and_drop k h pid = Some k'"
  shows "k_objs k' p = None \<longleftrightarrow> refs (caps (k_table k')) p = 0 \<and> held p = 0"
proof -
  have "kernel_inv k' held" using close_and_drop_spec [OF assms(1,2), of h pid] assms(3) by auto
  then show ?thesis using counts_dead [of "k_objs k'" _ p] kernel_invD(2) by fastforce
qed

theorem object_alive_iff_referenced_witness:
  "\<exists>k'. close_and_drop demo_kernel demo_handle 7 = Some k' \<and> k_objs k' 4096 = None"
proof -
  from close_and_drop_spec [OF demo(1,2), of demo_handle 7] obtain k' where
    k': "close_and_drop demo_kernel demo_handle 7 = Some k'" "caps (k_table k') = Map.empty"
    by (auto simp: demo_kernel_def demo_caps demo_cap_def demo_handle_def)
  with object_alive_iff_referenced [OF demo(1,2) k'(1), of 4096] show ?thesis by (auto simp: refs_def)
qed

text \<open>
  C13. The exit sweep ends, closes every handle of the process and no other, reports how many there
  were, and releases exactly the references they held.
\<close>

theorem exit_sweep_exact:
  assumes "kernel_inv k held" and "quiet (ht_grace (k_table k))"
  shows "\<exists>k'. close_all_owned_by pid k = Some (k', card (owned (caps (k_table k)) pid))
    \<and> kernel_inv k' held \<and> quiet (ht_grace (k_table k'))
    \<and> caps (k_table k') = caps (k_table k) |` (- owned (caps (k_table k)) pid)"
  using close_all_loop_spec [OF assms, of pid SweepCursor_START 0]
  by (simp add: close_all_owned_by_def SweepCursor_START_def swept_start)

theorem exit_sweep_exact_witness:
  "\<exists>k'. close_all_owned_by 7 demo_kernel = Some (k', 1) \<and> caps (k_table k') = Map.empty"
proof -
  have "owned (caps (k_table demo_kernel)) 7 = {demo_handle}"
    by (auto simp: owned_def demo_kernel_def demo_caps demo_cap_def split: if_splits)
  with exit_sweep_exact [OF demo(1,2), of 7] show ?thesis
    by (auto simp: demo_kernel_def demo_caps restrict_map_def fun_eq_iff)
qed

text \<open>
  C23. The count of live handles is exactly the number of handles the table grants, and the table
  never holds more than its directory's capacity.
\<close>

theorem allocated_count_exact:
  assumes "table_inv t"
  shows "allocated_count t = int (card (dom (caps t))) \<and> card (dom (caps t)) \<le> DIRECTORY_LEN * SEGMENT_LEN"
  using allocated_count_handles [OF assms] card_owned_caps [OF assms] by simp

theorem allocated_count_exact_witness: "allocated_count demo_table = 1"
  using allocated_count_exact [OF demo(6)] by (simp add: demo_caps)

section \<open>Claims and install sets\<close>

text \<open>
  C18. Two moves cannot copy a handle: after a claim is granted a second claim of the same handle is
  refused, with the capabilities unchanged and its looked-up reference given back.
\<close>

theorem claim_exclusive:
  assumes "kernel_inv k held" and "countable_refs k held" and "held_small (held_after held (Inr ok))"
    and "quiet (ht_grace (k_table k))" and "unat ctx < MAX_CTX"
    and "claim k ctx h pid required = Some (k1, Inr ok)"
  shows "\<exists>k2. claim k1 ctx h pid required = Some (k2, Inl InvalidHandle)
    \<and> caps (k_table k2) = caps (k_table k) \<and> kernel_inv k2 (held_after held (Inr ok))"
proof -
  let ?d = "lookup_decision (caps (k_table k)) h pid required"
  define r where "r = (if claimed (k_table k) h \<and> (\<exists>ok. ?d = Inr ok) then Inl InvalidHandle else ?d)"
  have *: "\<exists>k'. claim k ctx h pid required = Some (k', r) \<and> caps (k_table k') = caps (k_table k)
    \<and> quiet (ht_grace (k_table k')) \<and> kernel_inv k' (held_after held r) \<and> ((\<exists>ok. r = Inr ok) \<longrightarrow> claimed (k_table k') h)"
    unfolding r_def by (rule claim_spec [OF assms(1,2,4,5)])
  then have r: "r = Inr ok" by (simp add: assms(6))
  have d: "?d = Inr ok" using r by (simp add: r_def split: if_splits)
  have c1: "caps (k_table k1) = caps (k_table k)" "quiet (ht_grace (k_table k1))" "kernel_inv k1 (held_after held (Inr ok))"
    "claimed (k_table k1) h" "?d = Inr ok"
    using * d by (simp_all add: assms(6) r)
  have "countable_refs k1 (held_after held (Inr ok))" by (rule countable_from_held [OF c1(3) assms(3)])
  from claim_spec [OF c1(3) this c1(2) assms(5), of h pid required] show ?thesis
    using c1(4) unfolding c1(1,5) by auto
qed

theorem claim_exclusive_witness:
  "\<exists>k1 k2. claim demo_kernel 0 demo_handle 7 Rights_SEND = Some (k1, Inr \<lparr>lo_object = 4096, lo_rights = demo_rights\<rparr>)
    \<and> claim k1 0 demo_handle 7 Rights_SEND = Some (k2, Inl InvalidHandle)"
proof -
  have d: "lookup_decision (caps (k_table demo_kernel)) demo_handle 7 Rights_SEND
      = Inr \<lparr>lo_object = 4096, lo_rights = demo_rights\<rparr>"
    by (simp add: lookup_decision_def demo_kernel_def demo_caps demo_cap_def demo_handle_def demo_rights_def
        Rights_is_subset_of_def Rights_SEND_def)
  have nc: "\<not> claimed (k_table demo_kernel) demo_handle"
    using demo_dir(1)
    by (auto simp: claimed_def entry_of_def demo_kernel_def demo_handle_decode demo_entry_def HandleEntry_new_def
        SEGMENT_LEN_def split: option.splits if_splits)
  obtain k1 where k1: "claim demo_kernel 0 demo_handle 7 Rights_SEND = Some (k1, Inr \<lparr>lo_object = 4096, lo_rights = demo_rights\<rparr>)"
    using claim_spec [OF demo(1,4,2), of 0 demo_handle 7 Rights_SEND] d nc by (auto simp: MAX_CTX_def)
  have "held_small (held_after (\<lambda>_. 0) (Inr \<lparr>lo_object = 4096, lo_rights = demo_rights\<rparr>))"
    by (simp add: held_small_def MAX_REFCOUNT_val DIRECTORY_LEN_def SEGMENT_LEN_def)
  from claim_exclusive [OF demo(1,4) this demo(2) _ k1] k1 show ?thesis by (auto simp: MAX_CTX_def)
qed



text \<open>
  C21. The null handle can be issued: when slot 0 of segment 0 has used all its generations the next
  allocation of it returns the null value; the entry is live, yet neither its owner nor anyone else
  can close it.
\<close>

theorem null_handle_issued:
  assumes "table_inv t" and "dq_len (ht_defer_ring t) = 0" and "0 < segs t" and "ht_next_segment_hint t = 0"
    and "ht_directory t ! 0 = Some es" and "0 < free_count (ht_segment_meta t ! 0)" and "free_head (ht_segment_meta t ! 0) = 0"
    and "he_generation (es ! 0) = GENERATION_MAX" and "object \<noteq> 0" and "is_rights_compatible ty rights"
  shows "\<exists>t'. allocate mem t owner object ty rights = Some (t', Inr RawHandle_NULL)
    \<and> caps t' RawHandle_NULL \<noteq> None \<and> close t' RawHandle_NULL owner = Some (t', Inl NullHandle)"
proof -
  from allocate_wraps_to_null [OF assms, of mem owner] obtain t' where
    t': "allocate mem t owner object ty rights = Some (t', Inr RawHandle_NULL)" "caps t' RawHandle_NULL \<noteq> None" by auto
  moreover have "close t' RawHandle_NULL owner = Some (t', Inl NullHandle)"
    by (simp add: close_def validate_null RawHandle_NULL_def)
  ultimately show ?thesis by blast
qed

theorem null_handle_issued_witness:
  "\<exists>t'. allocate (True, True) wrap_table 7 4096 KTimer Rights_WAIT = Some (t', Inr RawHandle_NULL)
    \<and> caps t' RawHandle_NULL \<noteq> None \<and> close t' RawHandle_NULL 7 = Some (t', Inl NullHandle)"
proof (rule null_handle_issued [OF wrap_table_inv])
  show "ht_directory wrap_table ! 0 = Some (map wrap_entry [0..<SEGMENT_LEN])" by (simp add: wrap_table_def)
  show "he_generation (map wrap_entry [0..<SEGMENT_LEN] ! 0) = GENERATION_MAX"
    by (simp add: wrap_entry_def SEGMENT_LEN_def)
  show "is_rights_compatible KTimer Rights_WAIT"
    by (simp add: is_rights_compatible_def principals rights_bits Rights_is_subset_of_def Rights_intersection_def Rights_empty_def)
qed (simp_all add: wrap_table_def demo_table_def SEGMENT_LEN_def)

section \<open>Concurrency\<close>

text \<open>
  C10. A snapshot is never torn: in every interleaving of one reader with a sequence of writers, a
  snapshot accepted after fewer than \<open>2 ^ 31\<close> write windows holds exactly the fields as they stood,
  outside any window, when the reader began.
\<close>

theorem snapshot_not_torn:
  assumes "seq_reach s" and "sl_reader s = RDone snap" and "sl_accepted s < 2 ^ 31"
  shows "(es_generation snap, es_owner_pid snap, es_rights snap, es_object_type snap) = sl_base s"
  using seq_inv [OF assms(1)] assms(2,3) by simp

theorem snapshot_not_torn_witness:
  "\<exists>s snap. seq_reach s \<and> sl_reader s = RDone snap \<and> sl_base s = fields_of HandleEntry_new
    \<and> (es_generation snap, es_owner_pid snap, es_rights snap, es_object_type snap) = sl_base s"
proof -
  let ?e = HandleEntry_new
  let ?s = "\<lambda>r a. \<lparr>sl_entry = ?e, sl_writer = None, sl_reader = r, sl_base = fields_of ?e, sl_windows = 0, sl_accepted = a\<rparr>"
  have 0: "seq_reach (?s RStart 0)" by (rule seq_reach.init) (simp add: HandleEntry_new_def)
  have 1: "seq_reach (?s (RSeq 0) 0)"
    using seq_reach.step [OF 0 seq_step.start] by (simp add: HandleEntry_new_def)
  have 2: "seq_reach (?s (RGen 0 0) 0)"
    using seq_reach.step [OF 1 seq_step.read] by (simp add: HandleEntry_new_def)
  have 3: "seq_reach (?s (ROwner 0 0 0) 0)"
    using seq_reach.step [OF 2 seq_step.read] by (simp add: HandleEntry_new_def)
  have 4: "seq_reach (?s (RRights 0 0 0 0) 0)"
    using seq_reach.step [OF 3 seq_step.read] by (simp add: HandleEntry_new_def)
  have 5: "seq_reach (?s (RType 0 0 0 0 0) 0)"
    using seq_reach.step [OF 4 seq_step.read] by (simp add: HandleEntry_new_def)
  let ?snap = "\<lparr>es_seq = 0, es_generation = 0, es_owner_pid = 0, es_rights = 0, es_object_type = 0\<rparr> :: EntrySnapshot"
  have 6: "seq_reach (?s (RDone ?snap) 0)"
    using seq_reach.step [OF 5 seq_step.read] by (simp add: HandleEntry_new_def)
  from snapshot_not_torn [OF 6, of ?snap] 6 show ?thesis by fastforce
qed

text \<open>
  C9. No use after free: in every interleaving of lookups on all contexts with a close, whenever a
  lookup holds the object pointer it is about to dereference, the object still has a reference, so
  its memory has not been given back.
\<close>

theorem no_use_after_free:
  assumes "reclaim_reach s" and "i < MAX_CTX" and "rc_look s i = LPtr"
  shows "0 < rc_count s"
proof -
  have i: "reclaim_inv s" by (rule reclaim_inv_reach [OF assms(1)])
  then have "count_ok s" by (simp add: reclaim_inv_def)
  with reclaim_inv_ptr [OF i assms(2,3)] show ?thesis by (simp add: count_ok_def)
qed

theorem no_use_after_free_witness: "\<exists>s. reclaim_reach s \<and> rc_look s 3 = LPtr \<and> 0 < rc_count s"
proof -
  have m: "3 < MAX_CTX" by (simp add: MAX_CTX_def)
  have 1: "reclaim_reach (reclaim_start\<lparr>rc_look := (\<lambda>_. LIdle)(3 := LLoaded 0)\<rparr>)" (is "reclaim_reach ?s1")
    using then_step [OF first reclaim_step.load [OF m]] by (simp add: reclaim_start_def GraceTracker_new_def)
  have e: "rc_look ?s1 3 = LLoaded 0" by simp
  note 2 = then_step [OF 1 reclaim_step.enter [OF m e]]
  let ?s2 = "?s1\<lparr>rc_grace := (rc_grace ?s1)\<lparr>g_ctx := (g_ctx (rc_grace ?s1))[3 := 0]\<rparr>, rc_look := (rc_look ?s1)(3 := LEntered)\<rparr>"
  have p: "rc_look ?s2 3 = LEntered" "rc_slot ?s2" by (simp_all add: reclaim_start_def)
  note 3 = then_step [OF 2 reclaim_step.pointer [OF m p]]
  let ?s3 = "?s2\<lparr>rc_look := (rc_look ?s2)(3 := LPtr)\<rparr>"
  have "rc_look ?s3 3 = LPtr" by simp
  from no_use_after_free [OF 3 m this] 3 this show ?thesis by blast
qed



section \<open>Values\<close>

text \<open>
  C26. Handle values round-trip: decoding what was encoded gives the fields back, encoding what was
  decoded gives the handle back, and an issued handle keeps the reserved top bit clear.
\<close>

theorem handle_roundtrip:
  assumes "seg < 4096" and "slot < 1048576" and "g \<le> GENERATION_MAX"
  shows "RawHandle_decode (RawHandle_encode seg slot g) = (seg, slot, g)
    \<and> (case RawHandle_decode h of (a, b, c) \<Rightarrow> RawHandle_encode a b c) = h
    \<and> \<not> bit (RawHandle_encode seg slot g) 63"
  using decode_encode [OF assms(1,2)] encode_decode [of h] encode_bit63 [OF assms] by simp

theorem handle_roundtrip_witness: "RawHandle_decode (RawHandle_encode 255 4095 77) = (255, 4095, 77)"
  using handle_roundtrip [of 255 4095 77 0] by (simp add: GENERATION_MAX_val mask_eq_exp_minus_1)


text \<open>
  C25. The bounded random draw ends for every state and bound: within 65 draws, with a value below the
  bound.
\<close>

theorem gen_below_bounded:
  assumes "n \<noteq> 0"
  shows "\<exists>v s'. gen_below s n = Some (v, s') \<and> v < n"
proof -
  obtain v s' where "gen_below_loop s n = (v, s')" by fastforce
  moreover have "0 < n" using assms by (simp add: word_neq_0_conv)
  ultimately show ?thesis using gen_below_loop_lt [of n s] assms by (simp add: gen_below_def)
qed

theorem gen_below_bounded_witness: "\<exists>v s'. gen_below 1 6 = Some (v, s') \<and> v < 6"
  by (rule gen_below_bounded) simp

text \<open>
  C24. A new segment's free list holds every slot exactly once, whatever the seed: the shuffle is a
  permutation and the links thread all of it.
\<close>

theorem new_segment_all_free:
  assumes "try_alloc_initialised True True seed = Some (es, m)"
  shows "\<exists>fl. seg_free es m fl \<and> distinct fl \<and> unat ` set fl = {..<SEGMENT_LEN}"
  using try_alloc_initialised_ok(2) [OF assms] seg_free_distinct by blast

theorem new_segment_all_free_witness:
  "\<exists>es m fl. try_alloc_initialised True True 5 = Some (es, m) \<and> seg_free es m fl \<and> distinct fl
     \<and> unat ` set fl = {..<SEGMENT_LEN}"
proof -
  obtain es m where e: "try_alloc_initialised True True 5 = Some (es, m)"
    using try_alloc_initialised_fails [of True True 5] by (metis option.exhaust prod.exhaust)
  from new_segment_all_free [OF e] e show ?thesis by blast
qed



end
