(* ===== verification/Buddy.thy ===== *)
theory Buddy
  imports Nitrox_Prelude
begin

text \<open>
  The physical-memory buddy allocator, \<^verbatim>\<open>kernel/src/mm/buddy.rs\<close>: free blocks of each order on an
  intrusive list through the first word of each free frame, and a bitmap with one bit for each pair
  of buddies. \<^const>\<open>None\<close> is a failed assertion, an index out of range, or a list walk that does not
  end. \<^typ>\<open>u64\<close> stands for \<^verbatim>\<open>usize\<close>, orders are naturals.
\<close>

definition PAGE_SIZE :: u64 where "PAGE_SIZE = 4096"
definition PAGE_SHIFT :: nat where "PAGE_SHIFT = 12"
definition MAX_ORDER :: nat where "MAX_ORDER = 10"
definition NUM_ORDERS :: nat where "NUM_ORDERS = MAX_ORDER + 1"
definition LOW_MEMORY_LIMIT :: u64 where "LOW_MEMORY_LIMIT = 0x100000"
definition NEXT_SENTINEL :: u64 where "NEXT_SENTINEL = 0"

definition PhysAddr_frame :: "u64 \<Rightarrow> u64" where
  "PhysAddr_frame a = drop_bit PAGE_SHIFT a"

definition PhysAddr_is_page_aligned :: "u64 \<Rightarrow> bool" where
  "PhysAddr_is_page_aligned a \<longleftrightarrow> a AND (PAGE_SIZE - 1) = 0"

text \<open>
  The allocator. \<open>ba_coalesce\<close> are the words \<^verbatim>\<open>coalesce_bits\<close> points to, \<^verbatim>\<open>coalesce_words\<close> their
  number; \<open>ba_mem\<close> is the memory behind the direct map, at the words the allocator uses.
\<close>

record BuddyAllocator =
  ba_free_lists :: "u64 option list"
  ba_coalesce :: "u64 list"
  ba_row_offsets :: "u64 list"
  ba_base_frame :: u64
  ba_num_frames :: u64
  ba_hhdm_offset :: u64
  ba_mem :: "u64 \<Rightarrow> u64"

section \<open>Lists and bits\<close>

definition write_next :: "BuddyAllocator \<Rightarrow> u64 \<Rightarrow> u64 option \<Rightarrow> BuddyAllocator" where
  "write_next s addr next =
     s\<lparr>ba_mem := (ba_mem s)(addr + ba_hhdm_offset s := case next of Some p \<Rightarrow> p | None \<Rightarrow> NEXT_SENTINEL)\<rparr>"

definition read_next :: "BuddyAllocator \<Rightarrow> u64 \<Rightarrow> u64 option" where
  "read_next s addr =
     (let v = ba_mem s (addr + ba_hhdm_offset s) in if v = NEXT_SENTINEL then None else Some v)"

definition push_free :: "BuddyAllocator \<Rightarrow> u64 \<Rightarrow> nat \<Rightarrow> BuddyAllocator" where
  "push_free s addr order =
     (let head = ba_free_lists s ! order;
          s = write_next s addr head
      in s\<lparr>ba_free_lists := (ba_free_lists s)[order := Some addr]\<rparr>)"

definition pop_free :: "BuddyAllocator \<Rightarrow> nat \<Rightarrow> (BuddyAllocator \<times> u64) option" where
  "pop_free s order =
     (case ba_free_lists s ! order of
        None \<Rightarrow> None
      | Some head \<Rightarrow> Some (s\<lparr>ba_free_lists := (ba_free_lists s)[order := read_next s head]\<rparr>, head))"

partial_function (option) remove_loop ::
  "BuddyAllocator \<Rightarrow> u64 \<Rightarrow> nat \<Rightarrow> u64 option \<Rightarrow> u64 option \<Rightarrow> (BuddyAllocator \<times> bool) option" where
  "remove_loop s addr order prev cur =
     (case cur of
        None \<Rightarrow> Some (s, False)
      | Some node \<Rightarrow>
          (let next = read_next s node in
           if node = addr then
             Some (case prev of
                 Some prev_addr \<Rightarrow> write_next s prev_addr next
               | None \<Rightarrow> s\<lparr>ba_free_lists := (ba_free_lists s)[order := next]\<rparr>, True)
           else remove_loop s addr order (Some node) next))"

definition remove_from_free_list :: "BuddyAllocator \<Rightarrow> u64 \<Rightarrow> nat \<Rightarrow> (BuddyAllocator \<times> bool) option" where
  "remove_from_free_list s addr order = remove_loop s addr order None (ba_free_lists s ! order)"

definition toggle_coalesce_bit :: "BuddyAllocator \<Rightarrow> u64 \<Rightarrow> nat \<Rightarrow> (BuddyAllocator \<times> u64) option" where
  "toggle_coalesce_bit s frame order =
     (if NUM_ORDERS \<le> order then None
      else let bit = drop_bit (order + 1) (frame - ba_base_frame s);
               word_idx = unat (ba_row_offsets s ! order + bit div 64);
               bit_in_word = unat (bit mod 64)
      in if length (ba_coalesce s) \<le> word_idx then None
         else let new = ba_coalesce s ! word_idx XOR push_bit bit_in_word 1
              in Some (s\<lparr>ba_coalesce := (ba_coalesce s)[word_idx := new]\<rparr>, drop_bit bit_in_word new AND 1))"

section \<open>Allocation and freeing\<close>

function BuddyAllocator_alloc :: "BuddyAllocator \<Rightarrow> nat \<Rightarrow> (BuddyAllocator \<times> u64 option) option" where
  "BuddyAllocator_alloc s order =
     (if MAX_ORDER < order then Some (s, None)
      else case pop_free s order of
        Some (s, addr) \<Rightarrow>
          (case toggle_coalesce_bit s (PhysAddr_frame addr) order of
             None \<Rightarrow> None
           | Some (s, _) \<Rightarrow> Some (s, Some addr))
      | None \<Rightarrow>
          if order = MAX_ORDER then Some (s, None)
          else (case BuddyAllocator_alloc s (order + 1) of
              None \<Rightarrow> None
            | Some (s, None) \<Rightarrow> Some (s, None)
            | Some (s, Some block) \<Rightarrow>
                (let upper = block + push_bit order PAGE_SIZE;
                     s = push_free s upper order
                 in case toggle_coalesce_bit s (PhysAddr_frame upper) order of
                      None \<Rightarrow> None
                    | Some (s, _) \<Rightarrow> Some (s, Some block))))"
  by pat_completeness auto
termination
  by (relation "measure (\<lambda>(s, order). MAX_ORDER - order)") auto

declare BuddyAllocator_alloc.simps [simp del]

lemma toggle_order: "toggle_coalesce_bit s f order = Some r \<Longrightarrow> order < NUM_ORDERS"
  by (simp add: toggle_coalesce_bit_def split: if_splits)

function free_frame :: "BuddyAllocator \<Rightarrow> u64 \<Rightarrow> nat \<Rightarrow> BuddyAllocator option" where
  "free_frame s addr order =
     (let frame = PhysAddr_frame addr in
      case toggle_coalesce_bit s frame order of
        None \<Rightarrow> None
      | Some (s, bit_after) \<Rightarrow>
          if order = MAX_ORDER \<or> bit_after = 1 then Some (push_free s addr order)
          else let buddy_frame = frame XOR push_bit order 1;
                   buddy_addr = push_bit PAGE_SHIFT buddy_frame
          in (case remove_from_free_list s buddy_addr order of
                Some (s, True) \<Rightarrow>
                  (let parent_frame = frame AND NOT (push_bit order 1);
                       parent_addr = push_bit PAGE_SHIFT parent_frame
                   in free_frame s parent_addr (order + 1))
              | _ \<Rightarrow> None))"
  by pat_completeness auto
termination
  by (relation "measure (\<lambda>(s, addr, order). NUM_ORDERS - order)") (auto dest: toggle_order)

declare free_frame.simps [simp del]

text \<open>The debug assertions of \<^verbatim>\<open>free\<close> are part of the model.\<close>

definition BuddyAllocator_free :: "BuddyAllocator \<Rightarrow> u64 \<Rightarrow> nat \<Rightarrow> BuddyAllocator option" where
  "BuddyAllocator_free s addr order =
     (let frame = PhysAddr_frame addr in
      if order \<le> MAX_ORDER \<and> PhysAddr_is_page_aligned addr
        \<and> ba_base_frame s \<le> frame \<and> frame < ba_base_frame s + ba_num_frames s
      then free_frame s addr order else None)"

definition div_ceil :: "u64 \<Rightarrow> u64 \<Rightarrow> u64" where
  "div_ceil a b = (if 0 < a mod b then a div b + 1 else a div b)"

text \<open>
  \<^verbatim>\<open>order_for_size\<close>: \<^verbatim>\<open>covered\<close> doubles until it reaches the page count. A count past \<open>2 ^ 63\<close>
  cannot occur, a page being 4096 bytes.
\<close>

partial_function (option) order_loop :: "u64 \<Rightarrow> u64 \<Rightarrow> nat \<Rightarrow> nat option" where
  "order_loop pages covered ord = (if covered < pages then order_loop pages (push_bit 1 covered) (ord + 1) else Some ord)"

definition order_for_size :: "u64 \<Rightarrow> nat option" where
  "order_for_size bytes = (let pages = (if bytes = 0 then 1 else div_ceil bytes PAGE_SIZE) in order_loop pages 1 0)"

section \<open>Building the allocator\<close>

record MemoryMapEntry =
  mm_base :: u64
  mm_length :: u64
  mm_kind :: u64

definition MEMMAP_USABLE :: u64 where "MEMMAP_USABLE = 0"

definition usable :: "MemoryMapEntry list \<Rightarrow> MemoryMapEntry list" where
  "usable memory_map = filter (\<lambda>e. mm_kind e = MEMMAP_USABLE) memory_map"

definition saturating_add :: "u64 \<Rightarrow> u64 \<Rightarrow> u64" where
  "saturating_add a b = (if a + b < a then - 1 else a + b)"

definition clip_to_managed :: "MemoryMapEntry \<Rightarrow> u64 \<times> u64" where
  "clip_to_managed e =
     (let end = saturating_add (mm_base e) (mm_length e) in
      if end \<le> LOW_MEMORY_LIMIT then (0, 0)
      else let start_raw = max (mm_base e) LOW_MEMORY_LIMIT;
               start = (start_raw + PAGE_SIZE - 1) AND NOT (PAGE_SIZE - 1);
               end = end AND NOT (PAGE_SIZE - 1)
           in if end \<le> start then (0, 0) else (start, end))"

definition find_bitmap_region :: "MemoryMapEntry list \<Rightarrow> u64 \<Rightarrow> u64 option" where
  "find_bitmap_region memory_map reservation_bytes =
     fold (\<lambda>e chosen. case chosen of Some a \<Rightarrow> Some a | None \<Rightarrow>
         (let (start, end) = clip_to_managed e in
          if end = 0 then None
          else if reservation_bytes \<le> end - start then Some start else None))
       (usable memory_map) None"

definition managed_range :: "MemoryMapEntry list \<Rightarrow> u64 \<times> u64" where
  "managed_range memory_map =
     fold (\<lambda>e (min_base, max_end).
         let (start, end) = clip_to_managed e in
         if end = 0 then (min_base, max_end)
         else (if start < min_base then start else min_base, if max_end < end then end else max_end))
       (usable memory_map) (- 1, 0)"

text \<open>The words of the row of an order, and the rows laid out one after the other.\<close>

definition row_words :: "u64 \<Rightarrow> nat \<Rightarrow> u64" where
  "row_words num_frames ord = div_ceil (drop_bit (ord + 1) (num_frames + push_bit (ord + 1) 1 - 1)) 64"

definition row_layout :: "u64 \<Rightarrow> u64 list \<times> u64" where
  "row_layout num_frames =
     fold (\<lambda>ord (row_offsets, total_words). (row_offsets[ord := total_words], total_words + row_words num_frames ord))
       [0..<NUM_ORDERS] (replicate NUM_ORDERS 0, 0)"

text \<open>The inner loop of the second pass: every page of a region that is not the bitmap's.\<close>

partial_function (option) feed_pages ::
  "BuddyAllocator \<Rightarrow> u64 \<Rightarrow> u64 \<Rightarrow> u64 \<Rightarrow> u64 \<Rightarrow> BuddyAllocator option" where
  "feed_pages s p end bitmap_phys bitmap_phys_end =
     (if p < end then
        (case (if bitmap_phys \<le> p \<and> p < bitmap_phys_end then Some s else free_frame s p 0) of
           None \<Rightarrow> None
         | Some s \<Rightarrow> feed_pages s (p + PAGE_SIZE) end bitmap_phys bitmap_phys_end)
      else Some s)"

primrec feed_regions :: "BuddyAllocator \<Rightarrow> MemoryMapEntry list \<Rightarrow> u64 \<Rightarrow> u64 \<Rightarrow> BuddyAllocator option" where
  "feed_regions s [] bitmap_phys bitmap_phys_end = Some s"
| "feed_regions s (e # es) bitmap_phys bitmap_phys_end =
     (let (start, end) = clip_to_managed e in
      case (if end = 0 then Some s else feed_pages s start end bitmap_phys bitmap_phys_end) of
        None \<Rightarrow> None
      | Some s \<Rightarrow> feed_regions s es bitmap_phys bitmap_phys_end)"

text \<open>\<^verbatim>\<open>new\<close>, over the memory \<open>mem\<close> the boot loader left.\<close>

definition BuddyAllocator_new ::
  "MemoryMapEntry list \<Rightarrow> u64 \<Rightarrow> (u64 \<Rightarrow> u64) \<Rightarrow> BuddyAllocator option" where
  "BuddyAllocator_new memory_map hhdm_offset mem =
     (let (min_base, max_end) = managed_range memory_map in
      if \<not> min_base < max_end then None
      else let raw_base = drop_bit PAGE_SHIFT min_base;
               raw_end = drop_bit PAGE_SHIFT max_end;
               pair_align = push_bit (MAX_ORDER + 1) 1;
               base_frame = raw_base AND NOT (pair_align - 1);
               num_frames = raw_end - base_frame;
               (row_offsets, total_words) = row_layout num_frames;
               bitmap_bytes = total_words * 8;
               bitmap_pages = div_ceil bitmap_bytes PAGE_SIZE;
               bitmap_reservation = bitmap_pages * PAGE_SIZE
           in case find_bitmap_region memory_map bitmap_reservation of
                None \<Rightarrow> None
              | Some bitmap_phys \<Rightarrow>
                  feed_regions
                    \<lparr>ba_free_lists = replicate NUM_ORDERS None, ba_coalesce = replicate (unat total_words) 0,
                     ba_row_offsets = row_offsets, ba_base_frame = base_frame, ba_num_frames = num_frames,
                     ba_hhdm_offset = hhdm_offset, ba_mem = mem\<rparr>
                    (usable memory_map) bitmap_phys (bitmap_phys + bitmap_reservation))"

end
