(* ===== verification/Buddy_Blocks.thy ===== *)
theory Buddy_Blocks
  imports Main
begin

text \<open>
  The abstract buddy system: for each order, the frames at which a free block starts. Blocks are
  naturally aligned and disjoint, and below the largest order two buddies are never both free.
\<close>

definition block :: "nat \<Rightarrow> nat \<Rightarrow> nat set" where
  "block ord f = {f..<f + 2 ^ ord}"

definition buddy :: "nat \<Rightarrow> nat \<Rightarrow> nat" where
  "buddy ord f = (if even (f div 2 ^ ord) then f + 2 ^ ord else f - 2 ^ ord)"

definition parent :: "nat \<Rightarrow> nat \<Rightarrow> nat" where
  "parent ord f = (if even (f div 2 ^ ord) then f else f - 2 ^ ord)"

text \<open>\<open>free_of mo B\<close>: the frames of the free blocks of orders up to \<open>mo\<close>.\<close>

definition free_of :: "nat \<Rightarrow> (nat \<Rightarrow> nat set) \<Rightarrow> nat set" where
  "free_of mo B = (\<Union>ord\<in>{..mo}. \<Union>f\<in>B ord. block ord f)"

definition blocks_ok :: "nat \<Rightarrow> (nat \<Rightarrow> nat set) \<Rightarrow> bool" where
  "blocks_ok mo B \<longleftrightarrow>
     (\<forall>ord\<le>mo. \<forall>f\<in>B ord. 2 ^ ord dvd f)
     \<and> (\<forall>ord\<le>mo. \<forall>ord'\<le>mo. \<forall>f\<in>B ord. \<forall>f'\<in>B ord'. (ord, f) \<noteq> (ord', f') \<longrightarrow> block ord f \<inter> block ord' f' = {})
     \<and> (\<forall>ord<mo. \<forall>f\<in>B ord. buddy ord f \<notin> B ord)"

lemma blocks_okD:
  assumes "blocks_ok mo B" and "ord \<le> mo" and "f \<in> B ord"
  shows "2 ^ ord dvd f"
    and "ord' \<le> mo \<Longrightarrow> f' \<in> B ord' \<Longrightarrow> (ord, f) \<noteq> (ord', f') \<Longrightarrow> block ord f \<inter> block ord' f' = {}"
    and "ord < mo \<Longrightarrow> buddy ord f \<notin> B ord"
proof -
  note d = assms(1) [unfolded blocks_ok_def]
  show "2 ^ ord dvd f" using conjunct1 [OF d] assms(2,3) by simp
  show "block ord f \<inter> block ord' f' = {}" if "ord' \<le> mo" "f' \<in> B ord'" "(ord, f) \<noteq> (ord', f')"
    using conjunct1 [OF conjunct2 [OF d], rule_format, OF assms(2) that(1) assms(3) that(2,3)] .
  show "buddy ord f \<notin> B ord" if "ord < mo"
    using conjunct2 [OF conjunct2 [OF d], rule_format, OF that assms(3)] .
qed

lemma block_start [simp]: "f \<in> block ord f"
  by (simp add: block_def)

lemma in_free_of: "x \<in> free_of mo B \<longleftrightarrow> (\<exists>ord\<le>mo. \<exists>f\<in>B ord. x \<in> block ord f)"
  by (auto simp: free_of_def)

lemma block_free: "ord \<le> mo \<Longrightarrow> f \<in> B ord \<Longrightarrow> block ord f \<subseteq> free_of mo B"
  by (auto simp: free_of_def)

section \<open>Buddies\<close>

lemma aligned_cases:
  fixes f :: nat
  assumes "2 ^ ord dvd f"
  obtains q where "f = 2 ^ (ord + 1) * q" "even (f div 2 ^ ord)"
  | q where "f = 2 ^ (ord + 1) * q + 2 ^ ord" "odd (f div 2 ^ ord)"
proof -
  from assms obtain k where k: "f = 2 ^ ord * k" by blast
  then have d: "f div 2 ^ ord = k" by simp
  show thesis
  proof (cases "even k")
    case True
    then obtain q where "k = 2 * q" by blast
    with k d True that(1) [of q] show ?thesis by simp
  next
    case False
    then obtain q where "k = 2 * q + 1" using oddE by blast
    with k d False that(2) [of q] show ?thesis by (simp add: algebra_simps)
  qed
qed

lemma buddy_parent:
  assumes "2 ^ ord dvd f"
  shows "2 ^ ord dvd buddy ord f" and "buddy ord f \<noteq> f" and "buddy ord (buddy ord f) = f"
    and "2 ^ (ord + 1) dvd parent ord f"
    and "block (ord + 1) (parent ord f) = block ord f \<union> block ord (buddy ord f)"
    and "block ord f \<inter> block ord (buddy ord f) = {}"
    and "f div 2 ^ (ord + 1) = buddy ord f div 2 ^ (ord + 1)"
    and "parent ord f = 2 ^ (ord + 1) * (f div 2 ^ (ord + 1))"
    and "{f, buddy ord f} = {parent ord f, parent ord f + 2 ^ ord}"
proof -
  have p: "(2 :: nat) ^ (ord + 1) = 2 ^ ord + 2 ^ ord" by simp
  have lo: "(2 ^ (ord + 1) * q + 2 ^ ord) div 2 ^ (ord + 1) = q" for q :: nat
    by (rule div_nat_eqI) simp_all
  have lo': "(2 ^ (ord + 1) * q + 2 ^ ord) div 2 ^ ord = 2 * q + 1" for q :: nat
    by (rule div_nat_eqI) (simp_all add: algebra_simps)
  have lo2: "(2 ^ (ord + 1) * q) div 2 ^ ord = 2 * q" for q :: nat
    by (rule div_nat_eqI) (simp_all add: algebra_simps)
  have "2 ^ ord dvd buddy ord f \<and> buddy ord f \<noteq> f \<and> buddy ord (buddy ord f) = f
    \<and> 2 ^ (ord + 1) dvd parent ord f \<and> block (ord + 1) (parent ord f) = block ord f \<union> block ord (buddy ord f)
    \<and> block ord f \<inter> block ord (buddy ord f) = {} \<and> f div 2 ^ (ord + 1) = buddy ord f div 2 ^ (ord + 1)
    \<and> parent ord f = 2 ^ (ord + 1) * (f div 2 ^ (ord + 1)) \<and> {f, buddy ord f} = {parent ord f, parent ord f + 2 ^ ord}"
    using assms
  proof (cases rule: aligned_cases)
    case (1 q)
    have "buddy ord f = 2 ^ (ord + 1) * q + 2 ^ ord" "parent ord f = 2 ^ (ord + 1) * q"
      using 1 by (simp_all add: buddy_def parent_def)
    moreover have "buddy ord (2 ^ (ord + 1) * q + 2 ^ ord) = 2 ^ (ord + 1) * q"
      unfolding buddy_def lo' by simp
    ultimately show ?thesis using 1(1) lo [of q] by (auto simp: block_def)
  next
    case (2 q)
    have "buddy ord f = 2 ^ (ord + 1) * q" "parent ord f = 2 ^ (ord + 1) * q"
      using 2 by (simp_all add: buddy_def parent_def)
    moreover have "buddy ord (2 ^ (ord + 1) * q) = 2 ^ (ord + 1) * q + 2 ^ ord"
      unfolding buddy_def lo2 by simp
    ultimately show ?thesis using 2(1) lo [of q] by (auto simp: block_def)
  qed
  then show "2 ^ ord dvd buddy ord f" and "buddy ord f \<noteq> f" and "buddy ord (buddy ord f) = f"
    and "2 ^ (ord + 1) dvd parent ord f"
    and "block (ord + 1) (parent ord f) = block ord f \<union> block ord (buddy ord f)"
    and "block ord f \<inter> block ord (buddy ord f) = {}"
    and "f div 2 ^ (ord + 1) = buddy ord f div 2 ^ (ord + 1)"
    and "parent ord f = 2 ^ (ord + 1) * (f div 2 ^ (ord + 1))"
    and "{f, buddy ord f} = {parent ord f, parent ord f + 2 ^ ord}" by blast+
qed

section \<open>Taking and giving back blocks\<close>

lemma free_of_remove:
  assumes "blocks_ok mo B" and "ord \<le> mo" and "f \<in> B ord"
  shows "free_of mo (B(ord := B ord - {f})) = free_of mo B - block ord f"
proof -
  have "block ord' f' \<inter> block ord f = {}" if "ord' \<le> mo" "f' \<in> B ord'" "(ord', f') \<noteq> (ord, f)" for ord' f'
    using blocks_okD(2) [OF assms(1) that(1,2) assms(2,3) that(3)] .
  then show ?thesis using assms(2,3) by (fastforce simp: in_free_of split: if_splits)
qed

lemma blocks_ok_remove: "blocks_ok mo B \<Longrightarrow> blocks_ok mo (B(ord := B ord - {f}))"
  unfolding blocks_ok_def by (simp split: if_splits)

lemma free_of_insert: "ord \<le> mo \<Longrightarrow> free_of mo (B(ord := insert f (B ord))) = free_of mo B \<union> block ord f"
  by (fastforce simp: in_free_of split: if_splits)

lemma blocks_ok_insert:
  assumes "blocks_ok mo B" and "ord \<le> mo" and "2 ^ ord dvd f" and "block ord f \<inter> free_of mo B = {}"
    and "ord < mo \<Longrightarrow> buddy ord f \<notin> B ord"
  shows "blocks_ok mo (B(ord := insert f (B ord)))"
proof -
  have d: "block ord f \<inter> block ord' f' = {}" if "ord' \<le> mo" "f' \<in> B ord'" for ord' f'
    using assms(4) block_free [of ord' mo f' B] that by blast
  show ?thesis
    unfolding blocks_ok_def
  proof (intro conjI allI impI ballI)
    fix o1 g
    assume "o1 \<le> mo" "g \<in> (B(ord := insert f (B ord))) o1"
    then show "2 ^ o1 dvd g" using assms(3) blocks_okD(1) [OF assms(1)] by (auto split: if_splits)
  next
    fix o1 o2 g g'
    assume "o1 \<le> mo" "o2 \<le> mo" "g \<in> (B(ord := insert f (B ord))) o1" "g' \<in> (B(ord := insert f (B ord))) o2"
      "(o1, g) \<noteq> (o2, g')"
    then show "block o1 g \<inter> block o2 g' = {}"
      using blocks_okD(2) [OF assms(1), of o1 g o2 g'] d [of o1 g] d [of o2 g'] by (auto split: if_splits)
  next
    fix o1 g
    assume h: "o1 < mo" "g \<in> (B(ord := insert f (B ord))) o1"
    have "buddy ord g \<noteq> f" if "g \<in> B ord" "ord < mo"
      using buddy_parent(3) [OF blocks_okD(1) [OF assms(1,2) that(1)]] assms(5) that by metis
    then show "buddy o1 g \<notin> (B(ord := insert f (B ord))) o1"
      using h blocks_okD(3) [OF assms(1), of o1 g] assms(5) buddy_parent(2) [OF assms(3)] by (auto split: if_splits)
  qed
qed

section \<open>Nothing is lost to fragmentation\<close>

lemma aligned_contains:
  assumes "2 ^ ord dvd f" and "2 ^ ord' dvd g" and "ord \<le> ord'" and "x \<in> block ord f" and "x \<in> block ord' g"
  shows "block ord f \<subseteq> block ord' g"
proof -
  from assms(1) obtain a where a: "f = 2 ^ ord * a" by blast
  have "(2 :: nat) ^ ord dvd 2 ^ ord'" using assms(3) by (rule le_imp_power_dvd)
  then obtain b c where b: "g = 2 ^ ord * b" and c: "(2 :: nat) ^ ord' = 2 ^ ord * c"
    using assms(2) by (metis dvd_def dvd_trans)
  have "2 ^ ord * a < 2 ^ ord * (b + c)" "2 ^ ord * b < 2 ^ ord * (a + 1)"
    using assms(4,5) by (simp_all add: block_def a b c algebra_simps)
  then have "a < b + c" "b < a + 1" by (simp_all only: mult_less_cancel1)
  then have "a + 1 \<le> b + c" "b \<le> a" by simp_all
  then have "2 ^ ord * (a + 1) \<le> 2 ^ ord * (b + c)" "2 ^ ord * b \<le> 2 ^ ord * a" by (meson mult_le_mono2)+
  then show ?thesis by (auto simp: block_def a b c algebra_simps)
qed

lemma free_block_covered:
  assumes "blocks_ok mo B" and "ord \<le> mo" and "2 ^ ord dvd f" and "block ord f \<subseteq> free_of mo B"
  shows "\<exists>ord' g. ord \<le> ord' \<and> ord' \<le> mo \<and> g \<in> B ord' \<and> block ord f \<subseteq> block ord' g"
  using assms(2-)
proof (induction ord arbitrary: f)
  case 0
  then have "f \<in> free_of mo B" by auto
  then obtain ord' g where "ord' \<le> mo" "g \<in> B ord'" "f \<in> block ord' g" by (auto simp: in_free_of)
  then show ?case by (intro exI [of _ ord'] exI [of _ g]) (auto simp: block_def)
next
  case (Suc ord)
  let ?h = "f + 2 ^ ord"
  have al: "2 ^ ord dvd f" "2 ^ ord dvd ?h"
    using Suc.prems(2) by (auto intro: dvd_trans [OF le_imp_power_dvd, of ord "Suc ord"])
  have ev: "even (f div 2 ^ ord)" using Suc.prems(2) by (auto elim!: dvdE)
  have sub: "block ord f \<subseteq> block (Suc ord) f" "block ord ?h \<subseteq> block (Suc ord) f" by (auto simp: block_def)
  obtain o1 g1 where 1: "ord \<le> o1" "o1 \<le> mo" "g1 \<in> B o1" "block ord f \<subseteq> block o1 g1"
    using Suc.IH [OF _ al(1) subset_trans [OF sub(1) Suc.prems(3)]] Suc.prems(1) by auto
  obtain o2 g2 where 2: "ord \<le> o2" "o2 \<le> mo" "g2 \<in> B o2" "block ord ?h \<subseteq> block o2 g2"
    using Suc.IH [OF _ al(2) subset_trans [OF sub(2) Suc.prems(3)]] Suc.prems(1) by auto
  have big: "block (Suc ord) f \<subseteq> block o' g" if "Suc ord \<le> o'" "o' \<le> mo" "g \<in> B o'" "x \<in> block (Suc ord) f" "x \<in> block o' g" for o' g x
    using aligned_contains [OF Suc.prems(2) blocks_okD(1) [OF assms(1) that(2,3)] that(1,4,5)] .
  have same: "f' = g" if "2 ^ ord dvd f'" "g \<in> B ord" "block ord f' \<subseteq> block ord g" for f' g
    using that by (auto simp: block_def)
  show ?case
  proof (cases "o1 = ord \<and> o2 = ord")
    case True
    then have "f \<in> B ord" "?h \<in> B ord" using same [OF al(1)] same [OF al(2)] 1 2 by metis+
    with blocks_okD(3) [OF assms(1) _ _, of ord f] Suc.prems(1) ev show ?thesis by (simp add: buddy_def)
  next
    case False
    then have "Suc ord \<le> o1 \<or> Suc ord \<le> o2" using 1(1) 2(1) by linarith
    then show ?thesis
    proof (elim disjE)
      assume o1: "Suc ord \<le> o1"
      have "f \<in> block (Suc ord) f" "f \<in> block o1 g1" using 1(4) by auto
      from big [OF o1 1(2,3) this] show ?thesis using o1 1(2,3) by blast
    next
      assume o2: "Suc ord \<le> o2"
      have "?h \<in> block (Suc ord) f" "?h \<in> block o2 g2" using 2(4) sub by auto
      from big [OF o2 2(2,3) this] show ?thesis using o2 2(2,3) by blast
    qed
  qed
qed

end
