(* ===== verification/Buddy_Invariant.thy ===== *)
theory Buddy_Invariant
  imports Buddy Buddy_Blocks
begin

text \<open>
  How the allocator's lists and bitmap represent the abstract blocks: the list of an order visits
  exactly the blocks free at it, and a pair's bit says whether exactly one of the two is.
\<close>

section \<open>Frames and addresses\<close>

definition frame_addr :: "nat \<Rightarrow> u64" where
  "frame_addr f = of_nat (f * 4096)"

lemma unat_of_nat_u64: "n < 2 ^ 64 \<Longrightarrow> unat (of_nat n :: u64) = n"
  by (simp only: unat_of_nat) simp

lemma unat_frame_addr: "f < 2 ^ 52 \<Longrightarrow> unat (frame_addr f) = f * 4096"
  unfolding frame_addr_def by (rule unat_of_nat_u64) simp

lemma unat_frame: "f < 2 ^ 52 \<Longrightarrow> unat (of_nat f :: u64) = f"
  by (rule unat_of_nat_u64) simp

lemma frame_of_addr [simp]: "f < 2 ^ 52 \<Longrightarrow> PhysAddr_frame (frame_addr f) = of_nat f"
proof (rule word_unat_eq_iff [THEN iffD2])
  assume f: "f < 2 ^ 52"
  show "unat (PhysAddr_frame (frame_addr f)) = unat (of_nat f :: u64)"
    unfolding PhysAddr_frame_def unat_drop_bit_eq unat_frame_addr [OF f] unat_frame [OF f]
    by (simp add: PAGE_SHIFT_def drop_bit_eq_div)
qed

lemma addr_of_frame: "push_bit PAGE_SHIFT (of_nat f) = frame_addr f"
  by (simp add: frame_addr_def push_bit_eq_mult PAGE_SHIFT_def)

lemma frame_addr_inj: "f < 2 ^ 52 \<Longrightarrow> g < 2 ^ 52 \<Longrightarrow> frame_addr f = frame_addr g \<longleftrightarrow> f = g"
  by (simp only: unat_inject [symmetric] unat_frame_addr) simp

lemma frame_addr_0: "f < 2 ^ 52 \<Longrightarrow> frame_addr f = 0 \<longleftrightarrow> f = 0"
  using unat_frame_addr [of f] by (simp add: unat_eq_zero [symmetric])

lemma frame_addr_upper: "frame_addr f + push_bit ord PAGE_SIZE = frame_addr (f + 2 ^ ord)"
  by (simp add: frame_addr_def push_bit_eq_mult PAGE_SIZE_def algebra_simps)

lemma frame_addr_aligned: "PhysAddr_is_page_aligned (frame_addr f)"
proof -
  have "(4095 :: u64) = mask 12" by (simp add: mask_eq_exp_minus_1)
  moreover have "take_bit 12 (frame_addr f) = 0"
    unfolding frame_addr_def take_bit_of_nat by (simp add: take_bit_eq_mod)
  ultimately show ?thesis by (simp add: PhysAddr_is_page_aligned_def PAGE_SIZE_def take_bit_eq_mask)
qed

lemma bit_frame: "ord < 64 \<Longrightarrow> bit (of_nat f :: u64) ord \<longleftrightarrow> odd (f div 2 ^ ord)"
  unfolding bit_of_nat_iff by (simp add: bit_iff_odd possible_bit_word)

lemma push_bit_one: "push_bit ord 1 = (2 ^ ord :: u64)"
  by (simp add: push_bit_eq_mult)

lemma odd_div_le: "odd (f div 2 ^ ord) \<Longrightarrow> 2 ^ ord \<le> (f :: nat)"
  by (metis div_less even_zero linorder_not_le)

lemma word_buddy: "ord < 64 \<Longrightarrow> of_nat f XOR push_bit ord 1 = (of_nat (buddy ord f) :: u64)"
  unfolding flip_bit_def [symmetric] flip_bit_eq_if set_bit_eq unset_bit_eq buddy_def
  by (auto dest: odd_div_le simp: of_nat_diff bit_frame)

lemma word_parent: "ord < 64 \<Longrightarrow> of_nat f AND NOT (push_bit ord 1) = (of_nat (parent ord f) :: u64)"
  unfolding unset_bit_eq_and_not [symmetric] unset_bit_eq parent_def
  by (auto dest: odd_div_le simp: of_nat_diff bit_frame)

section \<open>The free lists\<close>

definition next_of :: "BuddyAllocator \<Rightarrow> u64 option \<Rightarrow> u64 option" where
  "next_of s x = (case x of None \<Rightarrow> None | Some a \<Rightarrow> read_next s a)"

abbreviation nodes :: "nat list \<Rightarrow> u64 option list" where
  "nodes fs \<equiv> map (\<lambda>f. Some (frame_addr f)) fs"

definition list_rep :: "BuddyAllocator \<Rightarrow> nat \<Rightarrow> nat list \<Rightarrow> bool" where
  "list_rep s ord fs \<longleftrightarrow> chain (next_of s) None (ba_free_lists s ! ord) (nodes fs)"

definition lists_rep :: "BuddyAllocator \<Rightarrow> (nat \<Rightarrow> nat set) \<Rightarrow> bool" where
  "lists_rep s B \<longleftrightarrow> length (ba_free_lists s) = NUM_ORDERS \<and> (\<forall>ord\<le>MAX_ORDER. \<exists>fs. set fs = B ord \<and> list_rep s ord fs)"

definition frames_in :: "BuddyAllocator \<Rightarrow> (nat \<Rightarrow> nat set) \<Rightarrow> bool" where
  "frames_in s B \<longleftrightarrow> (\<forall>ord\<le>MAX_ORDER. \<forall>f\<in>B ord. 0 < f \<and> unat (ba_base_frame s) \<le> f
      \<and> f + 2 ^ ord \<le> unat (ba_base_frame s) + unat (ba_num_frames s))"

section \<open>The bitmap\<close>

abbreviation row :: "BuddyAllocator \<Rightarrow> nat \<Rightarrow> nat" where
  "row s ord \<equiv> unat (ba_row_offsets s ! ord)"

definition pair_bit :: "BuddyAllocator \<Rightarrow> nat \<Rightarrow> nat \<Rightarrow> bool" where
  "pair_bit s ord p = bit (ba_coalesce s ! (row s ord + p div 64)) (p mod 64)"

definition pair_in :: "BuddyAllocator \<Rightarrow> nat \<Rightarrow> nat \<Rightarrow> bool" where
  "pair_in s ord p \<longleftrightarrow> ord \<le> MAX_ORDER \<and> p * 2 ^ (ord + 1) < unat (ba_num_frames s)"

text \<open>The geometry: an aligned base, frames within the address space, rows that do not overlap.\<close>

definition geometry :: "BuddyAllocator \<Rightarrow> bool" where
  "geometry s \<longleftrightarrow> 2 ^ NUM_ORDERS dvd unat (ba_base_frame s)
     \<and> unat (ba_base_frame s) + unat (ba_num_frames s) \<le> 2 ^ 52
     \<and> length (ba_coalesce s) < 2 ^ 64
     \<and> (\<forall>ord p. pair_in s ord p \<longrightarrow> row s ord + p div 64 < length (ba_coalesce s))
     \<and> (\<forall>ord p ord' p'. pair_in s ord p \<longrightarrow> pair_in s ord' p' \<longrightarrow>
          row s ord + p div 64 = row s ord' + p' div 64 \<longrightarrow> ord = ord')"

abbreviation pair_lo :: "BuddyAllocator \<Rightarrow> nat \<Rightarrow> nat \<Rightarrow> nat" where
  "pair_lo s ord p \<equiv> unat (ba_base_frame s) + p * 2 ^ (ord + 1)"

definition bits_rep :: "BuddyAllocator \<Rightarrow> (nat \<Rightarrow> nat set) \<Rightarrow> bool" where
  "bits_rep s B \<longleftrightarrow> (\<forall>ord p. pair_in s ord p \<longrightarrow>
     pair_bit s ord p = ((pair_lo s ord p \<in> B ord) \<noteq> (pair_lo s ord p + 2 ^ ord \<in> B ord)))"

text \<open>The well-formed allocator whose free blocks are \<open>B\<close>.\<close>

definition buddy_inv :: "BuddyAllocator \<Rightarrow> (nat \<Rightarrow> nat set) \<Rightarrow> bool" where
  "buddy_inv s B \<longleftrightarrow> geometry s \<and> frames_in s B \<and> lists_rep s B \<and> bits_rep s B \<and> blocks_ok MAX_ORDER B"

lemma geometryD:
  assumes "geometry s"
  shows "2 ^ NUM_ORDERS dvd unat (ba_base_frame s)"
    and "unat (ba_base_frame s) + unat (ba_num_frames s) \<le> 2 ^ 52" and "length (ba_coalesce s) < 2 ^ 64"
    and "pair_in s ord p \<Longrightarrow> row s ord + p div 64 < length (ba_coalesce s)"
    and "pair_in s ord p \<Longrightarrow> pair_in s ord' p' \<Longrightarrow> row s ord + p div 64 = row s ord' + p' div 64 \<Longrightarrow> ord = ord'"
  using assms unfolding geometry_def by simp_all

lemma base_aligned: "geometry s \<Longrightarrow> ord \<le> MAX_ORDER \<Longrightarrow> 2 ^ (ord + 1) dvd unat (ba_base_frame s)"
  using dvd_trans [OF le_imp_power_dvd [of "ord + 1" NUM_ORDERS] geometryD(1) [of s]] by (simp add: NUM_ORDERS_def)

text \<open>The pair of a frame.\<close>

definition pair_of :: "BuddyAllocator \<Rightarrow> nat \<Rightarrow> nat \<Rightarrow> nat" where
  "pair_of s ord f = (f - unat (ba_base_frame s)) div 2 ^ (ord + 1)"

definition in_frames :: "BuddyAllocator \<Rightarrow> nat \<Rightarrow> bool" where
  "in_frames s f \<longleftrightarrow> unat (ba_base_frame s) \<le> f \<and> f < unat (ba_base_frame s) + unat (ba_num_frames s)"

lemma pair_of_in: "ord \<le> MAX_ORDER \<Longrightarrow> in_frames s f \<Longrightarrow> pair_in s ord (pair_of s ord f)"
  unfolding pair_in_def pair_of_def in_frames_def
  using div_times_less_eq_dividend [of "f - unat (ba_base_frame s)" "2 ^ (ord + 1)"] by linarith

lemma pair_lo_parent:
  assumes "geometry s" and "ord \<le> MAX_ORDER" and "in_frames s f" and "2 ^ ord dvd f"
  shows "pair_lo s ord (pair_of s ord f) = parent ord f"
proof -
  from base_aligned [OF assms(1,2)] obtain b where b: "unat (ba_base_frame s) = 2 ^ (ord + 1) * b" by blast
  have "f = (f - unat (ba_base_frame s)) + b * 2 ^ (ord + 1)" using assms(3) b by (simp add: in_frames_def)
  then have "f div 2 ^ (ord + 1) = b + pair_of s ord f"
    unfolding pair_of_def by (metis add.commute div_mult_self1 power_not_zero zero_neq_numeral)
  then show ?thesis using buddy_parent(8) [OF assms(4)] b by (simp add: algebra_simps)
qed

section \<open>Toggling a pair's bit\<close>

lemma bit_flip_word: "b < 64 \<Longrightarrow> bit ((w :: u64) XOR 2 ^ b) n \<longleftrightarrow> (bit w n \<noteq> (n = b))"
  by (auto simp: bit_xor_iff bit_exp_iff possible_bit_word)

lemma low_bit_word: "(drop_bit b (w :: u64) AND 1) = of_bool (bit w b)"
  by (simp add: and_one_eq bit_iff_odd_drop_bit mod_2_eq_odd)

lemma pair_word_idx:
  assumes "geometry s" and "ord \<le> MAX_ORDER" and "in_frames s f"
  defines "w \<equiv> drop_bit (ord + 1) (of_nat f - ba_base_frame s) :: u64"
  shows "unat (ba_row_offsets s ! ord + w div 64) = row s ord + pair_of s ord f div 64"
    and "unat (w mod 64) = pair_of s ord f mod 64"
proof -
  have f: "f < 2 ^ 52" "unat (ba_base_frame s) \<le> f" using assms(3) geometryD(2) [OF assms(1)] by (auto simp: in_frames_def)
  have le: "ba_base_frame s \<le> of_nat f" using f by (simp only: word_le_nat_alt unat_frame)
  have w: "unat w = pair_of s ord f"
    unfolding w_def unat_drop_bit_eq unat_sub [OF le] unat_frame [OF f(1)] by (simp add: pair_of_def drop_bit_eq_div)
  then show "unat (w mod 64) = pair_of s ord f mod 64" by (simp add: unat_mod)
  have d: "unat (w div 64) = pair_of s ord f div 64" by (simp add: unat_div w)
  have "row s ord + pair_of s ord f div 64 < 2 ^ 64"
    using geometryD(3,4) [OF assms(1)] pair_of_in [OF assms(2,3)] by (meson less_trans)
  then show "unat (ba_row_offsets s ! ord + w div 64) = row s ord + pair_of s ord f div 64"
    using unat_add_lem [of "ba_row_offsets s ! ord" "w div 64"] by (simp add: d)
qed

lemma pair_idx_inj:
  assumes "geometry s" and "pair_in s ord p" and "pair_in s ord' p'"
  shows "row s ord + p div 64 = row s ord' + p' div 64 \<and> p mod 64 = p' mod 64 \<longleftrightarrow> ord = ord' \<and> p = p'"
  using geometryD(5) [OF assms] by (metis add_left_cancel div_mult_mod_eq)

lemma pairs_apart:
  fixes p q e :: nat
  assumes "p \<noteq> q" and "0 < e"
  shows "p * (2 * e) \<noteq> q * (2 * e) \<and> p * (2 * e) + e \<noteq> q * (2 * e) \<and> p * (2 * e) \<noteq> q * (2 * e) + e"
proof -
  have "p * (2 * e) + 2 * e \<le> q * (2 * e) \<or> q * (2 * e) + 2 * e \<le> p * (2 * e)"
    using assms(1) mult_le_mono1 [of "Suc p" q "2 * e"] mult_le_mono1 [of "Suc q" p "2 * e"]
    by (simp add: add.commute) linarith
  with assms(2) show ?thesis by auto
qed

definition flip :: "nat \<Rightarrow> nat set \<Rightarrow> nat set" where
  "flip h X = (if h \<in> X then X - {h} else insert h X)"

lemma toggle_spec:
  assumes g: "geometry s" and b: "bits_rep s B" and o: "ord \<le> MAX_ORDER" and f: "in_frames s f" "2 ^ ord dvd f"
    and h: "h \<in> {f, buddy ord f}"
  defines "X \<equiv> flip h (B ord)"
  shows "\<exists>ws. toggle_coalesce_bit s (of_nat f) ord
      = Some (s\<lparr>ba_coalesce := ws\<rparr>, of_bool ((f \<in> X) \<noteq> (buddy ord f \<in> X)))
    \<and> length ws = length (ba_coalesce s) \<and> bits_rep (s\<lparr>ba_coalesce := ws\<rparr>) (B(ord := X))"
proof -
  let ?p = "pair_of s ord f"
  let ?i = "row s ord + ?p div 64" and ?b = "?p mod 64"
  define new where "new = ba_coalesce s ! ?i XOR push_bit ?b 1"
  define ws where "ws = (ba_coalesce s)[?i := new]"
  have pin: "pair_in s ord ?p" by (rule pair_of_in [OF o f(1)])
  have i: "?i < length (ba_coalesce s)" by (rule geometryD(4) [OF g pin])
  have t: "toggle_coalesce_bit s (of_nat f) ord = Some (s\<lparr>ba_coalesce := ws\<rparr>, of_bool (bit new ?b))"
    using pair_word_idx [OF g o f(1)] i o
    unfolding toggle_coalesce_bit_def Let_def ws_def new_def low_bit_word by (simp add: NUM_ORDERS_def)
  have pb: "pair_bit (s\<lparr>ba_coalesce := ws\<rparr>) o' p' = (pair_bit s o' p' \<noteq> (o' = ord \<and> p' = ?p))" if "pair_in s o' p'" for o' p'
    using pair_idx_inj [OF g that pin] i geometryD(4) [OF g that]
    by (auto simp: pair_bit_def ws_def nth_list_update new_def bit_flip_word)
  have lo: "pair_lo s ord ?p = parent ord f" by (rule pair_lo_parent [OF g o f])
  note two = buddy_parent(9) [OF f(2)]
  have par: "(pair_lo s o' p' \<in> (B(ord := X)) o') \<noteq> (pair_lo s o' p' + 2 ^ o' \<in> (B(ord := X)) o')
      \<longleftrightarrow> ((pair_lo s o' p' \<in> B o') \<noteq> (pair_lo s o' p' + 2 ^ o' \<in> B o')) \<noteq> (o' = ord \<and> p' = ?p)" if "pair_in s o' p'" for o' p'
  proof (cases "o' = ord")
    case False
    then show ?thesis by simp
  next
    case True
    have hp: "h \<in> {pair_lo s ord ?p, pair_lo s ord ?p + 2 ^ ord}" using h unfolding lo two [symmetric] by simp
    have "pair_lo s ord p' \<noteq> h \<and> pair_lo s ord p' + 2 ^ ord \<noteq> h" if "p' \<noteq> ?p"
      using pairs_apart [OF that, of "2 ^ ord"] hp by auto
    with hp show ?thesis using True by (auto simp: X_def flip_def)
  qed
  have nb: "bits_rep (s\<lparr>ba_coalesce := ws\<rparr>) (B(ord := X))"
    unfolding bits_rep_def using b pb par by (simp add: bits_rep_def pair_in_def)
  have "bit new ?b = ((f \<in> X) \<noteq> (buddy ord f \<in> X))"
  proof -
    have "bit new ?b = pair_bit (s\<lparr>ba_coalesce := ws\<rparr>) ord ?p" using i by (simp add: pair_bit_def ws_def)
    also have "\<dots> = ((parent ord f \<in> X) \<noteq> (parent ord f + 2 ^ ord \<in> X))"
      using nb [unfolded bits_rep_def, rule_format, of ord ?p] pin lo by (simp add: pair_in_def)
    also have "\<dots> = ((f \<in> X) \<noteq> (buddy ord f \<in> X))" using two by (auto simp: doubleton_eq_iff)
    finally show ?thesis .
  qed
  with nb t show ?thesis by (auto simp: ws_def)
qed

end
