(* ===== verification/Buddy_Lists.thy ===== *)
theory Buddy_Lists
  imports Buddy_Invariant
begin

text \<open>The operations on the free lists, against the sets of blocks they represent.\<close>

lemma chain_unlink:
  assumes "chain nx e p (zs @ q # f # ys)"
  shows "chain (nx(q := nx f)) e p (zs @ q # ys)"
  using assms chain_distinct [OF assms]
  by (induction zs arbitrary: p) auto

section \<open>Frame conditions\<close>

text \<open>\<open>lists_only s s'\<close>: nothing but the lists and the memory behind them differs.\<close>

definition lists_only :: "BuddyAllocator \<Rightarrow> BuddyAllocator \<Rightarrow> bool" where
  "lists_only s s' \<longleftrightarrow> s' = s\<lparr>ba_free_lists := ba_free_lists s', ba_mem := ba_mem s'\<rparr>"

lemma lists_only_fields:
  assumes "lists_only s s'"
  shows "geometry s' = geometry s" and "bits_rep s' B = bits_rep s B" and "frames_in s' B = frames_in s B"
    and "ba_base_frame s' = ba_base_frame s" and "ba_num_frames s' = ba_num_frames s"
proof -
  have f: "ba_coalesce s' = ba_coalesce s" "ba_row_offsets s' = ba_row_offsets s"
    "ba_base_frame s' = ba_base_frame s" "ba_num_frames s' = ba_num_frames s"
    by (subst assms [unfolded lists_only_def], simp)+
  then show "geometry s' = geometry s" and "bits_rep s' B = bits_rep s B" and "frames_in s' B = frames_in s B"
    and "ba_base_frame s' = ba_base_frame s" and "ba_num_frames s' = ba_num_frames s"
    by (simp_all add: geometry_def bits_rep_def frames_in_def pair_in_def pair_bit_def)
qed

lemma coalesce_fields:
  "lists_rep (s\<lparr>ba_coalesce := ws\<rparr>) B = lists_rep s B"
  "frames_in (s\<lparr>ba_coalesce := ws\<rparr>) B = frames_in s B"
  "length ws = length (ba_coalesce s) \<Longrightarrow> geometry (s\<lparr>ba_coalesce := ws\<rparr>) = geometry s"
proof -
  have "next_of (s\<lparr>ba_coalesce := ws\<rparr>) = next_of s" by (simp add: fun_eq_iff next_of_def read_next_def split: option.splits)
  then show "lists_rep (s\<lparr>ba_coalesce := ws\<rparr>) B = lists_rep s B" by (simp add: lists_rep_def list_rep_def)
  show "frames_in (s\<lparr>ba_coalesce := ws\<rparr>) B = frames_in s B" by (simp add: frames_in_def)
  show "geometry (s\<lparr>ba_coalesce := ws\<rparr>) = geometry s" if "length ws = length (ba_coalesce s)"
    using that by (simp add: geometry_def pair_in_def)
qed

lemma frames_small:
  assumes "geometry s" and "frames_in s B" and "ord \<le> MAX_ORDER" and "f \<in> B ord"
  shows "f < 2 ^ 52" and "0 < f" and "in_frames s f"
proof -
  have f: "0 < f" "unat (ba_base_frame s) \<le> f" "f + 2 ^ ord \<le> unat (ba_base_frame s) + unat (ba_num_frames s)"
    using assms(2-) by (auto simp: frames_in_def)
  moreover have "f < f + 2 ^ ord" by simp
  ultimately show "f < 2 ^ 52" "0 < f" "in_frames s f" using geometryD(2) [OF assms(1)] unfolding in_frames_def by linarith+
qed

section \<open>Next pointers\<close>

lemma next_of_Some [simp]: "next_of s (Some a) = read_next s a"
  by (simp add: next_of_def)

lemma next_of_write:
  assumes "n \<noteq> Some 0"
  shows "next_of (write_next s a n) = (next_of s)(Some a := n)"
proof
  fix x
  show "next_of (write_next s a n) x = ((next_of s)(Some a := n)) x"
    using assms by (cases x; cases n) (auto simp: next_of_def read_next_def write_next_def NEXT_SENTINEL_def Let_def)
qed

lemma next_of_lists [simp]: "next_of (s\<lparr>ba_free_lists := l\<rparr>) = next_of s"
  by (simp add: fun_eq_iff next_of_def read_next_def split: option.splits)

lemma next_of_nonzero: "next_of s x \<noteq> Some 0"
  by (simp add: next_of_def read_next_def NEXT_SENTINEL_def Let_def split: option.splits)

lemma list_head_nonzero:
  assumes "list_rep s ord fs" and "\<And>f. f \<in> set fs \<Longrightarrow> 0 < f \<and> f < 2 ^ 52"
  shows "ba_free_lists s ! ord \<noteq> Some 0"
  using assms by (cases fs) (auto simp: list_rep_def frame_addr_0)

lemma node_notin:
  assumes "f \<notin> set fs" and "f < 2 ^ 52" and "\<And>g. g \<in> set fs \<Longrightarrow> g < 2 ^ 52"
  shows "Some (frame_addr f) \<notin> set (nodes fs)"
  using assms frame_addr_inj by auto

lemma list_repE:
  assumes "lists_rep s B" and "ord \<le> MAX_ORDER"
  obtains fs where "set fs = B ord" "list_rep s ord fs"
  using assms by (auto simp: lists_rep_def)

section \<open>Push, pop and remove\<close>

lemma push_spec:
  assumes g: "geometry s" "frames_in s B" and l: "lists_rep s B" and o: "ord \<le> MAX_ORDER"
    and f: "0 < f" "f < 2 ^ 52" "\<And>ord'. ord' \<le> MAX_ORDER \<Longrightarrow> f \<notin> B ord'"
  shows "lists_rep (push_free s (frame_addr f) ord) (B(ord := insert f (B ord)))"
    and "lists_only s (push_free s (frame_addr f) ord)"
proof -
  let ?s = "push_free s (frame_addr f) ord"
  have small: "h < 2 ^ 52 \<and> 0 < h" if "ord' \<le> MAX_ORDER" "h \<in> B ord'" for ord' h
    using frames_small [OF g that] by simp
  obtain hs where hs: "set hs = B ord" "list_rep s ord hs" by (rule list_repE [OF l o])
  have nz: "ba_free_lists s ! ord \<noteq> Some 0" using list_head_nonzero [OF hs(2)] small [OF o] hs(1) by simp
  have nx: "next_of ?s = (next_of s)(Some (frame_addr f) := ba_free_lists s ! ord)"
    by (simp add: push_free_def Let_def next_of_write [OF nz])
  have fl: "ba_free_lists ?s = (ba_free_lists s)[ord := Some (frame_addr f)]"
    by (simp add: push_free_def Let_def write_next_def)
  have len: "length (ba_free_lists s) = NUM_ORDERS" using l by (simp add: lists_rep_def)
  have "\<exists>fs. set fs = (B(ord := insert f (B ord))) ord' \<and> list_rep ?s ord' fs" if o': "ord' \<le> MAX_ORDER" for ord'
  proof -
    obtain fs where fs: "set fs = B ord'" "list_rep s ord' fs" by (rule list_repE [OF l o'])
    have ni: "Some (frame_addr f) \<notin> set (nodes fs)"
      using node_notin [OF _ f(2)] f(3) [OF o'] small [OF o'] fs(1) by metis
    show ?thesis
    proof (cases "ord' = ord")
      case False
      with fs ni show ?thesis by (intro exI [of _ fs]) (simp add: list_rep_def nx fl)
    next
      case True
      have "list_rep ?s ord (f # fs)" using fs ni o len True by (simp add: list_rep_def nx fl NUM_ORDERS_def)
      with fs(1) True show ?thesis by (intro exI [of _ "f # fs"]) simp
    qed
  qed
  then show "lists_rep ?s (B(ord := insert f (B ord)))" unfolding lists_rep_def using len fl by simp
  show "lists_only s ?s" by (simp add: lists_only_def push_free_def write_next_def Let_def)
qed

lemma list_rep_others:
  assumes "lists_rep s B" and "ord' \<le> MAX_ORDER" and "ord' \<noteq> ord"
    and "ba_free_lists s' ! ord' = ba_free_lists s ! ord'" and "next_of s' = next_of s"
  shows "\<exists>fs. set fs = (B(ord := X)) ord' \<and> list_rep s' ord' fs"
  using assms by (auto simp: lists_rep_def list_rep_def)

lemma pop_spec:
  assumes l: "lists_rep s B" and o: "ord \<le> MAX_ORDER"
  shows "(pop_free s ord = None \<and> B ord = {})
    \<or> (\<exists>f s'. f \<in> B ord \<and> pop_free s ord = Some (s', frame_addr f)
        \<and> lists_rep s' (B(ord := B ord - {f})) \<and> lists_only s s')"
proof -
  obtain fs where fs: "set fs = B ord" "list_rep s ord fs" by (rule list_repE [OF l o])
  have len: "length (ba_free_lists s) = NUM_ORDERS" using l by (simp add: lists_rep_def)
  show ?thesis
  proof (cases fs)
    case Nil
    with fs show ?thesis by (auto simp: list_rep_def pop_free_def)
  next
    case (Cons f rest)
    let ?s = "s\<lparr>ba_free_lists := (ba_free_lists s)[ord := read_next s (frame_addr f)]\<rparr>"
    have hd: "ba_free_lists s ! ord = Some (frame_addr f)" and tl: "chain (next_of s) None (read_next s (frame_addr f)) (nodes rest)"
      using fs(2) by (auto simp: list_rep_def Cons)
    have nf: "f \<notin> set rest" using chain_distinct [of "next_of s" None _ "nodes fs"] fs(2) by (auto simp: list_rep_def Cons)
    have "\<exists>gs. set gs = (B(ord := B ord - {f})) ord' \<and> list_rep ?s ord' gs" if "ord' \<le> MAX_ORDER" for ord'
    proof (cases "ord' = ord")
      case True
      have "list_rep ?s ord rest" using tl o len by (simp add: list_rep_def NUM_ORDERS_def)
      moreover have "set rest = B ord - {f}" using fs(1) nf by (auto simp: Cons)
      ultimately show ?thesis using True by auto
    next
      case False
      then show ?thesis by (intro list_rep_others [OF l that]) simp_all
    qed
    then have "lists_rep ?s (B(ord := B ord - {f}))" using len by (simp add: lists_rep_def)
    moreover have "f \<in> B ord" using fs(1) by (auto simp: Cons)
    ultimately show ?thesis by (auto simp: pop_free_def hd lists_only_def)
  qed
qed

definition unlink :: "BuddyAllocator \<Rightarrow> nat \<Rightarrow> u64 option \<Rightarrow> u64 option \<Rightarrow> BuddyAllocator" where
  "unlink s ord prev next = (case prev of Some q \<Rightarrow> write_next s q next
     | None \<Rightarrow> s\<lparr>ba_free_lists := (ba_free_lists s)[ord := next]\<rparr>)"

lemma remove_loop_at:
  assumes "chain (next_of s) None cur (nodes (xs @ f # ys))" and "f \<notin> set xs"
    and "\<And>g. g \<in> set (f # xs) \<Longrightarrow> g < 2 ^ 52"
  shows "remove_loop s (frame_addr f) ord prev cur
    = Some (unlink s ord (if xs = [] then prev else Some (frame_addr (last xs))) (read_next s (frame_addr f)), True)"
  using assms
proof (induction xs arbitrary: prev cur)
  case Nil
  then show ?case by (subst remove_loop.simps) (simp add: unlink_def Let_def)
next
  case (Cons x xs)
  have ne: "frame_addr x \<noteq> frame_addr f" using Cons.prems(2,3) frame_addr_inj [of x f] by auto
  have c: "cur = Some (frame_addr x)" "chain (next_of s) None (read_next s (frame_addr x)) (nodes (xs @ f # ys))"
    using Cons.prems(1) by auto
  have "remove_loop s (frame_addr f) ord (Some (frame_addr x)) (read_next s (frame_addr x)) = Some (unlink s ord
      (if xs = [] then Some (frame_addr x) else Some (frame_addr (last xs))) (read_next s (frame_addr f)), True)"
    by (rule Cons.IH [OF c(2)]) (use Cons.prems(2,3) in auto)
  then show ?case using ne by (subst remove_loop.simps) (auto simp: c(1))
qed

lemma remove_spec:
  assumes g: "geometry s" "frames_in s B" and l: "lists_rep s B" and o: "ord \<le> MAX_ORDER" and f: "f \<in> B ord"
    and d: "blocks_ok MAX_ORDER B"
  shows "\<exists>s'. remove_from_free_list s (frame_addr f) ord = Some (s', True)
    \<and> lists_rep s' (B(ord := B ord - {f})) \<and> lists_only s s'"
proof -
  obtain fs where fs: "set fs = B ord" "list_rep s ord fs" by (rule list_repE [OF l o])
  have len: "length (ba_free_lists s) = NUM_ORDERS" using l by (simp add: lists_rep_def)
  obtain xs ys where sp: "fs = xs @ f # ys" "f \<notin> set xs" using f fs(1) by (metis split_list_first)
  have small: "h < 2 ^ 52" if "ord' \<le> MAX_ORDER" "h \<in> B ord'" for ord' h using frames_small(1) [OF g that] .
  have c: "chain (next_of s) None (ba_free_lists s ! ord) (nodes (xs @ f # ys))" using fs(2) by (simp add: list_rep_def sp)
  have nf: "f \<notin> set ys" using chain_distinct [OF c] by auto
  have st: "set (xs @ ys) = B ord - {f}" using fs(1) sp nf by auto
  define s' where "s' = unlink s ord (if xs = [] then None else Some (frame_addr (last xs))) (read_next s (frame_addr f))"
  have r: "remove_from_free_list s (frame_addr f) ord = Some (s', True)"
    unfolding remove_from_free_list_def s'_def
    by (rule remove_loop_at [OF c sp(2)]) (use small [OF o] fs(1) sp in auto)
  have only: "lists_only s s'" by (simp add: s'_def unlink_def lists_only_def write_next_def)
  have "lists_rep s' (B(ord := B ord - {f}))"
  proof (cases "xs = []")
    case True
    have s': "s' = s\<lparr>ba_free_lists := (ba_free_lists s)[ord := read_next s (frame_addr f)]\<rparr>"
      using True by (simp add: s'_def unlink_def)
    have "list_rep s' ord ys" using c o len True by (simp add: list_rep_def s' NUM_ORDERS_def)
    then show ?thesis
      unfolding lists_rep_def using len st True list_rep_others [OF l, of _ ord s'] by (auto simp: s')
  next
    case False
    then obtain zs q where xs: "xs = zs @ [q]" by (metis rev_exhaust)
    have s': "s' = write_next s (frame_addr q) (next_of s (Some (frame_addr f)))"
      by (simp add: s'_def unlink_def xs)
    have nx: "next_of s' = (next_of s)(Some (frame_addr q) := next_of s (Some (frame_addr f)))"
      unfolding s' by (rule next_of_write [OF next_of_nonzero])
    have fl: "ba_free_lists s' = ba_free_lists s" by (simp add: s' write_next_def)
    have qB: "q \<in> B ord" using fs(1) sp xs by auto
    have "\<exists>gs. set gs = (B(ord := B ord - {f})) ord' \<and> list_rep s' ord' gs" if o': "ord' \<le> MAX_ORDER" for ord'
    proof (cases "ord' = ord")
      case True
      have "list_rep s' ord (xs @ ys)"
        using chain_unlink [of "next_of s" None "ba_free_lists s ! ord" "nodes zs" "Some (frame_addr q)" "Some (frame_addr f)" "nodes ys"] c
        by (simp add: list_rep_def nx fl xs)
      with st True show ?thesis by (intro exI [of _ "xs @ ys"]) simp
    next
      case False
      obtain gs where gs: "set gs = B ord'" "list_rep s ord' gs" by (rule list_repE [OF l o'])
      have "q \<notin> B ord'" using blocks_okD(2) [OF d o qB o'] False block_start by blast
      then have "Some (frame_addr q) \<notin> set (nodes gs)" using node_notin [of q gs] small qB gs(1) o o' by metis
      with gs False show ?thesis by (intro exI [of _ gs]) (simp add: list_rep_def nx fl)
    qed
    with len show ?thesis by (simp add: lists_rep_def fl)
  qed
  with r only show ?thesis by blast
qed

end
