(* ===== verification/Buddy_Alloc.thy ===== *)
theory Buddy_Alloc
  imports Buddy_Lists
begin

text \<open>Allocation and freeing against the set of free frames.\<close>

abbreviation free_frames :: "(nat \<Rightarrow> nat set) \<Rightarrow> nat set" where
  "free_frames B \<equiv> free_of MAX_ORDER B"

definition block_in :: "BuddyAllocator \<Rightarrow> nat \<Rightarrow> nat \<Rightarrow> bool" where
  "block_in s ord f \<longleftrightarrow> 0 < f \<and> unat (ba_base_frame s) \<le> f
     \<and> f + 2 ^ ord \<le> unat (ba_base_frame s) + unat (ba_num_frames s) \<and> 2 ^ ord dvd f"

text \<open>The extent of memory managed does not change.\<close>

definition same_range :: "BuddyAllocator \<Rightarrow> BuddyAllocator \<Rightarrow> bool" where
  "same_range s s' \<longleftrightarrow> ba_base_frame s' = ba_base_frame s \<and> ba_num_frames s' = ba_num_frames s"

lemma same_range_block: "same_range s s' \<Longrightarrow> block_in s' ord f = block_in s ord f"
  by (simp add: same_range_def block_in_def)

lemma same_range_trans: "same_range s s' \<Longrightarrow> same_range s' s'' \<Longrightarrow> same_range s s''"
  by (simp add: same_range_def)

lemma buddy_invD:
  assumes "buddy_inv s B"
  shows "geometry s" "frames_in s B" "lists_rep s B" "bits_rep s B" "blocks_ok MAX_ORDER B"
  using assms by (simp_all add: buddy_inv_def)

lemma block_in_small:
  assumes "geometry s" and "block_in s ord f"
  shows "f < 2 ^ 52" and "in_frames s f"
proof -
  have "f < f + 2 ^ ord" by simp
  with assms(2) geometryD(2) [OF assms(1)] show "f < 2 ^ 52" "in_frames s f"
    unfolding block_in_def in_frames_def by linarith+
qed

lemma inv_block_in: "buddy_inv s B \<Longrightarrow> ord \<le> MAX_ORDER \<Longrightarrow> f \<in> B ord \<Longrightarrow> block_in s ord f"
  using blocks_okD(1) [OF buddy_invD(5)] buddy_invD(2) by (auto simp: block_in_def frames_in_def)

lemma block_not_free: "block ord f \<inter> free_frames B = {} \<Longrightarrow> ord' \<le> MAX_ORDER \<Longrightarrow> f \<notin> B ord'"
  using block_free [of ord' MAX_ORDER f B] block_start [of f] by blast

section \<open>One step down and up\<close>

text \<open>Taking a block off its list and flipping its pair's bit.\<close>

lemma take_spec:
  assumes inv: "buddy_inv s B" and o: "ord \<le> MAX_ORDER" and f: "f \<in> B ord"
    and s1: "lists_rep s1 (B(ord := B ord - {f}))" "lists_only s s1"
  shows "\<exists>s2 b. toggle_coalesce_bit s1 (of_nat f) ord = Some (s2, b) \<and> buddy_inv s2 (B(ord := B ord - {f}))
    \<and> same_range s s2"
proof -
  note d = buddy_invD [OF inv] and k = lists_only_fields [OF s1(2)]
  have g1: "geometry s1" "bits_rep s1 B" using d k by simp_all
  have f1: "in_frames s1 f" "2 ^ ord dvd f"
    using block_in_small(2) [OF d(1) inv_block_in [OF inv o f]] blocks_okD(1) [OF d(5) o f] k(4,5) by (simp_all add: in_frames_def)
  have fl: "flip f (B ord) = B ord - {f}" using f by (simp add: flip_def)
  from toggle_spec [OF g1 o f1, of f] obtain ws where
    t: "toggle_coalesce_bit s1 (of_nat f) ord = Some (s1\<lparr>ba_coalesce := ws\<rparr>,
        of_bool ((f \<in> B ord - {f}) \<noteq> (buddy ord f \<in> B ord - {f})))"
      "length ws = length (ba_coalesce s1)" "bits_rep (s1\<lparr>ba_coalesce := ws\<rparr>) (B(ord := B ord - {f}))"
    unfolding fl by auto
  have "buddy_inv (s1\<lparr>ba_coalesce := ws\<rparr>) (B(ord := B ord - {f}))"
    unfolding buddy_inv_def coalesce_fields(1,2) coalesce_fields(3) [OF t(2)]
    using g1 s1(1) t(3) blocks_ok_remove [OF d(5)] d(2) k(3) by (auto simp: frames_in_def split: if_splits)
  moreover have "same_range s (s1\<lparr>ba_coalesce := ws\<rparr>)" using k(4,5) by (simp add: same_range_def)
  ultimately show ?thesis using t(1) by blast
qed

text \<open>Putting a block on its list with its pair's bit flipped.\<close>

lemma put_spec:
  assumes inv: "buddy_inv s B" and o: "ord \<le> MAX_ORDER" and f: "block_in s ord f" "block ord f \<inter> free_frames B = {}"
    and nb: "ord < MAX_ORDER \<Longrightarrow> buddy ord f \<notin> B ord"
    and s2: "lists_rep s2 (B(ord := insert f (B ord)))" "bits_rep s2 (B(ord := insert f (B ord)))" "geometry s2" "same_range s s2"
  shows "buddy_inv s2 (B(ord := insert f (B ord)))"
proof -
  note d = buddy_invD [OF inv]
  have "blocks_ok MAX_ORDER (B(ord := insert f (B ord)))"
    by (rule blocks_ok_insert [OF d(5) o _ f(2) nb]) (use f(1) in \<open>auto simp: block_in_def\<close>)
  moreover have "frames_in s2 (B(ord := insert f (B ord)))"
    using d(2) f(1) s2(4) by (auto simp: frames_in_def block_in_def same_range_def split: if_splits)
  ultimately show ?thesis using s2 by (simp add: buddy_inv_def)
qed

section \<open>Allocation\<close>

definition alloc_post :: "BuddyAllocator \<Rightarrow> (nat \<Rightarrow> nat set) \<Rightarrow> nat \<Rightarrow> BuddyAllocator \<Rightarrow> u64 option \<Rightarrow> bool" where
  "alloc_post s B ord s' r \<longleftrightarrow> (case r of
      None \<Rightarrow> s' = s \<and> (\<forall>ord'. ord \<le> ord' \<and> ord' \<le> MAX_ORDER \<longrightarrow> B ord' = {})
    | Some a \<Rightarrow> (\<exists>f B'. a = frame_addr f \<and> buddy_inv s' B' \<and> same_range s s' \<and> block_in s ord f
        \<and> block ord f \<subseteq> free_frames B \<and> free_frames B' = free_frames B - block ord f))"

lemma alloc_pop:
  assumes inv: "buddy_inv s B" and o: "ord \<le> MAX_ORDER" and pop: "pop_free s ord \<noteq> None"
  shows "\<exists>s' r. BuddyAllocator_alloc s ord = Some (s', Some r) \<and> alloc_post s B ord s' (Some r)"
proof -
  note d = buddy_invD [OF inv]
  from pop_spec [OF d(3) o] pop obtain f s1 where
    p: "f \<in> B ord" "pop_free s ord = Some (s1, frame_addr f)" "lists_rep s1 (B(ord := B ord - {f}))" "lists_only s s1" by auto
  from take_spec [OF inv o p(1,3,4)] obtain s2 b where
    t: "toggle_coalesce_bit s1 (of_nat f) ord = Some (s2, b)" "buddy_inv s2 (B(ord := B ord - {f}))" "same_range s s2" by blast
  have f: "f < 2 ^ 52" "block_in s ord f" using inv_block_in [OF inv o p(1)] block_in_small(1) [OF d(1)] by auto
  have "BuddyAllocator_alloc s ord = Some (s2, Some (frame_addr f))"
    using o by (subst BuddyAllocator_alloc.simps) (simp add: p(2) f(1) [simplified] t(1))
  moreover have "alloc_post s B ord s2 (Some (frame_addr f))"
    using t(2,3) f(2) free_of_remove [OF d(5) o p(1)] block_free [of ord MAX_ORDER f B, OF o p(1)] by (auto simp: alloc_post_def)
  ultimately show ?thesis by blast
qed

lemma split_spec:
  assumes inv: "buddy_inv s B" and o: "ord < MAX_ORDER" and f: "block_in s (ord + 1) f" "block (ord + 1) f \<inter> free_frames B = {}"
  defines "u \<equiv> f + 2 ^ ord"
  shows "\<exists>s2 b. toggle_coalesce_bit (push_free s (frame_addr u) ord) (of_nat u) ord = Some (s2, b)
    \<and> buddy_inv s2 (B(ord := insert u (B ord))) \<and> same_range s s2 \<and> u < 2 ^ 52"
proof -
  note d = buddy_invD [OF inv]
  have al: "2 ^ (ord + 1) dvd f" "2 ^ ord dvd f" "2 ^ ord dvd u"
    using f(1) by (auto simp: block_in_def u_def intro: dvd_trans [OF le_imp_power_dvd, of ord "Suc ord"])
  have u: "block_in s ord u" using f(1) al by (auto simp: block_in_def u_def)
  have bu: "buddy ord u = f"
  proof -
    have "even (f div 2 ^ ord)" using al(1) by (auto elim!: dvdE)
    then have "buddy ord f = u" by (simp add: buddy_def u_def)
    with buddy_parent(3) [OF al(2)] show ?thesis by simp
  qed
  have sub: "block ord u \<subseteq> block (ord + 1) f" "block ord f \<subseteq> block (ord + 1) f" by (auto simp: block_def u_def)
  have dis: "block ord u \<inter> free_frames B = {}" "block ord f \<inter> free_frames B = {}" using f(2) sub by blast+
  have nu: "u \<notin> B ord" "f \<notin> B ord" using block_not_free [OF dis(1)] block_not_free [OF dis(2)] o by auto
  note sm = block_in_small [OF d(1) u]
  have o': "ord \<le> MAX_ORDER" using o by simp
  have u0: "0 < u" using u by (simp add: block_in_def)
  let ?s1 = "push_free s (frame_addr u) ord"
  note p = push_spec [OF d(1,2,3) o' u0 sm(1) block_not_free [OF dis(1)]]
  note k = lists_only_fields [OF p(2)]
  have fl: "flip u (B ord) = insert u (B ord)" using nu by (simp add: flip_def)
  have g1: "geometry ?s1" "bits_rep ?s1 B" "in_frames ?s1 u" using d k sm(2) by (simp_all add: in_frames_def)
  from toggle_spec [OF g1(1,2) o' g1(3) al(3), of u] obtain ws b where
    t: "toggle_coalesce_bit ?s1 (of_nat u) ord = Some (?s1\<lparr>ba_coalesce := ws\<rparr>, b)"
      "length ws = length (ba_coalesce ?s1)" "bits_rep (?s1\<lparr>ba_coalesce := ws\<rparr>) (B(ord := insert u (B ord)))"
    unfolding fl by auto
  have sr: "same_range s (?s1\<lparr>ba_coalesce := ws\<rparr>)" using k(4,5) by (simp add: same_range_def)
  have "buddy_inv (?s1\<lparr>ba_coalesce := ws\<rparr>) (B(ord := insert u (B ord)))"
    by (rule put_spec [OF inv o' u dis(1)])
      (use nu(2) bu p(1) t(3) sr g1(1) coalesce_fields(1) coalesce_fields(3) [OF t(2)] in auto)
  with t(1) sr sm(1) show ?thesis by blast
qed

lemma alloc_spec:
  assumes "buddy_inv s B" and "ord \<le> MAX_ORDER"
  shows "\<exists>s' r. BuddyAllocator_alloc s ord = Some (s', r) \<and> alloc_post s B ord s' r"
  using assms
proof (induction "MAX_ORDER - ord" arbitrary: ord rule: less_induct)
  case less
  note inv = less.prems(1) and o = less.prems(2)
  show ?case
  proof (cases "pop_free s ord = None")
    case False
    with alloc_pop [OF inv o] show ?thesis by blast
  next
    case True
    then have e: "B ord = {}" using pop_spec [OF buddy_invD(3) [OF inv] o] by auto
    show ?thesis
    proof (cases "ord = MAX_ORDER")
      case m: True
      have "BuddyAllocator_alloc s ord = Some (s, None)" by (subst BuddyAllocator_alloc.simps) (use True m in simp)
      with e m show ?thesis by (auto simp: alloc_post_def)
    next
      case False
      then have o1: "ord < MAX_ORDER" using o by simp
      have lt: "MAX_ORDER - (ord + 1) < MAX_ORDER - ord" using o1 by simp
      from less.hyps [OF lt inv] o1 obtain s1 r where
        r: "BuddyAllocator_alloc s (ord + 1) = Some (s1, r)" "alloc_post s B (ord + 1) s1 r" by auto
      show ?thesis
      proof (cases r)
        case None
        have "BuddyAllocator_alloc s ord = Some (s1, None)"
          using o1 by (subst BuddyAllocator_alloc.simps) (simp add: True r(1) [simplified] None)
        moreover have "alloc_post s B ord s1 None"
          using r(2) e by (auto simp: alloc_post_def None) (metis Suc_leI empty_iff le_neq_implies_less)
        ultimately show ?thesis by blast
      next
        case (Some a)
        from r(2) obtain f B1 where f: "a = frame_addr f" "buddy_inv s1 B1" "same_range s s1" "block_in s (ord + 1) f"
          "block (ord + 1) f \<subseteq> free_frames B" "free_frames B1 = free_frames B - block (ord + 1) f"
          by (auto simp: alloc_post_def Some)
        have b1: "block_in s1 (ord + 1) f" using f(3,4) same_range_block by simp
        have "block (ord + 1) f \<inter> free_frames B1 = {}" using f(6) by blast
        from split_spec [OF f(2) o1 b1 this] obtain s2 b where
          t: "toggle_coalesce_bit (push_free s1 (frame_addr (f + 2 ^ ord)) ord) (of_nat (f + 2 ^ ord)) ord = Some (s2, b)"
            "buddy_inv s2 (B1(ord := insert (f + 2 ^ ord) (B1 ord)))" "same_range s1 s2" "f + 2 ^ ord < 2 ^ 52" by blast
        have "BuddyAllocator_alloc s ord = Some (s2, Some (frame_addr f))"
          using o1 by (subst BuddyAllocator_alloc.simps)
            (simp add: True r(1) [simplified] Some f(1) frame_addr_upper Let_def frame_of_addr [OF t(4)] t(1) del: of_nat_add)
        moreover note res = calculation
        moreover have "block (ord + 1) f = block ord f \<union> block ord (f + 2 ^ ord)"
          "block ord f \<inter> block ord (f + 2 ^ ord) = {}" by (auto simp: block_def)
        moreover have "block_in s ord f" using f(4)
          by (auto simp: block_in_def intro: dvd_trans [OF le_imp_power_dvd, of ord "Suc ord"])
        moreover have "free_frames (B1(ord := insert (f + 2 ^ ord) (B1 ord))) = free_frames B1 \<union> block ord (f + 2 ^ ord)"
          by (rule free_of_insert [OF o])
        moreover note same_range_trans [OF f(3) t(3)]
        ultimately have "alloc_post s B ord s2 (Some (frame_addr f))"
          unfolding alloc_post_def using t(2) f(5,6) by (auto intro!: exI [of _ f] exI [of _ "B1(ord := insert (f + 2 ^ ord) (B1 ord))"])
        with res show ?thesis by blast
      qed
    qed
  qed
qed

section \<open>Freeing\<close>

lemma buddy_in:
  assumes "geometry s" and "ord < MAX_ORDER" and "block_in s ord f" and "block_in s ord (buddy ord f)"
  shows "block_in s (ord + 1) (parent ord f)"
proof -
  have d: "2 ^ ord dvd f" using assms(3) by (simp add: block_in_def)
  have "parent ord f = f \<and> buddy ord f = f + 2 ^ ord \<or> parent ord f = buddy ord f \<and> f = buddy ord f + 2 ^ ord"
    using odd_div_le [of f ord] by (auto simp: parent_def buddy_def)
  with assms(3,4) buddy_parent(4) [OF d] show ?thesis by (auto simp: block_in_def)
qed

lemma free_frame_spec:
  assumes "buddy_inv s B" and "ord \<le> MAX_ORDER" and "block_in s ord f" and "block ord f \<inter> free_frames B = {}"
  shows "\<exists>s' B'. free_frame s (frame_addr f) ord = Some s' \<and> buddy_inv s' B' \<and> same_range s s'
    \<and> free_frames B' = free_frames B \<union> block ord f"
  using assms
proof (induction "MAX_ORDER - ord" arbitrary: s B ord f rule: less_induct)
  case less
  note inv = less.prems(1) and o = less.prems(2) and f = less.prems(3,4)
  note d = buddy_invD [OF inv] and sm = block_in_small [OF buddy_invD(1) [OF inv] f(1)]
  let ?g = "buddy ord f"
  have al: "2 ^ ord dvd f" using f(1) by (simp add: block_in_def)
  have nf: "f \<notin> B ord" using block_not_free [OF f(2) o] .
  have o64: "ord < 64" using o by (simp add: MAX_ORDER_def)
  show ?case
  proof (cases "ord < MAX_ORDER \<and> ?g \<in> B ord")
    case False
    have fl: "flip f (B ord) = insert f (B ord)" using nf by (simp add: flip_def)
    from toggle_spec [OF d(1,4) o sm(2) al, of f] obtain ws where
      t: "toggle_coalesce_bit s (of_nat f) ord = Some (s\<lparr>ba_coalesce := ws\<rparr>, of_bool (?g \<notin> B ord))"
        "length ws = length (ba_coalesce s)" "bits_rep (s\<lparr>ba_coalesce := ws\<rparr>) (B(ord := insert f (B ord)))"
      unfolding fl using buddy_parent(2) [OF al] by auto
    let ?s1 = "s\<lparr>ba_coalesce := ws\<rparr>"
    have g1: "geometry ?s1" "frames_in ?s1 B" "lists_rep ?s1 B"
      using d coalesce_fields(1,2) coalesce_fields(3) [OF t(2)] by auto
    have f0: "0 < f" using f(1) by (simp add: block_in_def)
    note p = push_spec [OF g1 o f0 sm(1) block_not_free [OF f(2)]]
    note k = lists_only_fields [OF p(2)]
    let ?s2 = "push_free ?s1 (frame_addr f) ord"
    have sr: "same_range s ?s2" using k(4,5) by (simp add: same_range_def)
    have "buddy_inv ?s2 (B(ord := insert f (B ord)))"
      by (rule put_spec [OF inv o f]) (use False p(1) k(1,2) t(3) g1(1) sr in auto)
    moreover have "free_frame s (frame_addr f) ord = Some ?s2"
      using False o sm(1) t(1) by (subst free_frame.simps) (auto simp: Let_def)
    ultimately show ?thesis using sr free_of_insert [OF o] by blast
  next
    case True
    then have o1: "ord < MAX_ORDER" and g: "?g \<in> B ord" by auto
    have fl: "flip ?g (B ord) = B ord - {?g}" using g by (simp add: flip_def)
    from toggle_spec [OF d(1,4) o sm(2) al, of ?g] obtain ws where
      t: "toggle_coalesce_bit s (of_nat f) ord = Some (s\<lparr>ba_coalesce := ws\<rparr>, 0)"
        "length ws = length (ba_coalesce s)" "bits_rep (s\<lparr>ba_coalesce := ws\<rparr>) (B(ord := B ord - {?g}))"
      unfolding fl using nf by auto
    let ?s1 = "s\<lparr>ba_coalesce := ws\<rparr>" and ?B1 = "B(ord := B ord - {?g})"
    have g1: "geometry ?s1" "frames_in ?s1 B" "lists_rep ?s1 B"
      using d coalesce_fields(1,2) coalesce_fields(3) [OF t(2)] by auto
    from remove_spec [OF g1 o g d(5)] obtain s2 where
      r: "remove_from_free_list ?s1 (frame_addr ?g) ord = Some (s2, True)" "lists_rep s2 ?B1" "lists_only ?s1 s2" by blast
    note k = lists_only_fields [OF r(3)]
    have inv2: "buddy_inv s2 ?B1" unfolding buddy_inv_def
      using k g1 r(2) t(3) blocks_ok_remove [OF d(5)] by (auto simp: frames_in_def split: if_splits)
    have sr: "same_range s s2" using k(4,5) by (simp add: same_range_def)
    have gin: "block_in s ord ?g" by (rule inv_block_in [OF inv o g])
    have pin: "block_in s2 (ord + 1) (parent ord f)"
      using buddy_in [OF d(1) o1 f(1) gin] same_range_block [OF sr] by simp
    note bp = buddy_parent [OF al]
    have fr: "free_frames ?B1 = free_frames B - block ord ?g" by (rule free_of_remove [OF d(5) o g])
    have "block (ord + 1) (parent ord f) \<inter> free_frames ?B1 = {}" using f(2) unfolding bp(5) fr by blast
    moreover have "MAX_ORDER - (ord + 1) < MAX_ORDER - ord" using o1 by simp
    ultimately obtain s3 B3 where
      i: "free_frame s2 (frame_addr (parent ord f)) (ord + 1) = Some s3" "buddy_inv s3 B3" "same_range s2 s3"
        "free_frames B3 = free_frames ?B1 \<union> block (ord + 1) (parent ord f)"
      using less.hyps [OF _ inv2 _ pin] o1 by (metis Suc_eq_plus1 Suc_leI)
    have "free_frame s (frame_addr f) ord = Some s3"
      using o1 sm(1) t(1) r(1) i(1)
      by (subst free_frame.simps) (simp add: Let_def word_buddy [OF o64, simplified] word_parent [OF o64, simplified] addr_of_frame)
    moreover have "free_frames B3 = free_frames B \<union> block ord f"
      using block_free [of ord MAX_ORDER ?g B, OF o g] bp(6) f(2) unfolding i(4) fr bp(5) by blast
    ultimately show ?thesis using i(2) same_range_trans [OF sr i(3)] by blast
  qed
qed

lemma free_spec:
  assumes "buddy_inv s B" and "ord \<le> MAX_ORDER" and "block_in s ord f" and "block ord f \<inter> free_frames B = {}"
  shows "\<exists>s' B'. BuddyAllocator_free s (frame_addr f) ord = Some s' \<and> buddy_inv s' B' \<and> same_range s s'
    \<and> free_frames B' = free_frames B \<union> block ord f"
proof -
  note g = buddy_invD(1) [OF assms(1)] and sm = block_in_small [OF buddy_invD(1) [OF assms(1)] assms(3)]
  have "ba_base_frame s \<le> of_nat f" "of_nat f < ba_base_frame s + ba_num_frames s"
  proof -
    have n: "unat (ba_base_frame s + ba_num_frames s) = unat (ba_base_frame s) + unat (ba_num_frames s)"
      using geometryD(2) [OF g] unat_add_lem [of "ba_base_frame s" "ba_num_frames s"] by simp
    show "ba_base_frame s \<le> of_nat f" "of_nat f < ba_base_frame s + ba_num_frames s"
      unfolding word_le_nat_alt word_less_nat_alt n unat_frame [OF sm(1)] using sm(2) by (simp_all add: in_frames_def)
  qed
  with free_frame_spec [OF assms] show ?thesis
    using assms(2) sm(1) frame_addr_aligned by (simp add: BuddyAllocator_free_def)
qed

end
