(* ===== verification/Buddy_Init.thy ===== *)
theory Buddy_Init
  imports Buddy_Alloc
begin

text \<open>
  Building the allocator from the boot loader's memory map: its free frames are exactly the usable
  whole pages above the first mebibyte, less those reserved for the bitmap.
\<close>

section \<open>The pages of a region\<close>

definition first_page :: "MemoryMapEntry \<Rightarrow> nat" where
  "first_page e = (max (unat (mm_base e)) 0x100000 + 4095) div 4096"

definition end_page :: "MemoryMapEntry \<Rightarrow> nat" where
  "end_page e = (unat (mm_base e) + unat (mm_length e)) div 4096"

definition region_frames :: "MemoryMapEntry \<Rightarrow> nat set" where
  "region_frames e = {first_page e..<end_page e}"

text \<open>Regions lie within the 52-bit physical address space.\<close>

definition region_ok :: "MemoryMapEntry \<Rightarrow> bool" where
  "region_ok e \<longleftrightarrow> unat (mm_base e) + unat (mm_length e) \<le> 2 ^ 52"

lemma and_not_mask: "(x :: u64) AND NOT (mask n) = push_bit n (drop_bit n x)"
  by (rule bit_word_eqI) (auto simp: bit_and_iff bit_not_iff bit_mask_iff bit_push_bit_iff bit_drop_bit_eq)

lemma page_floor: "(x :: u64) AND NOT (PAGE_SIZE - 1) = frame_addr (unat x div 4096)"
proof -
  have "PAGE_SIZE - 1 = mask 12" by (simp add: PAGE_SIZE_def mask_eq_exp_minus_1)
  moreover have "drop_bit 12 x = of_nat (unat x div 4096)"
    by (rule word_unat_eq_iff [THEN iffD2])
      (use unat_u64_lt [of x] in \<open>simp add: unat_drop_bit_eq drop_bit_eq_div unat_of_nat_u64 [simplified] unat_div del: of_nat_unat\<close>)
  ultimately show ?thesis unfolding and_not_mask using addr_of_frame by (simp add: and_not_mask PAGE_SHIFT_def)
qed

lemma region_small: "region_ok e \<Longrightarrow> end_page e \<le> 2 ^ 40"
  using div_le_mono [of "unat (mm_base e) + unat (mm_length e)" "2 ^ 52" 4096] by (simp add: region_ok_def end_page_def)

lemma first_page_low: "256 \<le> first_page e"
  using div_le_mono [of "0x100000" "max (unat (mm_base e)) 0x100000 + 4095" 4096] by (simp add: first_page_def)

lemma saturating_add_fits:
  assumes "unat a + unat b \<le> 2 ^ 52"
  shows "unat (saturating_add a b) = unat a + unat b"
proof -
  have "unat (a + b) = unat a + unat b" using assms unat_add_lem [of a b] by simp
  then show ?thesis by (simp add: saturating_add_def word_less_nat_alt)
qed

lemma clip_spec:
  assumes "region_ok e"
  shows "clip_to_managed e = (if end_page e \<le> first_page e then (0, 0) else (frame_addr (first_page e), frame_addr (end_page e)))"
proof -
  let ?hi = "saturating_add (mm_base e) (mm_length e)" and ?raw = "max (mm_base e) LOW_MEMORY_LIMIT"
  have e: "unat ?hi = unat (mm_base e) + unat (mm_length e)" using assms saturating_add_fits by (simp add: region_ok_def)
  have r: "unat ?raw = max (unat (mm_base e)) 0x100000" by (simp add: max_def word_le_nat_alt LOW_MEMORY_LIMIT_def)
  show ?thesis
  proof (cases "?hi \<le> LOW_MEMORY_LIMIT")
    case True
    then have "unat (mm_base e) + unat (mm_length e) \<le> 0x100000" by (simp add: word_le_nat_alt e LOW_MEMORY_LIMIT_def)
    then have "end_page e \<le> 256" using div_le_mono [of "unat (mm_base e) + unat (mm_length e)" "0x100000" 4096] by (simp add: end_page_def)
    with True first_page_low [of e] show ?thesis by (simp add: clip_to_managed_def Let_def)
  next
    case False
    have "unat ?raw \<le> 2 ^ 52" using assms r by (simp add: region_ok_def)
    then have "unat (?raw + 4095) = unat ?raw + 4095" using unat_add_lem [of ?raw 4095] by simp
    then have s: "(?raw + PAGE_SIZE - 1) AND NOT (PAGE_SIZE - 1) = frame_addr (first_page e)"
      unfolding page_floor by (simp add: PAGE_SIZE_def first_page_def r add_diff_eq [symmetric])
    have t: "?hi AND NOT (PAGE_SIZE - 1) = frame_addr (end_page e)" unfolding page_floor end_page_def e ..
    have raw: "first_page e \<le> 2 ^ 40 + 1"
      using div_le_mono [of "max (unat (mm_base e)) 0x100000 + 4095" "2 ^ 52 + 4095" 4096] assms by (simp add: first_page_def region_ok_def)
    have "frame_addr (end_page e) \<le> frame_addr (first_page e) \<longleftrightarrow> end_page e \<le> first_page e"
      using raw region_small [OF assms] by (simp add: word_le_nat_alt unat_frame_addr)
    with False show ?thesis unfolding clip_to_managed_def Let_def s t by simp
  qed
qed

lemma frame_addr_less: "f < 2 ^ 52 \<Longrightarrow> g < 2 ^ 52 \<Longrightarrow> frame_addr f < frame_addr g \<longleftrightarrow> f < g"
  by (simp add: word_less_nat_alt unat_frame_addr)

lemma frame_addr_le: "f < 2 ^ 52 \<Longrightarrow> g < 2 ^ 52 \<Longrightarrow> frame_addr f \<le> frame_addr g \<longleftrightarrow> f \<le> g"
  by (simp add: word_le_nat_alt unat_frame_addr)

section \<open>The range managed\<close>

definition bounds_ok :: "MemoryMapEntry set \<Rightarrow> u64 \<times> u64 \<Rightarrow> bool" where
  "bounds_ok E b \<longleftrightarrow> (\<forall>e\<in>E. region_frames e \<noteq> {} \<longrightarrow> fst b \<le> frame_addr (first_page e) \<and> frame_addr (end_page e) \<le> snd b)
     \<and> (b = (- 1, 0) \<or> (\<exists>e\<in>E. \<exists>e'\<in>E. region_frames e \<noteq> {} \<and> region_frames e' \<noteq> {}
          \<and> b = (frame_addr (first_page e), frame_addr (end_page e'))))"

lemma managed_fold:
  assumes "\<And>e. e \<in> set es \<Longrightarrow> region_ok e" and "bounds_ok E b"
  shows "bounds_ok (E \<union> set es) (fold (\<lambda>e (min_base, max_end).
         let (start, end) = clip_to_managed e in
         if end = 0 then (min_base, max_end)
         else (if start < min_base then start else min_base, if max_end < end then end else max_end)) es b)"
  using assms
proof (induction es arbitrary: E b)
  case Nil
  then show ?case by simp
next
  case (Cons e es)
  let ?s = "frame_addr (first_page e)" and ?t = "frame_addr (end_page e)"
  define b' where "b' = (if region_frames e = {} then b
    else (if ?s < fst b then ?s else fst b, if snd b < ?t then ?t else snd b))"
  have ok: "region_ok e" using Cons.prems(1) by simp
  have t0: "?t \<noteq> 0" if "region_frames e \<noteq> {}"
    using that frame_addr_0 [of "end_page e"] region_small [OF ok] first_page_low [of e] by (auto simp: region_frames_def)
  have "bounds_ok (insert e E) b'"
  proof (cases "region_frames e = {}")
    case True
    then show ?thesis using Cons.prems(2) by (auto simp: bounds_ok_def b'_def)
  next
    case False
    obtain p q where b: "b = (p, q)" by fastforce
    have "?s < - 1 \<or> ?s = - 1" using word_order.not_eq_extremum by metis
    then have "bounds_ok (insert e E) (if ?s < p then ?s else p, if q < ?t then ?t else q)"
      using Cons.prems(2) False t0 unfolding b bounds_ok_def
      by (auto simp: word_neq_0_conv dest: order_less_imp_le intro: order_trans)
    with False show ?thesis by (simp only: b'_def b if_False fst_conv snd_conv)
  qed
  moreover have "(case b of (p, q) \<Rightarrow> let (start, end) = clip_to_managed e in
         if end = 0 then (p, q) else (if start < p then start else p, if q < end then end else q)) = b'"
    using t0 by (auto simp: clip_spec [OF ok] b'_def region_frames_def split: prod.splits)
  ultimately show ?case using Cons.IH [of "insert e E" b'] Cons.prems(1) by simp
qed

lemma managed_spec:
  assumes "\<And>e. e \<in> set (usable mm) \<Longrightarrow> region_ok e"
  shows "bounds_ok (set (usable mm)) (managed_range mm)"
  using managed_fold [of "usable mm" "{}" "(- 1, 0)"] assms by (simp add: managed_range_def bounds_ok_def)

section \<open>The layout of the bitmap\<close>

definition words_of :: "nat \<Rightarrow> nat \<Rightarrow> nat" where
  "words_of n ord = ((n + 2 ^ (ord + 1) - 1) div 2 ^ (ord + 1) + 63) div 64"

definition rows_before :: "nat \<Rightarrow> nat \<Rightarrow> nat" where
  "rows_before n ord = (\<Sum>j<ord. words_of n j)"

lemma ceil_div_parts:
  fixes b q r :: nat
  assumes "r < b"
  shows "(b * q + r + b - 1) div b = (if r = 0 then q else q + 1)"
proof (cases "r = 0")
  case True
  have "b * q \<le> b * q + b - 1" "b * q + b - 1 < b * Suc q" using assms by auto
  then show ?thesis using True by (simp add: div_nat_eqI)
next
  case False
  have "b * (q + 1) \<le> b * q + r + b - 1" "b * q + r + b - 1 < b * Suc (q + 1)" using assms False by auto
  from div_nat_eqI [OF this] False show ?thesis by simp
qed

lemma ceil_div: "0 < b \<Longrightarrow> (a + b - 1) div b = (if a mod b = 0 then a div b else a div b + 1)" for a b :: nat
  using ceil_div_parts [of "a mod b" b "a div b"] by simp

lemma unat_div_ceil_fits:
  assumes "0 < unat b" and lt: "unat a div unat b + 1 < 2 ^ 64"
  shows "unat (div_ceil a b) = (unat a + unat b - 1) div unat b"
proof -
  let ?a = "unat a" and ?b = "unat b"
  have "unat (a div b + 1) = ?a div ?b + 1" using lt unat_add_lem [of "a div b" 1] by (simp add: unat_div)
  then show ?thesis unfolding ceil_div [OF assms(1)] by (simp add: div_ceil_def word_less_nat_alt unat_mod unat_div)
qed

lemma unat_div_ceil:
  assumes "0 < unat b" and "unat a + unat b \<le> 2 ^ 63"
  shows "unat (div_ceil a b) = (unat a + unat b - 1) div unat b"
proof (rule unat_div_ceil_fits [OF assms(1)])
  have "unat a div unat b \<le> unat a" by simp
  then show "unat a div unat b + 1 < 2 ^ 64" using assms by (simp del: div_le_dividend)
qed

lemma row_words_spec:
  assumes "unat n \<le> 2 ^ 40" and "ord \<le> MAX_ORDER"
  shows "row_words n ord = of_nat (words_of (unat n) ord)"
proof (rule word_unat_eq_iff [THEN iffD2])
  let ?e = "(2 :: nat) ^ (ord + 1)"
  have e: "?e \<le> 2 ^ 11" using power_increasing [of "ord + 1" 11 "2 :: nat"] assms(2) by (simp add: MAX_ORDER_def)
  have e0: "0 < ?e" by simp
  have ue: "unat (2 ^ (ord + 1) :: u64) = ?e" using e unat_of_nat_u64 [of ?e] by simp
  have "unat (n + 2 ^ (ord + 1)) = unat n + ?e" using unat_add_lem [of n "2 ^ (ord + 1)"] ue e assms(1) by simp
  moreover have "(1 :: u64) \<le> n + 2 ^ (ord + 1)" using calculation e0 unfolding word_le_nat_alt unsigned_1 by linarith
  ultimately have s: "unat (n + push_bit (ord + 1) 1 - 1) = unat n + ?e - 1" by (simp only: push_bit_one unat_sub unsigned_1)
  let ?p = "(unat n + ?e - 1) div ?e"
  have p: "unat (drop_bit (ord + 1) (n + push_bit (ord + 1) 1 - 1)) = ?p"
    unfolding unat_drop_bit_eq s by (simp add: drop_bit_eq_div)
  have "?p \<le> 2 ^ 40 + 2 ^ 11" using div_le_dividend [of "unat n + ?e - 1" ?e] assms(1) e by linarith
  then have p41: "?p \<le> 2 ^ 41" by (rule order_trans) simp
  have "unat (row_words n ord) = (?p + 64 - 1) div 64"
    unfolding row_words_def using p p41 by (subst unat_div_ceil) simp_all
  moreover have "words_of (unat n) ord = (?p + 63) div 64" by (simp add: words_of_def)
  moreover have "(?p + 63) div 64 < 2 ^ 64" using p41 by (intro order_le_less_trans [OF div_le_dividend]) simp
  ultimately show "unat (row_words n ord) = unat (of_nat (words_of (unat n) ord) :: u64)"
    using unat_of_nat_u64 by (simp add: add.commute)
qed

lemma row_layout_fold:
  assumes "unat n \<le> 2 ^ 40" and "k \<le> NUM_ORDERS"
  shows "fold (\<lambda>ord (row_offsets, total_words). (row_offsets[ord := total_words], total_words + row_words n ord))
       [0..<k] (replicate NUM_ORDERS 0, 0)
    = (map (\<lambda>i. if i < k then of_nat (rows_before (unat n) i) else 0) [0..<NUM_ORDERS], of_nat (rows_before (unat n) k))"
  using assms(2)
proof (induction k)
  case 0
  then show ?case by (simp add: rows_before_def map_replicate_const)
next
  case (Suc k)
  have "(map (\<lambda>i. if i < k then of_nat (rows_before (unat n) i) else 0) [0..<NUM_ORDERS])[k := of_nat (rows_before (unat n) k)]
      = map (\<lambda>i. if i < Suc k then of_nat (rows_before (unat n) i) else (0 :: u64)) [0..<NUM_ORDERS]"
    using Suc.prems by (intro nth_equalityI) (auto simp: nth_list_update)
  moreover have "row_words n k = of_nat (words_of (unat n) k)"
    using Suc.prems by (intro row_words_spec [OF assms(1)]) (simp add: NUM_ORDERS_def)
  ultimately show ?case using Suc by (simp add: rows_before_def)
qed

lemma words_of_le: "n \<le> 2 ^ 40 \<Longrightarrow> words_of n ord \<le> 2 ^ 40 + 1"
proof -
  assume n: "n \<le> 2 ^ 40"
  let ?e = "(2 :: nat) ^ (ord + 1)"
  have "(n + ?e - 1) div ?e \<le> (n * ?e + ?e - 1) div ?e" by (intro div_le_mono diff_le_mono add_le_mono1) simp
  also have "\<dots> = n" using ceil_div_parts [of 0 ?e n] by (simp add: mult.commute)
  finally have "words_of n ord \<le> (n + 63) div 64"
    unfolding words_of_def by (intro div_le_mono) simp
  with n show ?thesis using div_le_dividend [of "n + 63" 64] by linarith
qed

lemma rows_total: "n \<le> 2 ^ 40 \<Longrightarrow> rows_before n NUM_ORDERS \<le> 11 * (2 ^ 40 + 1)"
  using sum_bounded_above [of "{..<NUM_ORDERS}" "words_of n" "2 ^ 40 + 1"] words_of_le [of n]
  by (simp add: rows_before_def NUM_ORDERS_def MAX_ORDER_def)

lemma rows_before_mono: "i \<le> j \<Longrightarrow> rows_before n i \<le> rows_before n j"
  unfolding rows_before_def by (intro sum_mono2) auto

lemma pair_word_in:
  assumes "p * 2 ^ (ord + 1) < n"
  shows "p div 64 < words_of n ord"
proof -
  let ?e = "(2 :: nat) ^ (ord + 1)"
  have "(Suc p * ?e) div ?e \<le> (n + ?e - 1) div ?e" using assms by (intro div_le_mono) simp
  then have "Suc p \<le> (n + ?e - 1) div ?e" by simp
  then have "(p + 64) div 64 \<le> words_of n ord" unfolding words_of_def by (intro div_le_mono) simp
  then show ?thesis by simp
qed

end
