(* ===== verification/Buddy_New.thy ===== *)
theory Buddy_New
  imports Buddy_Init
begin

text \<open>The allocator built from a memory map.\<close>

section \<open>The empty allocator\<close>

definition empty_buddy :: "u64 \<Rightarrow> u64 \<Rightarrow> u64 \<Rightarrow> (u64 \<Rightarrow> u64) \<Rightarrow> BuddyAllocator" where
  "empty_buddy base n hhdm mem =
     \<lparr>ba_free_lists = replicate NUM_ORDERS None, ba_coalesce = replicate (unat (snd (row_layout n))) 0,
      ba_row_offsets = fst (row_layout n), ba_base_frame = base, ba_num_frames = n, ba_hhdm_offset = hhdm, ba_mem = mem\<rparr>"

lemma empty_inv:
  assumes "2 ^ NUM_ORDERS dvd unat base" and "unat base + unat n \<le> 2 ^ 40"
  shows "buddy_inv (empty_buddy base n hhdm mem) (\<lambda>_. {})"
proof -
  let ?s = "empty_buddy base n hhdm mem" and ?R = "rows_before (unat n)"
  have n: "unat n \<le> 2 ^ 40" using assms(2) by simp
  have lay: "row_layout n = (map (\<lambda>i. of_nat (?R i)) [0..<NUM_ORDERS], of_nat (?R NUM_ORDERS))"
    using row_layout_fold [OF n order_refl] by (simp add: row_layout_def)
  have tot: "?R NUM_ORDERS < 2 ^ 64" using rows_total [OF n] by simp
  have row: "row ?s ord = ?R ord" if "ord \<le> MAX_ORDER" for ord
  proof -
    have "ord < NUM_ORDERS" using that by (simp add: NUM_ORDERS_def)
    then show ?thesis using rows_before_mono [of ord NUM_ORDERS "unat n"] tot
      by (simp add: empty_buddy_def lay unat_of_nat_u64 del: unat_of_nat)
  qed
  have len: "length (ba_coalesce ?s) = ?R NUM_ORDERS"
    using tot by (simp add: empty_buddy_def lay unat_of_nat_u64 del: unat_of_nat)
  have up: "row ?s ord + p div 64 < ?R (Suc ord)" if "pair_in ?s ord p" for ord p
    using that pair_word_in [of p ord "unat n"] row [of ord] by (simp add: pair_in_def empty_buddy_def rows_before_def)
  have g: "geometry ?s"
    unfolding geometry_def
  proof (intro conjI allI impI)
    show "2 ^ NUM_ORDERS dvd unat (ba_base_frame ?s)" using assms(1) by (simp add: empty_buddy_def)
    show "unat (ba_base_frame ?s) + unat (ba_num_frames ?s) \<le> 2 ^ 52" using assms(2) by (simp add: empty_buddy_def)
    show "length (ba_coalesce ?s) < 2 ^ 64" using tot len by simp
    show "row ?s ord + p div 64 < length (ba_coalesce ?s)" if "pair_in ?s ord p" for ord p
      unfolding len using up [OF that] rows_before_mono [of "Suc ord" NUM_ORDERS "unat n"] that
      by (simp add: pair_in_def NUM_ORDERS_def)
    show "ord = ord'" if p: "pair_in ?s ord p" "pair_in ?s ord' p'" and e: "row ?s ord + p div 64 = row ?s ord' + p' div 64"
      for ord p ord' p'
    proof (rule ccontr)
      assume "ord \<noteq> ord'"
      then consider "Suc ord \<le> ord'" | "Suc ord' \<le> ord" by linarith
      then show False
        using up [OF p(1)] up [OF p(2)] e row [of ord] row [of ord'] p rows_before_mono [of "Suc ord" ord' "unat n"]
          rows_before_mono [of "Suc ord'" ord "unat n"] by cases (simp_all add: pair_in_def)
    qed
  qed
  have "pair_bit ?s ord p = False" if "pair_in ?s ord p" for ord p
    using geometryD(4) [OF g that] by (simp add: pair_bit_def empty_buddy_def)
  then have "bits_rep ?s (\<lambda>_. {})" by (simp add: bits_rep_def)
  moreover have "lists_rep ?s (\<lambda>_. {})"
  proof -
    have "ba_free_lists ?s ! ord = None" if "ord < NUM_ORDERS" for ord using that by (simp add: empty_buddy_def)
    then show ?thesis by (auto simp: lists_rep_def list_rep_def empty_buddy_def NUM_ORDERS_def)
  qed
  ultimately show ?thesis using g by (simp add: buddy_inv_def frames_in_def blocks_ok_def)
qed

section \<open>Feeding the pages\<close>

lemma block_0: "block 0 f = {f}"
  by (auto simp: block_def)

lemma feed_pages_spec:
  assumes "buddy_inv s B" and "n \<le> m" and "\<And>f. n \<le> f \<Longrightarrow> f < m \<Longrightarrow> block_in s 0 f" and "m < 2 ^ 51"
    and "{n..<m} \<inter> free_frames B = {}" and "b0 < 2 ^ 51" and "b1 < 2 ^ 51"
  shows "\<exists>s' B'. feed_pages s (frame_addr n) (frame_addr m) (frame_addr b0) (frame_addr b1) = Some s'
    \<and> buddy_inv s' B' \<and> same_range s s' \<and> free_frames B' = free_frames B \<union> ({n..<m} - {b0..<b1})"
  using assms(1-3,5)
proof (induction "m - n" arbitrary: s B n)
  case 0
  then have "feed_pages s (frame_addr n) (frame_addr m) (frame_addr b0) (frame_addr b1) = Some s"
    by (subst feed_pages.simps) simp
  with 0 show ?case by (auto simp: same_range_def)
next
  case (Suc k)
  have lt: "n < m" "n < 2 ^ 52" using Suc.hyps(2) assms(4) by auto
  have cmp: "frame_addr n < frame_addr m" "frame_addr b0 \<le> frame_addr n \<longleftrightarrow> b0 \<le> n" "frame_addr n < frame_addr b1 \<longleftrightarrow> n < b1"
    using lt assms(4,6,7) frame_addr_less frame_addr_le by auto
  have nx: "frame_addr n + PAGE_SIZE = frame_addr (n + 1)" using frame_addr_upper [of n 0] by simp
  define step where "step = (if b0 \<le> n \<and> n < b1 then Some s else free_frame s (frame_addr n) 0)"
  have "\<exists>s1 B1. step = Some s1 \<and> buddy_inv s1 B1 \<and> same_range s s1 \<and> free_frames B1 = free_frames B \<union> ({n} - {b0..<b1})"
  proof (cases "b0 \<le> n \<and> n < b1")
    case True
    with Suc.prems(1) show ?thesis by (auto simp: step_def same_range_def)
  next
    case False
    have "block 0 n \<inter> free_frames B = {}" using Suc.prems(4) lt by (auto simp: block_0)
    moreover have "{n} - {b0..<b1} = {n}" using False by auto
    moreover note free_frame_spec [OF Suc.prems(1) _ Suc.prems(3) [OF order_refl lt(1)]]
    ultimately show ?thesis using False by (auto simp: step_def block_0)
  qed
  then obtain s1 B1 where s1: "step = Some s1" "buddy_inv s1 B1" "same_range s s1"
    "free_frames B1 = free_frames B \<union> ({n} - {b0..<b1})" by blast
  have "\<exists>s' B'. feed_pages s1 (frame_addr (n + 1)) (frame_addr m) (frame_addr b0) (frame_addr b1) = Some s'
    \<and> buddy_inv s' B' \<and> same_range s1 s' \<and> free_frames B' = free_frames B1 \<union> ({n + 1..<m} - {b0..<b1})"
  proof (rule Suc.hyps(1) [OF _ s1(2)])
    show "k = m - (n + 1)" "n + 1 \<le> m" using Suc.hyps(2) lt by simp_all
    show "block_in s1 0 f" if "n + 1 \<le> f" "f < m" for f using Suc.prems(3) [of f] that same_range_block [OF s1(3)] by simp
    show "{n + 1..<m} \<inter> free_frames B1 = {}" using Suc.prems(4) unfolding s1(4) by (auto simp: disjoint_iff)
  qed
  then obtain s2 B2 where s2: "feed_pages s1 (frame_addr (n + 1)) (frame_addr m) (frame_addr b0) (frame_addr b1) = Some s2"
    "buddy_inv s2 B2" "same_range s1 s2" "free_frames B2 = free_frames B1 \<union> ({n + 1..<m} - {b0..<b1})" by blast
  have "feed_pages s (frame_addr n) (frame_addr m) (frame_addr b0) (frame_addr b1) = Some s2"
    using cmp s1(1) s2(1) unfolding step_def by (subst feed_pages.simps) (simp add: nx)
  moreover have "free_frames B2 = free_frames B \<union> ({n..<m} - {b0..<b1})" unfolding s2(4) s1(4) using lt by auto
  ultimately show ?case using s2(2) same_range_trans [OF s1(3) s2(3)] by blast
qed

primrec regions_disjoint :: "MemoryMapEntry list \<Rightarrow> bool" where
  "regions_disjoint [] \<longleftrightarrow> True"
| "regions_disjoint (e # es) \<longleftrightarrow> list_all (\<lambda>e'. region_frames e \<inter> region_frames e' = {}) es \<and> regions_disjoint es"

definition all_frames :: "MemoryMapEntry list \<Rightarrow> nat set" where
  "all_frames es = (\<Union>e\<in>set es. region_frames e)"

lemma feed_regions_spec:
  assumes "buddy_inv s B" and "list_all region_ok es" and "regions_disjoint es" and "all_frames es \<inter> free_frames B = {}"
    and "\<And>f. f \<in> all_frames es \<Longrightarrow> block_in s 0 f" and "b0 < 2 ^ 51" and "b1 < 2 ^ 51"
  shows "\<exists>s' B'. feed_regions s es (frame_addr b0) (frame_addr b1) = Some s'
    \<and> buddy_inv s' B' \<and> free_frames B' = free_frames B \<union> (all_frames es - {b0..<b1})"
  using assms(1-5)
proof (induction es arbitrary: s B)
  case Nil
  then show ?case by (auto simp: all_frames_def)
next
  case (Cons e es)
  have ok: "region_ok e" using Cons.prems(2) by simp
  have fr: "all_frames (e # es) = region_frames e \<union> all_frames es" by (simp add: all_frames_def)
  have sm: "end_page e < 2 ^ 51" using region_small [OF ok] by simp
  have "\<exists>s1 B1. (let (start, end) = clip_to_managed e in
      if end = 0 then Some s else feed_pages s start end (frame_addr b0) (frame_addr b1)) = Some s1
    \<and> buddy_inv s1 B1 \<and> same_range s s1 \<and> free_frames B1 = free_frames B \<union> (region_frames e - {b0..<b1})"
  proof (cases "end_page e \<le> first_page e")
    case True
    with Cons.prems(1) show ?thesis by (auto simp: clip_spec [OF ok] region_frames_def same_range_def)
  next
    case False
    have nz: "frame_addr (end_page e) \<noteq> 0" using frame_addr_0 [of "end_page e"] sm first_page_low [of e] False by simp
    have bi: "block_in s 0 f" if "first_page e \<le> f" "f < end_page e" for f
      using Cons.prems(5) [of f] that by (simp add: fr region_frames_def)
    have "{first_page e..<end_page e} \<inter> free_frames B = {}" using Cons.prems(4) by (auto simp: fr region_frames_def)
    from feed_pages_spec [OF Cons.prems(1) _ bi sm this assms(6,7)] False nz show ?thesis
      by (auto simp: clip_spec [OF ok] region_frames_def)
  qed
  then obtain s1 B1 where s1: "(let (start, end) = clip_to_managed e in
      if end = 0 then Some s else feed_pages s start end (frame_addr b0) (frame_addr b1)) = Some s1"
    "buddy_inv s1 B1" "same_range s s1" "free_frames B1 = free_frames B \<union> (region_frames e - {b0..<b1})" by blast
  have d: "region_frames e \<inter> all_frames es = {}" using Cons.prems(3) by (auto simp: all_frames_def list_all_iff)
  have "\<exists>s' B'. feed_regions s1 es (frame_addr b0) (frame_addr b1) = Some s'
    \<and> buddy_inv s' B' \<and> free_frames B' = free_frames B1 \<union> (all_frames es - {b0..<b1})"
  proof (rule Cons.IH [OF s1(2)])
    show "list_all region_ok es" "regions_disjoint es" using Cons.prems by simp_all
    show "all_frames es \<inter> free_frames B1 = {}" using Cons.prems(4) d unfolding s1(4) fr by blast
    show "block_in s1 0 f" if "f \<in> all_frames es" for f
      using Cons.prems(5) [of f] that same_range_block [OF s1(3)] by (simp add: fr)
  qed
  then obtain s2 B2 where s2: "feed_regions s1 es (frame_addr b0) (frame_addr b1) = Some s2"
    "buddy_inv s2 B2" "free_frames B2 = free_frames B1 \<union> (all_frames es - {b0..<b1})" by blast
  have "feed_regions s (e # es) (frame_addr b0) (frame_addr b1) = Some s2"
    using s1(1) s2(1) by (auto simp: Let_def split: prod.splits)
  moreover have "free_frames B2 = free_frames B \<union> (all_frames (e # es) - {b0..<b1})" unfolding s2(3) s1(4) fr by blast
  ultimately show ?case using s2(2) by blast
qed

section \<open>The bitmap's pages\<close>

definition bitmap_page_count :: "nat \<Rightarrow> nat" where
  "bitmap_page_count n = (rows_before n NUM_ORDERS * 8 + 4095) div 4096"

lemma reservation:
  assumes "unat n \<le> 2 ^ 40"
  shows "div_ceil (snd (row_layout n) * 8) PAGE_SIZE * PAGE_SIZE = frame_addr (bitmap_page_count (unat n))"
    and "bitmap_page_count (unat n) < 2 ^ 50"
proof -
  let ?t = "rows_before (unat n) NUM_ORDERS"
  have t: "?t \<le> 11 * (2 ^ 40 + 1)" by (rule rows_total [OF assms])
  have "snd (row_layout n) = of_nat ?t" using row_layout_fold [OF assms order_refl] by (simp add: row_layout_def)
  then have "snd (row_layout n) * 8 = of_nat (?t * 8)" by simp
  moreover have "?t * 8 < 2 ^ 64" using t by simp
  ultimately have u: "unat (snd (row_layout n) * 8) = ?t * 8" by (simp only: unat_of_nat_u64)
  have d: "unat (div_ceil (snd (row_layout n) * 8) PAGE_SIZE) = bitmap_page_count (unat n)"
    using t u by (subst unat_div_ceil) (simp_all add: PAGE_SIZE_def bitmap_page_count_def)
  show "div_ceil (snd (row_layout n) * 8) PAGE_SIZE * PAGE_SIZE = frame_addr (bitmap_page_count (unat n))"
    unfolding d [symmetric] by (simp add: frame_addr_def PAGE_SIZE_def)
  have "bitmap_page_count (unat n) \<le> (11 * (2 ^ 40 + 1) * 8 + 4095) div 4096"
    unfolding bitmap_page_count_def using t by (intro div_le_mono) simp
  then show "bitmap_page_count (unat n) < 2 ^ 50" by simp
qed

definition room_for :: "nat \<Rightarrow> MemoryMapEntry \<Rightarrow> bool" where
  "room_for k e \<longleftrightarrow> region_frames e \<noteq> {} \<and> first_page e + k \<le> end_page e"

lemma find_bitmap_step:
  assumes "region_ok e" and "k < 2 ^ 50"
  shows "(let (start, end) = clip_to_managed e in
      if end = 0 then None else if frame_addr k \<le> end - start then Some start else None)
    = (if room_for k e then Some (frame_addr (first_page e)) else None)"
proof (cases "end_page e \<le> first_page e")
  case True
  then show ?thesis by (simp add: clip_spec [OF assms(1)] room_for_def region_frames_def)
next
  case False
  let ?s = "frame_addr (first_page e)" and ?t = "frame_addr (end_page e)"
  note sm = region_small [OF assms(1)]
  have nz: "?t \<noteq> 0" using frame_addr_0 [of "end_page e"] sm False by simp
  have "?t - ?s = frame_addr (end_page e - first_page e)" using False by (simp add: frame_addr_def of_nat_diff algebra_simps)
  then have "frame_addr k \<le> ?t - ?s \<longleftrightarrow> k \<le> end_page e - first_page e" using sm assms(2) by (simp add: frame_addr_le)
  moreover have "k \<le> end_page e - first_page e \<longleftrightarrow> first_page e + k \<le> end_page e" using False by linarith
  ultimately show ?thesis using False nz by (simp add: clip_spec [OF assms(1)] room_for_def region_frames_def)
qed

lemma find_bitmap_spec:
  assumes "list_all region_ok (usable mm)" and "k < 2 ^ 50"
  shows "find_bitmap_region mm (frame_addr k) = map_option (\<lambda>e. frame_addr (first_page e)) (find (room_for k) (usable mm))"
proof -
  have "fold (\<lambda>e chosen. case chosen of Some a \<Rightarrow> Some a | None \<Rightarrow>
         (let (start, end) = clip_to_managed e in
          if end = 0 then None else if frame_addr k \<le> end - start then Some start else None)) es chosen
    = (case chosen of Some a \<Rightarrow> Some a | None \<Rightarrow> map_option (\<lambda>e. frame_addr (first_page e)) (find (room_for k) es))"
    if "list_all region_ok es" for es chosen
    using that by (induction es arbitrary: chosen) (auto simp: find_bitmap_step [OF _ assms(2), unfolded Let_def] split: option.splits)
  from this [OF assms(1), of None] show ?thesis by (simp add: find_bitmap_region_def)
qed

section \<open>The allocator built\<close>

text \<open>The frames the allocator spans, from its aligned base to the end of the last region.\<close>

definition span :: "MemoryMapEntry list \<Rightarrow> nat" where
  "span mm = (let (a, b) = managed_range mm in unat (drop_bit 12 b) - unat (drop_bit 12 a) div 2048 * 2048)"

lemma new_spec:
  assumes ok: "list_all region_ok (usable mm)" and dis: "regions_disjoint (usable mm)"
    and fnd: "find (room_for (bitmap_page_count (span mm))) (usable mm) = Some e"
  defines "k \<equiv> bitmap_page_count (span mm)"
  shows "\<exists>s B. BuddyAllocator_new mm hhdm mem = Some s \<and> buddy_inv s B
    \<and> {first_page e..<first_page e + k} \<subseteq> all_frames (usable mm)
    \<and> free_frames B = all_frames (usable mm) - {first_page e..<first_page e + k}"
proof -
  have room: "e \<in> set (usable mm)" "room_for k e" using fnd by (auto simp: find_Some_iff k_def)
  have sm: "end_page x \<le> 2 ^ 40" if "x \<in> set (usable mm)" for x using ok that region_small by (auto simp: list_all_iff)
  have bnd: "bounds_ok (set (usable mm)) (managed_range mm)" using managed_spec ok by (auto simp: list_all_iff)
  have ne: "region_frames e \<noteq> {}" using room(2) by (simp add: room_for_def)
  have "managed_range mm \<noteq> (- 1, 0)"
    using bnd ne room(1) frame_addr_0 [of "end_page e"] sm [OF room(1)] unfolding bounds_ok_def region_frames_def by auto
  then obtain e1 e2 where r: "e1 \<in> set (usable mm)" "e2 \<in> set (usable mm)" "region_frames e1 \<noteq> {}"
    "managed_range mm = (frame_addr (first_page e1), frame_addr (end_page e2))" using bnd unfolding bounds_ok_def by blast
  let ?f = "first_page e1" and ?t = "end_page e2"
  have fs: "?f < 2 ^ 51" "?t < 2 ^ 51" using sm [OF r(1)] sm [OF r(2)] r(3) by (auto simp: region_frames_def)
  have in_range: "?f \<le> first_page x \<and> end_page x \<le> ?t" if "x \<in> set (usable mm)" "region_frames x \<noteq> {}" for x
    using bnd that fs sm [OF that(1)] frame_addr_le [of ?f "first_page x"] frame_addr_le [of "end_page x" ?t] r(4)
    unfolding bounds_ok_def region_frames_def by auto
  define base :: u64 where "base = of_nat ?f AND NOT (push_bit (MAX_ORDER + 1) 1 - 1)"
  define n :: u64 where "n = of_nat ?t - base"
  have base: "base = of_nat (?f div 2048 * 2048)"
  proof -
    have "(push_bit (MAX_ORDER + 1) 1 - 1 :: u64) = mask 11" by (simp add: MAX_ORDER_def mask_eq_exp_minus_1)
    moreover have "drop_bit 11 (of_nat ?f :: u64) = of_nat (?f div 2048)"
      by (rule word_unat_eq_iff [THEN iffD2])
        (use fs in \<open>simp add: unat_drop_bit_eq drop_bit_eq_div unat_div unat_of_nat_u64 del: unat_of_nat\<close>)
    ultimately show ?thesis by (simp add: base_def and_not_mask push_bit_eq_mult)
  qed
  have le: "?f div 2048 * 2048 \<le> ?f" by simp
  have ub: "unat base = ?f div 2048 * 2048" unfolding base using fs le by (intro unat_of_nat_u64) simp
  have ft: "?f \<le> ?t" using in_range [OF room(1) ne] ne by (auto simp: region_frames_def)
  have "n = of_nat (?t - ?f div 2048 * 2048)" using ft le by (simp add: n_def base of_nat_diff)
  then have un: "unat n = ?t - ?f div 2048 * 2048" using fs by (simp only:) (intro unat_of_nat_u64, simp)
  have n40: "unat n \<le> 2 ^ 40" "unat base + unat n \<le> 2 ^ 40" using un ub sm [OF r(2)] ft le by simp_all
  have kn: "k = bitmap_page_count (unat n)"
    using fs by (simp add: k_def span_def r(4) un unat_drop_bit_eq drop_bit_eq_div unat_div unat_frame_addr)
  note res = reservation [OF n40(1), folded kn]
  let ?b = "first_page e"
  have b: "?b < 2 ^ 51" "?b + k < 2 ^ 51" using sm [OF room(1)] room(2) by (auto simp: room_for_def region_frames_def)
  have find: "find_bitmap_region mm (frame_addr k) = Some (frame_addr ?b)"
    using find_bitmap_spec [OF ok res(2)] fnd by (simp add: k_def)
  have bk: "frame_addr ?b + frame_addr k = frame_addr (?b + k)" by (simp add: frame_addr_def algebra_simps)
  let ?s0 = "empty_buddy base n hhdm mem"
  have inv0: "buddy_inv ?s0 (\<lambda>_. {})"
    using ub n40(2) by (intro empty_inv) (simp_all add: NUM_ORDERS_def MAX_ORDER_def)
  have e: "free_frames (\<lambda>_. {}) = {}" by (simp add: free_of_def)
  have bin: "block_in ?s0 0 f" if f: "f \<in> all_frames (usable mm)" for f
  proof -
    from f obtain x where x: "x \<in> set (usable mm)" "first_page x \<le> f" "f < end_page x" by (auto simp: all_frames_def region_frames_def)
    then have "?f \<le> f" "f < ?t" using in_range [OF x(1)] by (auto simp: region_frames_def)
    then show ?thesis using first_page_low [of x] x(2) le un ub by (simp add: block_in_def empty_buddy_def)
  qed
  from feed_regions_spec [OF inv0 ok dis _ bin b] obtain s B where
    s: "feed_regions ?s0 (usable mm) (frame_addr ?b) (frame_addr (?b + k)) = Some s" "buddy_inv s B"
      "free_frames B = all_frames (usable mm) - {?b..<?b + k}" unfolding e by auto
  have lt: "frame_addr ?f < frame_addr ?t"
    using in_range [OF r(1,3)] r(3) fs frame_addr_less [of ?f ?t] by (auto simp: region_frames_def)
  have dr: "drop_bit PAGE_SHIFT (frame_addr ?f) = of_nat ?f" "drop_bit PAGE_SHIFT (frame_addr ?t) = of_nat ?t"
    using frame_of_addr [of ?f] frame_of_addr [of ?t] fs by (simp_all add: PhysAddr_frame_def)
  have "BuddyAllocator_new mm hhdm mem = Some s"
    using s(1) lt res(1) find bk
    unfolding BuddyAllocator_new_def r(4) Let_def prod.case dr base_def [symmetric] n_def [symmetric] empty_buddy_def
    by (cases "row_layout n") simp
  moreover have "{?b..<?b + k} \<subseteq> all_frames (usable mm)" using room by (auto simp: all_frames_def region_frames_def room_for_def)
  ultimately show ?thesis using s(2,3) by blast
qed

end
