(* ===== verification/Buddy_Properties.thy ===== *)
theory Buddy_Properties
  imports Buddy_New
begin

text \<open>The properties of the physical-memory allocator, with a concrete machine for their instances.\<close>

section \<open>Clients\<close>

text \<open>
  The allocator beside its callers, who give back what they took at the order they took it: the
  blocks out on loan are kept with their orders and addresses.
\<close>

inductive buddy_step :: "BuddyAllocator \<times> (nat \<times> u64) set \<Rightarrow> BuddyAllocator \<times> (nat \<times> u64) set \<Rightarrow> bool" where
  served: "BuddyAllocator_alloc s ord = Some (s', Some a) \<Longrightarrow> buddy_step (s, out) (s', insert (ord, a) out)"
| refused: "BuddyAllocator_alloc s ord = Some (s', None) \<Longrightarrow> buddy_step (s, out) (s', out)"
| returned: "(ord, a) \<in> out \<Longrightarrow> BuddyAllocator_free s a ord = Some s' \<Longrightarrow> buddy_step (s, out) (s', out - {(ord, a)})"

definition frames_of :: "nat \<times> u64 \<Rightarrow> nat set" where
  "frames_of x = block (fst x) (unat (PhysAddr_frame (snd x)))"

definition loans_ok :: "nat set \<Rightarrow> BuddyAllocator \<times> (nat \<times> u64) set \<Rightarrow> bool" where
  "loans_ok every z \<longleftrightarrow> (\<exists>B. buddy_inv (fst z) B
     \<and> (\<forall>x\<in>snd z. fst x \<le> MAX_ORDER \<and> (\<exists>f. snd x = frame_addr f \<and> block_in (fst z) (fst x) f))
     \<and> (\<forall>x\<in>snd z. frames_of x \<inter> free_frames B = {})
     \<and> (\<forall>x\<in>snd z. \<forall>y\<in>snd z. x \<noteq> y \<longrightarrow> frames_of x \<inter> frames_of y = {})
     \<and> free_frames B \<union> (\<Union>x\<in>snd z. frames_of x) = every)"

lemma frames_of_addr: "buddy_inv s B \<Longrightarrow> block_in s ord f \<Longrightarrow> frames_of (ord, frame_addr f) = block ord f"
  using block_in_small(1) [OF buddy_invD(1), of s B ord f] unat_frame [of f] by (simp add: frames_of_def)

lemma loansE:
  assumes "loans_ok every (s, out)"
  obtains B where "buddy_inv s B" "\<forall>x\<in>out. fst x \<le> MAX_ORDER \<and> (\<exists>f. snd x = frame_addr f \<and> block_in s (fst x) f)"
    "\<forall>x\<in>out. frames_of x \<inter> free_frames B = {}" "\<forall>x\<in>out. \<forall>y\<in>out. x \<noteq> y \<longrightarrow> frames_of x \<inter> frames_of y = {}"
    "free_frames B \<union> (\<Union>x\<in>out. frames_of x) = every"
  using assms unfolding loans_ok_def fst_conv snd_conv by blast

lemma alloc_any:
  assumes "buddy_inv s B"
  shows "\<exists>s' r. BuddyAllocator_alloc s ord = Some (s', r) \<and> (r \<noteq> None \<longrightarrow> ord \<le> MAX_ORDER) \<and> (ord \<le> MAX_ORDER \<longrightarrow> alloc_post s B ord s' r)
    \<and> (MAX_ORDER < ord \<longrightarrow> s' = s)"
proof (cases "ord \<le> MAX_ORDER")
  case True
  with alloc_spec [OF assms] show ?thesis by auto
next
  case False
  then show ?thesis by (subst BuddyAllocator_alloc.simps) simp
qed

lemma loans_served:
  assumes ok: "loans_ok every (s, out)" and al: "BuddyAllocator_alloc s ord = Some (s', Some a)"
  shows "loans_ok every (s', insert (ord, a) out)"
proof -
  obtain B where "buddy_inv s B" "\<forall>x\<in>out. fst x \<le> MAX_ORDER \<and> (\<exists>f. snd x = frame_addr f \<and> block_in s (fst x) f)"
    "\<forall>x\<in>out. frames_of x \<inter> free_frames B = {}" "\<forall>x\<in>out. \<forall>y\<in>out. x \<noteq> y \<longrightarrow> frames_of x \<inter> frames_of y = {}"
    "free_frames B \<union> (\<Union>x\<in>out. frames_of x) = every" by (rule loansE [OF ok])
  note B = this [rule_format]
  from alloc_any [OF B(1), of ord] al have "ord \<le> MAX_ORDER" "alloc_post s B ord s' (Some a)" by auto
  then obtain f B' where f: "ord \<le> MAX_ORDER" "a = frame_addr f" "buddy_inv s' B'" "same_range s s'" "block_in s ord f"
    "block ord f \<subseteq> free_frames B" "free_frames B' = free_frames B - block ord f" by (auto simp: alloc_post_def)
  have fo: "frames_of (ord, a) = block ord f" using frames_of_addr [OF B(1) f(5)] f(2) by simp
  have d: "frames_of x \<inter> block ord f = {}" if "x \<in> out" for x using B(3) [OF that] f(6) by blast
  have "fst x \<le> MAX_ORDER \<and> (\<exists>g. snd x = frame_addr g \<and> block_in s' (fst x) g)" if "x \<in> insert (ord, a) out" for x
    using that B(2) [of x] f(1,2,5) same_range_block [OF f(4)] by auto
  moreover have "frames_of x \<inter> free_frames B' = {}" if "x \<in> insert (ord, a) out" for x
    using that B(3) [of x] fo unfolding f(7) by blast
  moreover have "frames_of x \<inter> frames_of y = {}" if "x \<in> insert (ord, a) out" "y \<in> insert (ord, a) out" "x \<noteq> y" for x y
    using that B(4) [of x y] d fo by blast
  moreover have "free_frames B' \<union> (\<Union>x\<in>insert (ord, a) out. frames_of x) = every"
    using B(5) f(6) fo unfolding f(7) by auto
  ultimately show ?thesis using f(3) unfolding loans_ok_def by (intro exI [of _ B']) simp
qed

lemma loans_returned:
  assumes ok: "loans_ok every (s, out)" and x: "(ord, a) \<in> out"
  shows "\<exists>s'. BuddyAllocator_free s a ord = Some s' \<and> loans_ok every (s', out - {(ord, a)})"
proof -
  obtain B where "buddy_inv s B" "\<forall>x\<in>out. fst x \<le> MAX_ORDER \<and> (\<exists>f. snd x = frame_addr f \<and> block_in s (fst x) f)"
    "\<forall>x\<in>out. frames_of x \<inter> free_frames B = {}" "\<forall>x\<in>out. \<forall>y\<in>out. x \<noteq> y \<longrightarrow> frames_of x \<inter> frames_of y = {}"
    "free_frames B \<union> (\<Union>x\<in>out. frames_of x) = every" by (rule loansE [OF ok])
  note B = this [rule_format]
  from B(2) [OF x] obtain f where f: "ord \<le> MAX_ORDER" "a = frame_addr f" "block_in s ord f" by auto
  have fo: "frames_of (ord, a) = block ord f" using frames_of_addr [OF B(1) f(3)] f(2) by simp
  from free_spec [OF B(1) f(1,3)] B(3) [OF x] fo obtain s' B' where
    r: "BuddyAllocator_free s a ord = Some s'" "buddy_inv s' B'" "same_range s s'" "free_frames B' = free_frames B \<union> frames_of (ord, a)"
    using f(2) by auto
  let ?o = "out - {(ord, a)}"
  have "\<forall>y\<in>?o. fst y \<le> MAX_ORDER \<and> (\<exists>g. snd y = frame_addr g \<and> block_in s' (fst y) g)"
    using B(2) same_range_block [OF r(3)] by auto
  moreover have "\<forall>y\<in>?o. frames_of y \<inter> free_frames B' = {}" using B(3,4) x unfolding r(4) by blast
  moreover have "\<forall>y\<in>?o. \<forall>z\<in>?o. y \<noteq> z \<longrightarrow> frames_of y \<inter> frames_of z = {}" using B(4) by blast
  moreover have "free_frames B' \<union> (\<Union>y\<in>?o. frames_of y) = every" using B(5) x unfolding r(4) by blast
  ultimately have "loans_ok every (s', ?o)" unfolding loans_ok_def using r(2) by (intro exI [of _ B']) simp
  with r(1) show ?thesis by blast
qed

lemma loans_step: "buddy_step z z' \<Longrightarrow> loans_ok every z \<Longrightarrow> loans_ok every z'"
proof (induction rule: buddy_step.induct)
  case (refused s ord s' out)
  then obtain B where B: "buddy_inv s B" by (auto simp: loans_ok_def)
  have "s' = s" using alloc_any [OF B, of ord] refused(1) by (auto simp: alloc_post_def not_less)
  with refused(2) show ?case by simp
next
  case (returned ord a out s s')
  with loans_returned [OF returned(3,1)] show ?case by auto
qed (rule loans_served)

lemma loans_reach:
  assumes "buddy_inv s B" and "buddy_step\<^sup>*\<^sup>* (s, {}) z"
  shows "loans_ok (free_frames B) z"
  using assms(2)
proof (induction rule: rtranclp_induct)
  case base
  then show ?case using assms(1) by (auto simp: loans_ok_def)
qed (blast intro: loans_step)

text \<open>
  C29. Whatever sequence of allocations and returns its callers make, no two blocks out on loan share
  a frame, none of them is free, every frame is free or on loan, an allocation always returns, and
  giving back any block on loan trips none of the assertions.
\<close>

theorem buddy_no_overlap:
  assumes "buddy_inv s B" and "buddy_step\<^sup>*\<^sup>* (s, {}) (s', out)"
  shows "(\<forall>x\<in>out. \<forall>y\<in>out. x \<noteq> y \<longrightarrow> frames_of x \<inter> frames_of y = {})
    \<and> (\<exists>B'. buddy_inv s' B' \<and> (\<forall>x\<in>out. frames_of x \<inter> free_frames B' = {})
         \<and> free_frames B' \<union> (\<Union>x\<in>out. frames_of x) = free_frames B)
    \<and> (\<forall>ord. BuddyAllocator_alloc s' ord \<noteq> None)
    \<and> (\<forall>(ord, a)\<in>out. BuddyAllocator_free s' a ord \<noteq> None)"
proof -
  have ok: "loans_ok (free_frames B) (s', out)" by (rule loans_reach [OF assms])
  then obtain B' where B': "buddy_inv s' B'" "\<forall>x\<in>out. frames_of x \<inter> free_frames B' = {}"
    "\<forall>x\<in>out. \<forall>y\<in>out. x \<noteq> y \<longrightarrow> frames_of x \<inter> frames_of y = {}"
    "free_frames B' \<union> (\<Union>x\<in>out. frames_of x) = free_frames B" by (auto simp: loans_ok_def)
  moreover have "BuddyAllocator_alloc s' ord \<noteq> None" for ord using alloc_any [OF B'(1), of ord] by auto
  moreover have "BuddyAllocator_free s' a ord \<noteq> None" if "(ord, a) \<in> out" for ord a using loans_returned [OF ok that] by auto
  ultimately show ?thesis by blast
qed

section \<open>A small machine\<close>

definition demo_map :: "MemoryMapEntry list" where
  "demo_map = [\<lparr>mm_base = 0, mm_length = 0xA0000, mm_kind = 0\<rparr>, \<lparr>mm_base = 0xA0000, mm_length = 0x60000, mm_kind = 1\<rparr>,
     \<lparr>mm_base = 0x100000, mm_length = 0x10000, mm_kind = 0\<rparr>]"

lemma demo_usable: "usable demo_map = [\<lparr>mm_base = 0, mm_length = 0xA0000, mm_kind = 0\<rparr>, \<lparr>mm_base = 0x100000, mm_length = 0x10000, mm_kind = 0\<rparr>]"
  by (simp add: demo_map_def usable_def MEMMAP_USABLE_def)

lemma demo_span: "span demo_map = 272"
  by (simp add: span_def managed_range_def demo_usable clip_spec region_ok_def first_page_def end_page_def
      frame_addr_def unat_drop_bit_eq drop_bit_eq_div)

lemma demo_pages: "bitmap_page_count 272 = 1"
  by code_simp

lemma demo_find: "find (room_for (bitmap_page_count (span demo_map))) (usable demo_map)
    = Some \<lparr>mm_base = 0x100000, mm_length = 0x10000, mm_kind = 0\<rparr>"
  by (simp add: demo_span demo_pages demo_usable room_for_def region_frames_def first_page_def end_page_def)

lemma demo_map_ok: "list_all region_ok (usable demo_map)" "regions_disjoint (usable demo_map)"
  by (simp_all add: demo_usable region_ok_def region_frames_def first_page_def end_page_def)

lemma demo_frames: "all_frames (usable demo_map) = {256..<272}"
  by (simp add: all_frames_def demo_usable region_frames_def first_page_def end_page_def)

lemma demo_buddy:
  obtains s B where "BuddyAllocator_new demo_map 0 (\<lambda>_. 0) = Some s" "buddy_inv s B" "free_frames B = {257..<272}"
proof -
  have "{256..<272} - {256..<257} = {257..<272 :: nat}" by auto
  with new_spec [OF demo_map_ok demo_find, of 0 "\<lambda>_. 0"] show thesis
    using that by (auto simp: demo_span demo_pages demo_frames first_page_def)
qed

theorem buddy_no_overlap_witness:
  "\<exists>s s' a. BuddyAllocator_new demo_map 0 (\<lambda>_. 0) = Some s \<and> buddy_step\<^sup>*\<^sup>* (s, {}) (s', {(3, a)})
    \<and> BuddyAllocator_free s' a 3 \<noteq> None"
proof -
  obtain s B where s: "BuddyAllocator_new demo_map 0 (\<lambda>_. 0) = Some s" "buddy_inv s B" "free_frames B = {257..<272}"
    by (rule demo_buddy)
  have m: "3 \<le> MAX_ORDER" by (simp add: MAX_ORDER_def)
  have "2 ^ 3 dvd (264 :: nat)" by simp
  moreover have "block 3 264 \<subseteq> free_frames B" unfolding s(3) by (auto simp: block_def)
  ultimately obtain ord' g where g: "3 \<le> ord'" "ord' \<le> MAX_ORDER" "g \<in> B ord'"
    using free_block_covered [OF buddy_invD(5) [OF s(2)] m] by blast
  from alloc_spec [OF s(2) m] obtain s' r where al: "BuddyAllocator_alloc s 3 = Some (s', r)" "alloc_post s B 3 s' r" by blast
  have "r \<noteq> None"
  proof
    assume "r = None"
    with al(2) have "\<forall>ord'. 3 \<le> ord' \<and> ord' \<le> MAX_ORDER \<longrightarrow> B ord' = {}" by (simp add: alloc_post_def)
    with g show False by blast
  qed
  then obtain a where a: "r = Some a" by blast
  have st: "buddy_step\<^sup>*\<^sup>* (s, {}) (s', {(3, a)})"
    by (rule r_into_rtranclp) (rule buddy_step.served, use al(1) a in simp)
  have "\<forall>(ord, a)\<in>{(3, a)}. BuddyAllocator_free s' a ord \<noteq> None" using buddy_no_overlap [OF s(2) st] by (elim conjE)
  then have "BuddyAllocator_free s' a 3 \<noteq> None" by simp
  with s(1) st show ?thesis by blast
qed

text \<open>
  C30. An allocation of an order fails exactly when memory holds no naturally aligned run of that many
  free frames: merging buddies on every return loses no block to fragmentation.
\<close>

theorem buddy_alloc_complete:
  assumes "buddy_inv s B" and "ord \<le> MAX_ORDER"
  shows "(\<exists>s'. BuddyAllocator_alloc s ord = Some (s', None))
    \<longleftrightarrow> \<not> (\<exists>f. 2 ^ ord dvd f \<and> block ord f \<subseteq> free_frames B)"
proof -
  from alloc_spec [OF assms] obtain s' r where al: "BuddyAllocator_alloc s ord = Some (s', r)" "alloc_post s B ord s' r" by blast
  show ?thesis
  proof (cases r)
    case None
    then have e: "B ord' = {}" if "ord \<le> ord'" "ord' \<le> MAX_ORDER" for ord' using al(2) that by (simp add: alloc_post_def)
    have "\<not> (\<exists>f. 2 ^ ord dvd f \<and> block ord f \<subseteq> free_frames B)"
    proof (rule notI, elim exE conjE)
      fix f
      assume f: "2 ^ ord dvd f" "block ord f \<subseteq> free_frames B"
      from free_block_covered [OF buddy_invD(5) [OF assms(1)] assms(2) f] obtain ord' g where
        "ord \<le> ord'" "ord' \<le> MAX_ORDER" "g \<in> B ord'" by blast
      with e [of ord'] show False by simp
    qed
    with al(1) None show ?thesis by simp
  next
    case (Some a)
    with al(2) obtain f where "block_in s ord f" "block ord f \<subseteq> free_frames B" by (auto simp: alloc_post_def)
    then have "\<exists>f. 2 ^ ord dvd f \<and> block ord f \<subseteq> free_frames B" unfolding block_in_def by blast
    with al(1) Some show ?thesis by simp
  qed
qed

theorem buddy_alloc_complete_witness:
  "\<exists>s. BuddyAllocator_new demo_map 0 (\<lambda>_. 0) = Some s \<and> (\<exists>s'. BuddyAllocator_alloc s 4 = Some (s', None))"
proof -
  obtain s B where s: "BuddyAllocator_new demo_map 0 (\<lambda>_. 0) = Some s" "buddy_inv s B" "free_frames B = {257..<272}"
    by (rule demo_buddy)
  have "\<not> block 4 f \<subseteq> free_frames B" if "2 ^ 4 dvd f" for f
  proof
    assume "block 4 f \<subseteq> free_frames B"
    then have "f \<in> {257..<272}" "f + 15 \<in> {257..<272}" unfolding s(3) by (auto simp: block_def)
    then show False by auto
  qed
  with buddy_alloc_complete [OF s(2), of 4] s(1) show ?thesis by (auto simp: MAX_ORDER_def)
qed

text \<open>
  C31. From a memory map whose usable regions are disjoint and lie within 52 bits, the allocator built
  is well formed, and its free frames are exactly the whole usable pages above the first mebibyte
  less the pages of its own bitmap, which it takes from the first region with room.
\<close>

theorem buddy_new_exact:
  assumes "list_all region_ok (usable mm)" and "regions_disjoint (usable mm)"
    and "find (room_for (bitmap_page_count (span mm))) (usable mm) = Some e"
  shows "\<exists>s B. BuddyAllocator_new mm hhdm mem = Some s \<and> buddy_inv s B
    \<and> free_frames B = all_frames (usable mm) - {first_page e..<first_page e + bitmap_page_count (span mm)}"
  using new_spec [OF assms] by blast

theorem buddy_new_exact_witness:
  "\<exists>s B. BuddyAllocator_new demo_map 0 (\<lambda>_. 0) = Some s \<and> free_frames B = {256..<272} - {256..<257}"
  using buddy_new_exact [OF demo_map_ok demo_find, of 0 "\<lambda>_. 0"]
  by (auto simp: demo_span demo_pages demo_frames first_page_def)

section \<open>The order for a size\<close>

lemma order_loop_spec:
  assumes "unat pages \<le> 2 ^ k" and "ord \<le> k" and "k < 63" and "\<forall>j<ord. 2 ^ j < unat pages"
  shows "\<exists>r. order_loop pages (2 ^ ord) ord = Some r \<and> unat pages \<le> 2 ^ r \<and> (\<forall>j<r. 2 ^ j < unat pages)"
  using assms
proof (induction "k - ord" arbitrary: ord)
  case 0
  then have "ord = k" by simp
  moreover have "unat (2 ^ k :: u64) = 2 ^ k" using 0 unat_of_nat_u64 [of "2 ^ k"] power_strict_increasing [of k 64 "2 :: nat"] by simp
  ultimately show ?case using 0 by (subst order_loop.simps) (auto simp: word_less_nat_alt)
next
  case (Suc n)
  have e: "unat (2 ^ ord :: u64) = 2 ^ ord"
    using Suc.prems unat_of_nat_u64 [of "2 ^ ord"] power_strict_increasing [of ord 64 "2 :: nat"] by simp
  show ?case
  proof (cases "unat pages \<le> 2 ^ ord")
    case True
    then show ?thesis using Suc.prems by (subst order_loop.simps) (auto simp: word_less_nat_alt e)
  next
    case False
    have "\<exists>r. order_loop pages (2 ^ (ord + 1)) (ord + 1) = Some r \<and> unat pages \<le> 2 ^ r \<and> (\<forall>j<r. 2 ^ j < unat pages)"
      using Suc.hyps(2) Suc.prems False by (intro Suc.hyps(1)) (auto simp: less_Suc_eq)
    with False show ?thesis by (subst order_loop.simps) (simp add: word_less_nat_alt e push_bit_eq_mult mult.commute)
  qed
qed

text \<open>
  C32. The order chosen for a size is the smallest whose block holds it, for every size.
\<close>

theorem order_for_size_least:
  "\<exists>r. order_for_size bytes = Some r \<and> unat bytes \<le> 4096 * 2 ^ r \<and> (r = 0 \<or> 4096 * 2 ^ (r - 1) < unat bytes)"
proof -
  define pages where "pages = (if bytes = 0 then 1 else div_ceil bytes PAGE_SIZE)"
  have "unat bytes div 4096 + 1 < 2 ^ 64" using div_le_mono [of "unat bytes" "2 ^ 64" 4096] unat_u64_lt [of bytes] by simp
  then have "unat (div_ceil bytes PAGE_SIZE) = (unat bytes + 4096 - 1) div 4096"
    using unat_div_ceil_fits [of PAGE_SIZE bytes] by (simp add: PAGE_SIZE_def)
  then have u: "unat pages = (if bytes = 0 then 1 else (unat bytes + 4095) div 4096)" by (simp add: pages_def add.commute)
  have "unat bytes + 4095 \<le> 2 ^ 53 * 4096" using unat_u64_lt [of bytes] by simp
  then have "(unat bytes + 4095) div 4096 \<le> 2 ^ 53" using div_le_mono [of "unat bytes + 4095" "2 ^ 53 * 4096" 4096] by simp
  then have "unat pages \<le> 2 ^ 53" using u by simp
  from order_loop_spec [OF this, of 0] obtain r where
    r: "order_loop pages 1 0 = Some r" "unat pages \<le> 2 ^ r" "\<forall>j<r. 2 ^ j < unat pages" by auto
  have up: "unat bytes \<le> 4096 * unat pages" using u div_mult_mod_eq [of "unat bytes + 4095" 4096] mod_less_divisor [of 4096 "unat bytes + 4095"]
    by (auto split: if_splits)
  have lo: "4096 * 2 ^ (r - 1) < unat bytes" if "r \<noteq> 0"
  proof -
    have "2 ^ (r - 1) < unat pages" using r(3) that by simp
    moreover have "(1 :: nat) \<le> 2 ^ (r - 1)" by simp
    ultimately have "bytes \<noteq> 0" and "2 ^ (r - 1) + 1 \<le> (unat bytes + 4095) div 4096" using u by (auto split: if_splits)
    then have "(2 ^ (r - 1) + 1) * 4096 \<le> unat bytes + 4095" using less_eq_div_iff_mult_less_eq by simp
    then show ?thesis by simp
  qed
  have "unat bytes \<le> 4096 * 2 ^ r" using up r(2) by (rule order_trans [OF _ mult_le_mono2])
  with r(1) lo show ?thesis by (auto simp: order_for_size_def pages_def [symmetric])
qed

end
