(* ===== verification/Deadline_Heap.thy ===== *)
theory Deadline_Heap
  imports Buddy "HOL-Library.Monad_Syntax"
begin

text \<open>
  The scheduler's deadline heap, \<^verbatim>\<open>kernel/src/sched/deadline.rs\<close>: a binary min-heap in a list
  whose capacity is reserved beforehand (\<^verbatim>\<open>libkern/reserved.rs\<close>), with slots promised to the
  objects that may have entries.
\<close>

datatype DeadlineKind = DThread | DTimer | DPendingSend

datatype Target = TThread u64 | TTimer u64 | TPendingSend u64 u64

fun Target_kind :: "Target \<Rightarrow> DeadlineKind" where
  "Target_kind (TThread _) = DThread"
| "Target_kind (TTimer _) = DTimer"
| "Target_kind (TPendingSend _ _) = DPendingSend"

record Entry =
  deadline_ns :: u64
  target :: Target

text \<open>A reserved list: its items and how many it can hold.\<close>

record 'a Reserved =
  rs_items :: "'a list"
  rs_cap :: nat

definition Reserved_push :: "'a Reserved \<Rightarrow> 'a \<Rightarrow> 'a Reserved option" where
  "Reserved_push r x = (if length (rs_items r) < rs_cap r then Some (r\<lparr>rs_items := rs_items r @ [x]\<rparr>) else None)"

definition swap_at :: "'a list \<Rightarrow> nat \<Rightarrow> nat \<Rightarrow> 'a list" where
  "swap_at h i j = h[i := h ! j, j := h ! i]"

section \<open>Sifting\<close>

function sift_up :: "Entry list \<Rightarrow> nat \<Rightarrow> Entry list" where
  "sift_up h i =
     (if 0 < i then
        let parent = (i - 1) div 2 in
        if deadline_ns (h ! i) < deadline_ns (h ! parent) then sift_up (swap_at h i parent) parent else h
      else h)"
  by pat_completeness auto
termination
  by (relation "measure snd") auto

declare sift_up.simps [simp del]

definition smallest_child :: "Entry list \<Rightarrow> nat \<Rightarrow> nat" where
  "smallest_child h i =
     (let n = length h; l = 2 * i + 1; r = 2 * i + 2;
          smallest = (if l < n \<and> deadline_ns (h ! l) < deadline_ns (h ! i) then l else i)
      in if r < n \<and> deadline_ns (h ! r) < deadline_ns (h ! smallest) then r else smallest)"

lemma smallest_child_cases:
  "smallest_child h i = i \<or> (i < smallest_child h i \<and> smallest_child h i < length h)"
  by (auto simp: smallest_child_def Let_def)

function sift_down :: "Entry list \<Rightarrow> nat \<Rightarrow> Entry list" where
  "sift_down h i =
     (let smallest = smallest_child h i in
      if smallest = i then h else sift_down (swap_at h i smallest) smallest)"
  by pat_completeness auto
termination
proof (relation "measure (\<lambda>(h, i). length h - i)")
  fix h i x
  assume "x = smallest_child h i" "x \<noteq> i"
  with smallest_child_cases [of h i] show "((swap_at h i x, x), h, i) \<in> measure (\<lambda>(h, i). length h - i)"
    by (auto simp: swap_at_def)
qed simp

declare sift_down.simps [simp del]

section \<open>Operations\<close>

definition dl_peek :: "Entry Reserved \<Rightarrow> Entry option" where
  "dl_peek h = (case rs_items h of [] \<Rightarrow> None | e # _ \<Rightarrow> Some e)"

text \<open>\<^verbatim>\<open>push\<close>: refused at the reserve, otherwise appended and sifted up.\<close>

definition dl_push :: "Entry Reserved \<Rightarrow> Entry \<Rightarrow> Entry Reserved option" where
  "dl_push h e =
     (if rs_cap h \<le> length (rs_items h) then None
      else case Reserved_push h e of
        None \<Rightarrow> None
      | Some h \<Rightarrow> Some (h\<lparr>rs_items := sift_up (rs_items h) (length (rs_items h) - 1)\<rparr>))"

definition dl_pop_min :: "Entry Reserved \<Rightarrow> Entry Reserved \<times> Entry option" where
  "dl_pop_min h =
     (let n = length (rs_items h) in
      if n = 0 then (h, None)
      else let xs = swap_at (rs_items h) 0 (n - 1)
           in (h\<lparr>rs_items := sift_down (butlast xs) 0\<rparr>, Some (last xs)))"

fun position :: "('a \<Rightarrow> bool) \<Rightarrow> 'a list \<Rightarrow> nat option" where
  "position P [] = None"
| "position P (x # xs) = (if P x then Some 0 else map_option Suc (position P xs))"

definition dl_remove :: "Entry Reserved \<Rightarrow> Target \<Rightarrow> Entry Reserved \<times> bool" where
  "dl_remove h tgt =
     (case position (\<lambda>e. target e = tgt) (rs_items h) of
        None \<Rightarrow> (h, False)
      | Some i \<Rightarrow>
          let n = length (rs_items h);
              xs = butlast (swap_at (rs_items h) i (n - 1));
              ys = (if i < length xs then
                      if 0 < i \<and> deadline_ns (xs ! i) < deadline_ns (xs ! ((i - 1) div 2)) then sift_up xs i
                      else sift_down xs i
                    else xs)
          in (h\<lparr>rs_items := ys\<rparr>, True))"

section \<open>Promised slots\<close>

text \<open>
  The part of the state behind \<^verbatim>\<open>SCHED\<close> that the heap is: its entries, and the slots promised by
  kind. The rest of the scheduler's state extends this record.
\<close>

record DeadlineState =
  deadlines :: "Entry Reserved"
  deadline_slots :: "DeadlineKind \<Rightarrow> nat"

definition MAX_THREADS :: nat where "MAX_THREADS = 512"
definition MAX_CPUS :: nat where "MAX_CPUS = 8"
definition HEAP_RESERVE :: nat where "HEAP_RESERVE = MAX_THREADS + MAX_CPUS"
definition MAX_PENDING_SENDS :: nat where "MAX_PENDING_SENDS = 4"

datatype Slots = STimer | SEndpoint

fun Slots_kind :: "Slots \<Rightarrow> DeadlineKind" where
  "Slots_kind STimer = DTimer"
| "Slots_kind SEndpoint = DPendingSend"

fun Slots_count :: "Slots \<Rightarrow> nat" where
  "Slots_count STimer = 1"
| "Slots_count SEndpoint = MAX_PENDING_SENDS"

text \<open>An entry is 32 bytes: the deadline, and a target of a tag and two addresses.\<close>

definition ENTRY_SIZE :: nat where "ENTRY_SIZE = 32"

definition MOST_SLOTS :: nat where
  "MOST_SLOTS = (unat PAGE_SIZE * 2 ^ MAX_ORDER - unat PAGE_SIZE) div ENTRY_SIZE"

text \<open>Twice the capacity or what is promised, within one allocator block.\<close>

definition grown_capacity :: "nat \<Rightarrow> nat \<Rightarrow> nat option" where
  "grown_capacity promised capacity =
     (if promised \<le> MOST_SLOTS then Some (min (max promised (2 * capacity)) MOST_SLOTS) else None)"

definition promised_slots :: "'a DeadlineState_scheme \<Rightarrow> nat" where
  "promised_slots g = deadline_slots g DThread + deadline_slots g DTimer + deadline_slots g DPendingSend"

text \<open>\<^verbatim>\<open>regrow\<close>: the list kept and the one to drop; None if the copy overruns the new list.\<close>

primrec push_each :: "'a Reserved \<Rightarrow> 'a list \<Rightarrow> 'a Reserved option" where
  "push_each r [] = Some r"
| "push_each r (x # xs) = (case Reserved_push r x of None \<Rightarrow> None | Some r \<Rightarrow> push_each r xs)"

definition regrow :: "Entry Reserved \<Rightarrow> Entry Reserved \<Rightarrow> (Entry Reserved \<times> Entry Reserved) option" where
  "regrow h grown =
     (if rs_cap grown \<le> rs_cap h then Some (h, grown)
      else case push_each grown (rs_items h) of None \<Rightarrow> None | Some grown \<Rightarrow> Some (grown, h))"

text \<open>
  \<^verbatim>\<open>reserve_slots\<close>: each pass takes the lock twice. An element of \<open>passes\<close> is what one pass meets
  between its two holds: the capacity its allocation got, if it got one, and the heap's state as
  the other holders of the lock left it. The loop ends when the promise fits, when it can never
  fit, or when the allocation fails; None when the passes run out.
\<close>

fun reserve_slots ::
    "('a DeadlineState_scheme \<Rightarrow> nat option \<times> 'a DeadlineState_scheme) list \<Rightarrow> 'a DeadlineState_scheme \<Rightarrow> Slots
      \<Rightarrow> ('a DeadlineState_scheme \<times> bool) option" where
  "reserve_slots passes g slots =
     (let promised = promised_slots g + Slots_count slots in
      if promised \<le> rs_cap (deadlines g)
      then Some (g\<lparr>deadline_slots := (deadline_slots g)(Slots_kind slots := deadline_slots g (Slots_kind slots) + Slots_count slots)\<rparr>, True)
      else case grown_capacity promised (rs_cap (deadlines g)) of
        None \<Rightarrow> Some (g, False)
      | Some want \<Rightarrow>
          (case passes of
             [] \<Rightarrow> None
           | pass # rest \<Rightarrow>
               (case pass g of
                  (None, g) \<Rightarrow> Some (g, False)
                | (Some extra, g) \<Rightarrow>
                    (case regrow (deadlines g) \<lparr>rs_items = [], rs_cap = want + extra\<rparr> of
                       None \<Rightarrow> None
                     | Some (h, _) \<Rightarrow> reserve_slots rest (g\<lparr>deadlines := h\<rparr>) slots))))"

declare reserve_slots.simps [simp del]

text \<open>\<^verbatim>\<open>release_slots\<close>, with its debug assertion.\<close>

definition release_slots :: "'a DeadlineState_scheme \<Rightarrow> Slots \<Rightarrow> 'a DeadlineState_scheme option" where
  "release_slots g slots =
     (if Slots_count slots \<le> deadline_slots g (Slots_kind slots)
      then Some (g\<lparr>deadline_slots := (deadline_slots g)(Slots_kind slots := deadline_slots g (Slots_kind slots) - Slots_count slots)\<rparr>)
      else None)"

text \<open>
  \<^verbatim>\<open>push_promised\<close>: None when the debug assertion fails (more entries of the kind than slots), and
  otherwise whether the heap took the entry.
\<close>

definition kind_count :: "Entry list \<Rightarrow> DeadlineKind \<Rightarrow> nat" where
  "kind_count es k = length (filter (\<lambda>x. Target_kind (target x) = k) es)"

definition push_promised :: "'a DeadlineState_scheme \<Rightarrow> Entry \<Rightarrow> ('a DeadlineState_scheme \<times> bool) option" where
  "push_promised g e =
     (let kind = Target_kind (target e) in
      if kind_count (rs_items (deadlines g)) kind < deadline_slots g kind
      then case dl_push (deadlines g) e of
             None \<Rightarrow> Some (g, False)
           | Some h \<Rightarrow> Some (g\<lparr>deadlines := h\<rparr>, True)
      else None)"

section \<open>Order\<close>

definition par :: "nat \<Rightarrow> nat" where
  "par j = (j - 1) div 2"

lemma par_less: "0 < j \<Longrightarrow> par j < j"
  by (simp add: par_def div_less_iff_less_mult)

definition heap_ordered :: "Entry list \<Rightarrow> bool" where
  "heap_ordered h \<longleftrightarrow> (\<forall>j<length h. 0 < j \<longrightarrow> deadline_ns (h ! (par j)) \<le> deadline_ns (h ! j))"

lemma length_swap_at [simp]: "length (swap_at h i j) = length h"
  by (simp add: swap_at_def)

lemma nth_swap_at:
  "i < length h \<Longrightarrow> j < length h \<Longrightarrow> k < length h \<Longrightarrow>
    swap_at h i j ! k = (if k = i then h ! j else if k = j then h ! i else h ! k)"
  by (auto simp: swap_at_def nth_list_update)

lemma mset_swap_at: "i < length h \<Longrightarrow> j < length h \<Longrightarrow> mset (swap_at h i j) = mset h"
  unfolding swap_at_def by (rule mset_swap)

text \<open>Ordered but for the element at \<open>i\<close>, which may be too small for its parent.\<close>

definition up_ok :: "Entry list \<Rightarrow> nat \<Rightarrow> bool" where
  "up_ok h i \<longleftrightarrow> (\<forall>j<length h. 0 < j \<longrightarrow> j \<noteq> i \<longrightarrow> deadline_ns (h ! (par j)) \<le> deadline_ns (h ! j))
     \<and> (0 < i \<longrightarrow> (\<forall>j<length h. 0 < j \<longrightarrow> par j = i \<longrightarrow> deadline_ns (h ! (par i)) \<le> deadline_ns (h ! j)))"

text \<open>Ordered but for the element at \<open>i\<close>, which may be too large for its children.\<close>

definition down_ok :: "Entry list \<Rightarrow> nat \<Rightarrow> bool" where
  "down_ok h i \<longleftrightarrow> (\<forall>j<length h. 0 < j \<longrightarrow> par j \<noteq> i \<longrightarrow> deadline_ns (h ! (par j)) \<le> deadline_ns (h ! j))
     \<and> (0 < i \<longrightarrow> (\<forall>j<length h. 0 < j \<longrightarrow> par j = i \<longrightarrow> deadline_ns (h ! (par i)) \<le> deadline_ns (h ! j)))"

lemma up_ok_done:
  assumes "up_ok h i" and "i = 0 \<or> \<not> deadline_ns (h ! i) < deadline_ns (h ! (par i))"
  shows "heap_ordered h"
  unfolding heap_ordered_def
proof (intro allI impI)
  fix j
  assume j: "j < length h" "0 < j"
  show "deadline_ns (h ! (par j)) \<le> deadline_ns (h ! j)"
  proof (cases "j = i")
    case True
    with assms(2) j show ?thesis by simp
  next
    case False
    with assms(1) j show ?thesis unfolding up_ok_def by blast
  qed
qed

lemma up_ok_swap:
  assumes u: "up_ok h i" and i: "0 < i" "i < length h" and lt: "deadline_ns (h ! i) < deadline_ns (h ! par i)"
  shows "up_ok (swap_at h i (par i)) (par i)"
proof -
  obtain p where p_eq: "p = par i" by simp
  have p: "p < i" "p < length h" using par_less [OF i(1)] i by (simp_all add: p_eq)
  note nth = nth_swap_at [OF i(2) p(2)]
  note u1 = u [unfolded up_ok_def, THEN conjunct1, rule_format]
    and u2 = u [unfolded up_ok_def, THEN conjunct2, rule_format, OF i(1), folded p_eq]
  have lt': "deadline_ns (h ! i) < deadline_ns (h ! p)" using lt by (simp add: p_eq)
  have "deadline_ns (swap_at h i p ! par j) \<le> deadline_ns (swap_at h i p ! j)" if j: "j < length h" "0 < j" "j \<noteq> p" for j
  proof -
    obtain q where q_eq: "par j = q" by simp
    have q: "q < length h" "q < j" using par_less [OF j(2)] j by (simp_all add: q_eq)
    show ?thesis
    proof (cases "j = i")
      case True
      then show ?thesis using lt' nth [OF i(2)] nth [OF p(2)] p p_eq by simp
    next
      case False
      have le: "deadline_ns (h ! q) \<le> deadline_ns (h ! j)" using u1 [OF j(1,2) False] q_eq by simp
      moreover have "deadline_ns (h ! p) \<le> deadline_ns (h ! j)" if "q = i" using u2 [OF j(1,2)] q_eq that by simp
      moreover have "deadline_ns (h ! i) \<le> deadline_ns (h ! j)" if "q = p" using le lt' that by simp
      ultimately show ?thesis using nth [OF j(1)] nth [OF q(1)] False j(3) q_eq by simp
    qed
  qed
  moreover have "deadline_ns (swap_at h i p ! par p) \<le> deadline_ns (swap_at h i p ! j)"
    if j: "0 < p" "j < length h" "0 < j" "par j = p" for j
  proof -
    obtain q where q_eq: "par p = q" by simp
    have q: "q < p" "q < length h" using par_less [OF j(1)] p by (simp_all add: q_eq)
    have "deadline_ns (h ! q) \<le> deadline_ns (h ! p)" using u1 [OF p(2) j(1)] p q_eq by simp
    moreover have "deadline_ns (h ! p) \<le> deadline_ns (h ! j)" if "j \<noteq> i" using u1 [OF j(2,3) that] j(4) by simp
    moreover have "j \<noteq> p" using par_less [OF j(3)] j(4) by simp
    ultimately show ?thesis using nth [OF q(2)] nth [OF j(2)] q p q_eq by (cases "j = i") auto
  qed
  ultimately show ?thesis unfolding up_ok_def p_eq by simp
qed

lemma sift_up_par:
  "sift_up h i = (if 0 < i \<and> deadline_ns (h ! i) < deadline_ns (h ! par i) then sift_up (swap_at h i (par i)) (par i) else h)"
  by (simp add: sift_up.simps [of h i] par_def Let_def)

lemma sift_up_spec: "up_ok h i \<Longrightarrow> i < length h \<Longrightarrow> heap_ordered (sift_up h i) \<and> mset (sift_up h i) = mset h"
proof (induction i arbitrary: h rule: less_induct)
  case (less i)
  show ?case
  proof (cases "0 < i \<and> deadline_ns (h ! i) < deadline_ns (h ! par i)")
    case True
    have p: "par i < i" "par i < length h" using par_less [of i] True less.prems by simp_all
    have "heap_ordered (sift_up (swap_at h i (par i)) (par i))
        \<and> mset (sift_up (swap_at h i (par i)) (par i)) = mset (swap_at h i (par i))"
      using less.prems True up_ok_swap [of h i] p by (intro less.IH) simp_all
    then show ?thesis using True less.prems p by (simp add: sift_up_par [of h i] mset_swap_at)
  next
    case False
    have "sift_up h i = h" by (subst sift_up_par) (simp only: False if_False)
    with False up_ok_done [OF less.prems(1)] show ?thesis by auto
  qed
qed

lemma par_children: "0 < j \<Longrightarrow> par j = i \<longleftrightarrow> j = 2 * i + 1 \<or> j = 2 * i + 2"
  unfolding par_def by presburger

lemma smallest_child_spec:
  fixes h :: "Entry list" and i :: nat
  defines "c \<equiv> smallest_child h i"
  shows "c = i \<or> (0 < c \<and> c < length h \<and> par c = i \<and> deadline_ns (h ! c) < deadline_ns (h ! i))"
    and "\<And>j. j < length h \<Longrightarrow> 0 < j \<Longrightarrow> par j = i \<Longrightarrow> deadline_ns (h ! c) \<le> deadline_ns (h ! j)"
  unfolding c_def smallest_child_def Let_def
  by (auto simp: par_children not_less dest: less_imp_le intro: order.trans)

lemma down_ok_done:
  assumes "down_ok h i" and "smallest_child h i = i"
  shows "heap_ordered h"
  unfolding heap_ordered_def
proof (intro allI impI)
  fix j
  assume j: "j < length h" "0 < j"
  show "deadline_ns (h ! par j) \<le> deadline_ns (h ! j)"
  proof (cases "par j = i")
    case True
    with smallest_child_spec(2) [of j h i] j assms(2) show ?thesis by simp
  next
    case False
    with assms(1) j show ?thesis unfolding down_ok_def by blast
  qed
qed

lemma down_ok_swap:
  assumes d: "down_ok h i" and i: "i < length h" and c: "smallest_child h i = c" "c \<noteq> i"
  shows "down_ok (swap_at h i c) c"
proof -
  have cc: "0 < c" "c < length h" "par c = i" "deadline_ns (h ! c) < deadline_ns (h ! i)"
    using smallest_child_spec(1) [of h i] c by auto
  have ic: "i < c" using par_less [OF cc(1)] cc(3) by simp
  note least = smallest_child_spec(2) [of _ h i, unfolded c(1)]
  note nth = nth_swap_at [OF i cc(2)]
  note d1 = d [unfolded down_ok_def, THEN conjunct1, rule_format]
    and d2 = d [unfolded down_ok_def, THEN conjunct2, rule_format]
  have "deadline_ns (swap_at h i c ! par j) \<le> deadline_ns (swap_at h i c ! j)"
    if j: "j < length h" "0 < j" "par j \<noteq> c" for j
  proof -
    obtain q where q_eq: "par j = q" by simp
    have q: "q < length h" "q < j" "q \<noteq> c" using par_less [OF j(2)] j by (simp_all add: q_eq)
    show ?thesis
    proof (cases "q = i")
      case True
      have "deadline_ns (h ! c) \<le> deadline_ns (h ! j)" using least [OF j(1,2)] True q_eq by simp
      then show ?thesis using nth [OF j(1)] nth [OF q(1)] True q q_eq cc(4) by (cases "j = c") auto
    next
      case False
      have le: "deadline_ns (h ! q) \<le> deadline_ns (h ! j)" using d1 [OF j(1,2)] False q_eq by simp
      have "deadline_ns (h ! q) \<le> deadline_ns (h ! c)" if "j = i"
        using d2 [of c] cc q_eq that j(2) by simp
      moreover have "j \<noteq> c" using False q_eq cc(3) by blast
      ultimately show ?thesis using le nth [OF j(1)] nth [OF q(1)] False q q_eq by (cases "j = i") auto
    qed
  qed
  moreover have "deadline_ns (swap_at h i c ! par c) \<le> deadline_ns (swap_at h i c ! j)"
    if j: "j < length h" "0 < j" "par j = c" for j
  proof -
    have "c < j" using par_less [OF j(2)] j(3) by simp
    moreover have "deadline_ns (h ! c) \<le> deadline_ns (h ! j)" using d1 [OF j(1,2)] j(3) c(2) by simp
    ultimately show ?thesis using nth [OF i] nth [OF j(1)] ic cc(3) by simp
  qed
  ultimately show ?thesis unfolding down_ok_def by simp
qed

lemma sift_down_spec: "down_ok h i \<Longrightarrow> i < length h \<Longrightarrow> heap_ordered (sift_down h i) \<and> mset (sift_down h i) = mset h"
proof (induction "length h - i" arbitrary: h i rule: less_induct)
  case less
  obtain c where c: "smallest_child h i = c" by simp
  show ?case
  proof (cases "c = i")
    case True
    then show ?thesis using c down_ok_done [OF less.prems(1)] by (simp add: sift_down.simps [of h i])
  next
    case False
    have cc: "c < length h" "i < c" using smallest_child_cases [of h i] c False by auto
    have "heap_ordered (sift_down (swap_at h i c) c) \<and> mset (sift_down (swap_at h i c) c) = mset (swap_at h i c)"
      using down_ok_swap [OF less.prems c False] cc by (intro less.hyps) simp_all
    then show ?thesis using False c cc less.prems by (simp add: sift_down.simps [of h i] mset_swap_at)
  qed
qed

lemma sift_down_empty: "sift_down [] i = []"
  by (subst sift_down.simps) (simp add: smallest_child_def)

section \<open>What the operations do\<close>

lemma heap_first_least:
  assumes "heap_ordered h" "j < length h"
  shows "deadline_ns (h ! 0) \<le> deadline_ns (h ! j)"
  using assms(2)
proof (induction j rule: less_induct)
  case (less j)
  show ?case
  proof (cases "j = 0")
    case False
    then have "par j < j" "deadline_ns (h ! par j) \<le> deadline_ns (h ! j)"
      using par_less assms(1) less.prems by (auto simp: heap_ordered_def)
    with less show ?thesis by (meson less_trans order.trans)
  qed simp
qed

lemma dl_push_spec:
  assumes "heap_ordered (rs_items h)" and "length (rs_items h) < rs_cap h"
  shows "\<exists>h'. dl_push h e = Some h' \<and> heap_ordered (rs_items h') \<and> rs_cap h' = rs_cap h
    \<and> mset (rs_items h') = add_mset e (mset (rs_items h))"
proof -
  let ?xs = "rs_items h @ [e]"
  have "up_ok ?xs (length (rs_items h))"
    unfolding up_ok_def
  proof (intro conjI allI impI)
    fix j
    assume j: "j < length ?xs" "0 < j" "j \<noteq> length (rs_items h)"
    then have "par j < j" "j < length (rs_items h)" using par_less by auto
    with assms(1) j show "deadline_ns (?xs ! par j) \<le> deadline_ns (?xs ! j)"
      by (simp add: heap_ordered_def nth_append)
  next
    fix j
    assume j: "j < length ?xs" "0 < j" "par j = length (rs_items h)"
    then show "deadline_ns (?xs ! par (length (rs_items h))) \<le> deadline_ns (?xs ! j)" using par_less [of j] by simp
  qed
  from sift_up_spec [OF this] assms(2) show ?thesis by (simp add: dl_push_def Reserved_push_def)
qed

text \<open>Replacing the element at \<open>i\<close> by the last and shortening.\<close>

definition moved_last :: "'a list \<Rightarrow> nat \<Rightarrow> 'a list" where
  "moved_last h i = butlast (swap_at h i (length h - 1))"

lemma moved_last_props:
  assumes "i < length h"
  shows "length (moved_last h i) = length h - 1"
    and "\<And>j. j < length h - 1 \<Longrightarrow> moved_last h i ! j = (if j = i then last h else h ! j)"
    and "mset h = add_mset (h ! i) (mset (moved_last h i))"
    and "last (swap_at h i (length h - 1)) = h ! i"
proof -
  let ?s = "swap_at h i (length h - 1)"
  have ne: "h \<noteq> []" using assms by auto
  have sne: "?s \<noteq> []" using ne by (metis length_swap_at length_0_conv)
  show "length (moved_last h i) = length h - 1" by (simp add: moved_last_def)
  show l: "last ?s = h ! i" using ne assms nth_swap_at [of i h "length h - 1" "length h - 1"] sne
    by (auto simp: last_conv_nth)
  show "moved_last h i ! j = (if j = i then last h else h ! j)" if "j < length h - 1" for j
    using that assms ne nth_swap_at [of i h "length h - 1" j] by (simp add: moved_last_def nth_butlast last_conv_nth)
  have "mset ?s = mset (butlast ?s @ [last ?s])" using sne by simp
  then show "mset h = add_mset (h ! i) (mset (moved_last h i))"
    using assms ne mset_swap_at [of i h "length h - 1"] l by (simp add: moved_last_def)
qed

lemma dl_pop_spec:
  assumes "heap_ordered (rs_items h)" and "rs_items h \<noteq> []"
  shows "\<exists>h'. dl_pop_min h = (h', Some (hd (rs_items h))) \<and> heap_ordered (rs_items h') \<and> rs_cap h' = rs_cap h
    \<and> mset (rs_items h) = add_mset (hd (rs_items h)) (mset (rs_items h'))"
proof -
  let ?xs = "rs_items h" and ?m = "moved_last (rs_items h) 0"
  have pos: "0 < length ?xs" using assms(2) by simp
  note m = moved_last_props [OF pos]
  have "heap_ordered (sift_down ?m 0) \<and> mset (sift_down ?m 0) = mset ?m"
  proof (cases "?m = []")
    case True
    then show ?thesis by (simp add: sift_down_empty heap_ordered_def)
  next
    case False
    have "down_ok ?m 0"
      unfolding down_ok_def
    proof (intro conjI allI impI)
      fix j
      assume j: "j < length ?m" "0 < j" "par j \<noteq> 0"
      then have "par j < j" using par_less by simp
      with j m(2) assms(1) show "deadline_ns (?m ! par j) \<le> deadline_ns (?m ! j)"
        by (simp add: m(1) heap_ordered_def)
    qed simp
    then show ?thesis using sift_down_spec False by simp
  qed
  moreover have "dl_pop_min h = (h\<lparr>rs_items := sift_down ?m 0\<rparr>, Some (hd ?xs))"
    using pos m(4) by (simp add: dl_pop_min_def Let_def moved_last_def hd_conv_nth)
  ultimately show ?thesis using m(3) assms(2) by (simp add: hd_conv_nth)
qed

lemma position_Some: "position P xs = Some i \<Longrightarrow> i < length xs \<and> P (xs ! i) \<and> (\<forall>j<i. \<not> P (xs ! j))"
proof (induction xs arbitrary: i)
  case (Cons x xs)
  show ?case
  proof (cases "P x")
    case False
    with Cons.prems obtain k where k: "position P xs = Some k" "i = Suc k" by auto
    with Cons.IH False show ?thesis by (auto simp: less_Suc_eq_0_disj)
  qed (use Cons.prems in auto)
qed simp

lemma position_None: "position P xs = None \<longleftrightarrow> (\<forall>x\<in>set xs. \<not> P x)"
  by (induction xs) auto

text \<open>What the moved element may break: nothing but its place between its parent and its children.\<close>

lemma moved_last_ok:
  assumes h: "heap_ordered h" and i: "i < length h - 1"
  defines "m \<equiv> moved_last h i"
  shows "0 < i \<Longrightarrow> deadline_ns (m ! i) < deadline_ns (m ! par i) \<Longrightarrow> up_ok m i"
    and "i = 0 \<or> \<not> deadline_ns (m ! i) < deadline_ns (m ! par i) \<Longrightarrow> down_ok m i"
proof -
  have il: "i < length h" using i by simp
  note len = moved_last_props(1) [OF il, folded m_def] and nth = moved_last_props(2) [OF il, folded m_def]
  have keep: "deadline_ns (m ! par j) \<le> deadline_ns (m ! j)" if "j < length m" "0 < j" "j \<noteq> i" "par j \<noteq> i" for j
    using that h par_less [of j] by (simp add: len nth heap_ordered_def)
  have over: "deadline_ns (m ! par i) \<le> deadline_ns (m ! j)" if "j < length m" "0 < j" "par j = i" "0 < i" for j
  proof -
    have "par i < i" "i < j" using par_less that by auto
    moreover have "deadline_ns (h ! par i) \<le> deadline_ns (h ! i)" "deadline_ns (h ! i) \<le> deadline_ns (h ! j)"
      using h that il by (auto simp: heap_ordered_def len)
    ultimately show ?thesis using that i by (simp add: len nth)
  qed
  show "up_ok m i" if lt: "0 < i" "deadline_ns (m ! i) < deadline_ns (m ! par i)"
    unfolding up_ok_def
  proof (intro conjI allI impI)
    fix j
    assume j: "j < length m" "0 < j" "j \<noteq> i"
    then show "deadline_ns (m ! par j) \<le> deadline_ns (m ! j)"
      using keep over lt by (cases "par j = i") (auto intro: order.trans less_imp_le)
  qed (use over lt in auto)
  show "down_ok m i" if "i = 0 \<or> \<not> deadline_ns (m ! i) < deadline_ns (m ! par i)"
    unfolding down_ok_def
  proof (intro conjI allI impI)
    fix j
    assume j: "j < length m" "0 < j" "par j \<noteq> i"
    then show "deadline_ns (m ! par j) \<le> deadline_ns (m ! j)" using keep that by (cases "j = i") auto
  qed (use over in auto)
qed

lemma heap_ordered_butlast: "heap_ordered h \<Longrightarrow> heap_ordered (butlast h)"
  unfolding heap_ordered_def
proof (intro allI impI)
  fix j
  assume h: "\<forall>j<length h. 0 < j \<longrightarrow> deadline_ns (h ! par j) \<le> deadline_ns (h ! j)" and j: "j < length (butlast h)" "0 < j"
  then have "par j < length (butlast h)" using par_less [of j] by simp
  with h j show "deadline_ns (butlast h ! par j) \<le> deadline_ns (butlast h ! j)" by (simp add: nth_butlast)
qed

lemma dl_remove_None: "(\<forall>e\<in>set (rs_items h). target e \<noteq> tgt) \<Longrightarrow> dl_remove h tgt = (h, False)"
  by (simp add: dl_remove_def position_None [THEN iffD2])

lemma dl_remove_spec:
  assumes "heap_ordered (rs_items h)" and "\<exists>e\<in>set (rs_items h). target e = tgt"
  shows "\<exists>h' e. dl_remove h tgt = (h', True) \<and> heap_ordered (rs_items h') \<and> rs_cap h' = rs_cap h \<and> target e = tgt
    \<and> mset (rs_items h) = add_mset e (mset (rs_items h'))"
proof -
  let ?xs = "rs_items h"
  obtain i where i: "position (\<lambda>e. target e = tgt) ?xs = Some i"
    using assms(2) position_None [of "\<lambda>e. target e = tgt" ?xs] by (cases "position (\<lambda>e. target e = tgt) ?xs") auto
  have il: "i < length ?xs" and t: "target (?xs ! i) = tgt" using position_Some [OF i] by auto
  let ?m = "moved_last ?xs i"
  note m = moved_last_props [OF il]
  define ys where "ys = (if i < length ?m then if 0 < i \<and> deadline_ns (?m ! i) < deadline_ns (?m ! par i) then sift_up ?m i
    else sift_down ?m i else ?m)"
  have "heap_ordered ys \<and> mset ys = mset ?m"
  proof (cases "i < length ?m")
    case True
    then have i1: "i < length ?xs - 1" using m(1) by simp
    show ?thesis
      using True moved_last_ok [OF assms(1) i1] sift_up_spec [of ?m i] sift_down_spec [of ?m i] by (auto simp: ys_def)
  next
    case False
    then have "i = length ?xs - 1" using il m(1) by simp
    then have "?m = butlast ?xs" by (simp add: moved_last_def swap_at_def)
    then show ?thesis using False heap_ordered_butlast [OF assms(1)] by (simp add: ys_def)
  qed
  moreover have "dl_remove h tgt = (h\<lparr>rs_items := ys\<rparr>, True)"
    using i by (simp add: dl_remove_def Let_def ys_def moved_last_def par_def)
  ultimately show ?thesis using t m(3) by (intro exI [of _ "h\<lparr>rs_items := ys\<rparr>"] exI [of _ "?xs ! i"]) simp
qed

end
