(* ===== verification/Deadline_Slots.thy ===== *)
theory Deadline_Slots
  imports Deadline_Heap
begin

text \<open>
  The deadline heap as a queue that gives the earliest entry first, and the promise of slots: the
  contract \<open>deadline_queue\<close> is what the tick, the timers, the waits and the sends rely on, and the heap
  of \<^verbatim>\<open>sched/deadline.rs\<close> meets it. Slots promised before a push make the push succeed.
\<close>

text \<open>Taking up to \<open>n\<close> entries.\<close>

primrec pops :: "('q \<Rightarrow> 'q \<times> Entry option) \<Rightarrow> nat \<Rightarrow> 'q \<Rightarrow> Entry list" where
  "pops pop 0 q = []"
| "pops pop (Suc n) q = (case pop q of (_, None) \<Rightarrow> [] | (q', Some e) \<Rightarrow> e # pops pop n q')"

locale deadline_queue =
  fixes ok :: "'q \<Rightarrow> bool"
    and held :: "'q \<Rightarrow> Entry multiset"
    and room :: "'q \<Rightarrow> nat"
    and peek :: "'q \<Rightarrow> Entry option"
    and push :: "'q \<Rightarrow> Entry \<Rightarrow> 'q option"
    and pop_min :: "'q \<Rightarrow> 'q \<times> Entry option"
    and remove :: "'q \<Rightarrow> Target \<Rightarrow> 'q \<times> bool"
  assumes peek_empty: "ok q \<Longrightarrow> peek q = None \<longleftrightarrow> held q = {#}"
    and peek_pop: "ok q \<Longrightarrow> peek q = snd (pop_min q)"
    and pop_keeps: "ok q \<Longrightarrow> pop_min q = (q', None) \<Longrightarrow> q' = q"
    and pop_takes: "ok q \<Longrightarrow> pop_min q = (q', Some e) \<Longrightarrow>
      ok q' \<and> room q' = room q \<and> held q = add_mset e (held q')"
    and pop_least: "ok q \<Longrightarrow> pop_min q = (q', Some e) \<Longrightarrow> x \<in># held q \<Longrightarrow> deadline_ns e \<le> deadline_ns x"
    and push_full: "ok q \<Longrightarrow> push q e = None \<longleftrightarrow> room q \<le> size (held q)"
    and push_adds: "ok q \<Longrightarrow> push q e = Some q' \<Longrightarrow>
      ok q' \<and> room q' = room q \<and> held q' = add_mset e (held q)"
    and remove_misses: "ok q \<Longrightarrow> remove q t = (q', False) \<Longrightarrow> q' = q \<and> (\<forall>e\<in>#held q. target e \<noteq> t)"
    and remove_takes: "ok q \<Longrightarrow> remove q t = (q', True) \<Longrightarrow>
      ok q' \<and> room q' = room q \<and> (\<exists>e. target e = t \<and> held q = add_mset e (held q'))"
begin

lemma pops_held: "ok q \<Longrightarrow> mset (pops pop_min n q) \<subseteq># held q"
proof (induction n arbitrary: q)
  case (Suc n)
  obtain q' e where p: "pop_min q = (q', e)" by fastforce
  show ?case
  proof (cases e)
    case (Some x)
    with Suc.IH [of q'] pop_takes [OF Suc.prems p [unfolded Some]] p show ?thesis by simp
  qed (simp add: p)
qed simp

lemma pops_all: "ok q \<Longrightarrow> size (held q) \<le> n \<Longrightarrow> mset (pops pop_min n q) = held q"
proof (induction n arbitrary: q)
  case (Suc n)
  obtain q' e where p: "pop_min q = (q', e)" by fastforce
  show ?case
  proof (cases e)
    case None
    with p peek_pop [OF Suc.prems(1)] peek_empty [OF Suc.prems(1)] show ?thesis by simp
  next
    case (Some x)
    with Suc.IH [of q'] pop_takes [OF Suc.prems(1) p [unfolded Some]] p Suc.prems(2) show ?thesis by simp
  qed
qed simp

lemma pops_sorted: "ok q \<Longrightarrow> sorted (map deadline_ns (pops pop_min n q))"
proof (induction n arbitrary: q)
  case (Suc n)
  obtain q' e where p: "pop_min q = (q', e)" by fastforce
  show ?case
  proof (cases e)
    case (Some x)
    have t: "ok q'" "held q = add_mset x (held q')" using pop_takes [OF Suc.prems p [unfolded Some]] by auto
    have "deadline_ns x \<le> deadline_ns y" if "y \<in> set (pops pop_min n q')" for y
    proof -
      have "y \<in># held q'" using mset_subset_eqD [OF pops_held [OF t(1), of n]] that by simp
      then show ?thesis using pop_least [OF Suc.prems p [unfolded Some]] t(2) by simp
    qed
    with Suc.IH [OF t(1)] Some p show ?thesis by simp
  qed (simp add: p)
qed simp

end

definition heap_ok :: "Entry Reserved \<Rightarrow> bool" where
  "heap_ok h \<longleftrightarrow> heap_ordered (rs_items h)"

definition heap_held :: "Entry Reserved \<Rightarrow> Entry multiset" where
  "heap_held h = mset (rs_items h)"

lemma heap_pop_cases:
  assumes "heap_ok h"
  obtains (empty) "rs_items h = []" "dl_pop_min h = (h, None)"
    | (takes) h' where "rs_items h \<noteq> []" "dl_pop_min h = (h', Some (hd (rs_items h)))" "heap_ok h'" "rs_cap h' = rs_cap h"
        "heap_held h = add_mset (hd (rs_items h)) (heap_held h')"
proof (cases "rs_items h = []")
  case True
  then show thesis by (intro empty) (simp_all add: dl_pop_min_def)
next
  case False
  with dl_pop_spec [of h] assms takes show thesis unfolding heap_ok_def heap_held_def by blast
qed

lemma heap_remove_cases:
  assumes "heap_ok h"
  obtains (misses) "\<forall>e\<in>#heap_held h. target e \<noteq> t" "dl_remove h t = (h, False)"
    | (takes) h' e where "dl_remove h t = (h', True)" "heap_ok h'" "rs_cap h' = rs_cap h" "target e = t"
        "heap_held h = add_mset e (heap_held h')"
proof (cases "\<exists>e\<in>set (rs_items h). target e = t")
  case True
  with dl_remove_spec [of h t] assms takes show thesis unfolding heap_ok_def heap_held_def by blast
next
  case False
  with dl_remove_None [of h t] misses show thesis by (auto simp: heap_held_def)
qed

interpretation dq: deadline_queue heap_ok heap_held rs_cap dl_peek dl_push dl_pop_min dl_remove
proof
  fix q q' :: "Entry Reserved" and e x t
  assume ok: "heap_ok q"
  show "dl_peek q = None \<longleftrightarrow> heap_held q = {#}" by (simp add: dl_peek_def heap_held_def split: list.split)
  show "dl_peek q = snd (dl_pop_min q)"
    by (cases rule: heap_pop_cases [OF ok]) (auto simp: dl_peek_def neq_Nil_conv)
  show "q' = q" if "dl_pop_min q = (q', None)" using that by (cases rule: heap_pop_cases [OF ok]) auto
  show "heap_ok q' \<and> rs_cap q' = rs_cap q \<and> heap_held q = add_mset e (heap_held q')" if "dl_pop_min q = (q', Some e)"
    using that by (cases rule: heap_pop_cases [OF ok]) auto
  show "deadline_ns e \<le> deadline_ns x" if "dl_pop_min q = (q', Some e)" "x \<in># heap_held q"
  proof -
    have "e = rs_items q ! 0" using that(1) by (cases rule: heap_pop_cases [OF ok]) (auto simp: hd_conv_nth)
    with that(2) ok heap_first_least show ?thesis by (auto simp: heap_held_def heap_ok_def in_set_conv_nth)
  qed
  show "dl_push q e = None \<longleftrightarrow> rs_cap q \<le> size (heap_held q)"
    by (simp add: dl_push_def Reserved_push_def heap_held_def)
  show "heap_ok q' \<and> rs_cap q' = rs_cap q \<and> heap_held q' = add_mset e (heap_held q)" if p: "dl_push q e = Some q'"
  proof -
    have "length (rs_items q) < rs_cap q" using p by (auto simp: dl_push_def split: if_splits)
    then show ?thesis using dl_push_spec [of q e] ok p by (auto simp: heap_ok_def heap_held_def)
  qed
  show "q' = q \<and> (\<forall>e\<in>#heap_held q. target e \<noteq> t)" if "dl_remove q t = (q', False)"
    using that by (cases rule: heap_remove_cases [OF ok, of t]) auto
  show "heap_ok q' \<and> rs_cap q' = rs_cap q \<and> (\<exists>e. target e = t \<and> heap_held q = add_mset e (heap_held q'))"
    if "dl_remove q t = (q', True)"
    using that by (cases rule: heap_remove_cases [OF ok, of t]) auto
qed

section \<open>Slots\<close>

lemma all_kinds: "(\<forall>k. P k) \<longleftrightarrow> P DThread \<and> P DTimer \<and> P DPendingSend"
  using DeadlineKind.exhaust by metis

definition kind_held :: "Entry multiset \<Rightarrow> DeadlineKind \<Rightarrow> nat" where
  "kind_held M k = size (filter_mset (\<lambda>x. Target_kind (target x) = k) M)"

lemma kind_held_add [simp]:
  "kind_held (add_mset e M) k = kind_held M k + (if Target_kind (target e) = k then 1 else 0)"
  by (simp add: kind_held_def)

lemma kind_held_empty [simp]: "kind_held {#} k = 0"
  by (simp add: kind_held_def)

lemma kind_count_held: "kind_count (rs_items h) k = kind_held (heap_held h) k"
  by (simp add: kind_count_def kind_held_def heap_held_def flip: mset_filter size_mset)

lemma size_kinds: "size M = kind_held M DThread + kind_held M DTimer + kind_held M DPendingSend"
proof (induction M)
  case (add e M)
  then show ?case by (cases "target e") simp_all
qed simp

text \<open>Every entry has a promised slot, and the heap has room for every promise.\<close>

definition slots_ok :: "'a DeadlineState_scheme \<Rightarrow> bool" where
  "slots_ok g \<longleftrightarrow> heap_ok (deadlines g) \<and> promised_slots g \<le> rs_cap (deadlines g)
     \<and> (\<forall>k. kind_held (heap_held (deadlines g)) k \<le> deadline_slots g k)"

lemma slots_okD:
  assumes "slots_ok g"
  shows "heap_ok (deadlines g)" "promised_slots g \<le> rs_cap (deadlines g)"
    "kind_held (heap_held (deadlines g)) k \<le> deadline_slots g k"
  using assms by (simp_all add: slots_ok_def)

lemma slots_fit:
  assumes "slots_ok g"
  shows "size (heap_held (deadlines g)) \<le> promised_slots g"
  using assms by (simp add: slots_ok_def size_kinds promised_slots_def all_kinds)

lemma slots_room:
  assumes "slots_ok g" and "kind_held (heap_held (deadlines g)) k < deadline_slots g k"
  shows "size (heap_held (deadlines g)) < rs_cap (deadlines g)"
proof -
  have "size (heap_held (deadlines g)) < promised_slots g"
    using assms by (cases k) (simp_all add: slots_ok_def size_kinds promised_slots_def all_kinds)
  with assms(1) show ?thesis by (simp add: slots_ok_def)
qed

text \<open>A push into a promised slot is never refused and trips no assertion.\<close>

lemma push_promised_ok:
  assumes "slots_ok g" and "kind_held (heap_held (deadlines g)) (Target_kind (target e)) < deadline_slots g (Target_kind (target e))"
  obtains h where "push_promised g e = Some (g\<lparr>deadlines := h\<rparr>, True)" "slots_ok (g\<lparr>deadlines := h\<rparr>)"
    "heap_ok h" "heap_held h = add_mset e (heap_held (deadlines g))" "rs_cap h = rs_cap (deadlines g)"
proof -
  note ok = slots_okD(1) [OF assms(1)]
  obtain h where h: "dl_push (deadlines g) e = Some h"
    using dq.push_full [OF ok, of e] slots_room [OF assms] by (cases "dl_push (deadlines g) e") auto
  note a = dq.push_adds [OF ok h]
  show thesis
  proof
    show "push_promised g e = Some (g\<lparr>deadlines := h\<rparr>, True)"
      using assms(2) h by (simp add: push_promised_def kind_count_held)
    show "slots_ok (g\<lparr>deadlines := h\<rparr>)"
      using assms a by (auto simp: slots_ok_def promised_slots_def Suc_le_eq)
  qed (use a in auto)
qed

lemma slots_ok_less:
  assumes "slots_ok g" and "heap_ok h" "rs_cap h = rs_cap (deadlines g)" "heap_held h \<subseteq># heap_held (deadlines g)"
  shows "slots_ok (g\<lparr>deadlines := h\<rparr>)"
proof -
  have "kind_held (heap_held h) k \<le> kind_held (heap_held (deadlines g)) k" for k
    unfolding kind_held_def by (intro size_mset_mono multiset_filter_mono assms(4))
  with assms show ?thesis by (auto simp: slots_ok_def promised_slots_def intro: order.trans)
qed

lemma slots_ok_deadlines:
  "slots_ok g \<Longrightarrow> deadlines g' = deadlines g \<Longrightarrow> deadline_slots g' = deadline_slots g \<Longrightarrow> slots_ok g'"
  by (simp add: slots_ok_def promised_slots_def)

section \<open>Reserving\<close>

lemma push_each_fits:
  "length (rs_items r) + length xs \<le> rs_cap r \<Longrightarrow> push_each r xs = Some (r\<lparr>rs_items := rs_items r @ xs\<rparr>)"
  by (induction xs arbitrary: r) (simp_all add: Reserved_push_def)

lemma grown_capacity_covers: "grown_capacity p c = Some w \<Longrightarrow> p \<le> w"
  by (auto simp: grown_capacity_def split: if_splits)

lemma regrow_keeps:
  assumes "slots_ok g"
  obtains h spare where "regrow (deadlines g) \<lparr>rs_items = [], rs_cap = n\<rparr> = Some (h, spare)"
    "slots_ok (g\<lparr>deadlines := h\<rparr>)" "rs_cap h = max n (rs_cap (deadlines g))" "rs_items h = rs_items (deadlines g)"
proof (cases "n \<le> rs_cap (deadlines g)")
  case True
  with assms show thesis by (intro that [of "deadlines g"]) (simp_all add: regrow_def max_def)
next
  case False
  have "length (rs_items (deadlines g)) \<le> rs_cap (deadlines g)"
    using slots_fit [OF assms] slots_okD(2) [OF assms] by (simp add: heap_held_def)
  then have "push_each \<lparr>rs_items = [], rs_cap = n\<rparr> (rs_items (deadlines g)) = Some \<lparr>rs_items = rs_items (deadlines g), rs_cap = n\<rparr>"
    using push_each_fits [of "\<lparr>rs_items = [], rs_cap = n\<rparr>" "rs_items (deadlines g)"] False by simp
  with assms False show thesis
    by (intro that [of "\<lparr>rs_items = rs_items (deadlines g), rs_cap = n\<rparr>"])
      (simp_all add: regrow_def slots_ok_def heap_ok_def heap_held_def promised_slots_def)
qed

lemma slots_ok_promise:
  assumes "slots_ok g" and "promised_slots g + n \<le> rs_cap (deadlines g)"
  shows "slots_ok (g\<lparr>deadline_slots := (deadline_slots g)(k := deadline_slots g k + n)\<rparr>)"
proof -
  have "kind_held (heap_held (deadlines g)) j \<le> deadline_slots g j" for j using assms(1) by (rule slots_okD)
  with assms show ?thesis by (cases k) (auto simp: slots_ok_def promised_slots_def trans_le_add1)
qed

text \<open>One pass of the loop.\<close>

lemma reserve_slots_cases:
  assumes ok: "slots_ok g" and "reserve_slots passes g slots = Some (g', r)"
  obtains (promised) "promised_slots g + Slots_count slots \<le> rs_cap (deadlines g)" "r"
      "g' = g\<lparr>deadline_slots := (deadline_slots g)(Slots_kind slots := deadline_slots g (Slots_kind slots) + Slots_count slots)\<rparr>"
    | (never) "MOST_SLOTS < promised_slots g + Slots_count slots" "g' = g" "\<not> r"
    | (no_memory) pass rest where "passes = pass # rest" "pass g = (None, g')" "\<not> r"
    | (again) pass rest extra g1 h where "passes = pass # rest" "pass g = (Some extra, g1)"
        "slots_ok g1 \<Longrightarrow> slots_ok (g1\<lparr>deadlines := h\<rparr>)" "reserve_slots rest (g1\<lparr>deadlines := h\<rparr>) slots = Some (g', r)"
proof (cases "promised_slots g + Slots_count slots \<le> rs_cap (deadlines g)")
  case True
  with assms(2) show thesis by (intro promised) (auto simp: reserve_slots.simps Let_def)
next
  case room: False
  show thesis
  proof (cases "grown_capacity (promised_slots g + Slots_count slots) (rs_cap (deadlines g))")
    case None
    with room assms(2) show thesis
      by (intro never) (auto simp: reserve_slots.simps Let_def grown_capacity_def split: if_splits)
  next
    case want: (Some want)
    obtain pass rest where p: "passes = pass # rest"
      using assms(2) room want by (cases passes) (simp_all add: reserve_slots.simps Let_def)
    obtain a g1 where a: "pass g = (a, g1)" by fastforce
    show thesis
    proof (cases a)
      case None
      with room want p a assms(2) show thesis
        by (intro no_memory [OF p]) (simp_all add: reserve_slots.simps [of "pass # rest"] Let_def)
    next
      case (Some extra)
      obtain h spare where h: "regrow (deadlines g1) \<lparr>rs_items = [], rs_cap = want + extra\<rparr> = Some (h, spare)"
        using assms(2) room want p a Some
        by (cases "regrow (deadlines g1) \<lparr>rs_items = [], rs_cap = want + extra\<rparr>")
          (auto simp: reserve_slots.simps [of "pass # rest"] Let_def)
      have "slots_ok g1 \<Longrightarrow> slots_ok (g1\<lparr>deadlines := h\<rparr>)" using regrow_keeps h by (metis option.inject prod.inject)
      with h room want p a Some assms(2) show thesis
        by (intro again [OF p]) (simp_all add: reserve_slots.simps [of "pass # rest"] Let_def)
    qed
  qed
qed

text \<open>Whatever runs between the two holds of a pass, a promise is made only where the heap has room.\<close>

lemma reserve_slots_keeps:
  assumes "slots_ok g" and "\<forall>pass\<in>set passes. \<forall>g. slots_ok g \<longrightarrow> slots_ok (snd (pass g))"
    and "reserve_slots passes g slots = Some (g', r)"
  shows "slots_ok g'"
  using assms
proof (induction passes arbitrary: g)
  case Nil
  from Nil(1,3) show ?case by (cases rule: reserve_slots_cases) (use Nil(1) slots_ok_promise in auto)
next
  case (Cons p passes)
  from Cons.prems(1,3) show ?case
  proof (cases rule: reserve_slots_cases)
    case (again pass rest extra g1 h)
    have "slots_ok g1" using Cons.prems(1,2) again(1,2) by (metis list.set_intros(1) snd_conv)
    then show ?thesis using Cons.IH again Cons.prems(2) by auto
  next
    case (no_memory pass rest)
    then show ?thesis using Cons.prems(1,2) by (metis list.set_intros(1) snd_conv)
  qed (use Cons.prems(1) slots_ok_promise in auto)
qed

text \<open>With nothing in between and memory to be had, two passes of the test are enough.\<close>

lemma reserve_slots_returns:
  assumes "slots_ok g" and "promised_slots g + Slots_count slots \<le> MOST_SLOTS" and "pass g = (Some extra, g)"
  shows "\<exists>g'. reserve_slots [pass] g slots = Some (g', True) \<and> slots_ok g' \<and> heap_held (deadlines g') = heap_held (deadlines g)
    \<and> deadline_slots g' = (deadline_slots g)(Slots_kind slots := deadline_slots g (Slots_kind slots) + Slots_count slots)"
proof (cases "promised_slots g + Slots_count slots \<le> rs_cap (deadlines g)")
  case True
  with slots_ok_promise [OF assms(1) True] show ?thesis by (simp add: reserve_slots.simps Let_def)
next
  case False
  then obtain want where w: "grown_capacity (promised_slots g + Slots_count slots) (rs_cap (deadlines g)) = Some want"
    using assms(2) by (simp add: grown_capacity_def)
  obtain h spare where h: "regrow (deadlines g) \<lparr>rs_items = [], rs_cap = want + extra\<rparr> = Some (h, spare)"
    "slots_ok (g\<lparr>deadlines := h\<rparr>)" "rs_cap h = max (want + extra) (rs_cap (deadlines g))" "rs_items h = rs_items (deadlines g)"
    using regrow_keeps [OF assms(1)] by metis
  have fits: "promised_slots (g\<lparr>deadlines := h\<rparr>) + Slots_count slots \<le> rs_cap (deadlines (g\<lparr>deadlines := h\<rparr>))"
    using grown_capacity_covers [OF w] h(3) by (simp add: promised_slots_def)
  with slots_ok_promise [OF h(2) fits] False w h assms(3) show ?thesis
    by (simp add: reserve_slots.simps [of "[pass]"] reserve_slots.simps [of "[]"] Let_def heap_held_def)
qed

end
