(* ===== verification/Ipc_Ring.thy ===== *)
theory Ipc_Ring
  imports Nitrox_Prelude
begin

text \<open>
  IPC messages and the receive ring of an endpoint, \<^verbatim>\<open>kernel/src/libkern/ipc.rs\<close> and the first part
  of \<^verbatim>\<open>kernel/src/object/ipc_channel.rs\<close>. A fixed-size array is a list; an object reference is the
  object's address. The ring is a bounded first-in first-out queue, and a slot not in use holds no
  transferred reference.
\<close>

definition IPC_MSG_SIZE :: nat where "IPC_MSG_SIZE = 4096"
definition IPC_HEADER_SIZE :: nat where "IPC_HEADER_SIZE = 24"
definition IPC_HANDLE_MAX :: nat where "IPC_HANDLE_MAX = 8"
definition IPC_PAYLOAD_SIZE :: nat where "IPC_PAYLOAD_SIZE = IPC_MSG_SIZE - IPC_HEADER_SIZE - IPC_HANDLE_MAX * 8"
definition IPC_MAX_QUEUE_DEPTH :: u32 where "IPC_MAX_QUEUE_DEPTH = 512"

record IpcMsgHeader =
  sender_pid :: u32
  payload_len :: u32
  handle_count :: u8
  pad1 :: u8
  msg_flags :: u16
  pad2 :: "u8 list"
  timestamp :: u64

record StoredMsg =
  sm_header :: IpcMsgHeader
  sm_payload :: "u8 list"
  sm_handles :: "u64 list"

definition StoredMsg_zeroed :: StoredMsg where
  "StoredMsg_zeroed =
     \<lparr>sm_header = \<lparr>sender_pid = 0, payload_len = 0, handle_count = 0, pad1 = 0, msg_flags = 0, pad2 = replicate 4 0, timestamp = 0\<rparr>,
      sm_payload = replicate IPC_PAYLOAD_SIZE 0, sm_handles = replicate IPC_HANDLE_MAX 0\<rparr>"

text \<open>\<^verbatim>\<open>seal\<close>: the message with its padding and payload tail zeroed, and the payload's length.\<close>

definition seal :: "StoredMsg \<Rightarrow> StoredMsg \<times> nat option" where
  "seal m =
     (let len = unat (payload_len (sm_header m)) in
      if len \<le> length (sm_payload m)
      then (m\<lparr>sm_payload := take len (sm_payload m) @ replicate (length (sm_payload m) - len) 0,
              sm_header := (sm_header m)\<lparr>pad1 := 0, pad2 := replicate 4 0\<rparr>\<rparr>, Some len)
      else (m, None))"

record TransferRef =
  tr_obj :: u64
  tr_rights :: u64

type_synonym transfers = "TransferRef option list"

definition no_transfers :: transfers where
  "no_transfers = replicate IPC_HANDLE_MAX None"

record RingSlot =
  rg_msg :: StoredMsg
  rg_transfers :: transfers

definition RingSlot_empty :: RingSlot where
  "RingSlot_empty = \<lparr>rg_msg = StoredMsg_zeroed, rg_transfers = no_transfers\<rparr>"

record MsgRing =
  mr_slots :: "RingSlot list"
  mr_head :: nat
  mr_len :: nat

definition MsgRing_with_capacity :: "bool \<Rightarrow> nat \<Rightarrow> MsgRing option" where
  "MsgRing_with_capacity mem cap =
     (if mem then Some \<lparr>mr_slots = replicate cap RingSlot_empty, mr_head = 0, mr_len = 0\<rparr> else None)"

definition mr_cap :: "MsgRing \<Rightarrow> nat" where
  "mr_cap r = length (mr_slots r)"

definition mr_is_empty :: "MsgRing \<Rightarrow> bool" where
  "mr_is_empty r \<longleftrightarrow> mr_len r = 0"

definition mr_is_full :: "MsgRing \<Rightarrow> bool" where
  "mr_is_full r \<longleftrightarrow> mr_len r = mr_cap r"

text \<open>\<^verbatim>\<open>push_from\<close> moves the sender's transfers into the slot: those left to the sender come back.\<close>

definition push_from :: "MsgRing \<Rightarrow> StoredMsg \<Rightarrow> transfers \<Rightarrow> MsgRing \<times> transfers \<times> bool" where
  "push_from r src ts =
     (if mr_is_full r then (r, ts, False)
      else let cap = mr_cap r; idx = (mr_head r + mr_len r) mod cap
           in (r\<lparr>mr_slots := (mr_slots r)[idx := \<lparr>rg_msg = src, rg_transfers = ts\<rparr>], mr_len := mr_len r + 1\<rparr>,
               no_transfers, True))"

definition pop_into :: "MsgRing \<Rightarrow> MsgRing \<times> (StoredMsg \<times> transfers) option" where
  "pop_into r =
     (if mr_is_empty r then (r, None)
      else let slot = mr_slots r ! mr_head r
           in (r\<lparr>mr_slots := (mr_slots r)[mr_head r := slot\<lparr>rg_transfers := no_transfers\<rparr>],
                 mr_head := (mr_head r + 1) mod mr_cap r, mr_len := mr_len r - 1\<rparr>,
               Some (rg_msg slot, rg_transfers slot)))"

section \<open>The queue it implements\<close>

definition mr_contents :: "MsgRing \<Rightarrow> (StoredMsg \<times> transfers) list" where
  "mr_contents r = map (\<lambda>s. (rg_msg s, rg_transfers s)) (ring_list (mr_slots r) (mr_head r) (mr_len r))"

definition mr_used :: "MsgRing \<Rightarrow> nat set" where
  "mr_used r = (\<lambda>i. (mr_head r + i) mod mr_cap r) ` {..<mr_len r}"

definition mr_inv :: "MsgRing \<Rightarrow> bool" where
  "mr_inv r \<longleftrightarrow> mr_head r < mr_cap r \<and> mr_len r \<le> mr_cap r
     \<and> (\<forall>k<mr_cap r. k \<notin> mr_used r \<longrightarrow> rg_transfers (mr_slots r ! k) = no_transfers)"

definition mr_push :: "MsgRing \<Rightarrow> StoredMsg \<times> transfers \<Rightarrow> MsgRing option" where
  "mr_push r x = (case push_from r (fst x) (snd x) of (r', _, ok) \<Rightarrow> if ok then Some r' else None)"

definition mr_pop :: "MsgRing \<Rightarrow> ((StoredMsg \<times> transfers) \<times> MsgRing) option" where
  "mr_pop r = (case pop_into r of (_, None) \<Rightarrow> None | (r', Some x) \<Rightarrow> Some (x, r'))"

lemma length_mr_contents [simp]: "length (mr_contents r) = mr_len r"
  by (simp add: mr_contents_def)

lemma mr_full_contents: "mr_is_full r \<longleftrightarrow> length (mr_contents r) = mr_cap r"
  by (simp add: mr_is_full_def)

lemma mr_empty_contents: "mr_is_empty r \<longleftrightarrow> mr_contents r = []"
  by (simp add: mr_is_empty_def flip: length_0_conv)

lemma mr_used_less: "mr_head r < mr_cap r \<Longrightarrow> mr_used r \<subseteq> {..<mr_cap r}"
  by (auto simp: mr_used_def)

lemma mr_push_spec:
  assumes "mr_inv r" and "\<not> mr_is_full r"
  shows "mr_inv (fst (push_from r m ts))" "mr_contents (fst (push_from r m ts)) = mr_contents r @ [(m, ts)]"
    "mr_cap (fst (push_from r m ts)) = mr_cap r" "snd (push_from r m ts) = (no_transfers, True)"
proof -
  let ?idx = "(mr_head r + mr_len r) mod mr_cap r"
  define r' where "r' = fst (push_from r m ts)"
  have lt: "mr_len r < length (mr_slots r)" using assms by (simp add: mr_inv_def mr_is_full_def mr_cap_def)
  have r': "r' = r\<lparr>mr_slots := (mr_slots r)[?idx := \<lparr>rg_msg = m, rg_transfers = ts\<rparr>], mr_len := Suc (mr_len r)\<rparr>"
    using assms(2) by (simp add: r'_def push_from_def Let_def)
  show "mr_cap (fst (push_from r m ts)) = mr_cap r" using r' by (simp add: mr_cap_def flip: r'_def)
  show "snd (push_from r m ts) = (no_transfers, True)" using assms(2) by (simp add: push_from_def Let_def)
  have "ring_list (mr_slots r') (mr_head r') (mr_len r') = ring_list (mr_slots r) (mr_head r) (mr_len r) @ [\<lparr>rg_msg = m, rg_transfers = ts\<rparr>]"
    using ring_list_push [OF lt, of "mr_head r"] by (simp add: r' mr_cap_def)
  then show "mr_contents (fst (push_from r m ts)) = mr_contents r @ [(m, ts)]" unfolding r'_def [symmetric] by (simp add: mr_contents_def)
  have used: "mr_used r' = insert ?idx (mr_used r)" by (simp add: r' mr_used_def mr_cap_def lessThan_Suc)
  show "mr_inv (fst (push_from r m ts))"
    using assms(1) lt used unfolding r'_def [symmetric] by (auto simp: mr_inv_def r' mr_cap_def nth_list_update)
qed

lemma mr_used_pop:
  fixes n h c :: nat
  assumes "0 < n" "h < c" "n \<le> c"
  shows "(\<lambda>i. (h + i) mod c) ` {..<n} = insert h ((\<lambda>i. ((h + 1) mod c + i) mod c) ` {..<n - 1})"
proof -
  obtain m where n: "n = Suc m" using assms(1) by (cases n) auto
  have "(\<lambda>i. (h + i) mod c) ` {..<Suc m} = insert (h mod c) ((\<lambda>i. (h + Suc i) mod c) ` {..<m})"
    by (auto simp: lessThan_Suc_eq_insert_0 image_image)
  moreover have "((h + 1) mod c + i) mod c = (h + Suc i) mod c" for i by (simp add: mod_add_left_eq)
  ultimately show ?thesis using assms(2) n by simp
qed

lemma mr_pop_spec:
  assumes "mr_inv r" and "\<not> mr_is_empty r"
  shows "mr_inv (fst (pop_into r))" "mr_contents (fst (pop_into r)) = tl (mr_contents r)"
    "mr_cap (fst (pop_into r)) = mr_cap r" "snd (pop_into r) = Some (hd (mr_contents r))"
proof -
  define r' where "r' = fst (pop_into r)"
  obtain n where n: "mr_len r = Suc n" using assms(2) by (cases "mr_len r") (auto simp: mr_is_empty_def)
  have h: "mr_head r < length (mr_slots r)" "Suc n \<le> length (mr_slots r)" using assms(1) n by (auto simp: mr_inv_def mr_cap_def)
  let ?slot = "(mr_slots r ! mr_head r)\<lparr>rg_transfers := no_transfers\<rparr>"
  have r': "r' = r\<lparr>mr_slots := (mr_slots r)[mr_head r := ?slot], mr_head := (mr_head r + 1) mod mr_cap r, mr_len := n\<rparr>"
    using n by (simp add: r'_def pop_into_def mr_is_empty_def Let_def)
  show "mr_cap (fst (pop_into r)) = mr_cap r" using r' by (simp add: mr_cap_def flip: r'_def)
  have pos: "0 < length (mr_slots r)" using h(1) by linarith
  have "ring_list (mr_slots r') (mr_head r') (mr_len r') = tl (ring_list (mr_slots r) (mr_head r) (mr_len r))"
    using ring_list_pop_take [OF pos h, of ?slot] n by (simp add: r' mr_cap_def)
  then show "mr_contents (fst (pop_into r)) = tl (mr_contents r)"
    unfolding r'_def [symmetric] by (simp add: mr_contents_def map_tl)
  show "snd (pop_into r) = Some (hd (mr_contents r))"
    using n h ring_list_pop [OF pos, of "mr_head r" n] by (simp add: pop_into_def mr_is_empty_def Let_def mr_contents_def)
  have used: "mr_used r = insert (mr_head r) (mr_used r')"
    using mr_used_pop [of "mr_len r" "mr_head r" "mr_cap r"] n h by (simp add: mr_used_def r' mr_cap_def)
  show "mr_inv (fst (pop_into r))"
    using assms(1) used h pos unfolding r'_def [symmetric] by (auto simp: mr_inv_def r' mr_cap_def nth_list_update)
qed

interpretation mr: bounded_queue mr_inv mr_contents mr_cap mr_push mr_pop
proof
  fix q q' :: MsgRing and x
  assume inv: "mr_inv q"
  then show "length (mr_contents q) \<le> mr_cap q" by (simp add: mr_inv_def)
  show "mr_push q x = None \<longleftrightarrow> length (mr_contents q) = mr_cap q"
    using mr_push_spec(4) [OF inv, of "fst x" "snd x"]
    by (cases "mr_is_full q") (auto simp: mr_push_def push_from_def mr_full_contents Let_def split: if_splits)
  show "mr_inv q' \<and> mr_contents q' = mr_contents q @ [x] \<and> mr_cap q' = mr_cap q" if p: "mr_push q x = Some q'"
  proof -
    have "\<not> mr_is_full q" using p by (auto simp: mr_push_def push_from_def split: if_splits)
    moreover have "q' = fst (push_from q (fst x) (snd x))" using p by (auto simp: mr_push_def split: prod.splits if_splits)
    ultimately show ?thesis using mr_push_spec [OF inv, of "fst x" "snd x"] by simp
  qed
  show "mr_pop q = None \<longleftrightarrow> mr_contents q = []"
    using mr_pop_spec(4) [OF inv] mr_empty_contents [of q]
    by (cases "mr_is_empty q") (auto simp: mr_pop_def pop_into_def Let_def split: prod.splits option.splits)
  show "mr_inv q' \<and> mr_contents q = x # mr_contents q' \<and> mr_cap q' = mr_cap q" if p: "mr_pop q = Some (x, q')"
  proof -
    have ne: "\<not> mr_is_empty q" using p by (auto simp: mr_pop_def pop_into_def)
    have "q' = fst (pop_into q)" "snd (pop_into q) = Some x"
      using p by (auto simp: mr_pop_def split: prod.splits option.splits)
    then show ?thesis using mr_pop_spec [OF inv ne] ne mr_empty_contents [of q] by (cases "mr_contents q") auto
  qed
qed

text \<open>Every transferred reference in the slots is one of a queued message.\<close>

definition slot_refs :: "transfers \<Rightarrow> u64 set" where
  "slot_refs ts = tr_obj ` {t. Some t \<in> set ts}"

lemma slot_refs_none [simp]: "slot_refs no_transfers = {}"
  by (simp add: slot_refs_def no_transfers_def)

lemma UN_only_used:
  fixes F :: "nat \<Rightarrow> 'a set"
  assumes "\<And>k. k < c \<Longrightarrow> k \<notin> U \<Longrightarrow> F k = {}" and "U \<subseteq> {..<c}"
  shows "(\<Union>k<c. F k) = (\<Union>k\<in>U. F k)"
proof (intro equalityI subsetI)
  fix x
  assume "x \<in> (\<Union>k<c. F k)"
  then obtain k where k: "k < c" "x \<in> F k" by auto
  then have "k \<in> U" using assms(1) [of k] by blast
  with k show "x \<in> (\<Union>k\<in>U. F k)" by blast
qed (use assms(2) in blast)

lemma ring_refs:
  assumes "mr_inv r"
  shows "(\<Union>s\<in>set (mr_slots r). slot_refs (rg_transfers s)) = (\<Union>x\<in>set (mr_contents r). slot_refs (snd x))"
proof -
  have "slot_refs (rg_transfers (mr_slots r ! k)) = {}" if "k < mr_cap r" "k \<notin> mr_used r" for k
    using that assms by (simp add: mr_inv_def)
  moreover have "mr_used r \<subseteq> {..<mr_cap r}" using assms by (intro mr_used_less) (simp add: mr_inv_def)
  ultimately have "(\<Union>k<mr_cap r. slot_refs (rg_transfers (mr_slots r ! k))) = (\<Union>k\<in>mr_used r. slot_refs (rg_transfers (mr_slots r ! k)))"
    by (rule UN_only_used)
  moreover have "set (mr_slots r) = (!) (mr_slots r) ` {..<mr_cap r}" by (auto simp: mr_cap_def set_conv_nth)
  ultimately have "(\<Union>s\<in>set (mr_slots r). slot_refs (rg_transfers s)) = (\<Union>k\<in>mr_used r. slot_refs (rg_transfers (mr_slots r ! k)))"
    by simp
  also have "\<dots> = (\<Union>x\<in>set (mr_contents r). slot_refs (snd x))"
    by (auto simp: mr_used_def mr_contents_def ring_list_def mr_cap_def)
  finally show ?thesis .
qed

end
