(* ===== verification/Notification.thy ===== *)
theory Notification
  imports Deadline_Heap
begin

text \<open>
  Notifications (\<^verbatim>\<open>kernel/src/libkern/notification.rs\<close>) and the per-process queue of them
  (\<^verbatim>\<open>kernel/src/object/notification_channel.rs\<close>): a bounded queue that counts what it drops and
  keeps exceptions at the cost of other notifications.
\<close>

section \<open>Records\<close>

text \<open>\<^verbatim>\<open>to_le_bytes\<close> and \<^verbatim>\<open>from_le_bytes\<close> of the standard library.\<close>

definition le_bytes :: "nat \<Rightarrow> 'a::len word \<Rightarrow> u8 list" where
  "le_bytes n v = map (\<lambda>i. ucast (drop_bit (8 * i) v)) [0..<n]"

definition of_le_bytes :: "u8 list \<Rightarrow> 'a::len word" where
  "of_le_bytes bs = foldr (\<lambda>b acc. ucast b OR push_bit 8 acc) bs 0"

text \<open>\<^verbatim>\<open>b[off..off + len].copy_from_slice(bytes)\<close>, in range.\<close>

definition put_bytes :: "u8 list \<Rightarrow> nat \<Rightarrow> u8 list \<Rightarrow> u8 list" where
  "put_bytes b off bytes = take off b @ bytes @ drop (off + length bytes) b"

definition KIND_SEG_FAULT :: u32 where "KIND_SEG_FAULT = 0x0100"
definition KIND_ILLEGAL_INSN :: u32 where "KIND_ILLEGAL_INSN = 0x0101"
definition KIND_DIVIDE_BY_ZERO :: u32 where "KIND_DIVIDE_BY_ZERO = 0x0102"
definition KIND_CHILD_EXITED :: u32 where "KIND_CHILD_EXITED = 0x0200"
definition KIND_TERMINATE_REQUESTED :: u32 where "KIND_TERMINATE_REQUESTED = 0x0202"
definition KIND_NOTIFICATIONS_DROPPED :: u32 where "KIND_NOTIFICATIONS_DROPPED = 0x0401"
definition EXCEPTION_LO :: u32 where "EXCEPTION_LO = 0x0100"
definition EXCEPTION_HI :: u32 where "EXCEPTION_HI = 0x0200"

lemmas kind_defs = KIND_SEG_FAULT_def KIND_ILLEGAL_INSN_def KIND_DIVIDE_BY_ZERO_def KIND_CHILD_EXITED_def
  KIND_TERMINATE_REQUESTED_def KIND_NOTIFICATIONS_DROPPED_def EXCEPTION_LO_def EXCEPTION_HI_def

record Notification =
  nt_kind :: u32
  nt_body :: "u8 list"

record ExitStatus =
  ex_kind :: u32
  ex_code :: u32

definition Notification_zeroed :: "u32 \<Rightarrow> Notification" where
  "Notification_zeroed kind = \<lparr>nt_kind = kind, nt_body = replicate 60 0\<rparr>"

definition is_exception :: "Notification \<Rightarrow> bool" where
  "is_exception n \<longleftrightarrow> EXCEPTION_LO \<le> nt_kind n \<and> nt_kind n < EXCEPTION_HI"

definition fault_addr :: "Notification \<Rightarrow> u64" where
  "fault_addr n = of_le_bytes (take 8 (drop 4 (nt_body n)))"

definition put_field :: "Notification \<Rightarrow> nat \<Rightarrow> u8 list \<Rightarrow> Notification" where
  "put_field n off bytes = n\<lparr>nt_body := put_bytes (nt_body n) off bytes\<rparr>"

definition seg_fault :: "u32 \<Rightarrow> u64 \<Rightarrow> u32 \<Rightarrow> Notification" where
  "seg_fault thread addr fault =
     (let n = Notification_zeroed KIND_SEG_FAULT;
          n = put_field n 0 (le_bytes 4 thread);
          n = put_field n 4 (le_bytes 8 addr)
      in put_field n 12 (le_bytes 4 fault))"

definition illegal_insn :: "u32 \<Rightarrow> u64 \<Rightarrow> Notification" where
  "illegal_insn thread addr =
     (let n = Notification_zeroed KIND_ILLEGAL_INSN;
          n = put_field n 0 (le_bytes 4 thread)
      in put_field n 4 (le_bytes 8 addr))"

definition divide_by_zero :: "u32 \<Rightarrow> u64 \<Rightarrow> Notification" where
  "divide_by_zero thread addr =
     (let n = Notification_zeroed KIND_DIVIDE_BY_ZERO;
          n = put_field n 0 (le_bytes 4 thread)
      in put_field n 4 (le_bytes 8 addr))"

definition child_exited :: "u32 \<Rightarrow> ExitStatus \<Rightarrow> Notification" where
  "child_exited child status =
     (let n = Notification_zeroed KIND_CHILD_EXITED;
          n = put_field n 0 (le_bytes 4 child);
          n = put_field n 4 (le_bytes 4 (ex_kind status))
      in put_field n 8 (le_bytes 4 (ex_code status)))"

definition terminate_requested :: Notification where
  "terminate_requested = Notification_zeroed KIND_TERMINATE_REQUESTED"

definition notifications_dropped :: "u32 \<Rightarrow> Notification" where
  "notifications_dropped c = put_field (Notification_zeroed KIND_NOTIFICATIONS_DROPPED) 0 (le_bytes 4 c)"

section \<open>The channel\<close>

definition MAX_WAITERS :: nat where "MAX_WAITERS = 4"
definition QUEUE_CAP :: nat where "QUEUE_CAP = 64"

record NotifInner =
  nc_queue :: "Notification Reserved"
  nc_dropped :: u32
  nc_waiters :: "u64 list"

definition NotifInner_new :: "bool \<Rightarrow> NotifInner option" where
  "NotifInner_new mem = (if mem then Some \<lparr>nc_queue = \<lparr>rs_items = [], rs_cap = QUEUE_CAP\<rparr>, nc_dropped = 0, nc_waiters = []\<rparr> else None)"

definition Reserved_remove :: "'a Reserved \<Rightarrow> nat \<Rightarrow> 'a Reserved" where
  "Reserved_remove r i = r\<lparr>rs_items := take i (rs_items r) @ drop (Suc i) (rs_items r)\<rparr>"

text \<open>\<^verbatim>\<open>let _ = queue.push(n)\<close>: a refused push is dropped.\<close>

definition push_ignored :: "'a Reserved \<Rightarrow> 'a \<Rightarrow> 'a Reserved" where
  "push_ignored r x = (case Reserved_push r x of None \<Rightarrow> r | Some r \<Rightarrow> r)"

definition sat_inc :: "u32 \<Rightarrow> u32" where
  "sat_inc c = (if c = -1 then c else c + 1)"

definition notif_signaled :: "NotifInner \<Rightarrow> bool" where
  "notif_signaled c \<longleftrightarrow> rs_items (nc_queue c) \<noteq> [] \<or> 0 < nc_dropped c"

definition notif_enqueue :: "NotifInner \<Rightarrow> Notification \<Rightarrow> NotifInner \<times> bool" where
  "notif_enqueue c n =
     (let was_signaled = notif_signaled c;
          q = nc_queue c;
          c' = (if length (rs_items q) < QUEUE_CAP then c\<lparr>nc_queue := push_ignored q n\<rparr>
                else if is_exception n then
                  (case position (\<lambda>e. \<not> is_exception e) (rs_items q) of
                     Some i \<Rightarrow> c\<lparr>nc_queue := push_ignored (Reserved_remove q i) n\<rparr>
                   | None \<Rightarrow> c\<lparr>nc_dropped := sat_inc (nc_dropped c)\<rparr>)
                else c\<lparr>nc_dropped := sat_inc (nc_dropped c)\<rparr>)
      in (c', \<not> was_signaled))"

definition notif_recv :: "NotifInner \<Rightarrow> NotifInner \<times> Notification option" where
  "notif_recv c =
     (if 0 < nc_dropped c then (c\<lparr>nc_dropped := 0\<rparr>, Some (notifications_dropped (nc_dropped c)))
      else case rs_items (nc_queue c) of
        [] \<Rightarrow> (c, None)
      | n # _ \<Rightarrow> (c\<lparr>nc_queue := Reserved_remove (nc_queue c) 0\<rparr>, Some n))"

definition notif_inv :: "NotifInner \<Rightarrow> bool" where
  "notif_inv c \<longleftrightarrow> QUEUE_CAP \<le> rs_cap (nc_queue c) \<and> length (rs_items (nc_queue c)) \<le> QUEUE_CAP"

section \<open>What an enqueue keeps\<close>

lemma sat_inc_pos: "0 < sat_inc c"
proof (cases "c = -1")
  case False
  then have "c + 1 \<noteq> 0" by (simp only: add_eq_0_iff2 not_False_eq_True)
  with False show ?thesis by (simp add: sat_inc_def word_gt_0)
qed (simp add: sat_inc_def word_gt_0)

lemma evicted:
  assumes "position P xs = Some i"
  shows "\<exists>a x b. xs = a @ x # b \<and> P x \<and> (\<forall>y\<in>set a. \<not> P y) \<and> take i xs @ drop (Suc i) xs = a @ b"
proof -
  note p = position_Some [OF assms]
  have "xs = take i xs @ xs ! i # drop (Suc i) xs" using p by (simp add: id_take_nth_drop)
  moreover have "\<forall>y\<in>set (take i xs). \<not> P y" using p by (auto simp: in_set_conv_nth)
  ultimately show ?thesis using p by blast
qed

lemma notif_enqueue_signals: "notif_inv c \<Longrightarrow> notif_signaled (fst (notif_enqueue c n))"
  using sat_inc_pos
  by (auto simp: notif_enqueue_def notif_signaled_def Let_def push_ignored_def Reserved_push_def Reserved_remove_def
      notif_inv_def QUEUE_CAP_def split: option.splits)

lemma notif_enqueue_waiters [simp]: "nc_waiters (fst (notif_enqueue c n)) = nc_waiters c"
  by (simp add: notif_enqueue_def Let_def split: option.splits)

lemma notif_recv_waiters [simp]: "nc_waiters (fst (notif_recv c)) = nc_waiters c"
  by (simp add: notif_recv_def split: list.splits)

lemma notif_recv_quiet: "\<not> notif_signaled c \<Longrightarrow> notif_recv c = (c, None)"
  by (simp add: notif_signaled_def notif_recv_def)

lemma notif_enqueue_inv:
  assumes "notif_inv c"
  shows "notif_inv (fst (notif_enqueue c n))"
proof (cases "position (\<lambda>e. \<not> is_exception e) (rs_items (nc_queue c))")
  case None
  with assms show ?thesis
    by (auto simp: notif_enqueue_def Let_def notif_inv_def push_ignored_def Reserved_push_def)
next
  case (Some i)
  from position_Some [OF Some] have "i < length (rs_items (nc_queue c))" by simp
  with Some assms show ?thesis
    by (auto simp: notif_enqueue_def Let_def notif_inv_def push_ignored_def Reserved_push_def Reserved_remove_def)
qed

lemma notif_recv_inv: "notif_inv c \<Longrightarrow> notif_inv (fst (notif_recv c))"
  by (auto simp: notif_recv_def notif_inv_def Reserved_remove_def split: list.splits)

text \<open>The queue after an enqueue, in the three cases: room, an eviction, a counted drop.\<close>

lemma notif_enqueue_cases:
  assumes "notif_inv c"
  obtains (room) "length (rs_items (nc_queue c)) < QUEUE_CAP" "rs_items (nc_queue (fst (notif_enqueue c n))) = rs_items (nc_queue c) @ [n]"
      "nc_dropped (fst (notif_enqueue c n)) = nc_dropped c"
    | (evict) a x b where "length (rs_items (nc_queue c)) = QUEUE_CAP" "is_exception n" "rs_items (nc_queue c) = a @ x # b" "\<not> is_exception x"
        "\<forall>y\<in>set a. is_exception y" "rs_items (nc_queue (fst (notif_enqueue c n))) = a @ b @ [n]"
        "nc_dropped (fst (notif_enqueue c n)) = nc_dropped c"
    | (drop) "length (rs_items (nc_queue c)) = QUEUE_CAP" "is_exception n \<longrightarrow> (\<forall>y\<in>set (rs_items (nc_queue c)). is_exception y)"
        "rs_items (nc_queue (fst (notif_enqueue c n))) = rs_items (nc_queue c)" "nc_dropped (fst (notif_enqueue c n)) = sat_inc (nc_dropped c)"
proof (cases "length (rs_items (nc_queue c)) < QUEUE_CAP")
  case True
  with assms show thesis
    by (intro room) (simp_all add: notif_enqueue_def Let_def push_ignored_def Reserved_push_def notif_inv_def)
next
  case full: False
  then have len: "length (rs_items (nc_queue c)) = QUEUE_CAP" using assms by (simp add: notif_inv_def)
  show thesis
  proof (cases "is_exception n")
    case False
    with full show thesis by (intro drop [OF len]) (simp_all add: notif_enqueue_def Let_def)
  next
    case exc: True
    show thesis
    proof (cases "position (\<lambda>e. \<not> is_exception e) (rs_items (nc_queue c))")
      case None
      then have "\<forall>y\<in>set (rs_items (nc_queue c)). is_exception y" by (simp add: position_None)
      with None full exc show thesis by (intro drop [OF len]) (simp_all add: notif_enqueue_def Let_def)
    next
      case (Some i)
      obtain a x b where e: "rs_items (nc_queue c) = a @ x # b" "\<not> is_exception x" "\<forall>y\<in>set a. is_exception y"
        "take i (rs_items (nc_queue c)) @ drop (Suc i) (rs_items (nc_queue c)) = a @ b"
        using evicted [OF Some] by auto
      have "length (a @ b) < rs_cap (nc_queue c)" using len assms e(1) by (simp add: notif_inv_def)
      then have "push_ignored (Reserved_remove (nc_queue c) i) n = (nc_queue c)\<lparr>rs_items := a @ b @ [n]\<rparr>"
        unfolding push_ignored_def Reserved_push_def Reserved_remove_def e(4) by simp
      with full exc Some have "fst (notif_enqueue c n) = c\<lparr>nc_queue := (nc_queue c)\<lparr>rs_items := a @ b @ [n]\<rparr>\<rparr>"
        by (simp add: notif_enqueue_def Let_def)
      then show thesis by (intro evict [OF len exc e(1-3)]) simp_all
    qed
  qed
qed

end
