(* ===== verification/Waitables.thy ===== *)
theory Waitables
  imports Notification Deadline_Slots Ipc_Ring Handle_Values
begin

text \<open>
  The objects a thread can wait on and the part of a thread a wait uses: \<^verbatim>\<open>object/wait_queue.rs\<close>,
  \<^verbatim>\<open>object/timer.rs\<close>, \<^verbatim>\<open>object/pending_op.rs\<close>, \<^verbatim>\<open>object/interrupt_object.rs\<close>, the endpoint of
  \<^verbatim>\<open>object/ipc_channel.rs\<close> and the wait set of \<^verbatim>\<open>object/thread.rs\<close>, all under \<^verbatim>\<open>kernel/src\<close>. All of
  this state is touched only under the scheduler's lock, so an accessor is a function on the record.
\<close>

section \<open>Wait queues\<close>

type_synonym WaitQueue = "u64 list"

definition WaitQueue_add :: "WaitQueue \<Rightarrow> u64 \<Rightarrow> WaitQueue option" where
  "WaitQueue_add ws th = (if length ws < MAX_WAITERS then Some (ws @ [th]) else None)"

definition WaitQueue_remove :: "WaitQueue \<Rightarrow> u64 \<Rightarrow> WaitQueue" where
  "WaitQueue_remove ws th =
     (case position (\<lambda>w. w = th) ws of None \<Rightarrow> ws | Some i \<Rightarrow> take i ws @ drop (Suc i) ws)"

definition WaitQueue_take :: "WaitQueue \<Rightarrow> WaitQueue \<times> u64 list" where
  "WaitQueue_take ws = ([], ws)"

lemma WaitQueue_remove1: "WaitQueue_remove ws th = remove1 th ws"
proof (induction ws)
  case (Cons w ws)
  then show ?case
    by (cases "position (\<lambda>w. w = th) ws") (auto simp: WaitQueue_remove_def)
qed (simp add: WaitQueue_remove_def)

section \<open>Timers\<close>

record TimerInner =
  tm_deadline_ns :: u64
  tm_interval_ns :: u64
  tm_in_heap :: bool
  tm_waiters :: WaitQueue

definition TimerInner_new :: TimerInner where
  "TimerInner_new = \<lparr>tm_deadline_ns = 0, tm_interval_ns = 0, tm_in_heap = False, tm_waiters = []\<rparr>"

definition Timer_set_armed :: "u64 \<Rightarrow> u64 \<Rightarrow> TimerInner \<Rightarrow> TimerInner" where
  "Timer_set_armed deadline interval t = t\<lparr>tm_deadline_ns := deadline, tm_interval_ns := interval\<rparr>"

definition Timer_set_in_heap :: "bool \<Rightarrow> TimerInner \<Rightarrow> TimerInner" where
  "Timer_set_in_heap v t = t\<lparr>tm_in_heap := v\<rparr>"

text \<open>A one-shot the tick has fired: out of the heap with its deadline kept.\<close>

definition timer_fired :: "TimerInner \<Rightarrow> bool" where
  "timer_fired t \<longleftrightarrow> tm_interval_ns t = 0 \<and> \<not> tm_in_heap t"

definition Timer_already_signaled :: "u64 \<Rightarrow> TimerInner \<Rightarrow> bool" where
  "Timer_already_signaled now_ns t \<longleftrightarrow>
     tm_deadline_ns t \<noteq> 0 \<and> (tm_deadline_ns t \<le> now_ns \<or> timer_fired t)"

section \<open>Pending operations\<close>

text \<open>A status is the 32-bit two's complement of the code's \<^verbatim>\<open>i32\<close>.\<close>

record PendingOpInner =
  po_signaled :: bool
  po_status :: u32
  po_result :: u64
  po_waiters :: WaitQueue
  po_parked :: "(u64 \<times> u64) option"
  po_installing :: bool

definition PendingOpInner_new :: PendingOpInner where
  "PendingOpInner_new =
     \<lparr>po_signaled = False, po_status = 0, po_result = 0, po_waiters = [], po_parked = None, po_installing = False\<rparr>"

definition KError_TimedOut :: u32 where "KError_TimedOut = -12"
definition KError_PeerClosed :: u32 where "KError_PeerClosed = -13"

definition signal_with_result :: "u32 \<Rightarrow> u64 \<Rightarrow> PendingOpInner \<Rightarrow> PendingOpInner \<times> bool" where
  "signal_with_result status res p =
     (if po_signaled p then (p, False)
      else (p\<lparr>po_status := status, po_result := res, po_signaled := True\<rparr>, True))"

definition PendingOperation_park :: "(u64 \<times> u64) option \<Rightarrow> PendingOpInner \<Rightarrow> PendingOpInner" where
  "PendingOperation_park parked p = p\<lparr>po_parked := parked\<rparr>"

definition take_parked :: "PendingOpInner \<Rightarrow> PendingOpInner \<times> (unit + (u64 \<times> u64) option)" where
  "take_parked p =
     (if po_installing p then (p, Inl ())
      else (p\<lparr>po_installing := po_parked p \<noteq> None, po_parked := None\<rparr>, Inr (po_parked p)))"

definition PendingOperation_installed :: "u32 + u64 \<Rightarrow> PendingOpInner \<Rightarrow> PendingOpInner" where
  "PendingOperation_installed outcome p =
     (case outcome of
        Inr handle \<Rightarrow> p\<lparr>po_installing := False, po_result := handle\<rparr>
      | Inl status \<Rightarrow> p\<lparr>po_installing := False, po_status := status\<rparr>)"

section \<open>Interrupts\<close>

record InterruptInner =
  irq_pending :: u32
  irq_waiters :: WaitQueue

definition InterruptInner_new :: InterruptInner where
  "InterruptInner_new = \<lparr>irq_pending = 0, irq_waiters = []\<rparr>"

definition InterruptObject_signal :: "InterruptInner \<Rightarrow> InterruptInner" where
  "InterruptObject_signal i = i\<lparr>irq_pending := sat_inc (irq_pending i)\<rparr>"

definition InterruptObject_consume :: "InterruptInner \<Rightarrow> InterruptInner" where
  "InterruptObject_consume i = (if 0 < irq_pending i then i\<lparr>irq_pending := irq_pending i - 1\<rparr> else i)"

section \<open>Endpoints\<close>

record PendingSend =
  ps_msg :: StoredMsg
  ps_transfers :: transfers
  ps_po :: u64
  ps_cancelled :: bool

record IpcInner =
  ipc_recv :: MsgRing
  ipc_waiters :: WaitQueue
  ipc_pending :: "PendingSend Reserved"
  ipc_peer :: u64
  ipc_us_reg :: u64

definition IpcInner_new :: "bool \<Rightarrow> bool \<Rightarrow> nat \<Rightarrow> IpcInner option" where
  "IpcInner_new ring_mem sends_mem cap =
     (case MsgRing_with_capacity ring_mem cap of
        None \<Rightarrow> None
      | Some r \<Rightarrow> if sends_mem
          then Some \<lparr>ipc_recv = r, ipc_waiters = [], ipc_pending = \<lparr>rs_items = [], rs_cap = MAX_PENDING_SENDS\<rparr>, ipc_peer = 0, ipc_us_reg = 0\<rparr>
          else None)"

datatype RecvState = HasMsg | REmpty | RPeerClosed

definition IpcChannel_recv_peek :: "IpcInner \<Rightarrow> RecvState" where
  "IpcChannel_recv_peek e =
     (if \<not> mr_is_empty (ipc_recv e) then HasMsg else if ipc_peer e = 0 then RPeerClosed else REmpty)"

definition IpcChannel_already_signaled :: "IpcInner \<Rightarrow> bool" where
  "IpcChannel_already_signaled e \<longleftrightarrow> \<not> mr_is_empty (ipc_recv e) \<or> ipc_peer e = 0"

definition cancel_pending_send :: "u64 \<Rightarrow> IpcInner \<Rightarrow> IpcInner \<times> bool" where
  "cancel_pending_send po e =
     (case position (\<lambda>p. ps_po p = po) (rs_items (ipc_pending e)) of
        Some i \<Rightarrow> (e\<lparr>ipc_pending := (ipc_pending e)\<lparr>rs_items :=
            (rs_items (ipc_pending e))[i := (rs_items (ipc_pending e) ! i)\<lparr>ps_cancelled := True\<rparr>]\<rparr>\<rparr>, True)
      | None \<Rightarrow> (e, False))"

text \<open>
  \<^verbatim>\<open>promote_pending_send\<close>: the endpoint, the operation promoted, and what was reclaimed. The number of
  cancelled sends swept never passes the array they are swept into, which has room for every held send.
\<close>

record ReclaimedSend =
  rc_po :: u64
  rc_transfers :: transfers

fun promote_loop :: "MsgRing \<Rightarrow> PendingSend list \<Rightarrow> ReclaimedSend list \<Rightarrow> MsgRing \<times> PendingSend list \<times> ReclaimedSend list \<times> u64 option" where
  "promote_loop r [] reclaimed = (r, [], reclaimed, None)"
| "promote_loop r (p # ps) reclaimed =
     (if ps_cancelled p then promote_loop r ps (reclaimed @ [\<lparr>rc_po = ps_po p, rc_transfers = ps_transfers p\<rparr>])
      else if mr_is_full r then (r, p # ps, reclaimed, None)
      else (fst (push_from r (ps_msg p) (ps_transfers p)), ps, reclaimed, Some (ps_po p)))"

definition promote_pending_send :: "IpcInner \<Rightarrow> IpcInner \<times> ReclaimedSend list \<times> u64 option" where
  "promote_pending_send e =
     (case promote_loop (ipc_recv e) (rs_items (ipc_pending e)) [] of
        (r, ps, reclaimed, po) \<Rightarrow> (e\<lparr>ipc_recv := r, ipc_pending := (ipc_pending e)\<lparr>rs_items := ps\<rparr>\<rparr>, reclaimed, po))"

definition pending_send_pos :: "IpcInner \<Rightarrow> u64 list" where
  "pending_send_pos e = take MAX_PENDING_SENDS (map ps_po (rs_items (ipc_pending e)))"

section \<open>Waitable objects\<close>

text \<open>A live object behind an address, by the type in its header.\<close>

datatype waitable =
    WTimer TimerInner
  | WNotif NotifInner
  | WIpc IpcInner
  | WPo PendingOpInner
  | WIrq InterruptInner

fun w_waiters :: "waitable \<Rightarrow> WaitQueue" where
  "w_waiters (WTimer t) = tm_waiters t"
| "w_waiters (WNotif c) = nc_waiters c"
| "w_waiters (WIpc e) = ipc_waiters e"
| "w_waiters (WPo p) = po_waiters p"
| "w_waiters (WIrq i) = irq_waiters i"

fun w_set_waiters :: "WaitQueue \<Rightarrow> waitable \<Rightarrow> waitable" where
  "w_set_waiters ws (WTimer t) = WTimer (t\<lparr>tm_waiters := ws\<rparr>)"
| "w_set_waiters ws (WNotif c) = WNotif (c\<lparr>nc_waiters := ws\<rparr>)"
| "w_set_waiters ws (WIpc e) = WIpc (e\<lparr>ipc_waiters := ws\<rparr>)"
| "w_set_waiters ws (WPo p) = WPo (p\<lparr>po_waiters := ws\<rparr>)"
| "w_set_waiters ws (WIrq i) = WIrq (i\<lparr>irq_waiters := ws\<rparr>)"

fun already_signaled :: "u64 \<Rightarrow> waitable \<Rightarrow> bool" where
  "already_signaled now (WTimer t) = Timer_already_signaled now t"
| "already_signaled now (WNotif c) = notif_signaled c"
| "already_signaled now (WIpc e) = IpcChannel_already_signaled e"
| "already_signaled now (WPo p) = po_signaled p"
| "already_signaled now (WIrq i) = (0 < irq_pending i)"

lemma w_waiters_set [simp]: "w_waiters (w_set_waiters ws w) = ws"
  by (cases w) simp_all

section \<open>The wait set of a thread\<close>

definition MAX_WAIT_HANDLES :: nat where "MAX_WAIT_HANDLES = 32"

datatype WaitPhase = PRunning | PWaiting | PWoken

datatype ThreadState = TReady | TRunning | TBlocked | TSuspended | TExited

record ThreadWait =
  th_state :: ThreadState
  th_wait_objs :: "u64 list"
  th_wait_signaled :: "bool list"
  th_wait_count :: nat
  th_has_deadline :: bool
  th_phase :: WaitPhase
  th_ending :: bool
  th_pid :: u32

definition wait_register :: "u64 list \<Rightarrow> bool \<Rightarrow> ThreadWait \<Rightarrow> ThreadWait" where
  "wait_register objs has_deadline t =
     t\<lparr>th_wait_objs := objs @ drop (length objs) (th_wait_objs t),
       th_wait_signaled := replicate (length objs) False @ drop (length objs) (th_wait_signaled t),
       th_wait_count := length objs, th_has_deadline := has_deadline, th_phase := PWaiting\<rparr>"

text \<open>The loop marks the first slot that names the target.\<close>

definition wait_mark_signaled :: "u64 \<Rightarrow> ThreadWait \<Rightarrow> ThreadWait \<times> bool" where
  "wait_mark_signaled tgt t =
     (case position (\<lambda>ob. ob = tgt) (take (th_wait_count t) (th_wait_objs t)) of
        Some i \<Rightarrow> (t\<lparr>th_wait_signaled := (th_wait_signaled t)[i := True]\<rparr>, True)
      | None \<Rightarrow> (t, False))"

definition wait_signaled :: "ThreadWait \<Rightarrow> bool list" where
  "wait_signaled t =
     take (th_wait_count t) (th_wait_signaled t) @ replicate (MAX_WAIT_HANDLES - th_wait_count t) False"

definition wait_clear :: "ThreadWait \<Rightarrow> ThreadWait" where
  "wait_clear t = t\<lparr>th_wait_count := 0, th_has_deadline := False, th_phase := PRunning\<rparr>"

definition wait_try_wake :: "ThreadWait \<Rightarrow> ThreadWait \<times> bool" where
  "wait_try_wake t = (if th_phase t = PWaiting then (t\<lparr>th_phase := PWoken\<rparr>, True) else (t, False))"

definition waiting_on :: "ThreadWait \<Rightarrow> u64 list" where
  "waiting_on t = take (th_wait_count t) (th_wait_objs t)"

end
