(* ===== verification/Us_Reg.thy ===== *)
theory Us_Reg
  imports Waitables
begin

text \<open>
  The registration of a userspace server, \<^verbatim>\<open>kernel/src/object/userspace_server.rs\<close>: the tables of
  lookups and page-cache fills forwarded to the server and not answered yet, each under the request
  id its reply must echo. The file cache, which has a lock of its own, is not part of this theory.
\<close>

definition LOOKUP_SUFFIX_MAX :: nat where "LOOKUP_SUFFIX_MAX = 256"
definition US_PENDING_MAX :: nat where "US_PENDING_MAX = 8"

datatype SizeChange = Grow | Create | Truncate

datatype ForwardOp = Plain | SizeOp u32 SizeChange | Rename u16

record Forward =
  fw_op :: ForwardOp
  fw_dest :: "u8 list"
  fw_depth :: u8

record PendingLookup =
  pl_request_id :: u64
  pl_po :: u64
  pl_requested :: u64
  pl_suffix :: "u8 list"
  pl_suffix_len :: u16
  pl_op :: ForwardOp
  pl_dest :: "u8 list"
  pl_dest_len :: u16
  pl_depth :: u8

definition PendingLookup_dest :: "PendingLookup \<Rightarrow> u8 list option" where
  "PendingLookup_dest l =
     (let n = unat (pl_dest_len l) in if LOOKUP_SUFFIX_MAX < n then None else Some (take n (pl_dest l)))"

definition PendingLookup_suffix :: "PendingLookup \<Rightarrow> u8 list option" where
  "PendingLookup_suffix l =
     (let n = unat (pl_suffix_len l) in if LOOKUP_SUFFIX_MAX < n then None else Some (take n (pl_suffix l)))"

record PendingFill =
  pf_request_id :: u64
  pf_po :: u64
  pf_file :: u64
  pf_frame :: u64
  pf_index :: nat

record UsReg =
  us_endpoint :: u64
  us_pending :: "PendingLookup option list"
  us_fill :: "PendingFill option list"
  us_next_id :: u64
  us_live :: bool

definition UsReg_new :: "u64 \<Rightarrow> UsReg" where
  "UsReg_new endpoint =
     \<lparr>us_endpoint = endpoint, us_pending = replicate US_PENDING_MAX None, us_fill = replicate US_PENDING_MAX None,
      us_next_id = 1, us_live = True\<rparr>"

text \<open>A buffer of \<^verbatim>\<open>LOOKUP_SUFFIX_MAX\<close> zeroed bytes with as much of the path as fits copied in.\<close>

definition path_buf :: "u8 list \<Rightarrow> u8 list" where
  "path_buf path = put_bytes (replicate LOOKUP_SUFFIX_MAX 0) 0 (take (min (length path) LOOKUP_SUFFIX_MAX) path)"

definition begin_forward :: "u64 \<Rightarrow> u64 \<Rightarrow> u8 list \<Rightarrow> Forward \<Rightarrow> UsReg \<Rightarrow> UsReg \<times> u64 option" where
  "begin_forward po requested suffix fwd u =
     (case position (\<lambda>s. s = None) (us_pending u) of
        None \<Rightarrow> (u, None)
      | Some slot \<Rightarrow>
          let request_id = us_next_id u in
          (u\<lparr>us_next_id := us_next_id u + 1,
             us_pending := (us_pending u)[slot := Some
               \<lparr>pl_request_id = request_id, pl_po = po, pl_requested = requested,
                pl_suffix = path_buf suffix, pl_suffix_len = of_nat (length suffix), pl_op = fw_op fwd,
                pl_dest = path_buf (fw_dest fwd), pl_dest_len = of_nat (length (fw_dest fwd)), pl_depth = fw_depth fwd\<rparr>]\<rparr>,
           Some request_id))"

definition begin_fill :: "u64 \<Rightarrow> u64 \<Rightarrow> u64 \<Rightarrow> nat \<Rightarrow> UsReg \<Rightarrow> UsReg \<times> u64 option" where
  "begin_fill po file frame index u =
     (case position (\<lambda>s. s = None) (us_fill u) of
        None \<Rightarrow> (u, None)
      | Some slot \<Rightarrow>
          let request_id = us_next_id u in
          (u\<lparr>us_next_id := us_next_id u + 1,
             us_fill := (us_fill u)[slot := Some
               \<lparr>pf_request_id = request_id, pf_po = po, pf_file = file, pf_frame = frame, pf_index = index\<rparr>]\<rparr>,
           Some request_id))"

text \<open>\<^verbatim>\<open>position\<close> and \<^verbatim>\<open>take\<close> of the slot found.\<close>

definition take_slot_where :: "('a \<Rightarrow> bool) \<Rightarrow> 'a option list \<Rightarrow> 'a option list \<times> 'a option" where
  "take_slot_where P xs =
     (case position (\<lambda>s. case s of Some p \<Rightarrow> P p | None \<Rightarrow> False) xs of
        None \<Rightarrow> (xs, None)
      | Some i \<Rightarrow> (xs[i := None], xs ! i))"

definition take_pending_matching :: "u64 \<Rightarrow> UsReg \<Rightarrow> UsReg \<times> PendingLookup option" where
  "take_pending_matching request_id u =
     (case take_slot_where (\<lambda>p. pl_request_id p = request_id) (us_pending u) of (xs, r) \<Rightarrow> (u\<lparr>us_pending := xs\<rparr>, r))"

definition take_pending_fill_matching :: "u64 \<Rightarrow> UsReg \<Rightarrow> UsReg \<times> PendingFill option" where
  "take_pending_fill_matching request_id u =
     (case take_slot_where (\<lambda>p. pf_request_id p = request_id) (us_fill u) of (xs, r) \<Rightarrow> (u\<lparr>us_fill := xs\<rparr>, r))"

definition take_pending_next :: "UsReg \<Rightarrow> UsReg \<times> PendingLookup option" where
  "take_pending_next u = (case take_slot_where (\<lambda>p. True) (us_pending u) of (xs, r) \<Rightarrow> (u\<lparr>us_pending := xs\<rparr>, r))"

definition take_pending_fill_next :: "UsReg \<Rightarrow> UsReg \<times> PendingFill option" where
  "take_pending_fill_next u = (case take_slot_where (\<lambda>p. True) (us_fill u) of (xs, r) \<Rightarrow> (u\<lparr>us_fill := xs\<rparr>, r))"

section \<open>Tables of outstanding requests\<close>

definition table :: "'a option list \<Rightarrow> 'a multiset" where
  "table xs = mset (map the (filter (\<lambda>s. s \<noteq> None) xs))"

lemma table_Nil [simp]: "table [] = {#}"
  by (simp add: table_def)

lemma table_Cons [simp]: "table (s # xs) = (case s of None \<Rightarrow> table xs | Some p \<Rightarrow> add_mset p (table xs))"
  by (simp add: table_def split: option.split)

lemma table_free [simp]: "table (replicate n None) = {#}"
  by (induction n) simp_all

lemma table_put: "position (\<lambda>s. s = None) xs = Some i \<Longrightarrow> table (xs[i := Some p]) = add_mset p (table xs)"
proof (induction xs arbitrary: i)
  case (Cons s xs)
  then show ?case by (cases s) (auto simp: ac_simps)
qed simp

lemma take_slot_whereD:
  assumes "take_slot_where P xs = (ys, r)"
  shows "case r of None \<Rightarrow> ys = xs \<and> (\<forall>p\<in>#table xs. \<not> P p) | Some p \<Rightarrow> P p \<and> table xs = add_mset p (table ys) \<and> length ys = length xs"
  using assms
proof (induction xs arbitrary: ys r)
  case Nil
  then show ?case by (simp add: take_slot_where_def)
next
  case (Cons s xs)
  obtain zs q where t: "take_slot_where P xs = (zs, q)" by fastforce
  show ?case
  proof (cases "\<exists>p. s = Some p \<and> P p")
    case True
    with Cons.prems show ?thesis by (auto simp: take_slot_where_def)
  next
    case False
    then have "ys = s # zs \<and> r = q"
      using Cons.prems t by (auto simp: take_slot_where_def split: option.splits)
    with Cons.IH [OF t] False show ?thesis by (auto split: option.splits)
  qed
qed

lemma take_slot_where_Some:
  assumes "p \<in># table xs" and "P p"
  shows "\<exists>q ys. take_slot_where P xs = (ys, Some q) \<and> P q"
proof -
  obtain ys r where t: "take_slot_where P xs = (ys, r)" by fastforce
  from take_slot_whereD [OF t] assms t show ?thesis by (cases r) auto
qed

lemma position_free: "position (\<lambda>s. s = None) xs = None \<longleftrightarrow> size (table xs) = length xs"
proof -
  have le: "size (table xs) \<le> length xs" for xs :: "'a option list"
    by (induction xs) (auto split: option.split intro: le_SucI)
  show ?thesis
  proof (induction xs)
    case (Cons s xs)
    then show ?case using le [of xs] by (cases s) auto
  qed simp
qed

text \<open>Request ids in flight are distinct and were all given out.\<close>

definition us_inv :: "UsReg \<Rightarrow> bool" where
  "us_inv u \<longleftrightarrow> length (us_pending u) = US_PENDING_MAX \<and> length (us_fill u) = US_PENDING_MAX
     \<and> (\<forall>c. count (image_mset pl_request_id (table (us_pending u)) + image_mset pf_request_id (table (us_fill u))) c \<le> 1)
     \<and> (\<forall>p\<in>#table (us_pending u). pl_request_id p < us_next_id u) \<and> (\<forall>p\<in>#table (us_fill u). pf_request_id p < us_next_id u)"

lemma us_inv_new: "us_inv (UsReg_new ep)"
  by (simp add: us_inv_def UsReg_new_def)

lemma fresh_id:
  assumes "(n :: u64) \<noteq> -1"
  shows "n < n + 1"
proof -
  have "n + 1 \<noteq> 0" using assms by (simp only: add_eq_0_iff2 not_False_eq_True)
  then have "unat (n + 1) \<noteq> 0" by (simp add: unat_eq_zero)
  moreover have "unat (n + 1) = (unat n + 1) mod 18446744073709551616" by (simp add: unat_word_ariths)
  ultimately have "unat n + 1 < 18446744073709551616" using unat_u64_lt [of n] by (cases "unat n + 1 = 18446744073709551616") auto
  then show ?thesis using \<open>unat (n + 1) = _\<close> by (simp add: word_less_nat_alt)
qed

lemma us_inv_fresh:
  assumes "us_inv u"
  shows "us_next_id u \<notin># image_mset pl_request_id (table (us_pending u)) + image_mset pf_request_id (table (us_fill u))"
  using assms by (auto simp: us_inv_def)

lemma us_inv_grow:
  assumes "us_inv u" "us_next_id u \<noteq> -1"
    and "length ps = US_PENDING_MAX" "length fs = US_PENDING_MAX"
    and ids: "image_mset pl_request_id (table ps) + image_mset pf_request_id (table fs)
      = add_mset (us_next_id u) (image_mset pl_request_id (table (us_pending u)) + image_mset pf_request_id (table (us_fill u)))"
  shows "us_inv (u\<lparr>us_next_id := us_next_id u + 1, us_pending := ps, us_fill := fs\<rparr>)"
proof -
  let ?ids = "image_mset pl_request_id (table (us_pending u)) + image_mset pf_request_id (table (us_fill u))"
  have old: "\<forall>c. count ?ids c \<le> 1" "\<forall>c\<in>#?ids. c < us_next_id u" using assms(1) by (auto simp: us_inv_def)
  have lt: "us_next_id u < us_next_id u + 1" using assms(2) by (rule fresh_id)
  have "count ?ids (us_next_id u) = 0" using old(2) by (metis less_irrefl not_in_iff)
  then have once: "\<forall>c. count (add_mset (us_next_id u) ?ids) c \<le> 1" using old(1) by simp
  have "\<forall>c\<in>#add_mset (us_next_id u) ?ids. c < us_next_id u + 1" using old(2) lt by (auto intro: less_trans)
  then have "\<forall>c\<in>#image_mset pl_request_id (table ps) + image_mset pf_request_id (table fs). c < us_next_id u + 1"
    unfolding ids .
  then show ?thesis using once assms(3,4) unfolding us_inv_def by (simp add: ids [symmetric])
qed

lemma begin_forward_full: "size (table (us_pending u)) = length (us_pending u) \<Longrightarrow> begin_forward po rq suffix fwd u = (u, None)"
  by (simp add: begin_forward_def position_free [THEN iffD2])

lemma begin_forward_ok:
  assumes "us_inv u" "us_next_id u \<noteq> -1" and "size (table (us_pending u)) < US_PENDING_MAX"
  shows "\<exists>l. snd (begin_forward po rq suffix fwd u) = Some (us_next_id u) \<and> us_inv (fst (begin_forward po rq suffix fwd u))
    \<and> table (us_pending (fst (begin_forward po rq suffix fwd u))) = add_mset l (table (us_pending u))
    \<and> us_fill (fst (begin_forward po rq suffix fwd u)) = us_fill u
    \<and> l = \<lparr>pl_request_id = us_next_id u, pl_po = po, pl_requested = rq,
                pl_suffix = path_buf suffix, pl_suffix_len = of_nat (length suffix), pl_op = fw_op fwd,
                pl_dest = path_buf (fw_dest fwd), pl_dest_len = of_nat (length (fw_dest fwd)), pl_depth = fw_depth fwd\<rparr>"
proof -
  have "length (us_pending u) = US_PENDING_MAX" using assms(1) by (simp add: us_inv_def)
  then obtain i where i: "position (\<lambda>s. s = None) (us_pending u) = Some i"
    using assms(3) position_free [of "us_pending u"] by (cases "position (\<lambda>s. s = None) (us_pending u)") auto
  note put = table_put [OF i]
  have "us_inv (u\<lparr>us_next_id := us_next_id u + 1, us_pending := (us_pending u)[i := Some l], us_fill := us_fill u\<rparr>)"
    if "pl_request_id l = us_next_id u" for l
    using assms(1) that by (intro us_inv_grow [OF assms(1,2)]) (simp_all add: us_inv_def put)
  then show ?thesis using i put by (simp add: begin_forward_def Let_def)
qed

text \<open>The path kept with a lookup is the path asked for, or known to be lost.\<close>

lemma path_buf_take: "length path \<le> LOOKUP_SUFFIX_MAX \<Longrightarrow> take (length path) (path_buf path) = path"
  by (simp add: path_buf_def put_bytes_def)

lemma path_kept:
  assumes "length path < 65536"
  shows "(let n = unat (of_nat (length path) :: u16) in if LOOKUP_SUFFIX_MAX < n then None else Some (take n (path_buf path)))
    = (if length path \<le> LOOKUP_SUFFIX_MAX then Some path else None)"
proof -
  have "unat (of_nat (length path) :: u16) = length path" using assms by (simp add: unat_of_nat)
  then show ?thesis by (simp add: Let_def path_buf_take not_less)
qed

text \<open>A reply takes the request it answers, once.\<close>

lemma us_inv_taken:
  assumes "us_inv u" and "table (us_pending u) = add_mset l (table ps)" "length ps = length (us_pending u)"
  shows "us_inv (u\<lparr>us_pending := ps\<rparr>)" "pl_request_id l \<notin># image_mset pl_request_id (table ps)"
proof -
  have c: "\<forall>c. count (image_mset pl_request_id (add_mset l (table ps)) + image_mset pf_request_id (table (us_fill u))) c \<le> 1"
    using assms(1,2) by (simp add: us_inv_def)
  have "count (image_mset pl_request_id (table ps)) (pl_request_id l) = 0" using c [rule_format, of "pl_request_id l"] by simp
  then show "pl_request_id l \<notin># image_mset pl_request_id (table ps)" by (meson count_eq_zero_iff)
  have "count (image_mset pl_request_id (table ps) + image_mset pf_request_id (table (us_fill u))) x \<le> 1" for x
    using c [rule_format, of x] by (simp split: if_splits)
  then show "us_inv (u\<lparr>us_pending := ps\<rparr>)" using assms by (simp add: us_inv_def)
qed

lemma take_pending_matching_hit:
  assumes "us_inv u" and "l \<in># table (us_pending u)"
  obtains u' where "take_pending_matching (pl_request_id l) u = (u', Some l)" "us_inv u'"
    "table (us_pending u) = add_mset l (table (us_pending u'))" "us_fill u' = us_fill u"
    "take_pending_matching (pl_request_id l) u' = (u', None)"
proof -
  obtain q ys where q: "take_slot_where (\<lambda>p. pl_request_id p = pl_request_id l) (us_pending u) = (ys, Some q)"
    "pl_request_id q = pl_request_id l"
    using take_slot_where_Some [OF assms(2), of "\<lambda>p. pl_request_id p = pl_request_id l"] by auto
  have t: "table (us_pending u) = add_mset q (table ys)" "length ys = length (us_pending u)" using take_slot_whereD [OF q(1)] by auto
  note tk = us_inv_taken [OF assms(1) t]
  have "q = l" using assms(2) t(1) tk(2) q(2) by auto
  moreover obtain zs r where z: "take_slot_where (\<lambda>p. pl_request_id p = pl_request_id l) ys = (zs, r)" by fastforce
  moreover have "r = None \<and> zs = ys"
  proof (cases r)
    case (Some p)
    with take_slot_whereD [OF z] tk(2) q(2) show ?thesis by auto
  qed (use take_slot_whereD [OF z] in auto)
  ultimately show thesis using q t tk by (intro that [of "u\<lparr>us_pending := ys\<rparr>"]) (simp_all add: take_pending_matching_def)
qed

end
