(* ===== verification/Sched.thy ===== *)
theory Sched
  imports Us_Reg
begin

text \<open>
  What the scheduler does to waits and waitable objects, each under one hold of \<^verbatim>\<open>SCHED\<close>:
  \<^verbatim>\<open>sched/objects.rs\<close>, \<^verbatim>\<open>sched/timers.rs\<close>, \<^verbatim>\<open>sched/wait.rs\<close>, and of \<^verbatim>\<open>sched/exit.rs\<close> and
  \<^verbatim>\<open>sched/current.rs\<close> what delivers, receives and wakes (all under \<^verbatim>\<open>kernel/src\<close>).

  The state holds the live objects, threads and registrations by address, the blocked list, and the
  threads made runnable in the order they were placed; which processor's run queue takes a woken
  thread is not modelled. Following an address that names nothing leaves the state as it is: the
  invariant of \<^verbatim>\<open>Sched_Invariant\<close> has none to follow. A result None is a failed assertion or an
  exhausted reserve.
\<close>

record SchedState = DeadlineState +
  sk_objs :: "u64 \<rightharpoonup> waitable"
  sk_threads :: "u64 \<rightharpoonup> ThreadWait"
  sk_regs :: "u64 \<rightharpoonup> UsReg"
  sk_blocked :: "u64 Reserved"
  sk_ready :: "u64 list"

definition upd_obj :: "SchedState \<Rightarrow> u64 \<Rightarrow> (waitable \<Rightarrow> waitable) \<Rightarrow> SchedState" where
  "upd_obj g ob f = g\<lparr>sk_objs := (sk_objs g)(ob := map_option f (sk_objs g ob))\<rparr>"

definition upd_thread :: "SchedState \<Rightarrow> u64 \<Rightarrow> (ThreadWait \<Rightarrow> ThreadWait) \<Rightarrow> SchedState" where
  "upd_thread g th f = g\<lparr>sk_threads := (sk_threads g)(th := map_option f (sk_threads g th))\<rparr>"

section \<open>Waking\<close>

text \<open>\<^verbatim>\<open>make_runnable\<close>, with the placement on a run queue reduced to the order of placements.\<close>

definition make_runnable :: "SchedState \<Rightarrow> u64 \<Rightarrow> SchedState \<times> bool" where
  "make_runnable g thread =
     (case position (\<lambda>r. r = thread) (rs_items (sk_blocked g)) of
        None \<Rightarrow> (g, False)
      | Some i \<Rightarrow>
          let g = g\<lparr>sk_blocked := Reserved_remove (sk_blocked g) i\<rparr>;
              g = upd_thread g thread (\<lambda>t. t\<lparr>th_state := TReady\<rparr>)
          in (g\<lparr>sk_ready := sk_ready g @ [thread]\<rparr>, True))"

text \<open>The compare-and-swap of a waker, and the move to the run queue when it wins.\<close>

definition wake_thread :: "SchedState \<Rightarrow> u64 \<Rightarrow> SchedState \<times> bool" where
  "wake_thread g th =
     (case sk_threads g th of
        None \<Rightarrow> (g, False)
      | Some t \<Rightarrow>
          (case wait_try_wake t of
             (t', True) \<Rightarrow> (fst (make_runnable (g\<lparr>sk_threads := (sk_threads g)(th \<mapsto> t')\<rparr>) th), True)
           | (_, False) \<Rightarrow> (g, False)))"

fun wake_all :: "SchedState \<Rightarrow> u64 list \<Rightarrow> u64 \<Rightarrow> SchedState \<times> bool" where
  "wake_all g [] tgt = (g, False)"
| "wake_all g (th # ws) tgt =
     (let g = upd_thread g th (\<lambda>t. fst (wait_mark_signaled tgt t));
          (g, won) = wake_thread g th;
          (g, woke) = wake_all g ws tgt
      in (g, won \<or> woke))"

definition obj_waiters :: "SchedState \<Rightarrow> u64 \<Rightarrow> WaitQueue" where
  "obj_waiters g ob = (case sk_objs g ob of None \<Rightarrow> [] | Some w \<Rightarrow> w_waiters w)"

text \<open>Take every waiter of an object and wake them.\<close>

definition signal_waiters :: "SchedState \<Rightarrow> u64 \<Rightarrow> SchedState \<times> bool" where
  "signal_waiters g ob = wake_all (upd_obj g ob (w_set_waiters [])) (obj_waiters g ob) ob"

definition signal_channel :: "SchedState \<Rightarrow> u64 \<Rightarrow> SchedState \<times> bool" where
  "signal_channel g channel = signal_waiters g channel"

definition signal_ipc_endpoint :: "SchedState \<Rightarrow> u64 \<Rightarrow> SchedState" where
  "signal_ipc_endpoint g endpoint = fst (signal_waiters g endpoint)"

section \<open>Waitable dispatch\<close>

definition obj_already_signaled :: "SchedState \<Rightarrow> u64 \<Rightarrow> u64 \<Rightarrow> bool" where
  "obj_already_signaled g ob now = (case sk_objs g ob of None \<Rightarrow> False | Some w \<Rightarrow> already_signaled now w)"

definition obj_add_waiter :: "SchedState \<Rightarrow> u64 \<Rightarrow> u64 \<Rightarrow> SchedState option" where
  "obj_add_waiter g ob th =
     (case sk_objs g ob of
        None \<Rightarrow> None
      | Some w \<Rightarrow>
          (case WaitQueue_add (w_waiters w) th of
             None \<Rightarrow> None
           | Some ws \<Rightarrow> Some (upd_obj g ob (w_set_waiters ws))))"

definition obj_remove_waiter :: "SchedState \<Rightarrow> u64 \<Rightarrow> u64 \<Rightarrow> SchedState" where
  "obj_remove_waiter g ob th = upd_obj g ob (\<lambda>w. w_set_waiters (WaitQueue_remove (w_waiters w) th) w)"

section \<open>Notifications, pending operations and interrupts\<close>

definition notify :: "SchedState \<Rightarrow> u64 \<Rightarrow> Notification \<Rightarrow> SchedState \<times> bool" where
  "notify g chan n =
     (case sk_objs g chan of
        Some (WNotif c) \<Rightarrow> signal_channel (g\<lparr>sk_objs := (sk_objs g)(chan \<mapsto> WNotif (fst (notif_enqueue c n)))\<rparr>) chan
      | _ \<Rightarrow> (g, False))"

text \<open>The channel of the process asked to exit, if it has one, is an argument.\<close>

definition request_terminate :: "SchedState \<Rightarrow> u64 option \<Rightarrow> SchedState \<times> bool" where
  "request_terminate g chan =
     (case chan of None \<Rightarrow> (g, False) | Some c \<Rightarrow> (fst (notify g c terminate_requested), True))"

definition deliver_child_exited :: "SchedState \<Rightarrow> (u64 \<times> u32) option \<Rightarrow> ExitStatus \<Rightarrow> SchedState" where
  "deliver_child_exited g info status =
     (case info of None \<Rightarrow> g | Some (chan, child_pid) \<Rightarrow> fst (notify g chan (child_exited child_pid status)))"

definition deliver_fault :: "SchedState \<Rightarrow> u64 option \<Rightarrow> Notification \<Rightarrow> SchedState \<times> bool" where
  "deliver_fault g chan n = (case chan of None \<Rightarrow> (g, False) | Some c \<Rightarrow> notify g c n)"

definition notif_try_recv :: "SchedState \<Rightarrow> u64 \<Rightarrow> SchedState \<times> Notification option" where
  "notif_try_recv g chan =
     (case sk_objs g chan of
        Some (WNotif c) \<Rightarrow> (case notif_recv c of (c', n) \<Rightarrow> (g\<lparr>sk_objs := (sk_objs g)(chan \<mapsto> WNotif c')\<rparr>, n))
      | _ \<Rightarrow> (g, None))"

definition signal_pending_op_with_result :: "SchedState \<Rightarrow> u64 \<Rightarrow> u32 \<Rightarrow> u64 \<Rightarrow> SchedState" where
  "signal_pending_op_with_result g po status res =
     (case sk_objs g po of
        Some (WPo p) \<Rightarrow>
          (case signal_with_result status res p of
             (_, False) \<Rightarrow> g
           | (p', True) \<Rightarrow> fst (signal_waiters (g\<lparr>sk_objs := (sk_objs g)(po \<mapsto> WPo p')\<rparr>) po))
      | _ \<Rightarrow> g)"

definition signal_pending_op :: "SchedState \<Rightarrow> u64 \<Rightarrow> u32 \<Rightarrow> SchedState" where
  "signal_pending_op g po status = signal_pending_op_with_result g po status 0"

definition complete_pending_op :: "SchedState \<Rightarrow> u64 \<Rightarrow> u32 \<Rightarrow> u64 \<Rightarrow> SchedState" where
  "complete_pending_op g po status res = signal_pending_op_with_result g po status res"

definition pending_op_completion :: "SchedState \<Rightarrow> u64 \<Rightarrow> (u32 \<times> u64) option" where
  "pending_op_completion g po =
     (case sk_objs g po of Some (WPo p) \<Rightarrow> Some (po_status p, po_result p) | _ \<Rightarrow> None)"

definition complete_lookup :: "SchedState \<Rightarrow> u64 \<Rightarrow> u32 \<Rightarrow> (u64 \<times> u64) option \<Rightarrow> SchedState \<times> (u64 \<times> u64) option" where
  "complete_lookup g po status parked =
     (case sk_objs g po of
        Some (WPo p) \<Rightarrow>
          (if po_signaled p then (g, parked)
           else (signal_pending_op_with_result (g\<lparr>sk_objs := (sk_objs g)(po \<mapsto> WPo (PendingOperation_park parked p))\<rparr>) po status 0, None))
      | _ \<Rightarrow> (g, parked))"

datatype Completion = CRead u32 u64 | CInstall u64 u64 | CInstalling

definition pending_op_take :: "SchedState \<Rightarrow> u64 \<Rightarrow> SchedState \<times> Completion option" where
  "pending_op_take g po =
     (case sk_objs g po of
        Some (WPo p) \<Rightarrow>
          (case take_parked p of
             (p', r) \<Rightarrow> (g\<lparr>sk_objs := (sk_objs g)(po \<mapsto> WPo p')\<rparr>,
               Some (case r of Inl _ \<Rightarrow> CInstalling
                 | Inr (Some (ob, rights)) \<Rightarrow> CInstall ob rights
                 | Inr None \<Rightarrow> CRead (po_status p) (po_result p))))
      | _ \<Rightarrow> (g, None))"

definition pending_op_installed :: "SchedState \<Rightarrow> u64 \<Rightarrow> u32 + u64 \<Rightarrow> SchedState" where
  "pending_op_installed g po outcome =
     (case sk_objs g po of
        Some (WPo p) \<Rightarrow> g\<lparr>sk_objs := (sk_objs g)(po \<mapsto> WPo (PendingOperation_installed outcome p))\<rparr>
      | _ \<Rightarrow> g)"

definition signal_interrupt :: "SchedState \<Rightarrow> u64 \<Rightarrow> SchedState" where
  "signal_interrupt g irq =
     (case sk_objs g irq of
        Some (WIrq i) \<Rightarrow> fst (signal_waiters (g\<lparr>sk_objs := (sk_objs g)(irq \<mapsto> WIrq (InterruptObject_signal i))\<rparr>) irq)
      | _ \<Rightarrow> g)"

definition interrupt_consume :: "SchedState \<Rightarrow> u64 \<Rightarrow> SchedState" where
  "interrupt_consume g irq =
     (case sk_objs g irq of
        Some (WIrq i) \<Rightarrow> g\<lparr>sk_objs := (sk_objs g)(irq \<mapsto> WIrq (InterruptObject_consume i))\<rparr>
      | _ \<Rightarrow> g)"

section \<open>Timers\<close>

definition set_timer :: "SchedState \<Rightarrow> u64 \<Rightarrow> TimerInner \<Rightarrow> SchedState" where
  "set_timer g timer t = g\<lparr>sk_objs := (sk_objs g)(timer \<mapsto> WTimer t)\<rparr>"

definition get_timer :: "SchedState \<Rightarrow> u64 \<Rightarrow> TimerInner option" where
  "get_timer g timer = (case sk_objs g timer of Some (WTimer t) \<Rightarrow> Some t | _ \<Rightarrow> None)"

definition sat_add :: "u64 \<Rightarrow> u64 \<Rightarrow> u64" where
  "sat_add a b = (if a + b < a then -1 else a + b)"

definition fire_timer :: "SchedState \<Rightarrow> u64 \<Rightarrow> u64 \<Rightarrow> SchedState option" where
  "fire_timer g timer now =
     (let g = fst (signal_waiters g timer) in
      case get_timer g timer of
        None \<Rightarrow> Some g
      | Some t \<Rightarrow>
          let interval = tm_interval_ns t in
          if 0 < interval then
            let next = sat_add now interval;
                g = set_timer g timer (Timer_set_in_heap True (Timer_set_armed next interval t))
            in map_option fst (push_promised g \<lparr>deadline_ns = next, target = TTimer timer\<rparr>)
          else Some g)"

definition unheap :: "SchedState \<Rightarrow> u64 \<Rightarrow> SchedState" where
  "unheap g timer =
     (case get_timer g timer of
        Some t \<Rightarrow>
          if tm_in_heap t
          then set_timer (g\<lparr>deadlines := fst (dl_remove (deadlines g) (TTimer timer))\<rparr>) timer (Timer_set_in_heap False t)
          else g
      | None \<Rightarrow> g)"

definition timer_arm :: "SchedState \<Rightarrow> u64 \<Rightarrow> u64 \<Rightarrow> u64 \<Rightarrow> (SchedState \<times> bool) option" where
  "timer_arm g timer deadline interval =
     (let g = unheap g timer in
      case get_timer g timer of
        None \<Rightarrow> Some (g, True)
      | Some t \<Rightarrow>
          let t = Timer_set_armed deadline interval t; g = set_timer g timer t in
          if deadline = 0 then Some (g, True)
          else case push_promised g \<lparr>deadline_ns = deadline, target = TTimer timer\<rparr> of
            None \<Rightarrow> None
          | Some (g, False) \<Rightarrow> Some (set_timer g timer (Timer_set_armed 0 0 t), False)
          | Some (g, True) \<Rightarrow> Some (set_timer g timer (Timer_set_in_heap True t), True))"

definition timer_closing :: "SchedState \<Rightarrow> u64 \<Rightarrow> SchedState" where
  "timer_closing g timer = unheap g timer"

text \<open>One turn of the tick's loop, on the entry just popped.\<close>

definition fire_target :: "SchedState \<Rightarrow> Target \<Rightarrow> u64 \<Rightarrow> SchedState option" where
  "fire_target g tgt now =
     (case tgt of
        TThread th \<Rightarrow> Some (fst (wake_thread g th))
      | TTimer timer \<Rightarrow>
          (case get_timer g timer of
             None \<Rightarrow> Some g
           | Some t \<Rightarrow> fire_timer (set_timer g timer (Timer_set_in_heap False t)) timer now)
      | TPendingSend po channel \<Rightarrow>
          let g = (case sk_objs g channel of
                     Some (WIpc e) \<Rightarrow> g\<lparr>sk_objs := (sk_objs g)(channel \<mapsto> WIpc (fst (cancel_pending_send po e)))\<rparr>
                   | _ \<Rightarrow> g)
          in Some (signal_pending_op g po KError_TimedOut))"

partial_function (option) fire_expired_deadlines :: "u64 \<Rightarrow> SchedState \<Rightarrow> SchedState option" where
  "fire_expired_deadlines now g =
     (case dl_peek (deadlines g) of
        None \<Rightarrow> Some g
      | Some e \<Rightarrow>
          if now < deadline_ns e then Some g
          else Option.bind (fire_target (g\<lparr>deadlines := fst (dl_pop_min (deadlines g))\<rparr>) (target e) now)
                 (fire_expired_deadlines now))"

section \<open>What a wake leaves alone\<close>

lemma make_runnable_frame [simp]:
  "sk_objs (fst (make_runnable g th)) = sk_objs g" "sk_regs (fst (make_runnable g th)) = sk_regs g"
  "deadlines (fst (make_runnable g th)) = deadlines g" "deadline_slots (fst (make_runnable g th)) = deadline_slots g"
  by (simp_all add: make_runnable_def upd_thread_def Let_def split: option.split)

lemma wake_thread_frame [simp]:
  "sk_objs (fst (wake_thread g th)) = sk_objs g" "sk_regs (fst (wake_thread g th)) = sk_regs g"
  "deadlines (fst (wake_thread g th)) = deadlines g" "deadline_slots (fst (wake_thread g th)) = deadline_slots g"
  by (simp_all add: wake_thread_def wait_try_wake_def split: option.split)

lemma upd_thread_frame [simp]:
  "sk_objs (upd_thread g th f) = sk_objs g" "sk_regs (upd_thread g th f) = sk_regs g"
  "deadlines (upd_thread g th f) = deadlines g" "deadline_slots (upd_thread g th f) = deadline_slots g"
  "sk_blocked (upd_thread g th f) = sk_blocked g"
  by (simp_all add: upd_thread_def)

lemma upd_obj_frame [simp]:
  "sk_threads (upd_obj g ob f) = sk_threads g" "sk_regs (upd_obj g ob f) = sk_regs g"
  "deadlines (upd_obj g ob f) = deadlines g" "deadline_slots (upd_obj g ob f) = deadline_slots g"
  "sk_blocked (upd_obj g ob f) = sk_blocked g" "sk_ready (upd_obj g ob f) = sk_ready g"
  by (simp_all add: upd_obj_def)

definition wake_one :: "SchedState \<Rightarrow> u64 \<Rightarrow> u64 \<Rightarrow> SchedState" where
  "wake_one g th tgt = fst (wake_thread (upd_thread g th (\<lambda>t. fst (wait_mark_signaled tgt t))) th)"

lemma fst_wake_all:
  "fst (wake_all g [] tgt) = g"
  "fst (wake_all g (th # ws) tgt) = fst (wake_all (wake_one g th tgt) ws tgt)"
  by (simp_all add: wake_one_def Let_def split: prod.split)

lemma wake_one_frame [simp]:
  "sk_objs (wake_one g th tgt) = sk_objs g" "sk_regs (wake_one g th tgt) = sk_regs g"
  "deadlines (wake_one g th tgt) = deadlines g" "deadline_slots (wake_one g th tgt) = deadline_slots g"
  by (simp_all add: wake_one_def)

lemma wake_all_frame [simp]:
  "sk_objs (fst (wake_all g ws tgt)) = sk_objs g" "sk_regs (fst (wake_all g ws tgt)) = sk_regs g"
  "deadlines (fst (wake_all g ws tgt)) = deadlines g" "deadline_slots (fst (wake_all g ws tgt)) = deadline_slots g"
  by (induction ws arbitrary: g) (simp_all add: fst_wake_all del: wake_all.simps)

lemma signal_waiters_frame [simp]:
  "sk_objs (fst (signal_waiters g ob)) = (sk_objs g)(ob := map_option (w_set_waiters []) (sk_objs g ob))"
  "sk_regs (fst (signal_waiters g ob)) = sk_regs g"
  "deadlines (fst (signal_waiters g ob)) = deadlines g" "deadline_slots (fst (signal_waiters g ob)) = deadline_slots g"
  by (simp_all add: signal_waiters_def upd_obj_def)

lemma signal_pending_op_frame [simp]:
  "sk_regs (signal_pending_op_with_result g po status res) = sk_regs g"
  "deadlines (signal_pending_op_with_result g po status res) = deadlines g"
  "deadline_slots (signal_pending_op_with_result g po status res) = deadline_slots g"
  by (simp_all add: signal_pending_op_with_result_def signal_with_result_def split: option.split waitable.split)

end
