(* ===== verification/Sched_Wait.thy ===== *)
theory Sched_Wait
  imports Sched
begin

text \<open>
  Blocking, \<^verbatim>\<open>kernel/src/sched/wait.rs\<close>. A wait holds the lock twice: \<open>wait_enter\<close> is the first
  hold, which answers at once or registers the thread and parks it, and \<open>wait_finish\<close> the second, after
  a waker made the thread runnable and it was picked.
\<close>

datatype WaitResult = Signaled "bool list" | TimedOut | OutOfMemory | Ended

text \<open>Registering on each object, with the number registered and whether one refused.\<close>

fun add_waiters :: "SchedState \<Rightarrow> u64 list \<Rightarrow> u64 \<Rightarrow> nat \<Rightarrow> SchedState \<times> nat \<times> bool" where
  "add_waiters g [] me n = (g, n, False)"
| "add_waiters g (ob # obs) me n =
     (case obj_add_waiter g ob me of
        None \<Rightarrow> (g, n, True)
      | Some g \<Rightarrow> add_waiters g obs me (n + 1))"

fun remove_waiters :: "SchedState \<Rightarrow> u64 list \<Rightarrow> u64 \<Rightarrow> SchedState" where
  "remove_waiters g [] me = g"
| "remove_waiters g (ob # obs) me = remove_waiters (obj_remove_waiter g ob me) obs me"

text \<open>\<^verbatim>\<open>park\<close> for \<^verbatim>\<open>Park::Blocked\<close>.\<close>

definition park_blocked :: "SchedState \<Rightarrow> u64 \<Rightarrow> SchedState option" where
  "park_blocked g me =
     (let g = upd_thread g me (\<lambda>t. t\<lparr>th_state := TBlocked\<rparr>) in
      case Reserved_push (sk_blocked g) me of
        None \<Rightarrow> None
      | Some b \<Rightarrow> Some (g\<lparr>sk_blocked := b\<rparr>))"

text \<open>Register the wait set on the thread, then on each object, then the deadline; then block or undo.\<close>

definition wait_block :: "SchedState \<Rightarrow> u64 \<Rightarrow> u64 list \<Rightarrow> u64 \<Rightarrow> (SchedState \<times> WaitResult option) option" where
  "wait_block g me objs deadline =
     (let has_deadline = (deadline \<noteq> -1);
          g = upd_thread g me (wait_register objs has_deadline);
          (g, registered, failed) = add_waiters g objs me 0
      in case (if \<not> failed \<and> has_deadline
               then map_option (\<lambda>(g, ok). (g, \<not> ok)) (push_promised g \<lparr>deadline_ns = deadline, target = TThread me\<rparr>)
               else Some (g, failed)) of
           None \<Rightarrow> None
         | Some (g, True) \<Rightarrow>
             let g = remove_waiters g (take registered objs) me
             in Some (upd_thread g me wait_clear, Some OutOfMemory)
         | Some (g, False) \<Rightarrow> map_option (\<lambda>g. (g, None)) (park_blocked g me))"

definition wait_enter ::
    "SchedState \<Rightarrow> u64 \<Rightarrow> u64 list \<Rightarrow> u64 \<Rightarrow> u64 \<Rightarrow> bool \<Rightarrow> (SchedState \<times> WaitResult option) option" where
  "wait_enter g me objs deadline now heed_exit =
     (case sk_threads g me of
        None \<Rightarrow> None
      | Some t \<Rightarrow>
          if MAX_WAIT_HANDLES < length objs then None
          else if heed_exit \<and> th_ending t then Some (g, Some Ended)
          else let signaled = map (\<lambda>ob. obj_already_signaled g ob now) objs @ replicate (MAX_WAIT_HANDLES - length objs) False in
            if True \<in> set signaled then Some (g, Some (Signaled signaled))
            else if deadline = 0 then Some (g, Some TimedOut)
            else wait_block g me objs deadline)"

definition wait_finish :: "SchedState \<Rightarrow> u64 \<Rightarrow> u64 list \<Rightarrow> (SchedState \<times> WaitResult) option" where
  "wait_finish g me objs =
     (case sk_threads g me of
        None \<Rightarrow> None
      | Some t \<Rightarrow>
          let bits = wait_signaled t;
              g = remove_waiters g objs me;
              g = (if th_has_deadline t then g\<lparr>deadlines := fst (dl_remove (deadlines g) (TThread me))\<rparr> else g);
              g = upd_thread g me wait_clear
          in Some (g, if True \<in> set bits then Signaled bits else TimedOut))"

definition wait_on :: "SchedState \<Rightarrow> u64 \<Rightarrow> u64 list \<Rightarrow> u64 \<Rightarrow> u64 \<Rightarrow> (SchedState \<times> WaitResult option) option" where
  "wait_on g me objs deadline now = wait_enter g me objs deadline now True"

definition wait_on_io :: "SchedState \<Rightarrow> u64 \<Rightarrow> u64 list \<Rightarrow> u64 \<Rightarrow> u64 \<Rightarrow> (SchedState \<times> WaitResult option) option" where
  "wait_on_io g me objs deadline now = wait_enter g me objs deadline now False"

text \<open>\<^verbatim>\<open>sleep_until\<close>: refused (None in the second place), or a wait on nothing; and the error its wait answers.\<close>

datatype SleepError = SleepInvalidArgument | SleepOutOfMemory | SleepTimedOut

definition sleep_enter :: "SchedState \<Rightarrow> u64 \<Rightarrow> u64 \<Rightarrow> u64 \<Rightarrow> (SchedState \<times> WaitResult option) option + SleepError" where
  "sleep_enter g me deadline now =
     (if deadline = 0 \<or> deadline = -1 then Inr SleepInvalidArgument else Inl (wait_on g me [] deadline now))"

definition sleep_result :: "WaitResult \<Rightarrow> SleepError" where
  "sleep_result r = (case r of OutOfMemory \<Rightarrow> SleepOutOfMemory | _ \<Rightarrow> SleepTimedOut)"

section \<open>The end of a process\<close>

text \<open>
  The loop of \<^verbatim>\<open>end_siblings\<close> over the blocked threads: while one of the process is not marked, mark it
  and wake it.
\<close>

definition unmarked :: "SchedState \<Rightarrow> u32 \<Rightarrow> u64 \<Rightarrow> bool" where
  "unmarked g pid th = (case sk_threads g th of None \<Rightarrow> False | Some t \<Rightarrow> th_pid t = pid \<and> \<not> th_ending t)"

definition unmarked_count :: "SchedState \<Rightarrow> u32 \<Rightarrow> nat" where
  "unmarked_count g pid = length (filter (unmarked g pid) (rs_items (sk_blocked g)))"

definition end_one :: "SchedState \<Rightarrow> u64 \<Rightarrow> SchedState" where
  "end_one g th = fst (wake_thread (upd_thread g th (\<lambda>t. t\<lparr>th_ending := True\<rparr>)) th)"

lemma filter_removed: "length (filter P (take i xs @ drop (Suc i) xs)) \<le> length (filter P xs)"
proof -
  have "xs = take i xs @ drop i xs" by simp
  moreover have "length (filter P (drop (Suc i) xs)) \<le> length (filter P (drop i xs))"
    by (cases "i < length xs") (simp_all add: Cons_nth_drop_Suc [symmetric])
  ultimately show ?thesis by (metis add_left_mono filter_append length_append)
qed

lemma end_one_unmarked:
  assumes "position (unmarked g pid) (rs_items (sk_blocked g)) = Some i"
  defines "th \<equiv> rs_items (sk_blocked g) ! i"
  shows "unmarked_count (end_one g th) pid < unmarked_count g pid"
proof -
  have p: "i < length (rs_items (sk_blocked g))" "unmarked g pid th" using position_Some [OF assms(1)] by (auto simp: th_def)
  then obtain t where t: "sk_threads g th = Some t" "th_pid t = pid" "\<not> th_ending t"
    by (auto simp: unmarked_def split: option.splits)
  let ?Q = "\<lambda>x. unmarked g pid x \<and> x \<noteq> th"
  have un: "unmarked (end_one g th) pid = ?Q"
    using t by (auto simp: fun_eq_iff unmarked_def end_one_def wake_thread_def wait_try_wake_def make_runnable_def upd_thread_def Let_def
        split: option.splits if_splits)
  have "rs_items (sk_blocked (end_one g th)) = rs_items (sk_blocked g)
      \<or> (\<exists>k. rs_items (sk_blocked (end_one g th)) = take k (rs_items (sk_blocked g)) @ drop (Suc k) (rs_items (sk_blocked g)))"
    using t by (auto simp: end_one_def wake_thread_def wait_try_wake_def make_runnable_def upd_thread_def Let_def Reserved_remove_def
        split: option.splits)
  then have "unmarked_count (end_one g th) pid \<le> length (filter ?Q (rs_items (sk_blocked g)))"
    unfolding unmarked_count_def un by (elim disjE exE) (simp_all only: filter_removed order_refl)
  also have "\<dots> < unmarked_count g pid"
    unfolding unmarked_count_def
  proof -
    have "filter ?Q (rs_items (sk_blocked g)) = filter (\<lambda>x. x \<noteq> th) (filter (unmarked g pid) (rs_items (sk_blocked g)))"
      by (simp add: conj_commute)
    moreover have "th \<in> set (filter (unmarked g pid) (rs_items (sk_blocked g)))" using p by (simp add: th_def)
    ultimately show "length (filter ?Q (rs_items (sk_blocked g))) < length (filter (unmarked g pid) (rs_items (sk_blocked g)))"
      by (metis (mono_tags, lifting) length_filter_less)
  qed
  finally show ?thesis .
qed

function end_blocked :: "SchedState \<Rightarrow> u32 \<Rightarrow> SchedState" where
  "end_blocked g pid =
     (case position (unmarked g pid) (rs_items (sk_blocked g)) of
        None \<Rightarrow> g
      | Some i \<Rightarrow> end_blocked (end_one g (rs_items (sk_blocked g) ! i)) pid)"
  by pat_completeness auto
termination
  by (relation "measure (\<lambda>(g, pid). unmarked_count g pid)") (auto simp: end_one_unmarked)

declare end_blocked.simps [simp del]

end
