(* ===== verification/Sched_Ipc.thy ===== *)
theory Sched_Ipc
  imports Sched_Wait
begin

text \<open>
  Message delivery, \<^verbatim>\<open>kernel/src/sched/ipc.rs\<close> over the endpoints of
  \<^verbatim>\<open>kernel/src/object/ipc_channel.rs\<close>: sends that do and do not block, receipt with the promotion of a
  held send, the forwarding of requests to a userspace server, and the closing of an endpoint.
  References whose drop the code defers until the lock is released are not part of the state.
\<close>

definition get_ipc :: "SchedState \<Rightarrow> u64 \<Rightarrow> IpcInner option" where
  "get_ipc g ob = (case sk_objs g ob of Some (WIpc e) \<Rightarrow> Some e | _ \<Rightarrow> None)"

definition set_ipc :: "SchedState \<Rightarrow> u64 \<Rightarrow> IpcInner \<Rightarrow> SchedState" where
  "set_ipc g ob e = g\<lparr>sk_objs := (sk_objs g)(ob \<mapsto> WIpc e)\<rparr>"

definition peer_of :: "SchedState \<Rightarrow> u64 \<Rightarrow> u64" where
  "peer_of g ob = (case get_ipc g ob of None \<Rightarrow> 0 | Some e \<Rightarrow> ipc_peer e)"

definition us_reg_of :: "SchedState \<Rightarrow> u64 \<Rightarrow> u64" where
  "us_reg_of g ob = (case get_ipc g ob of None \<Rightarrow> 0 | Some e \<Rightarrow> ipc_us_reg e)"

section \<open>Sending\<close>

text \<open>A transfer that carries an endpoint.\<close>

definition is_endpoint :: "SchedState \<Rightarrow> TransferRef option \<Rightarrow> bool" where
  "is_endpoint g t = (case t of None \<Rightarrow> False | Some t \<Rightarrow> get_ipc g (tr_obj t) \<noteq> None)"

definition holds_an_endpoint :: "SchedState \<Rightarrow> u64 \<Rightarrow> bool" where
  "holds_an_endpoint g ob =
     (case get_ipc g ob of
        None \<Rightarrow> False
      | Some e \<Rightarrow> (\<exists>s\<in>set (mr_slots (ipc_recv e)). \<exists>t\<in>set (rg_transfers s). is_endpoint g t)
          \<or> (\<exists>p\<in>set (rs_items (ipc_pending e)). \<exists>t\<in>set (ps_transfers p). is_endpoint g t))"

definition closes_a_cycle :: "SchedState \<Rightarrow> u64 \<Rightarrow> transfers \<Rightarrow> bool" where
  "closes_a_cycle g endpoint ts =
     (if \<forall>t\<in>set ts. t = None then False
      else let peer = peer_of g endpoint in
        \<exists>t\<in>set ts. (case t of None \<Rightarrow> False
          | Some t \<Rightarrow> tr_obj t = peer \<or> (is_endpoint g (Some t) \<and> holds_an_endpoint g (tr_obj t))))"

datatype SendOutcome = Sent bool | Full | PeerClosed | Cycle

text \<open>The transfers left to the sender come back with the outcome.\<close>

definition send_push :: "SchedState \<Rightarrow> u64 \<Rightarrow> StoredMsg \<Rightarrow> transfers \<Rightarrow> SchedState \<times> transfers \<times> SendOutcome" where
  "send_push g ob m ts =
     (let peer = peer_of g ob in
      if peer = 0 then (g, ts, PeerClosed)
      else case get_ipc g peer of
        None \<Rightarrow> (g, ts, PeerClosed)
      | Some e \<Rightarrow>
          let was_empty = mr_is_empty (ipc_recv e) in
          (case push_from (ipc_recv e) m ts of
             (r, ts', True) \<Rightarrow> (set_ipc g peer (e\<lparr>ipc_recv := r\<rparr>), ts', Sent was_empty)
           | (_, ts', False) \<Rightarrow> (g, ts', Full)))"

text \<open>Waking the receivers after a send that found the ring empty.\<close>

definition wake_edge :: "SchedState \<Rightarrow> u64 \<Rightarrow> bool \<Rightarrow> SchedState" where
  "wake_edge g endpoint woke_edge =
     (if woke_edge then
        let peer = peer_of g endpoint in if peer \<noteq> 0 then signal_ipc_endpoint g peer else g
      else g)"

definition ipc_send_push :: "SchedState \<Rightarrow> u64 \<Rightarrow> StoredMsg \<Rightarrow> transfers \<Rightarrow> SchedState \<times> transfers \<times> SendOutcome" where
  "ipc_send_push g endpoint m ts =
     (if closes_a_cycle g endpoint ts then (g, ts, Cycle)
      else case send_push g endpoint m ts of
        (g, ts, Sent edge) \<Rightarrow> (wake_edge g endpoint edge, ts, Sent edge)
      | r \<Rightarrow> r)"

datatype BlockSendOutcome = BSent bool | Queued | PendingFull | BPeerClosed | BCycle

definition send_or_queue :: "SchedState \<Rightarrow> u64 \<Rightarrow> StoredMsg \<Rightarrow> transfers \<Rightarrow> u64 \<Rightarrow> (SchedState \<times> transfers \<times> BlockSendOutcome) option" where
  "send_or_queue g ob m ts po =
     (let peer = peer_of g ob in
      if peer = 0 then Some (g, ts, BPeerClosed)
      else case get_ipc g peer of
        None \<Rightarrow> Some (g, ts, BPeerClosed)
      | Some e \<Rightarrow>
          let was_empty = mr_is_empty (ipc_recv e) in
          (case push_from (ipc_recv e) m ts of
             (r, ts', True) \<Rightarrow> Some (set_ipc g peer (e\<lparr>ipc_recv := r\<rparr>), ts', BSent was_empty)
           | (_, ts', False) \<Rightarrow>
               if MAX_PENDING_SENDS \<le> length (rs_items (ipc_pending e)) then Some (g, ts', PendingFull)
               else let send = \<lparr>ps_msg = m, ps_transfers = ts', ps_po = po, ps_cancelled = False\<rparr>
               in (case Reserved_push (ipc_pending e) send of
                     None \<Rightarrow> None
                   | Some ps \<Rightarrow> Some (set_ipc g peer (e\<lparr>ipc_pending := ps\<rparr>), no_transfers, Queued))))"

definition ipc_send_push_blocking ::
    "SchedState \<Rightarrow> u64 \<Rightarrow> StoredMsg \<Rightarrow> transfers \<Rightarrow> u64 \<Rightarrow> u64 \<Rightarrow> (SchedState \<times> transfers \<times> BlockSendOutcome) option" where
  "ipc_send_push_blocking g endpoint m ts po deadline =
     (if closes_a_cycle g endpoint ts then Some (g, ts, BCycle)
      else case send_or_queue g endpoint m ts po of
        None \<Rightarrow> None
      | Some (g, ts, outcome) \<Rightarrow>
          (case outcome of
             BSent edge \<Rightarrow> Some (signal_pending_op (wake_edge g endpoint edge) po 0, ts, outcome)
           | Queued \<Rightarrow>
               if deadline \<noteq> -1 then
                 (let peer = peer_of g endpoint in
                  map_option (\<lambda>(g, _). (g, ts, outcome))
                    (push_promised g \<lparr>deadline_ns = deadline, target = TPendingSend po peer\<rparr>))
               else Some (g, ts, outcome)
           | _ \<Rightarrow> Some (g, ts, outcome)))"

section \<open>Receiving\<close>

definition ipc_recv_peek :: "SchedState \<Rightarrow> u64 \<Rightarrow> RecvState option" where
  "ipc_recv_peek g endpoint = map_option IpcChannel_recv_peek (get_ipc g endpoint)"

text \<open>The message and its transfers, the operation promoted, and the sends reclaimed.\<close>

definition ipc_recv_pop_into ::
    "SchedState \<Rightarrow> u64 \<Rightarrow> SchedState \<times> (StoredMsg \<times> transfers) option \<times> u64 option \<times> ReclaimedSend list" where
  "ipc_recv_pop_into g endpoint =
     (case get_ipc g endpoint of
        None \<Rightarrow> (g, None, None, [])
      | Some e \<Rightarrow>
          (case pop_into (ipc_recv e) of
             (_, None) \<Rightarrow> (g, None, None, [])
           | (r, Some x) \<Rightarrow>
               (case promote_pending_send (e\<lparr>ipc_recv := r\<rparr>) of
                  (e, reclaimed, None) \<Rightarrow> (set_ipc g endpoint e, Some x, None, reclaimed)
                | (e, reclaimed, Some po) \<Rightarrow>
                    let g = set_ipc g endpoint e;
                        g = g\<lparr>deadlines := fst (dl_remove (deadlines g) (TPendingSend po endpoint))\<rparr>
                    in (signal_pending_op g po 0, Some x, Some po, reclaimed))))"

section \<open>Userspace servers\<close>

definition upd_reg :: "SchedState \<Rightarrow> u64 \<Rightarrow> UsReg \<Rightarrow> SchedState" where
  "upd_reg g reg u = g\<lparr>sk_regs := (sk_regs g)(reg \<mapsto> u)\<rparr>"

datatype ForwardOutcome = FPending | FBusy | FFull | FPeerClosed

definition REQUEST_ID_OFFSET :: nat where "REQUEST_ID_OFFSET = 8"

definition stamp_request_id :: "u64 \<Rightarrow> StoredMsg \<Rightarrow> StoredMsg" where
  "stamp_request_id request_id m = m\<lparr>sm_payload := put_bytes (sm_payload m) REQUEST_ID_OFFSET (le_bytes 8 request_id)\<rparr>"

definition us_forward_notify :: "SchedState \<Rightarrow> u64 \<Rightarrow> StoredMsg \<Rightarrow> SchedState \<times> bool" where
  "us_forward_notify g reg m =
     (case sk_regs g reg of
        None \<Rightarrow> (g, False)
      | Some u \<Rightarrow>
          (case send_push g (us_endpoint u) m no_transfers of
             (g, _, Sent edge) \<Rightarrow> (wake_edge g (us_endpoint u) edge, True)
           | (g, _, _) \<Rightarrow> (g, False)))"

definition forward_failed :: "SendOutcome \<Rightarrow> ForwardOutcome" where
  "forward_failed r = (if r = Full then FFull else FPeerClosed)"

definition us_forward_originate ::
    "SchedState \<Rightarrow> u64 \<Rightarrow> StoredMsg \<Rightarrow> u64 \<Rightarrow> u64 \<Rightarrow> u8 list \<Rightarrow> Forward \<Rightarrow> SchedState \<times> ForwardOutcome" where
  "us_forward_originate g reg m po requested suffix fwd =
     (case sk_regs g reg of
        None \<Rightarrow> (g, FBusy)
      | Some u \<Rightarrow>
          (case begin_forward po requested suffix fwd u of
             (_, None) \<Rightarrow> (g, FBusy)
           | (u, Some request_id) \<Rightarrow>
               let g = upd_reg g reg u;
                   m = stamp_request_id request_id m
               in (case send_push g (us_endpoint u) m no_transfers of
                     (g, _, Sent edge) \<Rightarrow> (wake_edge g (us_endpoint u) edge, FPending)
                   | (g, _, r) \<Rightarrow> (upd_reg g reg (fst (take_pending_matching request_id u)), forward_failed r))))"

definition us_forward_originate_fill ::
    "SchedState \<Rightarrow> u64 \<Rightarrow> StoredMsg \<Rightarrow> u64 \<Rightarrow> u64 \<Rightarrow> u64 \<Rightarrow> nat \<Rightarrow> SchedState \<times> ForwardOutcome" where
  "us_forward_originate_fill g reg m po file frame index =
     (case sk_regs g reg of
        None \<Rightarrow> (g, FBusy)
      | Some u \<Rightarrow>
          (case begin_fill po file frame index u of
             (_, None) \<Rightarrow> (g, FBusy)
           | (u, Some request_id) \<Rightarrow>
               let g = upd_reg g reg u;
                   m = stamp_request_id request_id m
               in (case send_push g (us_endpoint u) m no_transfers of
                     (g, _, Sent edge) \<Rightarrow> (wake_edge g (us_endpoint u) edge, FPending)
                   | (g, _, r) \<Rightarrow> (upd_reg g reg (fst (take_pending_fill_matching request_id u)), forward_failed r))))"

definition us_forward_take_pending :: "SchedState \<Rightarrow> u64 \<Rightarrow> u64 \<Rightarrow> SchedState \<times> PendingLookup option" where
  "us_forward_take_pending g reg request_id =
     (case sk_regs g reg of
        None \<Rightarrow> (g, None)
      | Some u \<Rightarrow> (case take_pending_matching request_id u of (u, r) \<Rightarrow> (upd_reg g reg u, r)))"

definition us_forward_take_pending_fill :: "SchedState \<Rightarrow> u64 \<Rightarrow> u64 \<Rightarrow> SchedState \<times> PendingFill option" where
  "us_forward_take_pending_fill g reg request_id =
     (case sk_regs g reg of
        None \<Rightarrow> (g, None)
      | Some u \<Rightarrow> (case take_pending_fill_matching request_id u of (u, r) \<Rightarrow> (upd_reg g reg u, r)))"

text \<open>Whether the reference to the registration can be taken (its count is not zero) is an argument.\<close>

definition us_forward_reg_for_send :: "(u64 \<Rightarrow> bool) \<Rightarrow> SchedState \<Rightarrow> u64 \<Rightarrow> u64 option" where
  "us_forward_reg_for_send acquirable g endpoint =
     (let peer = peer_of g endpoint in
      if peer = 0 then None
      else let reg = us_reg_of g peer in
        if reg = 0 then None else if acquirable reg then Some reg else None)"

definition us_server_attach :: "(u64 \<Rightarrow> bool) \<Rightarrow> SchedState \<Rightarrow> u64 \<Rightarrow> u64 \<Rightarrow> SchedState \<times> u64 option" where
  "us_server_attach acquirable g endpoint reg =
     (let existing = us_reg_of g endpoint in
      if existing \<noteq> 0 \<and> acquirable existing then (g, Some existing)
      else case get_ipc g endpoint of
        None \<Rightarrow> (g, None)
      | Some e \<Rightarrow> (set_ipc g endpoint (e\<lparr>ipc_us_reg := reg\<rparr>), None))"

text \<open>The two loops of \<^verbatim>\<open>fail_outstanding\<close>; each turn empties a slot of the table it drains.\<close>

function fail_lookups :: "SchedState \<Rightarrow> u64 \<Rightarrow> SchedState" where
  "fail_lookups g reg =
     (case sk_regs g reg of
        None \<Rightarrow> g
      | Some u \<Rightarrow>
          (case take_pending_next u of
             (_, None) \<Rightarrow> g
           | (u, Some pl) \<Rightarrow> fail_lookups (signal_pending_op (upd_reg g reg u) (pl_po pl) KError_PeerClosed) reg))"
  by pat_completeness auto
termination
proof (relation "measure (\<lambda>(g, reg). case sk_regs g reg of None \<Rightarrow> 0 | Some u \<Rightarrow> size (table (us_pending u)))")
  fix g :: SchedState and reg u v r pl
  assume "sk_regs g reg = Some u" "(v, r) = take_pending_next u" "r = Some pl"
  then show "((signal_pending_op (upd_reg g reg v) (pl_po pl) KError_PeerClosed, reg), g, reg)
      \<in> measure (\<lambda>(g, reg). case sk_regs g reg of None \<Rightarrow> 0 | Some u \<Rightarrow> size (table (us_pending u)))"
    using take_slot_whereD [of "\<lambda>p. True" "us_pending u"]
    by (fastforce simp: take_pending_next_def upd_reg_def signal_pending_op_def split: prod.splits)
qed simp

declare fail_lookups.simps [simp del]

function fail_fills :: "SchedState \<Rightarrow> u64 \<Rightarrow> SchedState" where
  "fail_fills g reg =
     (case sk_regs g reg of
        None \<Rightarrow> g
      | Some u \<Rightarrow>
          (case take_pending_fill_next u of
             (_, None) \<Rightarrow> g
           | (u, Some pf) \<Rightarrow> fail_fills (signal_pending_op (upd_reg g reg u) (pf_po pf) KError_PeerClosed) reg))"
  by pat_completeness auto
termination
proof (relation "measure (\<lambda>(g, reg). case sk_regs g reg of None \<Rightarrow> 0 | Some u \<Rightarrow> size (table (us_fill u)))")
  fix g :: SchedState and reg u v r pf
  assume "sk_regs g reg = Some u" "(v, r) = take_pending_fill_next u" "r = Some pf"
  then show "((signal_pending_op (upd_reg g reg v) (pf_po pf) KError_PeerClosed, reg), g, reg)
      \<in> measure (\<lambda>(g, reg). case sk_regs g reg of None \<Rightarrow> 0 | Some u \<Rightarrow> size (table (us_fill u)))"
    using take_slot_whereD [of "\<lambda>p. True" "us_fill u"]
    by (fastforce simp: take_pending_fill_next_def upd_reg_def signal_pending_op_def split: prod.splits)
qed simp

declare fail_fills.simps [simp del]

definition fail_outstanding :: "SchedState \<Rightarrow> u64 \<Rightarrow> SchedState" where
  "fail_outstanding g reg = fail_fills (fail_lookups g reg) reg"

definition us_reg_detach :: "SchedState \<Rightarrow> u64 \<Rightarrow> SchedState" where
  "us_reg_detach g reg =
     (case sk_regs g reg of
        None \<Rightarrow> g
      | Some u \<Rightarrow>
          let endpoint = us_endpoint u;
              g = fail_outstanding g reg
          in if endpoint \<noteq> 0 \<and> us_reg_of g endpoint = reg
             then (case get_ipc g endpoint of None \<Rightarrow> g | Some e \<Rightarrow> set_ipc g endpoint (e\<lparr>ipc_us_reg := 0\<rparr>))
             else g)"

section \<open>Closing\<close>

text \<open>\<^verbatim>\<open>UserspaceServerReg::is_live\<close>, by the sentinel.\<close>

definition reg_is_live :: "SchedState \<Rightarrow> u64 \<Rightarrow> bool" where
  "reg_is_live g reg = (reg \<noteq> 0 \<and> (case sk_regs g reg of None \<Rightarrow> False | Some u \<Rightarrow> us_live u))"

fun fail_sends :: "SchedState \<Rightarrow> u64 \<Rightarrow> u64 list \<Rightarrow> SchedState" where
  "fail_sends g endpoint [] = g"
| "fail_sends g endpoint (po # pos) =
     (let g = g\<lparr>deadlines := fst (dl_remove (deadlines g) (TPendingSend po endpoint))\<rparr>
      in fail_sends (signal_pending_op g po KError_PeerClosed) endpoint pos)"

definition ipc_endpoint_closing :: "SchedState \<Rightarrow> u64 \<Rightarrow> SchedState" where
  "ipc_endpoint_closing g endpoint =
     (let peer = peer_of g endpoint;
          reg_self = us_reg_of g endpoint;
          g = (if reg_is_live g reg_self then fail_outstanding g reg_self else g);
          g = (if peer \<noteq> 0 then
                 let g = (case get_ipc g peer of None \<Rightarrow> g | Some e \<Rightarrow> set_ipc g peer (e\<lparr>ipc_peer := 0\<rparr>));
                     g = signal_ipc_endpoint g peer;
                     reg_peer = us_reg_of g peer
                 in if reg_is_live g reg_peer then fail_outstanding g reg_peer else g
               else g)
      in case get_ipc g endpoint of
           None \<Rightarrow> g
         | Some e \<Rightarrow> fail_sends g endpoint (pending_send_pos e))"

end
