(* ===== verification/Sched_Invariant.thy ===== *)
theory Sched_Invariant
  imports Sched_Ipc
begin

text \<open>
  The invariant of waiting. A blocked thread is registered, as often as its wait set names it, with
  each object it waits on, none of which is past the event that wakes its waiters; a thread that is
  not blocked may still be registered, until it resumes. \<open>X\<close> names objects exempt for the moment,
  between the event and the wake that follows it under the same hold of the lock.
\<close>

definition waiting :: "SchedState \<Rightarrow> u64 \<Rightarrow> u64 list" where
  "waiting g th = (case sk_threads g th of None \<Rightarrow> [] | Some t \<Rightarrow> waiting_on t)"

definition blocked :: "SchedState \<Rightarrow> u64 set" where
  "blocked g = set (rs_items (sk_blocked g))"

text \<open>
  Past the event that wakes its waiters. A timer whose deadline has come but which the tick has not
  popped is not: the tick will wake them.
\<close>

fun settled :: "waitable \<Rightarrow> bool" where
  "settled (WTimer t) = (tm_deadline_ns t \<noteq> 0 \<and> timer_fired t)"
| "settled (WNotif c) = notif_signaled c"
| "settled (WIpc e) = IpcChannel_already_signaled e"
| "settled (WPo p) = po_signaled p"
| "settled (WIrq i) = (0 < irq_pending i)"

lemma settled_signaled: "settled w \<Longrightarrow> already_signaled now w"
  by (cases w) (simp_all add: Timer_already_signaled_def)

lemma settled_set_waiters [simp]: "settled (w_set_waiters ws w) = settled w"
  by (cases w) (simp_all add: timer_fired_def notif_signaled_def IpcChannel_already_signaled_def)

definition obj_settled :: "SchedState \<Rightarrow> u64 \<Rightarrow> bool" where
  "obj_settled g ob = (case sk_objs g ob of None \<Rightarrow> True | Some w \<Rightarrow> settled w)"

definition thread_ok :: "ThreadWait \<Rightarrow> bool" where
  "thread_ok t \<longleftrightarrow> length (th_wait_objs t) = MAX_WAIT_HANDLES \<and> length (th_wait_signaled t) = MAX_WAIT_HANDLES
     \<and> th_wait_count t \<le> MAX_WAIT_HANDLES
     \<and> (th_phase t = PRunning \<longrightarrow> th_wait_count t = 0 \<and> \<not> th_has_deadline t)"

definition marks :: "ThreadWait \<Rightarrow> bool list" where
  "marks t = take (th_wait_count t) (th_wait_signaled t)"

definition wait_inv :: "u64 set \<Rightarrow> SchedState \<Rightarrow> bool" where
  "wait_inv X g \<longleftrightarrow>
     distinct (rs_items (sk_blocked g))
     \<and> (\<forall>th. th \<in> blocked g \<longleftrightarrow> (\<exists>t. sk_threads g th = Some t \<and> th_phase t = PWaiting))
     \<and> (\<forall>ob th. count_list (obj_waiters g ob) th \<le> count_list (waiting g th) ob)
     \<and> (\<forall>th\<in>blocked g. \<forall>ob. count_list (waiting g th) ob \<le> count_list (obj_waiters g ob) th)
     \<and> (\<forall>th\<in>blocked g. \<forall>ob\<in>set (waiting g th). ob \<in> X \<or> \<not> obj_settled g ob)
     \<and> (\<forall>th\<in>blocked g. \<forall>t. sk_threads g th = Some t \<longrightarrow> True \<notin> set (marks t))
     \<and> (\<forall>th t. sk_threads g th = Some t \<longrightarrow> thread_ok t)"

lemma wait_invD:
  assumes "wait_inv X g"
  shows "distinct (rs_items (sk_blocked g))"
    and "th \<in> blocked g \<longleftrightarrow> (\<exists>t. sk_threads g th = Some t \<and> th_phase t = PWaiting)"
    and "count_list (obj_waiters g ob) th \<le> count_list (waiting g th) ob"
    and "th \<in> blocked g \<Longrightarrow> count_list (waiting g th) ob = count_list (obj_waiters g ob) th"
    and "th \<in> blocked g \<Longrightarrow> ob \<in> set (waiting g th) \<Longrightarrow> ob \<in> X \<or> \<not> obj_settled g ob"
    and "th \<in> blocked g \<Longrightarrow> sk_threads g th = Some t \<Longrightarrow> True \<notin> set (marks t)"
    and "sk_threads g th = Some t \<Longrightarrow> thread_ok t"
proof -
  note c1 = assms [unfolded wait_inv_def]
  note c2 = c1 [THEN conjunct2]
  note c3 = c2 [THEN conjunct2]
  note c4 = c3 [THEN conjunct2]
  note c5 = c4 [THEN conjunct2]
  note c6 = c5 [THEN conjunct2]
  show "distinct (rs_items (sk_blocked g))" by (rule c1 [THEN conjunct1])
  show "th \<in> blocked g \<longleftrightarrow> (\<exists>t. sk_threads g th = Some t \<and> th_phase t = PWaiting)" by (rule c2 [THEN conjunct1, rule_format])
  show le: "count_list (obj_waiters g ob) th \<le> count_list (waiting g th) ob" by (rule c3 [THEN conjunct1, rule_format])
  show "count_list (waiting g th) ob = count_list (obj_waiters g ob) th" if "th \<in> blocked g"
    using c4 [THEN conjunct1, rule_format, OF that, of ob] le by (rule order_antisym)
  show "ob \<in> X \<or> \<not> obj_settled g ob" if "th \<in> blocked g" "ob \<in> set (waiting g th)"
    by (rule c5 [THEN conjunct1, rule_format, OF that])
  show "True \<notin> set (marks t)" if "th \<in> blocked g" "sk_threads g th = Some t"
    by (rule c6 [THEN conjunct1, rule_format, OF that])
  show "thread_ok t" if "sk_threads g th = Some t" by (rule c6 [THEN conjunct2, rule_format, OF that])
qed

lemma wait_invI:
  assumes "distinct (rs_items (sk_blocked g))"
    and "\<And>th. th \<in> blocked g \<longleftrightarrow> (\<exists>t. sk_threads g th = Some t \<and> th_phase t = PWaiting)"
    and "\<And>ob th. count_list (obj_waiters g ob) th \<le> count_list (waiting g th) ob"
    and "\<And>ob th. th \<in> blocked g \<Longrightarrow> count_list (waiting g th) ob \<le> count_list (obj_waiters g ob) th"
    and "\<And>ob th. th \<in> blocked g \<Longrightarrow> ob \<in> set (waiting g th) \<Longrightarrow> ob \<in> X \<or> \<not> obj_settled g ob"
    and "\<And>th t. th \<in> blocked g \<Longrightarrow> sk_threads g th = Some t \<Longrightarrow> True \<notin> set (marks t)"
    and "\<And>th t. sk_threads g th = Some t \<Longrightarrow> thread_ok t"
  shows "wait_inv X g"
  using assms unfolding wait_inv_def by blast

lemma wait_inv_mono: "wait_inv X g \<Longrightarrow> X \<subseteq> Y \<Longrightarrow> wait_inv Y g"
  unfolding wait_inv_def by blast

text \<open>What is not a thread, the blocked list, a queue of waiters or an event does not matter.\<close>

lemma wait_inv_cong:
  assumes "wait_inv X g" and "sk_threads g' = sk_threads g" "rs_items (sk_blocked g') = rs_items (sk_blocked g)"
    and "\<And>ob. obj_waiters g' ob = obj_waiters g ob"
    and "\<And>ob. ob \<in> Y \<or> (obj_settled g' ob \<longrightarrow> ob \<notin> X \<and> obj_settled g ob)"
  shows "wait_inv Y g'"
proof -
  have eq: "waiting g' = waiting g" "blocked g' = blocked g" using assms(2,3) by (simp_all add: waiting_def fun_eq_iff blocked_def)
  note d = wait_invD [OF assms(1)]
  show ?thesis
  proof (rule wait_invI)
    show "distinct (rs_items (sk_blocked g'))" using d(1) assms(3) by simp
    show "th \<in> blocked g' \<longleftrightarrow> (\<exists>t. sk_threads g' th = Some t \<and> th_phase t = PWaiting)" for th
      using d(2) assms(2) eq by simp
    show "count_list (obj_waiters g' ob) th \<le> count_list (waiting g' th) ob" for ob th using d(3) assms(4) eq by simp
    show "count_list (waiting g' th) ob \<le> count_list (obj_waiters g' ob) th" if "th \<in> blocked g'" for ob th
      using d(4) [of th ob] that assms(4) eq by simp
    show "ob \<in> Y \<or> \<not> obj_settled g' ob" if "th \<in> blocked g'" "ob \<in> set (waiting g' th)" for th ob
      using d(5) [of th ob] that assms(5) [of ob] eq by auto
    show "True \<notin> set (marks t)" if "th \<in> blocked g'" "sk_threads g' th = Some t" for th t
      using d(6) that assms(2) eq by simp
    show "thread_ok t" if "sk_threads g' th = Some t" for th t using d(7) that assms(2) by simp
  qed
qed

section \<open>Changing an object\<close>

lemma obj_waiters_upd: "obj_waiters (g\<lparr>sk_objs := (sk_objs g)(ob := w)\<rparr>) x = (if x = ob then (case w of None \<Rightarrow> [] | Some w \<Rightarrow> w_waiters w) else obj_waiters g x)"
  by (simp add: obj_waiters_def)

lemma obj_settled_upd: "obj_settled (g\<lparr>sk_objs := (sk_objs g)(ob := w)\<rparr>) x = (if x = ob then (case w of None \<Rightarrow> True | Some w \<Rightarrow> settled w) else obj_settled g x)"
  by (simp add: obj_settled_def)

text \<open>A change of an object's contents, before the wake it calls for.\<close>

lemma wait_inv_set_obj:
  assumes "wait_inv X g" and "sk_objs g ob = Some w" "w_waiters w' = w_waiters w"
  shows "wait_inv (insert ob X) (g\<lparr>sk_objs := (sk_objs g)(ob \<mapsto> w')\<rparr>)"
proof (rule wait_inv_cong [OF wait_inv_mono [OF assms(1), of "insert ob X"]])
  show "obj_waiters (g\<lparr>sk_objs := (sk_objs g)(ob \<mapsto> w')\<rparr>) x = obj_waiters g x" for x
    using assms(2,3) by (simp add: obj_waiters_upd) (simp add: obj_waiters_def)
  show "x \<in> insert ob X \<or> (obj_settled (g\<lparr>sk_objs := (sk_objs g)(ob \<mapsto> w')\<rparr>) x \<longrightarrow> x \<notin> insert ob X \<and> obj_settled g x)" for x
    by (simp add: obj_settled_upd)
qed auto

text \<open>A change that brings the object to no event needs no wake.\<close>

lemma wait_inv_set_obj_quiet:
  assumes "wait_inv X g" and "sk_objs g ob = Some w" "w_waiters w' = w_waiters w" and "settled w' \<Longrightarrow> settled w"
  shows "wait_inv X (g\<lparr>sk_objs := (sk_objs g)(ob \<mapsto> w')\<rparr>)"
proof (rule wait_inv_cong [OF assms(1)])
  show "obj_waiters (g\<lparr>sk_objs := (sk_objs g)(ob \<mapsto> w')\<rparr>) x = obj_waiters g x" for x
    using assms(2,3) by (simp add: obj_waiters_upd) (simp add: obj_waiters_def)
  show "x \<in> X \<or> (obj_settled (g\<lparr>sk_objs := (sk_objs g)(ob \<mapsto> w')\<rparr>) x \<longrightarrow> x \<notin> X \<and> obj_settled g x)" for x
    using assms(2,4) by (auto simp: obj_settled_upd obj_settled_def)
qed auto

section \<open>Waking\<close>

lemma blocked_remove:
  assumes "distinct (rs_items (sk_blocked g))" "th \<in> blocked g"
  obtains i where "position (\<lambda>r. r = th) (rs_items (sk_blocked g)) = Some i"
    "rs_items (Reserved_remove (sk_blocked g) i) = remove1 th (rs_items (sk_blocked g))"
proof -
  obtain i where i: "position (\<lambda>r. r = th) (rs_items (sk_blocked g)) = Some i"
    using assms(2) position_None [of "\<lambda>r. r = th" "rs_items (sk_blocked g)"]
    by (cases "position (\<lambda>r. r = th) (rs_items (sk_blocked g))") (auto simp: blocked_def)
  moreover have "take i (rs_items (sk_blocked g)) @ drop (Suc i) (rs_items (sk_blocked g)) = remove1 th (rs_items (sk_blocked g))"
    using WaitQueue_remove1 [of "rs_items (sk_blocked g)" th] i by (simp add: WaitQueue_remove_def)
  ultimately show thesis using that by (simp add: Reserved_remove_def)
qed

text \<open>A thread as a waker leaves it.\<close>

definition woken :: "ThreadWait \<Rightarrow> ThreadWait" where
  "woken t = (if th_phase t = PWaiting then t\<lparr>th_phase := PWoken, th_state := TReady\<rparr> else t)"

definition phase_ok :: "SchedState \<Rightarrow> bool" where
  "phase_ok g \<longleftrightarrow> distinct (rs_items (sk_blocked g))
     \<and> (\<forall>th. th \<in> blocked g \<longleftrightarrow> (\<exists>t. sk_threads g th = Some t \<and> th_phase t = PWaiting))"

lemma wait_inv_phase: "wait_inv X g \<Longrightarrow> phase_ok g"
  unfolding wait_inv_def phase_ok_def by blast

lemma wake_thread_spec:
  assumes "phase_ok g"
  shows "sk_threads (fst (wake_thread g th)) = (sk_threads g)(th := map_option woken (sk_threads g th))"
    and "rs_items (sk_blocked (fst (wake_thread g th))) = remove1 th (rs_items (sk_blocked g))"
    and "rs_cap (sk_blocked (fst (wake_thread g th))) = rs_cap (sk_blocked g)"
    and "snd (wake_thread g th) \<longleftrightarrow> th \<in> blocked g"
    and "sk_ready (fst (wake_thread g th)) = sk_ready g @ (if th \<in> blocked g then [th] else [])"
proof -
  note d = assms [unfolded phase_ok_def, THEN conjunct1] assms [unfolded phase_ok_def, THEN conjunct2, rule_format]
  consider (blocked) t where "th \<in> blocked g" "sk_threads g th = Some t" "th_phase t = PWaiting"
    | (not_waiting) t where "th \<notin> blocked g" "sk_threads g th = Some t" "th_phase t \<noteq> PWaiting"
    | (no_thread) "th \<notin> blocked g" "sk_threads g th = None"
    using d(2) [of th] by (cases "sk_threads g th") auto
  then have "sk_threads (fst (wake_thread g th)) = (sk_threads g)(th := map_option woken (sk_threads g th))
    \<and> rs_items (sk_blocked (fst (wake_thread g th))) = remove1 th (rs_items (sk_blocked g))
    \<and> rs_cap (sk_blocked (fst (wake_thread g th))) = rs_cap (sk_blocked g)
    \<and> (snd (wake_thread g th) \<longleftrightarrow> th \<in> blocked g)
    \<and> sk_ready (fst (wake_thread g th)) = sk_ready g @ (if th \<in> blocked g then [th] else [])"
  proof cases
    case blocked
    obtain i where i: "position (\<lambda>r. r = th) (rs_items (sk_blocked g)) = Some i"
      "rs_items (Reserved_remove (sk_blocked g) i) = remove1 th (rs_items (sk_blocked g))"
      using blocked_remove [OF d(1) blocked(1)] .
    with blocked show ?thesis
      by (simp add: wake_thread_def wait_try_wake_def make_runnable_def upd_thread_def Let_def woken_def) (simp add: Reserved_remove_def)
  next
    case not_waiting
    then show ?thesis
      by (auto simp: wake_thread_def wait_try_wake_def woken_def blocked_def remove1_idem fun_eq_iff)
  next
    case no_thread
    then show ?thesis by (auto simp: wake_thread_def blocked_def remove1_idem fun_eq_iff)
  qed
  then show "sk_threads (fst (wake_thread g th)) = (sk_threads g)(th := map_option woken (sk_threads g th))"
    and "rs_items (sk_blocked (fst (wake_thread g th))) = remove1 th (rs_items (sk_blocked g))"
    and "rs_cap (sk_blocked (fst (wake_thread g th))) = rs_cap (sk_blocked g)"
    and "snd (wake_thread g th) \<longleftrightarrow> th \<in> blocked g"
    and "sk_ready (fst (wake_thread g th)) = sk_ready g @ (if th \<in> blocked g then [th] else [])"
    by auto
qed

lemma wake_thread_phase:
  assumes "phase_ok g"
  shows "phase_ok (fst (wake_thread g th))" "blocked (fst (wake_thread g th)) = blocked g - {th}"
proof -
  note w = wake_thread_spec [OF assms, of th]
  have d: "distinct (rs_items (sk_blocked g))" "\<And>x. x \<in> blocked g \<longleftrightarrow> (\<exists>t. sk_threads g x = Some t \<and> th_phase t = PWaiting)"
    using assms by (simp_all add: phase_ok_def)
  show b: "blocked (fst (wake_thread g th)) = blocked g - {th}" using w(2) d(1) by (simp add: blocked_def set_remove1_eq)
  show "phase_ok (fst (wake_thread g th))"
    unfolding phase_ok_def b w(1,2) using d by (auto simp: woken_def split: if_splits)
qed

definition touched :: "u64 \<Rightarrow> ThreadWait \<Rightarrow> ThreadWait" where
  "touched tgt t = woken (fst (wait_mark_signaled tgt t))"

lemma mark_fields [simp]:
  "th_phase (fst (wait_mark_signaled tgt t)) = th_phase t" "th_wait_objs (fst (wait_mark_signaled tgt t)) = th_wait_objs t"
  "th_wait_count (fst (wait_mark_signaled tgt t)) = th_wait_count t" "th_has_deadline (fst (wait_mark_signaled tgt t)) = th_has_deadline t"
  "length (th_wait_signaled (fst (wait_mark_signaled tgt t))) = length (th_wait_signaled t)"
  "th_ending (fst (wait_mark_signaled tgt t)) = th_ending t" "th_pid (fst (wait_mark_signaled tgt t)) = th_pid t"
  by (simp_all add: wait_mark_signaled_def split: option.split)

lemma woken_fields [simp]:
  "th_wait_objs (woken t) = th_wait_objs t" "th_wait_count (woken t) = th_wait_count t" "th_has_deadline (woken t) = th_has_deadline t"
  "th_wait_signaled (woken t) = th_wait_signaled t" "th_ending (woken t) = th_ending t" "th_pid (woken t) = th_pid t"
  "th_phase (woken t) \<noteq> PWaiting" "woken (woken t) = woken t"
  by (simp_all add: woken_def)

lemma woken_ok [simp]: "thread_ok (woken t) = thread_ok t"
  by (simp add: thread_ok_def) (simp add: woken_def)

lemma touched_fields [simp]:
  "waiting_on (touched tgt t) = waiting_on t" "th_has_deadline (touched tgt t) = th_has_deadline t"
  "thread_ok (touched tgt t) = thread_ok t" "th_phase (touched tgt t) \<noteq> PWaiting"
  by (simp_all add: touched_def waiting_on_def) (simp add: thread_ok_def)

lemma touched_twice: "touched tgt (touched tgt t) = touched tgt t"
proof -
  have "fst (wait_mark_signaled tgt (woken u)) = woken (fst (wait_mark_signaled tgt u))" for u
    by (simp add: wait_mark_signaled_def woken_def split: option.split)
  moreover have "fst (wait_mark_signaled tgt (fst (wait_mark_signaled tgt t))) = fst (wait_mark_signaled tgt t)"
    by (simp add: wait_mark_signaled_def split: option.split)
  ultimately show ?thesis by (simp add: touched_def)
qed

lemma wake_one_spec:
  assumes "phase_ok g"
  shows "phase_ok (wake_one g th tgt)" "blocked (wake_one g th tgt) = blocked g - {th}"
    "sk_threads (wake_one g th tgt) = (sk_threads g)(th := map_option (touched tgt) (sk_threads g th))"
    "rs_items (sk_blocked (wake_one g th tgt)) = remove1 th (rs_items (sk_blocked g))"
    "rs_cap (sk_blocked (wake_one g th tgt)) = rs_cap (sk_blocked g)"
    "set (sk_ready (wake_one g th tgt)) = set (sk_ready g) \<union> (blocked g \<inter> {th})"
proof -
  let ?g = "upd_thread g th (\<lambda>t. fst (wait_mark_signaled tgt t))"
  have b: "blocked ?g = blocked g" "rs_items (sk_blocked ?g) = rs_items (sk_blocked g)" "sk_ready ?g = sk_ready g"
    by (simp_all add: blocked_def) (simp add: upd_thread_def)
  have ok: "phase_ok ?g" using assms unfolding phase_ok_def b by (auto simp: upd_thread_def)
  note w = wake_thread_spec [OF ok, of th] and p = wake_thread_phase [OF ok, of th]
  show "phase_ok (wake_one g th tgt)" "blocked (wake_one g th tgt) = blocked g - {th}" using p b by (simp_all add: wake_one_def)
  show "sk_threads (wake_one g th tgt) = (sk_threads g)(th := map_option (touched tgt) (sk_threads g th))"
    using w(1) by (cases "sk_threads g th") (simp_all add: wake_one_def upd_thread_def touched_def)
  show "rs_items (sk_blocked (wake_one g th tgt)) = remove1 th (rs_items (sk_blocked g))"
    "rs_cap (sk_blocked (wake_one g th tgt)) = rs_cap (sk_blocked g)"
    "set (sk_ready (wake_one g th tgt)) = set (sk_ready g) \<union> (blocked g \<inter> {th})"
    using w(2,3,5) b by (auto simp: wake_one_def)
qed

lemma wake_all_spec:
  assumes "phase_ok g"
  shows "phase_ok (fst (wake_all g ws tgt)) \<and> blocked (fst (wake_all g ws tgt)) = blocked g - set ws
    \<and> sk_threads (fst (wake_all g ws tgt)) = (\<lambda>th. if th \<in> set ws then map_option (touched tgt) (sk_threads g th) else sk_threads g th)
    \<and> rs_cap (sk_blocked (fst (wake_all g ws tgt))) = rs_cap (sk_blocked g)
    \<and> set (sk_ready (fst (wake_all g ws tgt))) = set (sk_ready g) \<union> (blocked g \<inter> set ws)"
  using assms
proof (induction ws arbitrary: g)
  case Nil
  then show ?case by simp
next
  case (Cons th ws)
  note w = wake_one_spec [OF Cons.prems, of th tgt]
  have "map_option (touched tgt) (map_option (touched tgt) x) = map_option (touched tgt) x" for x
    by (simp add: option.map_comp comp_def touched_twice)
  with Cons.IH [OF w(1)] w show ?case
    unfolding fst_wake_all by (auto simp: fun_eq_iff)
qed

text \<open>The wake that follows an event ends the object's exemption.\<close>

lemma signal_waiters_spec:
  assumes "wait_inv X g"
  shows "blocked (fst (signal_waiters g ob)) = blocked g - set (obj_waiters g ob)"
    "sk_threads (fst (signal_waiters g ob)) = (\<lambda>th. if th \<in> set (obj_waiters g ob) then map_option (touched ob) (sk_threads g th) else sk_threads g th)"
    "rs_cap (sk_blocked (fst (signal_waiters g ob))) = rs_cap (sk_blocked g)"
    "phase_ok (fst (signal_waiters g ob))"
    "set (sk_ready (fst (signal_waiters g ob))) = set (sk_ready g) \<union> (blocked g \<inter> set (obj_waiters g ob))"
proof -
  let ?g = "upd_obj g ob (w_set_waiters [])"
  have "phase_ok ?g" using wait_inv_phase [OF assms] by (simp add: phase_ok_def blocked_def)
  note w = wake_all_spec [OF this, of "obj_waiters g ob" ob]
  then show "blocked (fst (signal_waiters g ob)) = blocked g - set (obj_waiters g ob)"
    "sk_threads (fst (signal_waiters g ob)) = (\<lambda>th. if th \<in> set (obj_waiters g ob) then map_option (touched ob) (sk_threads g th) else sk_threads g th)"
    "rs_cap (sk_blocked (fst (signal_waiters g ob))) = rs_cap (sk_blocked g)"
    "phase_ok (fst (signal_waiters g ob))"
    "set (sk_ready (fst (signal_waiters g ob))) = set (sk_ready g) \<union> (blocked g \<inter> set (obj_waiters g ob))"
    by (simp_all add: signal_waiters_def blocked_def cong: if_cong)
qed

lemma count_list_pos: "x \<in> set xs \<longleftrightarrow> 0 < count_list xs x"
  by (metis count_list_0_iff gr0I less_irrefl)

lemma signal_waiters_inv:
  assumes "wait_inv (insert ob X) g"
  shows "wait_inv X (fst (signal_waiters g ob))"
proof -
  let ?g = "fst (signal_waiters g ob)"
  note d = wait_invD [OF assms] and w = signal_waiters_spec [OF assms, of ob]
  have wt: "waiting ?g = waiting g" by (simp add: fun_eq_iff waiting_def w(2) split: option.split)
  have ow: "obj_waiters ?g x = (if x = ob then [] else obj_waiters g x)" for x
    by (simp add: obj_waiters_def split: option.split)
  have os: "obj_settled ?g x = obj_settled g x" for x by (simp add: obj_settled_def split: option.split)
  show ?thesis
  proof (rule wait_invI)
    show "distinct (rs_items (sk_blocked ?g))"
      and "th \<in> blocked ?g \<longleftrightarrow> (\<exists>t. sk_threads ?g th = Some t \<and> th_phase t = PWaiting)" for th
      using w(4) by (simp_all add: phase_ok_def)
    show "count_list (obj_waiters ?g x) th \<le> count_list (waiting ?g th) x" for x th using d(3) by (simp add: ow wt)
    fix th x
    assume th: "th \<in> blocked ?g"
    then have bl: "th \<in> blocked g" "th \<notin> set (obj_waiters g ob)" using w(1) by auto
    then have none: "ob \<notin> set (waiting g th)" using d(4) [OF bl(1), of ob] by (simp add: count_list_pos)
    show "count_list (waiting ?g th) x \<le> count_list (obj_waiters ?g x) th"
      using d(4) [OF bl(1), of x] none by (cases "x = ob") (simp_all add: ow wt count_list_pos)
    show "x \<in> X \<or> \<not> obj_settled ?g x" if "x \<in> set (waiting ?g th)"
      using d(5) [OF bl(1), of x] that none by (auto simp: os wt)
    show "True \<notin> set (marks t)" if "sk_threads ?g th = Some t" for t
      using d(6) [OF bl(1), of t] that bl(2) by (simp add: w(2))
  next
    show "thread_ok t" if "sk_threads ?g th = Some t" for th t
      using that d(7) by (cases "sk_threads g th") (auto simp: w(2) split: if_splits)
  qed
qed

text \<open>An event and its wake.\<close>

lemma event_inv:
  assumes "wait_inv X g" "sk_objs g ob = Some w" "w_waiters w' = w_waiters w"
  shows "wait_inv X (fst (signal_waiters (g\<lparr>sk_objs := (sk_objs g)(ob \<mapsto> w')\<rparr>) ob))"
  by (rule signal_waiters_inv [OF wait_inv_set_obj [OF assms]])

lemma wake_thread_inv:
  assumes "wait_inv X g"
  shows "wait_inv X (fst (wake_thread g th))"
proof -
  let ?g = "fst (wake_thread g th)"
  note d = wait_invD [OF assms] and w = wake_thread_spec [OF wait_inv_phase [OF assms], of th]
    and p = wake_thread_phase [OF wait_inv_phase [OF assms], of th]
  have wt: "waiting ?g = waiting g" by (simp add: fun_eq_iff waiting_def w(1) waiting_on_def split: option.split)
  have ow: "obj_waiters ?g = obj_waiters g" "obj_settled ?g = obj_settled g" by (simp_all add: fun_eq_iff obj_waiters_def obj_settled_def)
  show ?thesis
  proof (rule wait_invI)
    show "distinct (rs_items (sk_blocked ?g))"
      and "x \<in> blocked ?g \<longleftrightarrow> (\<exists>t. sk_threads ?g x = Some t \<and> th_phase t = PWaiting)" for x
      using p(1) by (simp_all add: phase_ok_def)
    show "True \<notin> set (marks t)" if "x \<in> blocked ?g" "sk_threads ?g x = Some t" for x t
      using that d(6) [of x t] by (simp add: p(2) w(1))
    show "thread_ok t" if "sk_threads ?g x = Some t" for x t
      using that d(7) [of x] by (cases "sk_threads g x") (auto simp: w(1) split: if_splits)
    show "y \<in> X \<or> \<not> obj_settled ?g y" if "x \<in> blocked ?g" "y \<in> set (waiting ?g x)" for x y
      using that d(5) [of x y] by (simp add: wt ow p(2))
  qed (use d(3,4) in \<open>simp_all add: wt ow p(2)\<close>)
qed

end
