(* ===== verification/Sched_Waiting.thy ===== *)
theory Sched_Waiting
  imports Sched_Invariant
begin

text \<open>
  The wait itself keeps the invariant of waiting: registering and parking are one step, undoing a
  refused registration leaves no trace, and resuming removes what is left of the registration.
\<close>

lemma count_list_remove1: "count_list (remove1 x xs) y = count_list xs y - (if x = y then 1 else 0)"
  by (induction xs) (auto simp: count_list_0_iff)

lemma obj_remove_waiter_waiters: "obj_waiters (obj_remove_waiter g ob th) x = (if x = ob then remove1 th (obj_waiters g ob) else obj_waiters g x)"
  by (simp add: obj_remove_waiter_def obj_waiters_def upd_obj_def WaitQueue_remove1 split: option.split)

lemma obj_remove_waiter_settled [simp]: "obj_settled (obj_remove_waiter g ob th) x = obj_settled g x"
  by (simp add: obj_remove_waiter_def obj_settled_def upd_obj_def split: option.split)

lemma obj_remove_waiter_frame [simp]:
  "sk_threads (obj_remove_waiter g ob th) = sk_threads g" "sk_blocked (obj_remove_waiter g ob th) = sk_blocked g"
  "sk_regs (obj_remove_waiter g ob th) = sk_regs g" "deadlines (obj_remove_waiter g ob th) = deadlines g"
  "deadline_slots (obj_remove_waiter g ob th) = deadline_slots g" "sk_ready (obj_remove_waiter g ob th) = sk_ready g"
  by (simp_all add: obj_remove_waiter_def)

lemma remove_waiters_frame [simp]:
  "sk_threads (remove_waiters g obs th) = sk_threads g" "sk_blocked (remove_waiters g obs th) = sk_blocked g"
  "sk_regs (remove_waiters g obs th) = sk_regs g" "deadlines (remove_waiters g obs th) = deadlines g"
  "deadline_slots (remove_waiters g obs th) = deadline_slots g" "obj_settled (remove_waiters g obs th) x = obj_settled g x"
  by (induction obs arbitrary: g) simp_all

lemma remove_waiters_count:
  "count_list (obj_waiters (remove_waiters g obs me) x) th
    = count_list (obj_waiters g x) th - (if th = me then count_list obs x else 0)"
proof (induction obs arbitrary: g)
  case (Cons ob obs)
  then show ?case by (auto simp: obj_remove_waiter_waiters count_list_remove1)
qed simp

text \<open>Adding a waiter, object by object.\<close>

lemma obj_add_waiterD:
  assumes "obj_add_waiter g ob th = Some g'"
  shows "obj_waiters g' x = (if x = ob then obj_waiters g ob @ [th] else obj_waiters g x)" "obj_settled g' x = obj_settled g x"
    "sk_threads g' = sk_threads g" "sk_blocked g' = sk_blocked g" "sk_regs g' = sk_regs g" "deadlines g' = deadlines g"
    "deadline_slots g' = deadline_slots g" "sk_ready g' = sk_ready g" "sk_objs g ob \<noteq> None"
  using assms by (auto simp: obj_add_waiter_def WaitQueue_add_def obj_waiters_def obj_settled_def upd_obj_def split: option.splits if_splits)

lemma add_waitersD:
  assumes "add_waiters g obs me n = (g', m, failed)"
  shows "count_list (obj_waiters g' x) th = count_list (obj_waiters g x) th + (if th = me then count_list (take (m - n) obs) x else 0)
    \<and> obj_settled g' x = obj_settled g x \<and> n \<le> m \<and> m - n \<le> length obs \<and> (\<not> failed \<longrightarrow> m - n = length obs)
    \<and> sk_threads g' = sk_threads g \<and> sk_blocked g' = sk_blocked g \<and> sk_regs g' = sk_regs g \<and> deadlines g' = deadlines g
    \<and> deadline_slots g' = deadline_slots g \<and> sk_ready g' = sk_ready g"
  using assms
proof (induction obs arbitrary: g n)
  case (Cons ob obs)
  show ?case
  proof (cases "obj_add_waiter g ob me")
    case None
    with Cons.prems show ?thesis by simp
  next
    case (Some g1)
    note a = obj_add_waiterD [OF Some]
    have r: "add_waiters g1 obs me (n + 1) = (g', m, failed)" using Cons.prems Some by simp
    note IH = Cons.IH [OF r]
    have "m - n = Suc (m - (n + 1))" using IH by arith
    then show ?thesis using IH a by auto
  qed
qed simp

section \<open>Threads that do not wait\<close>

text \<open>A running thread is registered nowhere.\<close>

lemma wait_inv_cleared:
  assumes "me \<notin> blocked g" "distinct (rs_items (sk_blocked g))"
    and "\<And>x. x \<noteq> me \<Longrightarrow> x \<in> blocked g \<longleftrightarrow> (\<exists>t. sk_threads g x = Some t \<and> th_phase t = PWaiting)"
    and "\<And>x th. th \<noteq> me \<Longrightarrow> count_list (obj_waiters g x) th \<le> count_list (waiting g th) x"
    and "\<And>x. count_list (obj_waiters g x) me = 0"
    and "\<And>x th. th \<in> blocked g \<Longrightarrow> count_list (waiting g th) x \<le> count_list (obj_waiters g x) th"
    and "\<And>ob th. th \<in> blocked g \<Longrightarrow> ob \<in> set (waiting g th) \<Longrightarrow> ob \<in> X \<or> \<not> obj_settled g ob"
    and "\<And>th t. th \<in> blocked g \<Longrightarrow> sk_threads g th = Some t \<Longrightarrow> True \<notin> set (marks t)"
    and "\<And>th t. sk_threads g th = Some t \<Longrightarrow> thread_ok t"
  shows "wait_inv X (upd_thread g me wait_clear)"
proof -
  let ?g = "upd_thread g me wait_clear"
  have b: "blocked ?g = blocked g" "obj_waiters ?g = obj_waiters g" "obj_settled ?g = obj_settled g"
    by (simp_all add: blocked_def fun_eq_iff obj_waiters_def obj_settled_def)
  have wt: "waiting ?g th = (if th = me then [] else waiting g th)" for th
    by (simp add: waiting_def upd_thread_def wait_clear_def waiting_on_def split: option.split)
  have th: "sk_threads ?g th = (if th = me then map_option wait_clear (sk_threads g me) else sk_threads g th)" for th
    by (simp add: upd_thread_def)
  note nb = assms(1)
  show ?thesis
  proof (rule wait_invI)
    show "distinct (rs_items (sk_blocked ?g))" using assms(2) by simp
    show "x \<in> blocked ?g \<longleftrightarrow> (\<exists>t. sk_threads ?g x = Some t \<and> th_phase t = PWaiting)" for x
      using assms(3) [of x] nb by (cases "x = me") (auto simp: b th wait_clear_def)
    show "count_list (obj_waiters ?g x) y \<le> count_list (waiting ?g y) x" for x y using assms(4,5) by (simp add: b wt)
    fix y x
    assume y: "y \<in> blocked ?g"
    then have y': "y \<in> blocked g" "y \<noteq> me" using nb b by auto
    show "count_list (waiting ?g y) x \<le> count_list (obj_waiters ?g x) y" using assms(6) [OF y'(1)] y' by (simp add: b wt)
    show "x \<in> X \<or> \<not> obj_settled ?g x" if "x \<in> set (waiting ?g y)" using assms(7) [OF y'(1), of x] that y' by (simp add: b wt)
    show "True \<notin> set (marks t)" if "sk_threads ?g y = Some t" for t using assms(8) [OF y'(1), of t] that y' by (simp add: th)
  next
    show "thread_ok t" if "sk_threads ?g x = Some t" for x t
      using that assms(9) [of x] by (auto simp: th thread_ok_def wait_clear_def split: if_splits)
  qed
qed

text \<open>The second hold of a wait, on a thread some waker made runnable.\<close>

lemma wait_finish_inv:
  assumes "wait_inv X g" and "wait_finish g me objs = Some (g', r)" and "me \<notin> blocked g" and "objs = waiting g me"
  shows "wait_inv X g'"
proof -
  note d = wait_invD [OF assms(1)]
  obtain t where t: "sk_threads g me = Some t" using assms(2) by (cases "sk_threads g me") (simp_all add: wait_finish_def)
  define g1 where "g1 = (let g = remove_waiters g objs me in
    if th_has_deadline t then g\<lparr>deadlines := fst (dl_remove (deadlines g) (TThread me))\<rparr> else g)"
  have g': "g' = upd_thread g1 me wait_clear" using assms(2) t by (simp add: wait_finish_def g1_def Let_def)
  have ow: "obj_waiters g1 x = obj_waiters (remove_waiters g objs me) x" "obj_settled g1 x = obj_settled g x" for x
    using remove_waiters_frame(6) [of g objs me x] by (simp_all add: g1_def Let_def obj_waiters_def obj_settled_def)
  have eq: "sk_threads g1 = sk_threads g" "sk_blocked g1 = sk_blocked g" by (simp_all add: g1_def Let_def)
  have wb: "waiting g1 = waiting g" "blocked g1 = blocked g" by (simp_all add: fun_eq_iff waiting_def blocked_def eq)
  have cnt: "count_list (obj_waiters g1 x) th = count_list (obj_waiters g x) th - (if th = me then count_list objs x else 0)" for x th
    by (simp add: ow(1) remove_waiters_count)
  show ?thesis
    unfolding g'
  proof (rule wait_inv_cleared)
    show "me \<notin> blocked g1" using assms(3) by (simp add: wb)
    show "distinct (rs_items (sk_blocked g1))" using d(1) by (simp add: eq)
    show "x \<in> blocked g1 \<longleftrightarrow> (\<exists>t. sk_threads g1 x = Some t \<and> th_phase t = PWaiting)" for x using d(2) by (simp add: wb eq)
    show "count_list (obj_waiters g1 x) me = 0" for x using d(3) [of x me] assms(4) by (simp add: cnt)
    show "count_list (obj_waiters g1 x) th \<le> count_list (waiting g1 th) x" if "th \<noteq> me" for x th
      using d(3) that by (simp add: cnt wb)
    fix th x
    assume th: "th \<in> blocked g1"
    then have ne: "th \<noteq> me" "th \<in> blocked g" using assms(3) wb by auto
    show "count_list (waiting g1 th) x \<le> count_list (obj_waiters g1 x) th" using d(4) [OF ne(2)] ne by (simp add: cnt wb)
    show "x \<in> X \<or> \<not> obj_settled g1 x" if "x \<in> set (waiting g1 th)" using d(5) [OF ne(2), of x] that by (simp add: ow wb)
    show "True \<notin> set (marks t)" if "sk_threads g1 th = Some t" for t using d(6) [OF ne(2)] that by (simp add: eq)
  next
    show "thread_ok t" if "sk_threads g1 th = Some t" for th t using d(7) that by (simp add: eq)
  qed
qed

section \<open>Entering a wait\<close>

lemma wait_register_fields:
  assumes "thread_ok t" "length objs \<le> MAX_WAIT_HANDLES"
  shows "thread_ok (wait_register objs dl t)" "waiting_on (wait_register objs dl t) = objs"
    "marks (wait_register objs dl t) = replicate (length objs) False" "th_phase (wait_register objs dl t) = PWaiting"
    "th_has_deadline (wait_register objs dl t) = dl"
  using assms by (simp_all add: thread_ok_def wait_register_def waiting_on_def marks_def)

text \<open>What registering leaves, before the deadline and the park.\<close>

lemma add_waiters_registered:
  assumes "wait_inv X g" "sk_threads g me = Some t" "th_phase t = PRunning" "length objs \<le> MAX_WAIT_HANDLES"
    and "add_waiters (upd_thread g me (wait_register objs dl)) objs me 0 = (g1, n, failed)"
  shows "count_list (obj_waiters g1 x) th = (if th = me then count_list (take n objs) x else count_list (obj_waiters g x) th)"
    "obj_settled g1 x = obj_settled g x" "sk_threads g1 = (sk_threads g)(me \<mapsto> wait_register objs dl t)"
    "sk_blocked g1 = sk_blocked g" "\<not> failed \<Longrightarrow> take n objs = objs" "me \<notin> blocked g"
    "deadlines g1 = deadlines g" "deadline_slots g1 = deadline_slots g" "sk_regs g1 = sk_regs g"
proof -
  note d = wait_invD [OF assms(1)]
  have "th_wait_count t = 0" using d(7) [OF assms(2)] assms(3) by (simp add: thread_ok_def)
  then have "waiting g me = []" using assms(2) by (simp add: waiting_def waiting_on_def)
  then have zero: "count_list (obj_waiters g x) me = 0" for x using d(3) [of x me] by simp
  have ow: "obj_waiters (upd_thread g me (wait_register objs dl)) x = obj_waiters g x"
    "obj_settled (upd_thread g me (wait_register objs dl)) x = obj_settled g x" for x
    by (simp_all add: obj_waiters_def obj_settled_def)
  note a = add_waitersD [OF assms(5)]
  show "count_list (obj_waiters g1 x) th = (if th = me then count_list (take n objs) x else count_list (obj_waiters g x) th)"
    using a [of x th] zero by (simp add: ow)
  show "obj_settled g1 x = obj_settled g x" using a [of x] by (simp add: ow)
  show "sk_threads g1 = (sk_threads g)(me \<mapsto> wait_register objs dl t)" using a assms(2) by (simp add: upd_thread_def)
  show "sk_blocked g1 = sk_blocked g" "\<not> failed \<Longrightarrow> take n objs = objs" "deadlines g1 = deadlines g"
    "deadline_slots g1 = deadline_slots g" "sk_regs g1 = sk_regs g" using a by simp_all
  show "me \<notin> blocked g" using d(2) [of me] assms(2,3) by simp
qed

text \<open>A refused registration is undone.\<close>

lemma wait_undo_inv:
  assumes "wait_inv X g" "sk_threads g me = Some t" "th_phase t = PRunning" "length objs \<le> MAX_WAIT_HANDLES"
    and "add_waiters (upd_thread g me (wait_register objs dl)) objs me 0 = (g1, n, failed)"
    and "sk_objs g2 = sk_objs g1" "sk_threads g2 = sk_threads g1" "sk_blocked g2 = sk_blocked g1"
  shows "wait_inv X (upd_thread (remove_waiters g2 (take n objs) me) me wait_clear)"
proof -
  note d = wait_invD [OF assms(1)] and a = add_waiters_registered [OF assms(1-5)]
  let ?g = "remove_waiters g2 (take n objs) me"
  have o2: "obj_waiters g2 = obj_waiters g1" "obj_settled g2 = obj_settled g1" by (simp_all add: fun_eq_iff obj_waiters_def obj_settled_def assms(6))
  have th: "sk_threads g2 = (sk_threads g)(me \<mapsto> wait_register objs dl t)" "sk_blocked g2 = sk_blocked g"
    using a(3,4) assms(7,8) by simp_all
  have b: "blocked ?g = blocked g" by (simp add: blocked_def th)
  have cnt: "count_list (obj_waiters ?g x) y = (if y = me then 0 else count_list (obj_waiters g x) y)" for x y
    by (simp add: remove_waiters_count o2 a(1))
  have wt: "y \<noteq> me \<Longrightarrow> waiting ?g y = waiting g y" for y by (simp add: waiting_def th)
  show ?thesis
  proof (rule wait_inv_cleared)
    show "me \<notin> blocked ?g" using a(6) b by simp
    show "distinct (rs_items (sk_blocked ?g))" using d(1) by (simp add: th)
    show "x \<in> blocked ?g \<longleftrightarrow> (\<exists>t. sk_threads ?g x = Some t \<and> th_phase t = PWaiting)" if "x \<noteq> me" for x
      using d(2) that by (simp add: b th)
    show "count_list (obj_waiters ?g x) y \<le> count_list (waiting ?g y) x" if "y \<noteq> me" for x y using d(3) that by (simp add: cnt wt)
    show "count_list (obj_waiters ?g x) me = 0" for x by (simp add: cnt)
    fix y x
    assume "y \<in> blocked ?g"
    then have y: "y \<in> blocked g" "y \<noteq> me" using a(6) b by auto
    show "count_list (waiting ?g y) x \<le> count_list (obj_waiters ?g x) y" using d(4) [OF y(1)] y by (simp add: cnt wt)
    show "x \<in> X \<or> \<not> obj_settled ?g x" if "x \<in> set (waiting ?g y)" using d(5) [OF y(1), of x] that y by (simp add: wt o2 a(2))
    show "True \<notin> set (marks t)" if "sk_threads ?g y = Some t" for t using d(6) [OF y(1), of t] that y by (simp add: th)
  next
    show "thread_ok u" if "sk_threads ?g x = Some u" for x u
      using that d(7) [of x] wait_register_fields(1) [OF d(7) [OF assms(2)] assms(4)] by (auto simp: th split: if_splits)
  qed
qed

text \<open>A registration that went through, with the park that follows it.\<close>

lemma wait_park_inv:
  assumes "wait_inv X g" "sk_threads g me = Some t" "th_phase t = PRunning" "length objs \<le> MAX_WAIT_HANDLES"
    and "add_waiters (upd_thread g me (wait_register objs dl)) objs me 0 = (g1, n, False)"
    and g2: "sk_objs g2 = sk_objs g1" "sk_threads g2 = sk_threads g1" "sk_blocked g2 = sk_blocked g1"
    and quiet: "\<And>ob. ob \<in> set objs \<Longrightarrow> ob \<in> X \<or> \<not> obj_settled g ob"
    and park: "park_blocked g2 me = Some g'"
  shows "wait_inv X g'" "blocked g' = insert me (blocked g)"
    "sk_threads g' = (sk_threads g)(me \<mapsto> (wait_register objs dl t)\<lparr>th_state := TBlocked\<rparr>)" "deadlines g' = deadlines g2"
proof -
  note d = wait_invD [OF assms(1)] and a = add_waiters_registered [OF assms(1-5)]
  let ?t = "(wait_register objs dl t)\<lparr>th_state := TBlocked\<rparr>"
  have g': "rs_items (sk_blocked g') = rs_items (sk_blocked g) @ [me]" "sk_threads g' = (sk_threads g)(me \<mapsto> ?t)"
    "sk_objs g' = sk_objs g1" "deadlines g' = deadlines g2"
    using park a(3,4) g2
    by (auto simp: park_blocked_def Let_def Reserved_push_def upd_thread_def split: option.splits if_splits)
  show b: "blocked g' = insert me (blocked g)" using g'(1) by (simp add: blocked_def)
  show "sk_threads g' = (sk_threads g)(me \<mapsto> ?t)" "deadlines g' = deadlines g2" by (fact g')+
  have ow: "obj_waiters g' = obj_waiters g1" "obj_settled g' = obj_settled g" using a(2) by (simp_all add: fun_eq_iff obj_waiters_def obj_settled_def g'(3))
  have wt: "waiting g' y = (if y = me then objs else waiting g y)" for y
    using wait_register_fields(2) [OF d(7) [OF assms(2)] assms(4)] by (simp add: waiting_def g'(2) waiting_on_def)
  have cnt: "count_list (obj_waiters g' x) y = (if y = me then count_list objs x else count_list (obj_waiters g x) y)" for x y
    using a(1,5) by (simp add: ow)
  show "wait_inv X g'"
  proof (rule wait_invI)
    show "distinct (rs_items (sk_blocked g'))" using d(1) a(6) by (simp add: g'(1) blocked_def)
    show "y \<in> blocked g' \<longleftrightarrow> (\<exists>t. sk_threads g' y = Some t \<and> th_phase t = PWaiting)" for y
      using d(2) [of y] a(6) by (cases "y = me") (simp_all add: b g'(2) wait_register_def)
    show "count_list (obj_waiters g' x) y \<le> count_list (waiting g' y) x" for x y using d(3) by (simp add: cnt wt)
    show "count_list (waiting g' y) x \<le> count_list (obj_waiters g' x) y" if "y \<in> blocked g'" for x y
      using d(4) [of y x] that by (auto simp: cnt wt b)
    show "x \<in> X \<or> \<not> obj_settled g' x" if "y \<in> blocked g'" "x \<in> set (waiting g' y)" for x y
      using d(5) [of y x] quiet [of x] that a(6) by (auto simp: wt b ow split: if_splits)
    show "True \<notin> set (marks u)" if "y \<in> blocked g'" "sk_threads g' y = Some u" for y u
      using d(6) [of y u] that a(6) wait_register_fields(3) [OF d(7) [OF assms(2)] assms(4), of dl]
      by (auto simp: b g'(2) marks_def split: if_splits)
    show "thread_ok u" if "sk_threads g' y = Some u" for y u
      using that d(7) [of y] wait_register_fields(1) [OF d(7) [OF assms(2)] assms(4), of dl]
      by (auto simp: g'(2) thread_ok_def split: if_splits)
  qed
qed

end
