(* ===== verification/Sched_Deadlines.thy ===== *)
theory Sched_Deadlines
  imports Sched_Waiting
begin

text \<open>
  The invariant of deadlines. Every entry of the heap has a promised slot and names a thread in a
  timed wait, a timer that says it is in the heap, or a send its endpoint still holds; a blocked
  thread with a deadline and a timer in the heap have their entry; and there are slots for every
  thread, timer and endpoint. A periodic timer that is armed is in the heap, but for the timers \<open>P\<close>.
\<close>

section \<open>Views of the state\<close>

definition targets :: "SchedState \<Rightarrow> Target multiset" where
  "targets g = image_mset target (heap_held (deadlines g))"

definition timer_view :: "SchedState \<Rightarrow> u64 \<rightharpoonup> (u64 \<times> u64 \<times> bool)" where
  "timer_view g ob = map_option (\<lambda>t. (tm_deadline_ns t, tm_interval_ns t, tm_in_heap t)) (get_timer g ob)"

definition deadline_view :: "SchedState \<Rightarrow> u64 \<rightharpoonup> bool" where
  "deadline_view g th = map_option th_has_deadline (sk_threads g th)"

definition held_sends :: "SchedState \<Rightarrow> u64 \<Rightarrow> PendingSend list" where
  "held_sends g c = (case get_ipc g c of None \<Rightarrow> [] | Some e \<Rightarrow> rs_items (ipc_pending e))"

definition live_sends :: "SchedState \<Rightarrow> u64 \<Rightarrow> u64 set" where
  "live_sends g c = ps_po ` {p \<in> set (held_sends g c). \<not> ps_cancelled p}"

definition endpoints :: "SchedState \<Rightarrow> u64 set" where
  "endpoints g = {ob. get_ipc g ob \<noteq> None}"

definition same_rest :: "SchedState \<Rightarrow> SchedState \<Rightarrow> bool" where
  "same_rest g g' \<longleftrightarrow> deadline_slots g' = deadline_slots g \<and> blocked g' \<subseteq> blocked g \<and> deadline_view g' = deadline_view g
     \<and> rs_cap (sk_blocked g') = rs_cap (sk_blocked g) \<and> held_sends g' = held_sends g \<and> endpoints g' = endpoints g"

section \<open>The invariant\<close>

definition timer_ok :: "u64 set \<Rightarrow> SchedState \<Rightarrow> u64 \<Rightarrow> u64 \<times> u64 \<times> bool \<Rightarrow> bool" where
  "timer_ok P g ob v = (case v of (d, i, h) \<Rightarrow>
     (h \<longleftrightarrow> TTimer ob \<in># targets g) \<and> (h \<longrightarrow> d \<noteq> 0) \<and> (d \<noteq> 0 \<and> i \<noteq> 0 \<longrightarrow> h \<or> ob \<in> P)
     \<and> (\<forall>e\<in>#heap_held (deadlines g). target e = TTimer ob \<longrightarrow> deadline_ns e = d))"

definition slots_enough :: "SchedState \<Rightarrow> bool" where
  "slots_enough g \<longleftrightarrow> finite (dom (deadline_view g)) \<and> card (dom (deadline_view g)) \<le> deadline_slots g DThread
     \<and> card (dom (deadline_view g)) \<le> rs_cap (sk_blocked g)
     \<and> finite (dom (timer_view g)) \<and> card (dom (timer_view g)) \<le> deadline_slots g DTimer
     \<and> finite (endpoints g) \<and> MAX_PENDING_SENDS * card (endpoints g) \<le> deadline_slots g DPendingSend
     \<and> (\<forall>c. length (held_sends g c) \<le> MAX_PENDING_SENDS)"

definition dl_inv :: "u64 set \<Rightarrow> SchedState \<Rightarrow> bool" where
  "dl_inv P g \<longleftrightarrow> slots_ok g \<and> (\<forall>t. count (targets g) t \<le> 1)
     \<and> (\<forall>th. TThread th \<in># targets g \<longrightarrow> deadline_view g th = Some True)
     \<and> (\<forall>th\<in>blocked g. deadline_view g th = Some True \<longrightarrow> TThread th \<in># targets g)
     \<and> (\<forall>ob v. timer_view g ob = Some v \<longrightarrow> timer_ok P g ob v)
     \<and> (\<forall>ob. TTimer ob \<in># targets g \<longrightarrow> timer_view g ob \<noteq> None)
     \<and> (\<forall>po c. TPendingSend po c \<in># targets g \<longrightarrow> po \<in> live_sends g c)
     \<and> slots_enough g"

lemma dl_invD:
  assumes "dl_inv P g"
  shows "slots_ok g" and "count (targets g) t \<le> 1"
    and "TThread th \<in># targets g \<Longrightarrow> deadline_view g th = Some True"
    and "th \<in> blocked g \<Longrightarrow> deadline_view g th = Some True \<Longrightarrow> TThread th \<in># targets g"
    and "timer_view g ob = Some v \<Longrightarrow> timer_ok P g ob v"
    and "TTimer ob \<in># targets g \<Longrightarrow> timer_view g ob \<noteq> None"
    and "TPendingSend po c \<in># targets g \<Longrightarrow> po \<in> live_sends g c"
    and "slots_enough g"
proof -
  note c1 = assms [unfolded dl_inv_def]
  note c2 = c1 [THEN conjunct2]
  note c3 = c2 [THEN conjunct2]
  note c4 = c3 [THEN conjunct2]
  note c5 = c4 [THEN conjunct2]
  note c6 = c5 [THEN conjunct2]
  note c7 = c6 [THEN conjunct2]
  show "slots_ok g" "slots_enough g" by (rule c1 [THEN conjunct1], rule c7 [THEN conjunct2])
  show "count (targets g) t \<le> 1" by (rule c2 [THEN conjunct1, rule_format])
  show "deadline_view g th = Some True" if "TThread th \<in># targets g" by (rule c3 [THEN conjunct1, rule_format, OF that])
  show "TThread th \<in># targets g" if "th \<in> blocked g" "deadline_view g th = Some True"
    by (rule c4 [THEN conjunct1, rule_format, OF that])
  show "timer_ok P g ob v" if "timer_view g ob = Some v" by (rule c5 [THEN conjunct1, rule_format, OF that])
  show "timer_view g ob \<noteq> None" if "TTimer ob \<in># targets g" by (rule c6 [THEN conjunct1, rule_format, OF that])
  show "po \<in> live_sends g c" if "TPendingSend po c \<in># targets g" by (rule c7 [THEN conjunct1, rule_format, OF that])
qed

lemma dl_invI:
  assumes "slots_ok g" and "\<And>t. count (targets g) t \<le> 1"
    and "\<And>th. TThread th \<in># targets g \<Longrightarrow> deadline_view g th = Some True"
    and "\<And>th. th \<in> blocked g \<Longrightarrow> deadline_view g th = Some True \<Longrightarrow> TThread th \<in># targets g"
    and "\<And>ob v. timer_view g ob = Some v \<Longrightarrow> timer_ok P g ob v"
    and "\<And>ob. TTimer ob \<in># targets g \<Longrightarrow> timer_view g ob \<noteq> None"
    and "\<And>po c. TPendingSend po c \<in># targets g \<Longrightarrow> po \<in> live_sends g c"
    and "slots_enough g"
  shows "dl_inv P g"
  unfolding dl_inv_def using assms by blast

lemma dl_inv_cong:
  assumes "dl_inv P g" "same_rest g g'" "deadlines g' = deadlines g" "timer_view g' = timer_view g"
  shows "dl_inv P g'"
proof -
  note d = dl_invD [OF assms(1)]
  have s: "deadline_slots g' = deadline_slots g" "blocked g' \<subseteq> blocked g" "deadline_view g' = deadline_view g"
    "rs_cap (sk_blocked g') = rs_cap (sk_blocked g)" "held_sends g' = held_sends g" "endpoints g' = endpoints g"
    using assms(2) by (simp_all add: same_rest_def)
  have t: "targets g' = targets g" "live_sends g' = live_sends g" "timer_ok P g' = timer_ok P g"
    using assms(3) s(5) by (simp_all add: fun_eq_iff targets_def live_sends_def timer_ok_def)
  show ?thesis
  proof (rule dl_invI)
    show "slots_ok g'" by (rule slots_ok_deadlines [OF d(1) assms(3) s(1)])
    show "slots_enough g'" using d(8) by (simp add: slots_enough_def s assms(4))
    show "TThread th \<in># targets g'" if "th \<in> blocked g'" "deadline_view g' th = Some True" for th
      using d(4) [of th] that s(2,3) t(1) by auto
  qed (use d(2,3,5-7) in \<open>simp_all add: t s assms(4)\<close>)
qed

section \<open>Room for an entry\<close>

lemma kind_held_le:
  assumes "\<And>t. count (image_mset target M) t \<le> 1" "finite S"
    and "\<And>e. e \<in># M \<Longrightarrow> Target_kind (target e) = k \<Longrightarrow> target e \<in> S"
  shows "kind_held M k \<le> card S"
proof -
  let ?N = "image_mset target (filter_mset (\<lambda>x. Target_kind (target x) = k) M)"
  have "?N \<subseteq># image_mset target M" by (intro image_mset_subseteq_mono multiset_filter_subset)
  then have one: "count ?N t \<le> 1" for t using assms(1) [of t] mset_subset_eq_count [of ?N _ t] by (meson le_trans)
  have "set_mset ?N \<subseteq> S" using assms(3) by auto
  have "kind_held M k = size ?N" by (simp add: kind_held_def)
  also have "\<dots> = sum (count ?N) (set_mset ?N)" by (simp only: size_multiset_overloaded_eq)
  also have "\<dots> \<le> card (set_mset ?N)" using sum_mono [of "set_mset ?N" "count ?N" "\<lambda>_. 1"] one by simp
  also have "\<dots> \<le> card S" by (rule card_mono) fact+
  finally show ?thesis .
qed

lemma kind_held_room:
  assumes "\<And>t. count (image_mset target M) t \<le> 1" "finite S" "x \<in> S" "x \<notin># image_mset target M"
    and "\<And>e. e \<in># M \<Longrightarrow> Target_kind (target e) = k \<Longrightarrow> target e \<in> S"
  shows "kind_held M k < card S"
proof -
  have "target e \<in> S - {x}" if "e \<in># M" "Target_kind (target e) = k" for e using that assms(4,5) by auto
  then have "kind_held M k \<le> card (S - {x})" by (intro kind_held_le [OF assms(1)]) (use assms(2) in auto)
  also have "\<dots> < card S" using assms(2,3) by (rule card_Diff1_less)
  finally show ?thesis .
qed

lemma Target_kind_cases:
  "Target_kind t = DThread \<longleftrightarrow> (\<exists>th. t = TThread th)" "Target_kind t = DTimer \<longleftrightarrow> (\<exists>ob. t = TTimer ob)"
  "Target_kind t = DPendingSend \<longleftrightarrow> (\<exists>po c. t = TPendingSend po c)"
  by (cases t; simp)+

lemma in_targets: "e \<in># heap_held (deadlines g) \<Longrightarrow> target e \<in># targets g"
  by (simp add: targets_def)

text \<open>Every entry of a kind names one of a finite set of targets, as many as the kind has slots for.\<close>

definition possible :: "SchedState \<Rightarrow> DeadlineKind \<Rightarrow> Target set" where
  "possible g k = (case k of DThread \<Rightarrow> TThread ` dom (deadline_view g) | DTimer \<Rightarrow> TTimer ` dom (timer_view g)
     | DPendingSend \<Rightarrow> \<Union>c\<in>endpoints g. (\<lambda>po. TPendingSend po c) ` live_sends g c)"

definition needed :: "SchedState \<Rightarrow> DeadlineKind \<Rightarrow> nat" where
  "needed g k = (case k of DThread \<Rightarrow> card (dom (deadline_view g)) | DTimer \<Rightarrow> card (dom (timer_view g))
     | DPendingSend \<Rightarrow> MAX_PENDING_SENDS * card (endpoints g))"

lemma live_endpoint: "po \<in> live_sends g c \<Longrightarrow> c \<in> endpoints g"
  by (cases "get_ipc g c") (auto simp: live_sends_def held_sends_def endpoints_def)

lemma possible_sends:
  assumes "slots_enough g"
  shows "finite (possible g DPendingSend)" "card (possible g DPendingSend) \<le> MAX_PENDING_SENDS * card (endpoints g)"
proof -
  show "finite (possible g DPendingSend)" using assms by (auto simp: possible_def slots_enough_def live_sends_def)
  have "card (possible g DPendingSend) \<le> (\<Sum>x\<in>endpoints g. card ((\<lambda>po. TPendingSend po x) ` live_sends g x))"
    unfolding possible_def using assms by (simp add: card_UN_le slots_enough_def)
  also have "\<dots> \<le> (\<Sum>x\<in>endpoints g. MAX_PENDING_SENDS)"
  proof (rule sum_mono)
    fix x
    have "card ((\<lambda>po. TPendingSend po x) ` live_sends g x) \<le> card (live_sends g x)" by (rule card_image_le) (simp add: live_sends_def)
    also have "\<dots> \<le> card {p \<in> set (held_sends g x). \<not> ps_cancelled p}" unfolding live_sends_def by (rule card_image_le) simp
    also have "\<dots> \<le> card (set (held_sends g x))" by (rule card_mono) auto
    also have "\<dots> \<le> MAX_PENDING_SENDS" using card_length [of "held_sends g x"] assms unfolding slots_enough_def by (meson le_trans)
    finally show "card ((\<lambda>po. TPendingSend po x) ` live_sends g x) \<le> MAX_PENDING_SENDS" .
  qed
  finally show "card (possible g DPendingSend) \<le> MAX_PENDING_SENDS * card (endpoints g)" by (simp add: mult.commute)
qed

lemma possible_needed:
  assumes "slots_enough g"
  shows "finite (possible g k)" "card (possible g k) \<le> needed g k" "needed g k \<le> deadline_slots g k"
proof -
  have "card (TThread ` S) = card S" "card (TTimer ` S) = card S" for S by (simp_all add: card_image inj_on_def)
  then show "finite (possible g k)" "card (possible g k) \<le> needed g k"
    using possible_sends [OF assms] assms by (cases k; simp add: possible_def needed_def slots_enough_def)+
  show "needed g k \<le> deadline_slots g k" using assms by (cases k) (simp_all add: needed_def slots_enough_def)
qed

lemma entries_possible:
  assumes "dl_inv P g" "e \<in># heap_held (deadlines g)"
  shows "target e \<in> possible g (Target_kind (target e))"
proof (cases "target e")
  case (TPendingSend po c)
  then have "po \<in> live_sends g c" using in_targets [OF assms(2)] dl_invD(7) [OF assms(1)] by simp
  with live_endpoint [OF this] TPendingSend show ?thesis by (auto simp: possible_def)
qed (use in_targets [OF assms(2)] dl_invD(3,6) [OF assms(1)] in \<open>auto simp: possible_def\<close>)

lemma kinds_needed:
  assumes "dl_inv P g"
  shows "kind_held (heap_held (deadlines g)) k \<le> needed g k"
proof -
  note n = possible_needed [OF dl_invD(8) [OF assms], of k]
  have "kind_held (heap_held (deadlines g)) k \<le> card (possible g k)"
    using dl_invD(2) [OF assms] entries_possible [OF assms] n(1) by (intro kind_held_le) (auto simp: targets_def)
  with n(2) show ?thesis by simp
qed

lemma target_room:
  assumes "dl_inv P g" "x \<in> possible g k" "x \<notin># targets g"
  shows "kind_held (heap_held (deadlines g)) k < deadline_slots g k"
proof -
  note n = possible_needed [OF dl_invD(8) [OF assms(1)], of k]
  have "kind_held (heap_held (deadlines g)) k < card (possible g k)"
    using dl_invD(2) [OF assms(1)] entries_possible [OF assms(1)] n(1) assms(2,3) by (intro kind_held_room [of _ _ x]) (auto simp: targets_def)
  with n(2,3) show ?thesis by simp
qed

lemma thread_room:
  assumes "dl_inv P g" "th \<in> dom (deadline_view g)" "TThread th \<notin># targets g"
  shows "kind_held (heap_held (deadlines g)) DThread < deadline_slots g DThread"
  using assms(2) by (intro target_room [OF assms(1) _ assms(3)]) (simp add: possible_def)

lemma timer_room:
  assumes "dl_inv P g" "ob \<in> dom (timer_view g)" "TTimer ob \<notin># targets g"
  shows "kind_held (heap_held (deadlines g)) DTimer < deadline_slots g DTimer"
  using assms(2) by (intro target_room [OF assms(1) _ assms(3)]) (simp add: possible_def)

lemma send_room:
  assumes "dl_inv P g" "po \<in> live_sends g c" "TPendingSend po c \<notin># targets g"
  shows "kind_held (heap_held (deadlines g)) DPendingSend < deadline_slots g DPendingSend"
  using assms(2) live_endpoint [OF assms(2)] by (intro target_room [OF assms(1) _ assms(3)]) (auto simp: possible_def)

section \<open>Entries in and out\<close>

text \<open>Taking out an entry, when what it stood for goes with it.\<close>

lemma targets_add: "heap_held (deadlines g) = add_mset e (heap_held h) \<Longrightarrow> targets g = add_mset (target e) (image_mset target (heap_held h))"
  by (simp add: targets_def)

lemma taken_target:
  assumes "dl_inv P g" "heap_held (deadlines g) = add_mset e (heap_held h)"
  shows "target e \<notin># image_mset target (heap_held h)"
    and "t \<noteq> target e \<Longrightarrow> t \<in># image_mset target (heap_held h) \<longleftrightarrow> t \<in># targets g"
proof -
  have "count (targets g) (target e) \<le> 1" using dl_invD(2) [OF assms(1)] .
  then have "count (image_mset target (heap_held h)) (target e) = 0" by (simp add: targets_add [OF assms(2)])
  then show "target e \<notin># image_mset target (heap_held h)" by (meson count_eq_zero_iff)
  show "t \<noteq> target e \<Longrightarrow> t \<in># image_mset target (heap_held h) \<longleftrightarrow> t \<in># targets g" by (auto simp: targets_add [OF assms(2)])
qed

lemma taken_slots:
  assumes "slots_ok g" "heap_held (deadlines g) = add_mset e (heap_held h)" "heap_ok h" "rs_cap h = rs_cap (deadlines g)"
    and "deadlines g' = h" "deadline_slots g' = deadline_slots g"
  shows "slots_ok g'"
proof -
  have "slots_ok (g\<lparr>deadlines := h\<rparr>)" using assms(2) by (intro slots_ok_less [OF assms(1,3,4)]) simp
  then show ?thesis using assms(5,6) by (simp add: slots_ok_def promised_slots_def)
qed

lemma dl_inv_take:
  assumes inv: "dl_inv P g" and e: "heap_held (deadlines g) = add_mset e (heap_held h)" "heap_ok h" "rs_cap h = rs_cap (deadlines g)"
    and g': "deadlines g' = h" "deadline_slots g' = deadline_slots g" "blocked g' \<subseteq> blocked g"
    and th: "\<And>x. TThread x \<noteq> target e \<Longrightarrow> deadline_view g' x = deadline_view g x"
      "\<And>x. TThread x = target e \<Longrightarrow> x \<in> blocked g' \<Longrightarrow> deadline_view g' x \<noteq> Some True"
    and tm: "\<And>ob. TTimer ob \<noteq> target e \<Longrightarrow> timer_view g' ob = timer_view g ob"
      "\<And>ob. TTimer ob = target e \<Longrightarrow> \<exists>d i. timer_view g' ob = Some (d, i, False) \<and> (d \<noteq> 0 \<and> i \<noteq> 0 \<longrightarrow> ob \<in> Q)"
    and sends: "\<And>po c. TPendingSend po c \<noteq> target e \<Longrightarrow> po \<in> live_sends g c \<Longrightarrow> po \<in> live_sends g' c"
    and fit: "slots_enough g'" and "P \<subseteq> Q"
  shows "dl_inv Q g'"
proof -
  note d = dl_invD [OF inv] and out = taken_target [OF inv e(1)]
  have t': "targets g' = image_mset target (heap_held h)" by (simp add: targets_def g'(1))
  have m: "t \<in># targets g' \<longleftrightarrow> t \<in># targets g \<and> t \<noteq> target e" for t unfolding t' using out(1) out(2) [of t] by blast
  show ?thesis
  proof (rule dl_invI)
    show "slots_ok g'" by (rule taken_slots [OF d(1) e g'(1,2)])
    show "count (targets g') t \<le> 1" for t using d(2) [of t] by (simp add: t' targets_add [OF e(1)] split: if_splits)
    show "deadline_view g' x = Some True" if "TThread x \<in># targets g'" for x using that d(3) [of x] th(1) [of x] m by auto
    show "TThread x \<in># targets g'" if "x \<in> blocked g'" "deadline_view g' x = Some True" for x
      using that d(4) [of x] th [of x] g'(3) m by (cases "TThread x = target e") auto
    show "timer_view g' ob \<noteq> None" if "TTimer ob \<in># targets g'" for ob using that d(6) [of ob] tm(1) [of ob] m by auto
    show "po \<in> live_sends g' c" if "TPendingSend po c \<in># targets g'" for po c using that d(7) sends m by auto
    show "slots_enough g'" by fact
    show "timer_ok Q g' ob v" if v: "timer_view g' ob = Some v" for ob v
    proof (cases "TTimer ob = target e")
      case True
      with tm(2) [OF True] v have "\<not> snd (snd v)" "fst v \<noteq> 0 \<and> fst (snd v) \<noteq> 0 \<longrightarrow> ob \<in> Q" by auto
      moreover have "target x \<noteq> TTimer ob" if "x \<in># heap_held h" for x
        using out(1) that True by (metis image_eqI set_image_mset)
      ultimately show ?thesis using True m by (auto simp: timer_ok_def g'(1))
    next
      case False
      then have "timer_ok P g ob v" using d(5) v tm(1) by simp
      with False m e(1) \<open>P \<subseteq> Q\<close> show ?thesis by (auto simp: timer_ok_def g'(1))
    qed
  qed
qed

text \<open>Putting in an entry, once what it stands for is there.\<close>

lemma dl_inv_put:
  assumes inv: "dl_inv P g" and e: "heap_held h = add_mset e (heap_held (deadlines g))" "target e \<notin># targets g"
    and g': "deadlines g' = h" "slots_ok g'" "blocked g' \<subseteq> insert me (blocked g)" "me \<in> blocked g' \<Longrightarrow> me \<notin> blocked g \<Longrightarrow> target e = TThread me"
    and th: "\<And>x. TThread x \<noteq> target e \<Longrightarrow> deadline_view g' x = deadline_view g x"
      "\<And>x. TThread x = target e \<Longrightarrow> deadline_view g' x = Some True"
    and tm: "\<And>ob. TTimer ob \<noteq> target e \<Longrightarrow> timer_view g' ob = timer_view g ob"
      "\<And>ob. TTimer ob = target e \<Longrightarrow> \<exists>i. timer_view g' ob = Some (deadline_ns e, i, True) \<and> deadline_ns e \<noteq> 0"
    and sends: "\<And>c. live_sends g' c = live_sends g c" "\<And>po c. TPendingSend po c = target e \<Longrightarrow> po \<in> live_sends g c"
    and fit: "slots_enough g'" and Q: "\<And>ob. ob \<in> P \<Longrightarrow> ob \<in> Q \<or> TTimer ob = target e"
  shows "dl_inv Q g'"
proof -
  note d = dl_invD [OF inv]
  have t': "targets g' = add_mset (target e) (targets g)" by (simp add: targets_def g'(1) e(1))
  have new: "count (targets g) (target e) = 0" using e(2) by (meson count_eq_zero_iff)
  show ?thesis
  proof (rule dl_invI)
    show "slots_ok g'" "slots_enough g'" by fact+
    show "count (targets g') t \<le> 1" for t using d(2) [of t] new by (cases "t = target e") (simp_all add: t')
    show "deadline_view g' x = Some True" if "TThread x \<in># targets g'" for x
      using that d(3) [of x] th [of x] by (cases "TThread x = target e") (auto simp: t')
    show "TThread x \<in># targets g'" if "x \<in> blocked g'" "deadline_view g' x = Some True" for x
    proof (cases "TThread x = target e")
      case False
      then have "x \<in> blocked g" using that(1) g'(3,4) by (cases "x = me") auto
      then show ?thesis using d(4) [of x] that(2) th(1) [OF False] by (simp add: t')
    qed (simp add: t')
    show "timer_view g' ob \<noteq> None" if "TTimer ob \<in># targets g'" for ob
      using that d(6) [of ob] tm [of ob] by (cases "TTimer ob = target e") (auto simp: t')
    show "po \<in> live_sends g' c" if "TPendingSend po c \<in># targets g'" for po c
      using that d(7) sends by (auto simp: t')
    show "timer_ok Q g' ob v" if v: "timer_view g' ob = Some v" for ob v
    proof (cases "TTimer ob = target e")
      case True
      have "target x \<noteq> TTimer ob" if "x \<in># heap_held (deadlines g)" for x using e(2) in_targets [OF that] True by auto
      with True tm(2) [OF True] v show ?thesis by (auto simp: timer_ok_def g'(1) e(1) t')
    next
      case False
      then have "timer_ok P g ob v" using d(5) v tm(1) by simp
      with False Q [of ob] show ?thesis by (auto simp: timer_ok_def g'(1) e(1) t')
    qed
  qed
qed

end
