(* ===== verification/Sched_Endpoints.thy ===== *)
theory Sched_Endpoints
  imports Sched_Deadlines
begin

text \<open>
  The invariant of endpoints. The two ends of a channel name each other; a ring is well formed, and full
  while sends are held behind it; a held send's operation is complete exactly when the send was
  cancelled, and belongs to that send alone; and the relation of endpoints holding endpoints in
  their queued messages has no cycle.
\<close>

definition po_done :: "SchedState \<Rightarrow> u64 \<rightharpoonup> bool" where
  "po_done g ob = (case sk_objs g ob of Some (WPo p) \<Rightarrow> Some (po_signaled p) | _ \<Rightarrow> None)"

definition ipc_view :: "SchedState \<Rightarrow> u64 \<rightharpoonup> IpcInner" where
  "ipc_view g ob = map_option (\<lambda>e. e\<lparr>ipc_waiters := []\<rparr>) (get_ipc g ob)"

definition ipc_refs :: "IpcInner \<Rightarrow> u64 set" where
  "ipc_refs e = (\<Union>x\<in>set (mr_contents (ipc_recv e)). slot_refs (snd x))
     \<union> (\<Union>p\<in>set (rs_items (ipc_pending e)). slot_refs (ps_transfers p))"

definition holds :: "SchedState \<Rightarrow> (u64 \<times> u64) set" where
  "holds g = {(a, b). b \<in> endpoints g \<and> (\<exists>e. get_ipc g a = Some e \<and> b \<in> ipc_refs e)}"

definition endpoint_ok :: "IpcInner \<Rightarrow> bool" where
  "endpoint_ok e \<longleftrightarrow> mr_inv (ipc_recv e) \<and> (rs_items (ipc_pending e) \<noteq> [] \<longrightarrow> mr_is_full (ipc_recv e))
     \<and> length (rs_items (ipc_pending e)) \<le> MAX_PENDING_SENDS \<and> MAX_PENDING_SENDS \<le> rs_cap (ipc_pending e)"

definition send_pos :: "SchedState \<Rightarrow> u64 \<Rightarrow> u64 list" where
  "send_pos g c = map ps_po (held_sends g c)"

definition reg_pos :: "UsReg \<Rightarrow> u64 set" where
  "reg_pos u = pl_po ` set_mset (table (us_pending u)) \<union> pf_po ` set_mset (table (us_fill u))"

definition peers_ok :: "SchedState \<Rightarrow> bool" where
  "peers_ok g \<longleftrightarrow> 0 \<notin> endpoints g
     \<and> (\<forall>ob. peer_of g ob \<noteq> 0 \<longrightarrow> peer_of g ob \<noteq> ob \<and> peer_of g (peer_of g ob) = ob)"

definition sends_ok :: "SchedState \<Rightarrow> bool" where
  "sends_ok g \<longleftrightarrow> (\<forall>c. distinct (send_pos g c))
     \<and> (\<forall>c c'. c \<noteq> c' \<longrightarrow> set (send_pos g c) \<inter> set (send_pos g c') = {})
     \<and> (\<forall>c. \<forall>p\<in>set (held_sends g c). po_done g (ps_po p) = Some (ps_cancelled p))
     \<and> (\<forall>r u. sk_regs g r = Some u \<longrightarrow> (\<forall>c. reg_pos u \<inter> set (send_pos g c) = {}))"

definition ipc_inv :: "SchedState \<Rightarrow> bool" where
  "ipc_inv g \<longleftrightarrow> (\<forall>ob e. ipc_view g ob = Some e \<longrightarrow> endpoint_ok e) \<and> peers_ok g \<and> sends_ok g \<and> acyclic (holds g)"

text \<open>Only the contents of endpoints, which operations are complete, and the registrations matter.\<close>

lemma ipc_view_get:
  "get_ipc g ob = Some e \<Longrightarrow> ipc_view g ob = Some (e\<lparr>ipc_waiters := []\<rparr>)"
  "ipc_view g ob = Some v \<Longrightarrow> \<exists>e. get_ipc g ob = Some e \<and> v = e\<lparr>ipc_waiters := []\<rparr>"
  "ipc_view g ob = None \<longleftrightarrow> get_ipc g ob = None"
  by (auto simp: ipc_view_def)

lemma ipc_refs_waiters [simp]: "ipc_refs (e\<lparr>ipc_waiters := ws\<rparr>) = ipc_refs e"
  by (simp add: ipc_refs_def)

lemma endpoint_ok_waiters [simp]: "endpoint_ok (e\<lparr>ipc_waiters := ws\<rparr>) = endpoint_ok e"
  by (simp add: endpoint_ok_def)

lemma held_sends_view: "held_sends g c = (case ipc_view g c of None \<Rightarrow> [] | Some e \<Rightarrow> rs_items (ipc_pending e))"
  by (simp add: held_sends_def ipc_view_def split: option.split)

lemma endpoints_view: "endpoints g = dom (ipc_view g)"
  by (auto simp: endpoints_def ipc_view_def)

lemma peer_of_view: "peer_of g ob = (case ipc_view g ob of None \<Rightarrow> 0 | Some e \<Rightarrow> ipc_peer e)"
  by (simp add: peer_of_def ipc_view_def split: option.split)

lemma holds_view: "holds g = {(a, b). b \<in> endpoints g \<and> (\<exists>e. ipc_view g a = Some e \<and> b \<in> ipc_refs e)}"
  by (auto simp: holds_def ipc_view_def)

lemma ipc_inv_endpoint: "ipc_inv g \<Longrightarrow> get_ipc g ob = Some e \<Longrightarrow> endpoint_ok e"
  by (metis endpoint_ok_waiters ipc_inv_def ipc_view_get(1))

lemma ipc_view_held:
  assumes "ipc_view g' = ipc_view g"
  shows "held_sends g' = held_sends g"
  by (simp add: held_sends_view assms fun_eq_iff)

lemma ipc_view_endpoints:
  assumes "ipc_view g' = ipc_view g"
  shows "endpoints g' = endpoints g"
  by (simp add: endpoints_view assms)

lemma ipc_inv_cong:
  assumes "ipc_inv g" and v: "ipc_view g' = ipc_view g"
    and "\<And>c po. po \<in> set (send_pos g c) \<Longrightarrow> po_done g' po = po_done g po"
    and "\<And>r u'. sk_regs g' r = Some u' \<Longrightarrow> \<exists>u. sk_regs g r = Some u \<and> reg_pos u' \<subseteq> reg_pos u"
  shows "ipc_inv g'"
proof -
  have h: "held_sends g' = held_sends g" "send_pos g' = send_pos g" using ipc_view_held [OF v] by (simp_all add: fun_eq_iff send_pos_def)
  have p: "peer_of g' = peer_of g" by (simp add: peer_of_view v fun_eq_iff)
  have e: "endpoints g' = endpoints g" by (rule ipc_view_endpoints [OF v])
  have ho: "holds g' = holds g" by (simp add: holds_view v e)
  have "po_done g' (ps_po p) = po_done g (ps_po p)" if "p \<in> set (held_sends g c)" for p c
    using assms(3) [of "ps_po p" c] that by (simp add: send_pos_def)
  moreover have "reg_pos u' \<inter> set (send_pos g c) = {}" if "sk_regs g' r = Some u'" for r u' c
    using assms(4) [OF that] assms(1) unfolding ipc_inv_def sends_ok_def by blast
  ultimately show ?thesis using assms(1) by (simp add: ipc_inv_def sends_ok_def peers_ok_def h p e ho v)
qed

lemma sends_okD:
  assumes "ipc_inv g"
  shows "distinct (send_pos g c)" "c \<noteq> c' \<Longrightarrow> po \<in> set (send_pos g c) \<Longrightarrow> po \<notin> set (send_pos g c')"
    "p \<in> set (held_sends g c) \<Longrightarrow> po_done g (ps_po p) = Some (ps_cancelled p)"
    "sk_regs g r = Some u \<Longrightarrow> po \<in> reg_pos u \<Longrightarrow> po \<notin> set (send_pos g c)"
  using assms unfolding ipc_inv_def sends_ok_def by blast+

lemma held_distinct: "ipc_inv g \<Longrightarrow> get_ipc g c = Some e \<Longrightarrow> distinct (map ps_po (rs_items (ipc_pending e)))"
  using sends_okD(1) [of g c] by (simp add: send_pos_def held_sends_def)

lemma live_sendE:
  assumes "po \<in> live_sends g c"
  obtains e p where "get_ipc g c = Some e" "p \<in> set (held_sends g c)" "ps_po p = po" "\<not> ps_cancelled p"
  using assms by (cases "get_ipc g c") (auto simp: live_sends_def held_sends_def)

section \<open>Cycles\<close>

lemma acyclic_sinks:
  assumes "acyclic r" and "r' \<subseteq> r \<union> UNIV \<times> S" and "S \<inter> Domain r' = {}"
  shows "acyclic r'"
proof -
  have "(x, y) \<in> r\<^sup>+ \<or> y \<in> S" if "(x, y) \<in> r'\<^sup>+" for x y
    using that
  proof (induction rule: trancl_induct)
    case (step y z)
    then have "y \<notin> S" using assms(3) by blast
    with step assms(2) show ?case by (auto intro: trancl_into_trancl)
  qed (use assms(2) in auto)
  moreover have "x \<notin> S" if "(x, x) \<in> r'\<^sup>+" for x using tranclD [OF that] assms(3) by blast
  ultimately show ?thesis using assms(1) unfolding acyclic_def by blast
qed

lemma acyclic_add_sinks:
  assumes "acyclic r" and "\<And>f. f \<in> S \<Longrightarrow> f \<noteq> p \<and> f \<notin> Domain r"
  shows "acyclic (r \<union> {p} \<times> S)"
  using assms(2) by (intro acyclic_sinks [OF assms(1)]) auto

lemma holds_an_endpoint_iff:
  assumes "ipc_inv g"
  shows "holds_an_endpoint g ob \<longleftrightarrow> ob \<in> Domain (holds g)"
proof (cases "get_ipc g ob")
  case None
  then show ?thesis by (auto simp: holds_an_endpoint_def holds_def)
next
  case (Some e)
  then have mr: "mr_inv (ipc_recv e)" using ipc_inv_endpoint [OF assms Some] by (simp add: endpoint_ok_def)
  have ep: "(\<exists>t\<in>set ts. is_endpoint g t) \<longleftrightarrow> slot_refs ts \<inter> endpoints g \<noteq> {}" for ts
    by (auto simp: is_endpoint_def slot_refs_def endpoints_def split: option.splits)
  have "holds_an_endpoint g ob \<longleftrightarrow> (\<Union>s\<in>set (mr_slots (ipc_recv e)). slot_refs (rg_transfers s)) \<inter> endpoints g \<noteq> {}
      \<or> (\<Union>p\<in>set (rs_items (ipc_pending e)). slot_refs (ps_transfers p)) \<inter> endpoints g \<noteq> {}"
    using Some by (auto simp: holds_an_endpoint_def ep)
  also have "\<dots> \<longleftrightarrow> ipc_refs e \<inter> endpoints g \<noteq> {}" unfolding ring_refs [OF mr] ipc_refs_def by blast
  also have "\<dots> \<longleftrightarrow> ob \<in> Domain (holds g)" using Some by (auto simp: holds_def)
  finally show ?thesis .
qed

text \<open>What a send that is not refused may carry.\<close>

lemma not_closes_a_cycle:
  assumes "ipc_inv g" "\<not> closes_a_cycle g endpoint ts" "f \<in> slot_refs ts" "f \<in> endpoints g"
  shows "f \<noteq> peer_of g endpoint \<and> f \<notin> Domain (holds g)"
proof -
  obtain t where t: "Some t \<in> set ts" "tr_obj t = f" using assms(3) by (auto simp: slot_refs_def)
  then have "\<not> (\<forall>t\<in>set ts. t = None)" by auto
  with assms(2) t have "f \<noteq> peer_of g endpoint" "\<not> (is_endpoint g (Some t) \<and> holds_an_endpoint g f)"
    by (auto simp: closes_a_cycle_def Let_def split: if_splits option.splits)
  with assms(1,4) t show ?thesis by (auto simp: holds_an_endpoint_iff is_endpoint_def endpoints_def)
qed

section \<open>Changing an endpoint\<close>

text \<open>The new contents of an endpoint, its peer unchanged.\<close>

lemma ipc_inv_upd:
  assumes inv: "ipc_inv g" and e: "get_ipc g c = Some e" and v: "ipc_view g' = (ipc_view g)(c \<mapsto> e')"
    and ok: "endpoint_ok e'" "ipc_peer e' = ipc_peer e" and ac: "acyclic (holds g')"
    and dist: "distinct (map ps_po (rs_items (ipc_pending e')))"
    and old: "\<And>p. p \<in> set (rs_items (ipc_pending e')) \<Longrightarrow> ps_po p \<in> set (send_pos g c)
        \<or> (\<forall>c'. ps_po p \<notin> set (send_pos g c')) \<and> (\<forall>r u. sk_regs g r = Some u \<longrightarrow> ps_po p \<notin> reg_pos u)"
    and po: "\<And>p. p \<in> set (rs_items (ipc_pending e')) \<Longrightarrow> po_done g' (ps_po p) = Some (ps_cancelled p)"
      "\<And>c' po. c' \<noteq> c \<Longrightarrow> po \<in> set (send_pos g c') \<Longrightarrow> po_done g' po = po_done g po"
    and regs: "\<And>r u'. sk_regs g' r = Some u' \<Longrightarrow> \<exists>u. sk_regs g r = Some u \<and> reg_pos u' \<subseteq> reg_pos u"
  shows "ipc_inv g'"
proof -
  note i = inv [unfolded ipc_inv_def peers_ok_def sends_ok_def]
  have h: "held_sends g' x = (if x = c then rs_items (ipc_pending e') else held_sends g x)" for x by (simp add: held_sends_view v)
  then have s: "send_pos g' x = (if x = c then map ps_po (rs_items (ipc_pending e')) else send_pos g x)" for x by (simp add: send_pos_def)
  note ec = ipc_view_get(1) [OF e]
  have "endpoints g' = endpoints g" "peer_of g' = peer_of g" using ec ok(2) by (auto simp: endpoints_view peer_of_view v fun_eq_iff)
  then have "peers_ok g'" using i by (simp add: peers_ok_def)
  have oks: "endpoint_ok e''" if "ipc_view g' ob = Some e''" for ob e'' using that i ok(1) by (auto simp: v split: if_splits)
  have dj: "set (send_pos g x) \<inter> set (send_pos g y) = {}" if "x \<noteq> y" for x y using i that by blast
  have new: "ps_po p \<notin> set (send_pos g z)" if "p \<in> set (rs_items (ipc_pending e'))" "z \<noteq> c" for p z
    using old [OF that(1)] dj [OF that(2)] by blast
  have "sends_ok g'"
    unfolding sends_ok_def
  proof (intro conjI allI impI ballI)
    show "distinct (send_pos g' x)" for x using dist i by (simp add: s)
    show "set (send_pos g' x) \<inter> set (send_pos g' y) = {}" if "x \<noteq> y" for x y
      using that dj [of x y] new [of _ x] new [of _ y] by (cases "x = c"; cases "y = c") (auto simp: s)
    show "po_done g' (ps_po p) = Some (ps_cancelled p)" if p: "p \<in> set (held_sends g' x)" for x p
    proof (cases "x = c")
      case False
      then have "p \<in> set (held_sends g x)" using p by (simp add: h)
      with i po(2) [OF False, of "ps_po p"] show ?thesis by (simp add: send_pos_def)
    qed (use p po(1) h in simp)
    show "reg_pos u \<inter> set (send_pos g' x) = {}" if u: "sk_regs g' r = Some u" for r u x
    proof -
      obtain u0 where u0: "sk_regs g r = Some u0" "reg_pos u \<subseteq> reg_pos u0" using regs [OF u] by blast
      have dr: "reg_pos u0 \<inter> set (send_pos g y) = {}" for y using i u0(1) by blast
      have "ps_po p \<notin> reg_pos u0" if "p \<in> set (rs_items (ipc_pending e'))" for p using old [OF that] dr [of c] u0(1) by blast
      then show ?thesis using u0(2) dr [of x] by (auto simp: s)
    qed
  qed
  with \<open>peers_ok g'\<close> oks show ?thesis using ac by (simp add: ipc_inv_def)
qed

lemma holds_upd:
  assumes "get_ipc g c = Some e" "ipc_view g' = (ipc_view g)(c \<mapsto> e')" "ipc_refs e' \<subseteq> ipc_refs e \<union> S"
  shows "holds g' \<subseteq> holds g \<union> {c} \<times> (S \<inter> endpoints g)"
proof -
  have "endpoints g' = endpoints g" using assms(1) by (auto simp: endpoints_view assms(2) ipc_view_get)
  then show ?thesis using assms(3) ipc_view_get(1) [OF assms(1)] by (auto simp: holds_view assms(2) split: if_splits)
qed

lemma acyclic_shrunk:
  assumes "ipc_inv g" "get_ipc g c = Some e" "ipc_view g' = (ipc_view g)(c \<mapsto> e')" "ipc_refs e' \<subseteq> ipc_refs e"
  shows "acyclic (holds g')"
  using holds_upd [OF assms(2,3), of "{}"] assms(1,4) by (auto simp: ipc_inv_def intro: acyclic_subset)

lemma acyclic_grown:
  assumes "ipc_inv g" "get_ipc g c = Some e" "ipc_view g' = (ipc_view g)(c \<mapsto> e')" "ipc_refs e' \<subseteq> ipc_refs e \<union> slot_refs ts"
    and "peer_of g endpoint = c" "\<not> closes_a_cycle g endpoint ts"
  shows "acyclic (holds g')"
proof (rule acyclic_subset [OF acyclic_add_sinks holds_upd [OF assms(2-4)]])
  show "acyclic (holds g)" using assms(1) by (simp add: ipc_inv_def)
  show "f \<noteq> c \<and> f \<notin> Domain (holds g)" if "f \<in> slot_refs ts \<inter> endpoints g" for f
    using not_closes_a_cycle [OF assms(1,6), of f] that assms(5) by blast
qed

end
