(* ===== verification/Sched_Keeps.thy ===== *)
theory Sched_Keeps
  imports Sched_Endpoints
begin

text \<open>
  The scheduler's invariant, waiting, deadlines and endpoints together, and the operations that
  touch one object: signalling a channel, completing an operation, an interrupt. Each is an event on
  the object and the wake of its waiters under the same hold of the lock.
\<close>

definition sched_inv :: "u64 set \<Rightarrow> SchedState \<Rightarrow> bool" where
  "sched_inv P g \<longleftrightarrow> wait_inv {} g \<and> dl_inv P g \<and> ipc_inv g"

lemma sched_invD: "sched_inv P g \<Longrightarrow> wait_inv {} g" "sched_inv P g \<Longrightarrow> dl_inv P g" "sched_inv P g \<Longrightarrow> ipc_inv g"
  by (simp_all add: sched_inv_def)

section \<open>Contents of objects\<close>

text \<open>An object apart from its waiters.\<close>

definition contents :: "SchedState \<Rightarrow> u64 \<rightharpoonup> waitable" where
  "contents g ob = map_option (w_set_waiters []) (sk_objs g ob)"

definition pick_timer :: "waitable \<Rightarrow> (u64 \<times> u64 \<times> bool) option" where
  "pick_timer w = (case w of WTimer t \<Rightarrow> Some (tm_deadline_ns t, tm_interval_ns t, tm_in_heap t) | _ \<Rightarrow> None)"

definition pick_ipc :: "waitable \<Rightarrow> IpcInner option" where
  "pick_ipc w = (case w of WIpc e \<Rightarrow> Some (e\<lparr>ipc_waiters := []\<rparr>) | _ \<Rightarrow> None)"

definition pick_po :: "waitable \<Rightarrow> bool option" where
  "pick_po w = (case w of WPo p \<Rightarrow> Some (po_signaled p) | _ \<Rightarrow> None)"

lemma pick_set_waiters [simp]:
  "pick_timer (w_set_waiters ws w) = pick_timer w" "pick_ipc (w_set_waiters ws w) = pick_ipc w" "pick_po (w_set_waiters ws w) = pick_po w"
  by (cases w; simp add: pick_timer_def pick_ipc_def pick_po_def)+

lemma pick_views:
  "timer_view g ob = Option.bind (sk_objs g ob) pick_timer" "ipc_view g ob = Option.bind (sk_objs g ob) pick_ipc"
  "po_done g ob = Option.bind (sk_objs g ob) pick_po"
  by (auto simp: timer_view_def get_timer_def ipc_view_def get_ipc_def po_done_def pick_timer_def pick_ipc_def pick_po_def
      split: option.split waitable.split)

lemma contents_views:
  "timer_view g ob = Option.bind (contents g ob) pick_timer" "ipc_view g ob = Option.bind (contents g ob) pick_ipc"
  "po_done g ob = Option.bind (contents g ob) pick_po"
  by (cases "sk_objs g ob"; simp add: pick_views contents_def)+

lemma same_contents:
  assumes "contents g' = contents g"
  shows "timer_view g' = timer_view g" "ipc_view g' = ipc_view g" "po_done g' = po_done g"
    "held_sends g' = held_sends g" "endpoints g' = endpoints g"
proof -
  show "timer_view g' = timer_view g" "po_done g' = po_done g" by (simp_all add: fun_eq_iff contents_views assms)
  show v: "ipc_view g' = ipc_view g" by (simp add: fun_eq_iff contents_views assms)
  show "held_sends g' = held_sends g" "endpoints g' = endpoints g" by (rule ipc_view_held [OF v]) (rule ipc_view_endpoints [OF v])
qed

lemma ipc_inv_same:
  assumes "ipc_inv g" "contents g' = contents g" "sk_regs g' = sk_regs g"
  shows "ipc_inv g'"
  by (rule ipc_inv_cong [OF assms(1)]) (simp_all add: same_contents [OF assms(2)] assms(3))

text \<open>A change of one object.\<close>

lemma set_obj_views:
  "timer_view (g\<lparr>sk_objs := (sk_objs g)(ob \<mapsto> w)\<rparr>) = (timer_view g)(ob := pick_timer w)"
  "ipc_view (g\<lparr>sk_objs := (sk_objs g)(ob \<mapsto> w)\<rparr>) = (ipc_view g)(ob := pick_ipc w)"
  "po_done (g\<lparr>sk_objs := (sk_objs g)(ob \<mapsto> w)\<rparr>) = (po_done g)(ob := pick_po w)"
  by (simp_all add: fun_eq_iff pick_views)

lemma set_obj_same:
  assumes "sk_objs g ob = Some w"
  shows "pick_timer w' = pick_timer w \<Longrightarrow> timer_view (g\<lparr>sk_objs := (sk_objs g)(ob \<mapsto> w')\<rparr>) = timer_view g"
    "pick_ipc w' = pick_ipc w \<Longrightarrow> ipc_view (g\<lparr>sk_objs := (sk_objs g)(ob \<mapsto> w')\<rparr>) = ipc_view g"
    "pick_po w' = pick_po w \<Longrightarrow> po_done (g\<lparr>sk_objs := (sk_objs g)(ob \<mapsto> w')\<rparr>) = po_done g"
  using assms by (simp_all add: fun_eq_iff set_obj_views pick_views)

lemma deadline_view_cong: "sk_threads g' = sk_threads g \<Longrightarrow> deadline_view g' = deadline_view g"
  by (simp add: deadline_view_def fun_eq_iff)

lemma blocked_cong: "sk_blocked g' = sk_blocked g \<Longrightarrow> blocked g' = blocked g"
  by (simp add: blocked_def)

text \<open>Deadlines and endpoints do not see a change that leaves timers, endpoints and entries alone.\<close>

lemma dl_inv_same:
  assumes "dl_inv P g" "timer_view g' = timer_view g" "ipc_view g' = ipc_view g" "deadlines g' = deadlines g"
    "deadline_slots g' = deadline_slots g" "blocked g' \<subseteq> blocked g" "deadline_view g' = deadline_view g"
    "rs_cap (sk_blocked g') = rs_cap (sk_blocked g)"
  shows "dl_inv P g'"
  by (rule dl_inv_cong [OF assms(1)]) (simp_all add: same_rest_def assms(2,4-) ipc_view_held [OF assms(3)] ipc_view_endpoints [OF assms(3)])

section \<open>Wakes\<close>

lemma signal_waiters_contents: "contents (fst (signal_waiters g ob)) = contents g"
proof
  fix x
  have [simp]: "w_set_waiters [] (w_set_waiters [] w) = w_set_waiters [] w" for w by (cases w) simp_all
  show "contents (fst (signal_waiters g ob)) x = contents g x" by (simp add: contents_def option.map_comp comp_def)
qed

lemma touched_has_deadline: "map_option th_has_deadline (map_option (touched ob) t) = map_option th_has_deadline t"
  by (simp add: option.map_comp comp_def)

lemma signal_waiters_view:
  assumes "wait_inv X g"
  shows "deadline_view (fst (signal_waiters g ob)) = deadline_view g"
proof
  fix th
  show "deadline_view (fst (signal_waiters g ob)) th = deadline_view g th"
    by (simp add: deadline_view_def signal_waiters_spec [OF assms] touched_has_deadline del: option.map_comp)
qed

lemma signal_waiters_dl:
  assumes "wait_inv X g" "dl_inv P g"
  shows "dl_inv P (fst (signal_waiters g ob))"
  using signal_waiters_view [OF assms(1)] signal_waiters_spec(1,3) [OF assms(1), of ob] same_contents [OF signal_waiters_contents]
  by (intro dl_inv_same [OF assms(2)]) auto

lemma signal_waiters_ipc: "ipc_inv g \<Longrightarrow> ipc_inv (fst (signal_waiters g ob))"
  by (erule ipc_inv_cong) (auto simp: same_contents [OF signal_waiters_contents])

lemma wake_thread_sched:
  assumes "sched_inv P g"
  shows "sched_inv P (fst (wake_thread g th))"
proof -
  note w = sched_invD(1) [OF assms]
  have v: "contents (fst (wake_thread g th)) = contents g" by (simp add: contents_def fun_eq_iff)
  have dv: "deadline_view (fst (wake_thread g th)) = deadline_view g"
    by (auto simp: deadline_view_def fun_eq_iff wake_thread_spec [OF wait_inv_phase [OF w]] option.map_comp comp_def)
  have "dl_inv P (fst (wake_thread g th))"
    using dv same_contents [OF v] wake_thread_phase(2) [OF wait_inv_phase [OF w], of th] wake_thread_spec(3) [OF wait_inv_phase [OF w], of th]
    by (intro dl_inv_same [OF sched_invD(2) [OF assms]]) auto
  moreover have "ipc_inv (fst (wake_thread g th))"
    by (rule ipc_inv_cong [OF sched_invD(3) [OF assms]]) (auto simp: same_contents [OF v])
  ultimately show ?thesis using wake_thread_inv [OF w] by (simp add: sched_inv_def)
qed

section \<open>Events\<close>

text \<open>An event on an object that is neither a timer nor an endpoint, with the wake that follows it.\<close>

lemma event_sched:
  assumes "sched_inv P g" "sk_objs g ob = Some w" "w_waiters w' = w_waiters w" "pick_timer w' = pick_timer w" "pick_ipc w' = pick_ipc w"
    and "pick_po w' = pick_po w \<or> (\<forall>c. ob \<notin> set (send_pos g c))"
  shows "sched_inv P (fst (signal_waiters (g\<lparr>sk_objs := (sk_objs g)(ob \<mapsto> w')\<rparr>) ob))"
proof -
  let ?g = "g\<lparr>sk_objs := (sk_objs g)(ob \<mapsto> w')\<rparr>"
  note v = set_obj_same [OF assms(2)]
  have w: "wait_inv {ob} ?g" by (rule wait_inv_set_obj [OF sched_invD(1) [OF assms(1)] assms(2,3)])
  have "dl_inv P ?g"
    by (rule dl_inv_same [OF sched_invD(2) [OF assms(1)]]) (simp_all add: v assms blocked_def deadline_view_def fun_eq_iff)
  moreover have "ipc_inv ?g"
  proof (rule ipc_inv_cong [OF sched_invD(3) [OF assms(1)]])
    show "po_done ?g po = po_done g po" if "po \<in> set (send_pos g c)" for c po
      using assms(2,6) that by (auto simp: set_obj_views pick_views)
  qed (auto simp: v assms)
  ultimately show ?thesis
    using event_inv [OF sched_invD(1) [OF assms(1)] assms(2,3)] signal_waiters_dl [OF w] signal_waiters_ipc by (simp add: sched_inv_def)
qed

text \<open>A change that brings the object to no event.\<close>

lemma quiet_sched:
  assumes "sched_inv P g" "sk_objs g ob = Some w" "w_waiters w' = w_waiters w" "settled w' \<Longrightarrow> settled w"
    "pick_timer w' = pick_timer w" "pick_ipc w' = pick_ipc w" "pick_po w' = pick_po w"
  shows "sched_inv P (g\<lparr>sk_objs := (sk_objs g)(ob \<mapsto> w')\<rparr>)"
proof -
  let ?g = "g\<lparr>sk_objs := (sk_objs g)(ob \<mapsto> w')\<rparr>"
  note v = set_obj_same [OF assms(2)]
  have "dl_inv P ?g"
    by (rule dl_inv_same [OF sched_invD(2) [OF assms(1)]]) (simp_all add: v assms blocked_def deadline_view_def fun_eq_iff)
  moreover have "ipc_inv ?g" by (rule ipc_inv_cong [OF sched_invD(3) [OF assms(1)]]) (auto simp: v assms)
  ultimately show ?thesis
    using wait_inv_set_obj_quiet [OF sched_invD(1) [OF assms(1)] assms(2,3,4)] by (simp add: sched_inv_def)
qed

section \<open>Channels, operations and interrupts\<close>

lemma notify_sched:
  assumes "sched_inv P g"
  shows "sched_inv P (fst (notify g chan n))"
proof (cases "sk_objs g chan")
  case (Some w)
  show ?thesis
  proof (cases w)
    case (WNotif c)
    have "nc_waiters (fst (notif_enqueue c n)) = nc_waiters c" by (simp add: notif_enqueue_def Let_def split: option.split)
    with Some WNotif event_sched [OF assms Some] show ?thesis
      by (simp add: notify_def signal_channel_def pick_timer_def pick_ipc_def pick_po_def)
  qed (simp_all add: notify_def Some assms)
qed (simp add: notify_def assms)

lemma notif_try_recv_sched:
  assumes "sched_inv P g"
  shows "sched_inv P (fst (notif_try_recv g chan))"
proof (cases "sk_objs g chan")
  case (Some w)
  show ?thesis
  proof (cases w)
    case (WNotif c)
    have "nc_waiters (fst (notif_recv c)) = nc_waiters c" "notif_signaled (fst (notif_recv c)) \<Longrightarrow> notif_signaled c"
      by (auto simp: notif_recv_def notif_signaled_def Reserved_remove_def split: list.splits if_splits)
    with Some WNotif quiet_sched [OF assms Some, of "WNotif (fst (notif_recv c))"] show ?thesis
      by (simp add: notif_try_recv_def pick_timer_def pick_ipc_def pick_po_def case_prod_unfold)
  qed (simp_all add: notif_try_recv_def Some assms)
qed (simp add: notif_try_recv_def assms)

text \<open>Completing an operation: what each part of the invariant sees of it.\<close>

lemma signal_po_cases:
  obtains (idle) "signal_pending_op_with_result g po status res = g" "po_done g po \<noteq> Some False"
    | (completes) p where "sk_objs g po = Some (WPo p)" "\<not> po_signaled p"
        "signal_pending_op_with_result g po status res
          = fst (signal_waiters (g\<lparr>sk_objs := (sk_objs g)(po \<mapsto> WPo (p\<lparr>po_status := status, po_result := res, po_signaled := True\<rparr>))\<rparr>) po)"
proof (cases "\<exists>p. sk_objs g po = Some (WPo p) \<and> \<not> po_signaled p")
  case True
  then obtain p where "sk_objs g po = Some (WPo p)" "\<not> po_signaled p" by blast
  then show thesis by (intro completes) (simp_all add: signal_pending_op_with_result_def signal_with_result_def)
next
  case False
  then show thesis
    by (intro idle)
      (auto simp: signal_pending_op_with_result_def signal_with_result_def po_done_def split: option.splits waitable.splits)
qed

lemma signal_po_views:
  "ipc_view (signal_pending_op_with_result g po status res) = ipc_view g"
  "timer_view (signal_pending_op_with_result g po status res) = timer_view g"
  "po_done (signal_pending_op_with_result g po status res) = (po_done g)(po := map_option (\<lambda>_. True) (po_done g po))"
proof -
  let ?g = "signal_pending_op_with_result g po status res"
  have "ipc_view ?g = ipc_view g \<and> timer_view ?g = timer_view g \<and> po_done ?g = (po_done g)(po := map_option (\<lambda>_. True) (po_done g po))"
  proof (cases rule: signal_po_cases [of g po status res])
    case idle
    then show ?thesis by (cases "po_done g po") auto
  next
    case (completes p)
    then show ?thesis
      by (simp add: same_contents [OF signal_waiters_contents] set_obj_views pick_timer_def pick_ipc_def fun_upd_idem pick_views)
        (simp add: pick_po_def)
  qed
  then show "ipc_view ?g = ipc_view g" "timer_view ?g = timer_view g" "po_done ?g = (po_done g)(po := map_option (\<lambda>_. True) (po_done g po))"
    by blast+
qed

lemma signal_po_wait:
  assumes "wait_inv X g"
  shows "wait_inv X (signal_pending_op_with_result g po status res)"
proof (cases rule: signal_po_cases [of g po status res])
  case (completes p)
  then show ?thesis using event_inv [OF assms completes(1)] by simp
qed (simp add: assms)

lemma signal_po_dl:
  assumes "wait_inv X g" "dl_inv P g"
  shows "dl_inv P (signal_pending_op_with_result g po status res)"
proof (cases rule: signal_po_cases [of g po status res])
  case (completes p)
  let ?g = "g\<lparr>sk_objs := (sk_objs g)(po \<mapsto> WPo (p\<lparr>po_status := status, po_result := res, po_signaled := True\<rparr>))\<rparr>"
  have "dl_inv P ?g"
    by (rule dl_inv_same [OF assms(2)])
      (simp_all add: set_obj_same [OF completes(1)] pick_timer_def pick_ipc_def blocked_def deadline_view_def fun_eq_iff)
  moreover have "wait_inv (insert po X) ?g" by (rule wait_inv_set_obj [OF assms(1) completes(1)]) simp
  ultimately show ?thesis using signal_waiters_dl by (simp add: completes(3))
qed (simp add: assms)

text \<open>No held send stands behind the operation.\<close>

lemma signal_pending_op_sched:
  assumes "sched_inv P g" and "\<And>c. po \<notin> set (send_pos g c)"
  shows "sched_inv P (signal_pending_op_with_result g po status res)"
proof -
  have "ipc_inv (signal_pending_op_with_result g po status res)"
    by (rule ipc_inv_cong [OF sched_invD(3) [OF assms(1)]]) (use assms(2) in \<open>auto simp: signal_po_views\<close>)
  then show ?thesis using signal_po_wait [OF sched_invD(1) [OF assms(1)]] signal_po_dl [OF sched_invD(1,2) [OF assms(1)]] by (simp add: sched_inv_def)
qed

lemma pending_op_take_sched:
  assumes "sched_inv P g"
  shows "sched_inv P (fst (pending_op_take g po))"
proof (cases "sk_objs g po")
  case (Some w)
  show ?thesis
  proof (cases w)
    case (WPo p)
    have "po_waiters (fst (take_parked p)) = po_waiters p" "po_signaled (fst (take_parked p)) = po_signaled p"
      by (simp_all add: take_parked_def)
    with Some WPo quiet_sched [OF assms Some, of "WPo (fst (take_parked p))"] show ?thesis
      by (simp add: pending_op_take_def pick_timer_def pick_ipc_def pick_po_def case_prod_unfold)
  qed (simp_all add: pending_op_take_def Some assms)
qed (simp add: pending_op_take_def assms)

lemma pending_op_installed_sched:
  assumes "sched_inv P g"
  shows "sched_inv P (pending_op_installed g po outcome)"
proof (cases "sk_objs g po")
  case (Some w)
  show ?thesis
  proof (cases w)
    case (WPo p)
    have "po_waiters (PendingOperation_installed outcome p) = po_waiters p"
      "po_signaled (PendingOperation_installed outcome p) = po_signaled p"
      by (simp_all add: PendingOperation_installed_def split: sum.split)
    with Some WPo quiet_sched [OF assms Some, of "WPo (PendingOperation_installed outcome p)"] show ?thesis
      by (simp add: pending_op_installed_def pick_timer_def pick_ipc_def pick_po_def)
  qed (simp_all add: pending_op_installed_def Some assms)
qed (simp add: pending_op_installed_def assms)

lemma complete_lookup_sched:
  assumes "sched_inv P g" and "\<And>c. po \<notin> set (send_pos g c)"
  shows "sched_inv P (fst (complete_lookup g po status parked))"
proof (cases "sk_objs g po")
  case (Some w)
  show ?thesis
  proof (cases w)
    case (WPo p)
    let ?g = "g\<lparr>sk_objs := (sk_objs g)(po \<mapsto> WPo (PendingOperation_park parked p))\<rparr>"
    have "sched_inv P ?g"
      by (rule quiet_sched [OF assms(1) Some]) (simp_all add: WPo PendingOperation_park_def pick_timer_def pick_ipc_def pick_po_def)
    moreover have "send_pos ?g c = send_pos g c" for c
      by (simp add: send_pos_def held_sends_def get_ipc_def Some WPo)
    ultimately show ?thesis using assms signal_pending_op_sched [of P ?g po] by (simp add: complete_lookup_def Some WPo)
  qed (simp_all add: complete_lookup_def Some assms)
qed (simp add: complete_lookup_def assms)

lemma signal_interrupt_sched:
  assumes "sched_inv P g"
  shows "sched_inv P (signal_interrupt g irq)"
proof (cases "sk_objs g irq")
  case (Some w)
  show ?thesis
  proof (cases w)
    case (WIrq i)
    with Some event_sched [OF assms Some, of "WIrq (InterruptObject_signal i)"] show ?thesis
      by (simp add: signal_interrupt_def InterruptObject_signal_def pick_timer_def pick_ipc_def pick_po_def)
  qed (simp_all add: signal_interrupt_def Some assms)
qed (simp add: signal_interrupt_def assms)

lemma interrupt_consume_sched:
  assumes "sched_inv P g"
  shows "sched_inv P (interrupt_consume g irq)"
proof (cases "sk_objs g irq")
  case (Some w)
  show ?thesis
  proof (cases w)
    case (WIrq i)
    with Some quiet_sched [OF assms Some, of "WIrq (InterruptObject_consume i)"] show ?thesis
      by (auto simp: interrupt_consume_def InterruptObject_consume_def pick_timer_def pick_ipc_def pick_po_def split: if_splits)
  qed (simp_all add: interrupt_consume_def Some assms)
qed (simp add: interrupt_consume_def assms)

end
