(* ===== verification/Sched_Timers.thy ===== *)
theory Sched_Timers
  imports Sched_Keeps
begin

text \<open>
  Timers keep the scheduler's invariant: arming, which the slot promised to a timer makes succeed,
  closing, and firing, after which a periodic timer is in the heap again.
\<close>

lemma upd_views:
  assumes "sk_objs g' = (sk_objs g)(ob \<mapsto> w)"
  shows "timer_view g' = (timer_view g)(ob := pick_timer w)" "ipc_view g' = (ipc_view g)(ob := pick_ipc w)"
    "po_done g' = (po_done g)(ob := pick_po w)"
  by (simp_all add: fun_eq_iff pick_views assms)

lemma get_timer_Some: "get_timer g ob = Some t \<longleftrightarrow> sk_objs g ob = Some (WTimer t)"
  by (auto simp: get_timer_def split: option.splits waitable.splits)

lemma timer_views:
  assumes "get_timer g ob = Some t" "sk_objs g' = (sk_objs g)(ob \<mapsto> WTimer t')"
  shows "timer_view g' = (timer_view g)(ob \<mapsto> (tm_deadline_ns t', tm_interval_ns t', tm_in_heap t'))"
    "ipc_view g' = ipc_view g" "po_done g' = po_done g" "timer_view g ob = Some (tm_deadline_ns t, tm_interval_ns t, tm_in_heap t)"
  using assms(1) by (simp_all add: upd_views [OF assms(2)] fun_eq_iff pick_views get_timer_Some pick_timer_def pick_ipc_def pick_po_def)

lemma slots_enough_cong:
  assumes "slots_enough g" "dom (deadline_view g') = dom (deadline_view g)" "dom (timer_view g') = dom (timer_view g)"
    "held_sends g' = held_sends g" "endpoints g' = endpoints g" "deadline_slots g' = deadline_slots g"
    "rs_cap (sk_blocked g') = rs_cap (sk_blocked g)"
  shows "slots_enough g'"
  using assms by (simp add: slots_enough_def)

lemma live_sends_cong: "held_sends g' = held_sends g \<Longrightarrow> live_sends g' = live_sends g"
  by (simp add: live_sends_def fun_eq_iff)

lemma targets_cong: "deadlines g' = deadlines g \<Longrightarrow> targets g' = targets g"
  by (simp add: targets_def)

section \<open>A timer out of the heap\<close>

lemma dl_inv_exempt:
  assumes "dl_inv P g" and "\<And>ob d i h. timer_view g ob = Some (d, i, h) \<Longrightarrow> ob \<in> P \<Longrightarrow> d \<noteq> 0 \<Longrightarrow> i \<noteq> 0 \<Longrightarrow> h \<or> ob \<in> Q"
  shows "dl_inv Q g"
proof (rule dl_invI)
  show "timer_ok Q g ob v" if "timer_view g ob = Some v" for ob v
    using dl_invD(5) [OF assms(1) that] assms(2) that by (auto simp: timer_ok_def split: prod.splits)
qed (use dl_invD [OF assms(1)] in auto)

lemma timer_in_heap: "dl_inv P g \<Longrightarrow> get_timer g ob = Some t \<Longrightarrow> tm_in_heap t \<longleftrightarrow> TTimer ob \<in># targets g"
  using dl_invD(5) [of P g ob] by (simp add: timer_view_def timer_ok_def)

text \<open>It may be set to anything, but for saying it is in the heap.\<close>

lemma timer_out:
  assumes inv: "dl_inv P g" and t: "get_timer g ob = Some t" "\<not> tm_in_heap t" and t': "\<not> tm_in_heap t'"
    and g': "sk_objs g' = (sk_objs g)(ob \<mapsto> WTimer t')" "deadlines g' = deadlines g" "deadline_slots g' = deadline_slots g"
      "sk_threads g' = sk_threads g" "sk_blocked g' = sk_blocked g"
    and Q: "P \<subseteq> Q" "tm_deadline_ns t' \<noteq> 0 \<Longrightarrow> tm_interval_ns t' \<noteq> 0 \<Longrightarrow> ob \<in> Q"
  shows "dl_inv Q g'"
proof (rule dl_invI)
  note v = timer_views [OF t(1) g'(1)] and d = dl_invD [OF inv]
  note h = ipc_view_held [OF v(2)] ipc_view_endpoints [OF v(2)] live_sends_cong [OF ipc_view_held [OF v(2)]]
    targets_cong [OF g'(2)] deadline_view_cong [OF g'(4)] blocked_cong [OF g'(5)]
  show "slots_ok g'" using d(1) g'(2,3) by (rule slots_ok_deadlines)
  show "count (targets g') t \<le> 1" for t using d(2) by (simp add: h)
  show "deadline_view g' th = Some True" if "TThread th \<in># targets g'" for th using d(3) that by (simp add: h)
  show "TThread th \<in># targets g'" if "th \<in> blocked g'" "deadline_view g' th = Some True" for th using d(4) that by (simp add: h)
  show "timer_view g' ob' \<noteq> None" if "TTimer ob' \<in># targets g'" for ob' using d(6) that by (simp add: v h)
  show "po \<in> live_sends g' c" if "TPendingSend po c \<in># targets g'" for po c using d(7) that by (simp add: h)
  show "slots_enough g'" using d(8) by (rule slots_enough_cong) (auto simp: h v g' dom_def)
  show "timer_ok Q g' ob' w" if "timer_view g' ob' = Some w" for ob' w
  proof (cases "ob' = ob")
    case True
    then have "w = (tm_deadline_ns t', tm_interval_ns t', False)" using that t' by (simp add: v)
    moreover have "TTimer ob \<notin># targets g" using timer_in_heap [OF inv t(1)] t(2) by simp
    ultimately show ?thesis using True Q in_targets [of _ g] by (force simp: timer_ok_def h g')
  next
    case False
    then have "timer_ok P g ob' w" using d(5) that by (simp add: v)
    with Q(1) show ?thesis by (auto simp: timer_ok_def h g')
  qed
qed

text \<open>Its slot takes its entry.\<close>

lemma push_promised_local:
  fixes g g2 :: SchedState
  assumes "push_promised g e = Some (g\<lparr>deadlines := h\<rparr>, True)" "deadlines g2 = deadlines g" "deadline_slots g2 = deadline_slots g"
  shows "push_promised g2 e = Some (g2\<lparr>deadlines := h\<rparr>, True)"
proof -
  have inj: "x = h" if "g\<lparr>deadlines := x\<rparr> = g\<lparr>deadlines := h\<rparr>" for x using arg_cong [OF that, of deadlines] by simp
  show ?thesis using assms by (auto simp: push_promised_def Let_def dest!: inj split: if_splits option.splits)
qed

lemma timer_push:
  assumes inv: "dl_inv P g" and t: "get_timer g ob = Some t" "\<not> tm_in_heap t"
  obtains h where "push_promised g \<lparr>deadline_ns = d, target = TTimer ob\<rparr> = Some (g\<lparr>deadlines := h\<rparr>, True)"
    "slots_ok (g\<lparr>deadlines := h\<rparr>)" "heap_held h = add_mset \<lparr>deadline_ns = d, target = TTimer ob\<rparr> (heap_held (deadlines g))"
proof -
  have out: "TTimer ob \<notin># targets g" using timer_in_heap [OF inv t(1)] t(2) by simp
  have "kind_held (heap_held (deadlines g)) DTimer < deadline_slots g DTimer"
    by (rule timer_room [OF inv _ out]) (use t(1) in \<open>auto simp: timer_view_def\<close>)
  then show thesis
    using that push_promised_ok [OF dl_invD(1) [OF inv], of "\<lparr>deadline_ns = d, target = TTimer ob\<rparr>"] by auto
qed

lemma timer_pushed:
  assumes inv: "dl_inv P g" and t: "get_timer g ob = Some t" "\<not> tm_in_heap t" and "d \<noteq> 0"
    and h: "slots_ok (g\<lparr>deadlines := h\<rparr>)" "heap_held h = add_mset \<lparr>deadline_ns = d, target = TTimer ob\<rparr> (heap_held (deadlines g))"
    and g': "deadlines g' = h" "deadline_slots g' = deadline_slots g" "sk_threads g' = sk_threads g" "sk_blocked g' = sk_blocked g"
      "sk_objs g' = (sk_objs g)(ob \<mapsto> WTimer t')" "tm_deadline_ns t' = d" "tm_in_heap t'"
  shows "dl_inv (P - {ob}) g'"
proof (rule dl_inv_put [OF inv h(2), where me = ob])
  note v = timer_views [OF t(1) g'(5)]
  show "slots_ok g'" by (rule slots_ok_deadlines [OF h(1)]) (simp_all add: g')
  show "slots_enough g'" using dl_invD(8) [OF inv]
    by (rule slots_enough_cong) (auto simp: v g' dom_def ipc_view_held [OF v(2)] ipc_view_endpoints [OF v(2)] deadline_view_cong [OF g'(3)])
  have "TTimer ob \<notin># targets g" using timer_in_heap [OF inv t(1)] t(2) by simp
  then show "target \<lparr>deadline_ns = d, target = TTimer ob\<rparr> \<notin># targets g" by simp
qed (use g' \<open>d \<noteq> 0\<close> timer_views(1,2) [OF t(1) g'(5)] deadline_view_cong [OF g'(3)] live_sends_cong [OF ipc_view_held [OF timer_views(2) [OF t(1) g'(5)]]]
      blocked_cong [OF g'(4)] in auto)

section \<open>Out of the heap and armed\<close>

lemma wait_inv_upd:
  assumes "wait_inv X g" "sk_objs g ob = Some w" "sk_objs g' = (sk_objs g)(ob \<mapsto> w')" "w_waiters w' = w_waiters w"
    "sk_threads g' = sk_threads g" "sk_blocked g' = sk_blocked g" and "X - {ob} \<subseteq> Y" "settled w' \<Longrightarrow> ob \<in> Y"
  shows "wait_inv Y g'"
proof (rule wait_inv_cong [OF assms(1)])
  show "obj_waiters g' x = obj_waiters g x" for x using assms(2-4) by (simp add: obj_waiters_def)
  show "x \<in> Y \<or> (obj_settled g' x \<longrightarrow> x \<notin> X \<and> obj_settled g x)" for x
    using assms(3,7,8) by (auto simp: obj_settled_def)
qed (simp_all add: assms)

lemma unheap_spec:
  assumes "sched_inv {} g" "get_timer g ob = Some t"
  shows "sk_objs (unheap g ob) = (sk_objs g)(ob \<mapsto> WTimer (t\<lparr>tm_in_heap := False\<rparr>))" "sk_threads (unheap g ob) = sk_threads g"
    "sk_blocked (unheap g ob) = sk_blocked g" "sk_regs (unheap g ob) = sk_regs g" "deadline_slots (unheap g ob) = deadline_slots g"
    "dl_inv {ob} (unheap g ob)" "sk_ready (unheap g ob) = sk_ready g"
proof -
  note inv = sched_invD(2) [OF assms(1)] and t = assms(2)
  have same: "sk_objs g = (sk_objs g)(ob \<mapsto> WTimer t)" using t by (simp add: get_timer_Some fun_upd_idem)
  show objs: "sk_objs (unheap g ob) = (sk_objs g)(ob \<mapsto> WTimer (t\<lparr>tm_in_heap := False\<rparr>))"
  proof (cases "tm_in_heap t")
    case False
    then have eq: "t\<lparr>tm_in_heap := False\<rparr> = t" by (cases t) simp
    show ?thesis unfolding eq using False by (simp add: unheap_def t flip: same)
  qed (simp add: unheap_def t set_timer_def Timer_set_in_heap_def)
  show fr: "sk_threads (unheap g ob) = sk_threads g" "sk_blocked (unheap g ob) = sk_blocked g" "sk_regs (unheap g ob) = sk_regs g"
    "deadline_slots (unheap g ob) = deadline_slots g" "sk_ready (unheap g ob) = sk_ready g"
    by (simp_all add: unheap_def t set_timer_def)
  note v = timer_views [OF t objs]
  show "dl_inv {ob} (unheap g ob)"
  proof (cases "tm_in_heap t")
    case False
    show ?thesis by (rule timer_out [OF inv t False _ objs]) (simp_all add: fr, simp add: unheap_def t False)
  next
    case True
    have "heap_ok (deadlines g)" using dl_invD(1) [OF inv] by (rule slots_okD)
    then obtain h e where h: "dl_remove (deadlines g) (TTimer ob) = (h, True)" "heap_ok h" "rs_cap h = rs_cap (deadlines g)"
        "target e = TTimer ob" "heap_held (deadlines g) = add_mset e (heap_held h)"
      using timer_in_heap [OF inv t] True
      by (cases rule: heap_remove_cases [of "deadlines g" "TTimer ob"]) (auto simp: targets_def)
    show ?thesis
    proof (rule dl_inv_take [OF inv h(5,2,3)])
      show "deadlines (unheap g ob) = h" by (simp add: unheap_def t True set_timer_def h)
      show "slots_enough (unheap g ob)" using dl_invD(8) [OF inv]
        by (rule slots_enough_cong)
          (auto simp: v fr dom_def ipc_view_held [OF v(2)] ipc_view_endpoints [OF v(2)] deadline_view_cong [OF fr(1)])
    qed (use h(4) fr v(1) deadline_view_cong [OF fr(1)] live_sends_cong [OF ipc_view_held [OF v(2)]] blocked_cong [OF fr(2)] in auto)
  qed
qed

text \<open>Nothing of a timer is seen from an endpoint.\<close>

lemma timer_ipc:
  assumes "ipc_inv g" "get_timer g ob = Some t" "sk_objs g' = (sk_objs g)(ob \<mapsto> WTimer t')" "sk_regs g' = sk_regs g"
  shows "ipc_inv g'"
  by (rule ipc_inv_cong [OF assms(1)]) (auto simp: timer_views [OF assms(2,3)] assms(4))

text \<open>Arming is never refused: the timer holds a slot.\<close>

lemma timer_arm_spec:
  assumes "sched_inv {} g" "get_timer g ob = Some t"
  obtains g' where "timer_arm g ob d i = Some (g', True)" "sched_inv {} g'"
    "sk_objs g' = (sk_objs g)(ob \<mapsto> WTimer (t\<lparr>tm_deadline_ns := d, tm_interval_ns := i, tm_in_heap := (d \<noteq> 0)\<rparr>))"
    "sk_threads g' = sk_threads g" "sk_blocked g' = sk_blocked g"
proof -
  note u = unheap_spec [OF assms] and t = assms(2)
  let ?u = "unheap g ob" and ?t = "t\<lparr>tm_in_heap := False\<rparr>" and ?t' = "t\<lparr>tm_deadline_ns := d, tm_interval_ns := i, tm_in_heap := (d \<noteq> 0)\<rparr>"
  have ut: "get_timer ?u ob = Some ?t" using u(1) by (simp add: get_timer_Some)
  obtain g' where g': "timer_arm g ob d i = Some (g', True)" "sk_objs g' = (sk_objs g)(ob \<mapsto> WTimer ?t')"
    "sk_threads g' = sk_threads g" "sk_blocked g' = sk_blocked g" "sk_regs g' = sk_regs g" "dl_inv {} g'"
  proof (cases "d = 0")
    case True
    let ?g = "set_timer ?u ob (Timer_set_armed d i ?t)"
    have eq: "Timer_set_armed d i ?t = ?t'" using True by (simp add: Timer_set_armed_def)
    have a: "timer_arm g ob d i = Some (?g, True)" using True by (simp add: timer_arm_def ut Let_def)
    have "sk_objs ?g = (sk_objs g)(ob \<mapsto> WTimer ?t')" unfolding eq by (simp add: set_timer_def u)
    moreover have "dl_inv ({ob} - {ob}) ?g"
    proof -
      have "dl_inv {ob} ?g" by (rule timer_out [OF u(6) ut]) (simp_all add: set_timer_def Timer_set_armed_def)
      moreover have "timer_view ?g ob = Some (0, i, False)" by (simp add: timer_view_def get_timer_def set_timer_def Timer_set_armed_def True)
      ultimately show ?thesis by (elim dl_inv_exempt) auto
    qed
    ultimately show thesis using a by (intro that [of ?g]) (simp_all add: set_timer_def u)
  next
    case False
    have nh: "\<not> tm_in_heap ?t" by simp
    obtain h where h: "push_promised ?u \<lparr>deadline_ns = d, target = TTimer ob\<rparr> = Some (?u\<lparr>deadlines := h\<rparr>, True)"
      "slots_ok (?u\<lparr>deadlines := h\<rparr>)" "heap_held h = add_mset \<lparr>deadline_ns = d, target = TTimer ob\<rparr> (heap_held (deadlines ?u))"
      using timer_push [OF u(6) ut nh] .
    let ?g = "set_timer ((set_timer ?u ob (Timer_set_armed d i ?t))\<lparr>deadlines := h\<rparr>) ob (Timer_set_in_heap True (Timer_set_armed d i ?t))"
    have eq: "Timer_set_in_heap True (Timer_set_armed d i ?t) = ?t'" using False by (simp add: Timer_set_armed_def Timer_set_in_heap_def)
    have "push_promised (set_timer ?u ob (Timer_set_armed d i ?t)) \<lparr>deadline_ns = d, target = TTimer ob\<rparr>
        = Some ((set_timer ?u ob (Timer_set_armed d i ?t))\<lparr>deadlines := h\<rparr>, True)"
      by (rule push_promised_local [OF h(1)]) (simp_all add: set_timer_def)
    then have a: "timer_arm g ob d i = Some (?g, True)" using False by (simp add: timer_arm_def ut Let_def)
    have "dl_inv ({ob} - {ob}) ?g" by (rule timer_pushed [OF u(6) ut nh False h(2,3), of _ ?t']) (use False in \<open>simp_all add: eq set_timer_def\<close>)
    then show thesis using a by (intro that [of ?g]) (simp_all add: eq, simp_all add: set_timer_def u)
  qed
  moreover have "sched_inv {} g'"
  proof -
    have "\<not> settled (WTimer ?t')" by (simp add: timer_fired_def)
    then have "wait_inv {} g'"
      using t g'(2-4) by (intro wait_inv_upd [OF sched_invD(1) [OF assms(1)], of ob "WTimer t" _ "WTimer ?t'"]) (auto simp: get_timer_Some)
    moreover have "ipc_inv g'" by (rule timer_ipc [OF sched_invD(3) [OF assms(1)] t g'(2,5)])
    ultimately show ?thesis using g'(6) by (simp add: sched_inv_def)
  qed
  ultimately show thesis by (intro that)
qed

end
