(* ===== verification/Sched_Tick.thy ===== *)
theory Sched_Tick
  imports Sched_Timers
begin

text \<open>
  The tick: the loop of \<^verbatim>\<open>fire_expired_deadlines\<close> ends, keeps the scheduler's invariant, and handles
  every entry that is due. The one thing asked of the clock is that it is not at its maximum, where a
  periodic timer would be due again at once.
\<close>

section \<open>What a hold of the lock that only wakes does\<close>

definition po_completed :: "SchedState \<Rightarrow> u64 \<Rightarrow> u32 \<Rightarrow> bool" where
  "po_completed g po status = (case sk_objs g po of Some (WPo p) \<Rightarrow> po_signaled p \<and> po_status p = status | _ \<Rightarrow> False)"

definition moves :: "SchedState \<Rightarrow> SchedState \<Rightarrow> bool" where
  "moves g g' \<longleftrightarrow> blocked g' \<subseteq> blocked g \<and> (\<forall>th\<in>blocked g'. sk_threads g' th = sk_threads g th)
     \<and> set (sk_ready g') = set (sk_ready g) \<union> (blocked g - blocked g')
     \<and> (\<forall>po status. po_completed g po status \<longrightarrow> po_completed g' po status)"

lemma moves_refl: "moves g g"
  by (simp add: moves_def)

lemma moves_trans: "moves g g1 \<Longrightarrow> moves g1 g2 \<Longrightarrow> moves g g2"
  unfolding moves_def by (intro conjI) (blast, fastforce, blast, blast)

lemma moves_frame:
  assumes "sk_blocked g' = sk_blocked g" "sk_threads g' = sk_threads g" "sk_ready g' = sk_ready g"
    "\<And>po status. po_completed g po status \<Longrightarrow> po_completed g' po status"
  shows "moves g g'"
  using assms by (simp add: moves_def blocked_def)

lemma moves_waiting: "moves g g' \<Longrightarrow> th \<in> blocked g' \<Longrightarrow> waiting g' th = waiting g th"
  by (simp add: moves_def waiting_def)

lemma po_completed_contents:
  "po_completed g po status = (case contents g po of Some (WPo p) \<Rightarrow> po_signaled p \<and> po_status p = status | _ \<Rightarrow> False)"
proof (cases "sk_objs g po")
  case (Some w)
  then show ?thesis by (cases w) (simp_all add: po_completed_def contents_def)
qed (simp add: po_completed_def contents_def)

lemma signal_waiters_moves:
  assumes "wait_inv X g"
  shows "moves g (fst (signal_waiters g ob))" "th \<in> blocked (fst (signal_waiters g ob)) \<Longrightarrow> ob \<notin> set (waiting g th)"
proof -
  note s = signal_waiters_spec [OF assms, of ob]
  show "moves g (fst (signal_waiters g ob))"
    unfolding moves_def po_completed_contents signal_waiters_contents by (auto simp: s)
  show "ob \<notin> set (waiting g th)" if "th \<in> blocked (fst (signal_waiters g ob))"
    using that wait_invD(4) [OF assms, of th ob] by (simp add: s(1) count_list_pos)
qed

lemma wake_thread_moves:
  assumes "wait_inv X g"
  shows "moves g (fst (wake_thread g th))" "th \<notin> blocked (fst (wake_thread g th))"
proof -
  note s = wake_thread_spec [OF wait_inv_phase [OF assms], of th] wake_thread_phase [OF wait_inv_phase [OF assms], of th]
  show "moves g (fst (wake_thread g th))" by (auto simp: moves_def s po_completed_def)
  show "th \<notin> blocked (fst (wake_thread g th))" by (simp add: s)
qed

lemma signal_po_moves:
  assumes "wait_inv X g"
  shows "moves g (signal_pending_op_with_result g po status res)"
    and "po_done g po = Some False \<Longrightarrow> po_completed (signal_pending_op_with_result g po status res) po status"
    and "po_done g po = Some False \<Longrightarrow> th \<in> blocked (signal_pending_op_with_result g po status res) \<Longrightarrow> po \<notin> set (waiting g th)"
proof -
  let ?r = "signal_pending_op_with_result g po status res"
  have "moves g ?r \<and> (po_done g po = Some False \<longrightarrow> po_completed ?r po status \<and> (\<forall>th\<in>blocked ?r. po \<notin> set (waiting g th)))"
  proof (cases rule: signal_po_cases [of g po status res])
    case idle
    then show ?thesis by (simp add: moves_refl)
  next
    case (completes p)
    let ?g = "g\<lparr>sk_objs := (sk_objs g)(po \<mapsto> WPo (p\<lparr>po_status := status, po_result := res, po_signaled := True\<rparr>))\<rparr>"
    have w: "wait_inv (insert po X) ?g" by (rule wait_inv_set_obj [OF assms completes(1)]) simp
    note m = signal_waiters_moves [OF w, of po]
    have "moves g ?g" using completes(1,2) by (intro moves_frame) (auto simp: po_completed_def)
    then have "moves g ?r" using m(1) moves_trans by (simp add: completes(3))
    moreover have "po_completed ?r po status" using m(1) by (simp add: completes(3) moves_def po_completed_def)
    moreover have "po \<notin> set (waiting g th)" if "th \<in> blocked ?r" for th
      using signal_waiters_moves(2) [OF w, of th po] that by (simp add: completes(3) waiting_def)
    ultimately show ?thesis by blast
  qed
  then show "moves g ?r" "po_done g po = Some False \<Longrightarrow> po_completed ?r po status"
    "po_done g po = Some False \<Longrightarrow> th \<in> blocked ?r \<Longrightarrow> po \<notin> set (waiting g th)" by blast+
qed

text \<open>What handling an entry means.\<close>

definition handled :: "Entry \<Rightarrow> SchedState \<Rightarrow> SchedState \<Rightarrow> bool" where
  "handled e g g' =
     (case target e of
        TThread th \<Rightarrow> th \<notin> blocked g'
      | TTimer ob \<Rightarrow> \<forall>th\<in>blocked g'. ob \<notin> set (waiting g th)
      | TPendingSend po c \<Rightarrow> po_completed g' po KError_TimedOut \<and> (\<forall>th\<in>blocked g'. po \<notin> set (waiting g th)))"

lemma handled_later: "handled e g g1 \<Longrightarrow> moves g1 g2 \<Longrightarrow> handled e g g2"
  by (auto simp: handled_def moves_def split: Target.splits)

lemma handled_earlier: "moves g g1 \<Longrightarrow> moves g1 g2 \<Longrightarrow> handled e g1 g2 \<Longrightarrow> handled e g g2"
proof -
  assume m: "moves g g1" "moves g1 g2" and "handled e g1 g2"
  have "waiting g th = waiting g1 th" if "th \<in> blocked g2" for th
    using moves_waiting [OF m(1), of th] m(2) that by (auto simp: moves_def)
  then show "handled e g g2" using \<open>handled e g1 g2\<close> by (simp add: handled_def split: Target.splits)
qed

section \<open>One turn of the loop\<close>

lemma set_deadlines [simp]:
  "obj_waiters (g\<lparr>deadlines := h\<rparr>) = obj_waiters g" "obj_settled (g\<lparr>deadlines := h\<rparr>) = obj_settled g"
  "waiting (g\<lparr>deadlines := h\<rparr>) = waiting g" "blocked (g\<lparr>deadlines := h\<rparr>) = blocked g"
  "contents (g\<lparr>deadlines := h\<rparr>) = contents g" "get_timer (g\<lparr>deadlines := h\<rparr>) = get_timer g" "get_ipc (g\<lparr>deadlines := h\<rparr>) = get_ipc g"
  by (simp_all add: obj_waiters_def obj_settled_def waiting_def blocked_def contents_def get_timer_def get_ipc_def fun_eq_iff)

lemma wait_inv_deadlines [simp]: "wait_inv X (g\<lparr>deadlines := h\<rparr>) = wait_inv X g"
  by (simp add: wait_inv_def)

lemma ipc_inv_deadlines:
  assumes "ipc_inv g"
  shows "ipc_inv (g\<lparr>deadlines := h\<rparr>)"
  by (rule ipc_inv_same [OF assms]) simp_all

lemma moves_deadlines: "moves g (g\<lparr>deadlines := h\<rparr>)"
  by (rule moves_frame) (simp_all add: po_completed_def)

definition popped :: "SchedState \<Rightarrow> Entry \<Rightarrow> Entry Reserved \<Rightarrow> bool" where
  "popped g e h \<longleftrightarrow> heap_held (deadlines g) = add_mset e (heap_held h) \<and> heap_ok h \<and> rs_cap h = rs_cap (deadlines g)"

definition turned :: "u64 \<Rightarrow> Entry Reserved \<Rightarrow> SchedState \<Rightarrow> SchedState \<Rightarrow> bool" where
  "turned now h g g' \<longleftrightarrow> sched_inv {} g' \<and> moves g g'
     \<and> (heap_held (deadlines g') = heap_held h
        \<or> (\<exists>x. now < deadline_ns x \<and> heap_held (deadlines g') = add_mset x (heap_held h)))"

lemma turn_thread:
  assumes "sched_inv {} g" "popped g e h" "target e = TThread th"
  shows "\<exists>g'. fire_target (g\<lparr>deadlines := h\<rparr>) (TThread th) now = Some g' \<and> turned now h g g' \<and> th \<notin> blocked g'"
proof -
  let ?g0 = "g\<lparr>deadlines := h\<rparr>"
  let ?g' = "fst (wake_thread ?g0 th)"
  note i = sched_invD [OF assms(1)] and p = assms(2) [unfolded popped_def]
  have w0: "wait_inv {} ?g0" using i(1) by simp
  note s = wake_thread_spec [OF wait_inv_phase [OF w0], of th] wake_thread_phase [OF wait_inv_phase [OF w0], of th]
  have c: "contents ?g' = contents g" by (simp add: contents_def fun_eq_iff)
  have dv: "deadline_view ?g' = deadline_view g"
    by (auto simp: deadline_view_def fun_eq_iff s option.map_comp comp_def)
  note v = same_contents [OF c]
  have "dl_inv {} ?g'"
  proof (rule dl_inv_take [OF i(2)])
    show "slots_enough ?g'" using dl_invD(8) [OF i(2)] by (rule slots_enough_cong) (simp_all add: v dv s)
    show "heap_held (deadlines g) = add_mset e (heap_held h)" "heap_ok h" "rs_cap h = rs_cap (deadlines g)" using p by simp_all
    show "deadlines ?g' = h" "deadline_slots ?g' = deadline_slots g" by simp_all
    show "blocked ?g' \<subseteq> blocked g" using s(7) by auto
    show "deadline_view ?g' x = deadline_view g x" for x by (simp add: dv)
    show "deadline_view ?g' x \<noteq> Some True" if "TThread x = target e" "x \<in> blocked ?g'" for x using that assms(3) s(7) by simp
    show "timer_view ?g' ob = timer_view g ob" for ob by (simp add: v)
    show "po \<in> live_sends ?g' c" if "po \<in> live_sends g c" for po c using that by (simp add: live_sends_cong [OF v(4)])
    show "\<exists>d i. timer_view ?g' ob = Some (d, i, False) \<and> (d \<noteq> 0 \<and> i \<noteq> 0 \<longrightarrow> ob \<in> {})" if "TTimer ob = target e" for ob
      using that assms(3) by simp
  qed simp
  moreover have "ipc_inv ?g'" by (rule ipc_inv_same [OF i(3) c]) simp
  moreover have "wait_inv {} ?g'" by (rule wake_thread_inv [OF w0])
  moreover have "moves g ?g'" using wake_thread_moves(1) [OF w0] moves_deadlines moves_trans by blast
  ultimately have "turned now h g ?g'" by (simp add: turned_def sched_inv_def)
  then show ?thesis using s(7) by (simp add: fire_target_def)
qed

lemma sat_add_gt:
  assumes "now \<noteq> -1" "0 < i"
  shows "now < sat_add now i"
proof (cases "now + i < now")
  case True
  then show ?thesis using assms(1) by (simp add: sat_add_def) (metis neq_iff word_not_simps(3) word_order.extremum)
next
  case False
  then have "now \<le> now + i" by simp
  moreover have "now \<noteq> now + i" using assms(2) by auto
  ultimately have "now < now + i" by (rule le_neq_trans)
  then show ?thesis using False by (simp add: sat_add_def)
qed

text \<open>The timer's entry popped and its flag cleared, then its waiters woken.\<close>

lemma fired_timer:
  assumes "sched_inv {} g" "popped g e h" "target e = TTimer ob" "get_timer g ob = Some t"
  defines "g1 \<equiv> set_timer (g\<lparr>deadlines := h\<rparr>) ob (Timer_set_in_heap False t)"
  defines "g2 \<equiv> fst (signal_waiters g1 ob)"
  shows "wait_inv {} g2" "dl_inv {ob} g2" "ipc_inv g2" "moves g g2" "\<forall>th\<in>blocked g2. ob \<notin> set (waiting g th)"
    "get_timer g2 ob = Some (t\<lparr>tm_in_heap := False, tm_waiters := []\<rparr>)" "deadlines g2 = h"
proof -
  note i = sched_invD [OF assms(1)] and p = assms(2) [unfolded popped_def] and t = assms(4)
  have o1: "sk_objs g1 = (sk_objs g)(ob \<mapsto> WTimer (t\<lparr>tm_in_heap := False\<rparr>))"
    "sk_threads g1 = sk_threads g" "sk_blocked g1 = sk_blocked g" "sk_regs g1 = sk_regs g" "deadlines g1 = h"
    "deadline_slots g1 = deadline_slots g" "sk_ready g1 = sk_ready g"
    by (simp_all add: g1_def set_timer_def Timer_set_in_heap_def)
  note v = timer_views [OF t o1(1)]
  have w1: "wait_inv {ob} g1"
    using t by (intro wait_inv_upd [OF i(1), of ob "WTimer t" _ "WTimer (t\<lparr>tm_in_heap := False\<rparr>)"]) (simp_all add: get_timer_Some o1)
  then show w2: "wait_inv {} g2" unfolding g2_def by (rule signal_waiters_inv)
  have "dl_inv {ob} g1"
  proof (rule dl_inv_take [OF i(2)])
    show "heap_held (deadlines g) = add_mset e (heap_held h)" "heap_ok h" "rs_cap h = rs_cap (deadlines g)" using p by simp_all
    show "slots_enough g1" using dl_invD(8) [OF i(2)]
      by (rule slots_enough_cong)
        (auto simp: v(1,4) o1 dom_def ipc_view_held [OF v(2)] ipc_view_endpoints [OF v(2)] deadline_view_cong [OF o1(2)])
  qed (use assms(3) o1 v(1) deadline_view_cong [OF o1(2)] live_sends_cong [OF ipc_view_held [OF v(2)]] blocked_cong [OF o1(3)] in auto)
  then show "dl_inv {ob} g2" unfolding g2_def by (rule signal_waiters_dl [OF w1])
  show "ipc_inv g2" unfolding g2_def by (rule signal_waiters_ipc [OF timer_ipc [OF i(3) t o1(1,4)]])
  have m1: "moves g g1" using t by (intro moves_frame) (auto simp: o1 po_completed_def get_timer_Some)
  note m2 = signal_waiters_moves [OF w1, of ob, folded g2_def]
  show "moves g g2" using moves_trans [OF m1 m2(1)] .
  show "\<forall>th\<in>blocked g2. ob \<notin> set (waiting g th)"
    using signal_waiters_moves(2) [OF w1, of _ ob, folded g2_def] o1(2) by (simp add: waiting_def)
  show "get_timer g2 ob = Some (t\<lparr>tm_in_heap := False, tm_waiters := []\<rparr>)" "deadlines g2 = h"
    by (simp_all add: g2_def get_timer_Some o1)
qed

text \<open>A periodic timer goes back into its slot.\<close>

lemma rearmed_timer:
  assumes "wait_inv {} g" "dl_inv {ob} g" "ipc_inv g" "get_timer g ob = Some t" "\<not> tm_in_heap t" "d \<noteq> 0"
  defines "e \<equiv> \<lparr>deadline_ns = d, target = TTimer ob\<rparr>"
  shows "\<exists>g'. push_promised (set_timer g ob (Timer_set_in_heap True (Timer_set_armed d i t))) e = Some (g', True)
    \<and> sched_inv {} g' \<and> moves g g' \<and> blocked g' = blocked g \<and> heap_held (deadlines g') = add_mset e (heap_held (deadlines g))"
proof -
  let ?t = "Timer_set_in_heap True (Timer_set_armed d i t)"
  obtain h where h: "push_promised g e = Some (g\<lparr>deadlines := h\<rparr>, True)" "slots_ok (g\<lparr>deadlines := h\<rparr>)"
      "heap_held h = add_mset e (heap_held (deadlines g))"
    using timer_push [OF assms(2,4,5)] unfolding e_def .
  let ?g = "(set_timer g ob ?t)\<lparr>deadlines := h\<rparr>"
  have s: "sk_objs ?g = (sk_objs g)(ob \<mapsto> WTimer ?t)" "sk_threads ?g = sk_threads g" "sk_blocked ?g = sk_blocked g"
      "sk_regs ?g = sk_regs g" "sk_ready ?g = sk_ready g" "deadline_slots ?g = deadline_slots g" "deadlines ?g = h"
    by (simp_all add: set_timer_def)
  have p: "push_promised (set_timer g ob ?t) e = Some (?g, True)" by (rule push_promised_local [OF h(1)]) (simp_all add: set_timer_def)
  have "dl_inv ({ob} - {ob}) ?g"
    by (rule timer_pushed [OF assms(2,4-6) h(2,3) [unfolded e_def] s(7,6,2,3,1)]) (simp_all add: Timer_set_in_heap_def Timer_set_armed_def)
  moreover have "wait_inv {} ?g"
  proof (rule wait_inv_upd [OF assms(1) _ s(1) _ s(2,3)])
    show "sk_objs g ob = Some (WTimer t)" using assms(4) by (simp only: get_timer_Some)
  qed (simp_all add: Timer_set_in_heap_def Timer_set_armed_def timer_fired_def)
  moreover have "ipc_inv ?g" by (rule timer_ipc [OF assms(3,4) s(1,4)])
  moreover have "moves g ?g"
    by (rule moves_frame [OF s(3,2,5)]) (use assms(4) in \<open>auto simp: po_completed_def get_timer_Some s(1) split: if_splits\<close>)
  ultimately show ?thesis using p h(3) s(7) blocked_cong [OF s(3)] by (auto simp: sched_inv_def)
qed

lemma turn_timer:
  assumes "sched_inv {} g" "popped g e h" "target e = TTimer ob" "now \<noteq> -1"
  shows "\<exists>g'. fire_target (g\<lparr>deadlines := h\<rparr>) (TTimer ob) now = Some g' \<and> turned now h g g'
    \<and> (\<forall>th\<in>blocked g'. ob \<notin> set (waiting g th))"
proof -
  have "TTimer ob \<in># targets g" using assms(2,3) by (simp add: popped_def targets_def)
  then obtain t where t: "get_timer g ob = Some t" using dl_invD(6) [OF sched_invD(2) [OF assms(1)]] by (auto simp: timer_view_def)
  define g2 where "g2 = fst (signal_waiters (set_timer (g\<lparr>deadlines := h\<rparr>) ob (Timer_set_in_heap False t)) ob)"
  let ?t = "t\<lparr>tm_in_heap := False, tm_waiters := []\<rparr>" and ?next = "sat_add now (tm_interval_ns t)"
  note f = fired_timer [OF assms(1-3) t, folded g2_def]
  have fire: "fire_target (g\<lparr>deadlines := h\<rparr>) (TTimer ob) now
      = (if 0 < tm_interval_ns t
         then map_option fst (push_promised (set_timer g2 ob (Timer_set_in_heap True (Timer_set_armed ?next (tm_interval_ns t) ?t)))
           \<lparr>deadline_ns = ?next, target = TTimer ob\<rparr>)
         else Some g2)"
    by (simp add: fire_target_def t fire_timer_def Let_def f(6) flip: g2_def)
  show ?thesis
  proof (cases "0 < tm_interval_ns t")
    case False
    then have "dl_inv {} g2" by (intro dl_inv_exempt [OF f(2)]) (use f(6) in \<open>auto simp: timer_view_def word_neq_0_conv\<close>)
    then have "turned now h g g2" using f(1,3,4,7) by (simp add: turned_def sched_inv_def)
    with f(5) fire False show ?thesis by simp
  next
    case True
    then have gt: "now < ?next" using assms(4) by (intro sat_add_gt)
    then have "?next \<noteq> 0" by auto
    from rearmed_timer [OF f(1-3,6) _ this, of "tm_interval_ns t"] obtain g' where
        g': "push_promised (set_timer g2 ob (Timer_set_in_heap True (Timer_set_armed ?next (tm_interval_ns t) ?t)))
          \<lparr>deadline_ns = ?next, target = TTimer ob\<rparr> = Some (g', True)"
        "sched_inv {} g'" "moves g2 g'" "blocked g' = blocked g2"
        "heap_held (deadlines g') = add_mset \<lparr>deadline_ns = ?next, target = TTimer ob\<rparr> (heap_held h)"
      by (auto simp: f(7))
    have "turned now h g g'" using g'(2,5) moves_trans [OF f(4) g'(3)] gt by (auto simp: turned_def)
    with f(5) g'(1,4) fire True show ?thesis by simp
  qed
qed

text \<open>A send whose time is up is cancelled where it is held.\<close>

definition cancel_send :: "u64 \<Rightarrow> PendingSend \<Rightarrow> PendingSend" where
  "cancel_send po p = (if ps_po p = po then p\<lparr>ps_cancelled := True\<rparr> else p)"

lemma cancel_send_fields [simp]: "ps_po (cancel_send po p) = ps_po p" "ps_transfers (cancel_send po p) = ps_transfers p"
  "ps_cancelled (cancel_send po p) \<longleftrightarrow> ps_cancelled p \<or> ps_po p = po"
  by (simp_all add: cancel_send_def)

lemma cancel_pending_send_spec:
  assumes "distinct (map ps_po (rs_items (ipc_pending e)))"
  shows "fst (cancel_pending_send po e) = e\<lparr>ipc_pending := (ipc_pending e)\<lparr>rs_items := map (cancel_send po) (rs_items (ipc_pending e))\<rparr>\<rparr>"
proof (cases "position (\<lambda>p. ps_po p = po) (rs_items (ipc_pending e))")
  case None
  then have "map (cancel_send po) (rs_items (ipc_pending e)) = rs_items (ipc_pending e)"
    by (intro map_idI) (auto simp: position_None cancel_send_def)
  then show ?thesis by (simp add: cancel_pending_send_def None)
next
  case (Some i)
  note i = position_Some [OF Some]
  have "ps_po (rs_items (ipc_pending e) ! j) \<noteq> po" if "j < length (rs_items (ipc_pending e))" "j \<noteq> i" for j
    using assms that i nth_eq_iff_index_eq [OF assms, of j i] by auto
  then have "(rs_items (ipc_pending e))[i := (rs_items (ipc_pending e) ! i)\<lparr>ps_cancelled := True\<rparr>] = map (cancel_send po) (rs_items (ipc_pending e))"
    using i by (intro nth_equalityI) (auto simp: nth_list_update cancel_send_def)
  then show ?thesis by (simp add: cancel_pending_send_def Some)
qed

lemma get_ipc_Some: "get_ipc g ob = Some e \<longleftrightarrow> sk_objs g ob = Some (WIpc e)"
  by (auto simp: get_ipc_def split: option.splits waitable.splits)

lemma ipc_views:
  assumes "get_ipc g c = Some e" "sk_objs g' = (sk_objs g)(c \<mapsto> WIpc e')"
  shows "ipc_view g' = (ipc_view g)(c \<mapsto> e'\<lparr>ipc_waiters := []\<rparr>)" "timer_view g' = timer_view g" "po_done g' = po_done g"
    "held_sends g' = (held_sends g)(c := rs_items (ipc_pending e'))" "endpoints g' = endpoints g" "held_sends g c = rs_items (ipc_pending e)"
  using assms(1)
  by (simp_all add: upd_views [OF assms(2)] fun_eq_iff pick_views get_ipc_Some pick_timer_def pick_ipc_def pick_po_def held_sends_view)
    (auto simp: endpoints_def get_ipc_def assms(2))

lemma cancel_dl:
  assumes "sched_inv {} g" "popped g x h" "target x = TPendingSend po c" "get_ipc g c = Some e"
    and s: "sk_objs g' = (sk_objs g)(c \<mapsto> WIpc (fst (cancel_pending_send po e)))" "sk_threads g' = sk_threads g"
      "sk_blocked g' = sk_blocked g" "deadlines g' = h" "deadline_slots g' = deadline_slots g"
  shows "dl_inv {} g'"
proof (rule dl_inv_take [OF sched_invD(2) [OF assms(1)]])
  note i = sched_invD [OF assms(1)] and p = assms(2) [unfolded popped_def] and v = ipc_views [OF assms(4) s(1)]
  note d = held_distinct [OF i(3) assms(4)]
  have h: "held_sends g' z = (if z = c then map (cancel_send po) (held_sends g c) else held_sends g z)" for z
    by (simp add: v(4,6) cancel_pending_send_spec [OF d])
  show "heap_held (deadlines g) = add_mset x (heap_held h)" "heap_ok h" "rs_cap h = rs_cap (deadlines g)" using p by simp_all
  show "po' \<in> live_sends g' c'" if "TPendingSend po' c' \<noteq> target x" "po' \<in> live_sends g c'" for po' c'
    using that assms(3) by (auto simp: live_sends_def h image_iff)
  show "slots_enough g'"
    using dl_invD(8) [OF i(2)] by (simp add: slots_enough_def s v(2,5) deadline_view_cong [OF s(2)] h)
qed (use assms(3) s deadline_view_cong [OF s(2)] blocked_cong [OF s(3)] ipc_views(2) [OF assms(4) s(1)] in auto)

lemma turn_send:
  assumes "sched_inv {} g" "popped g x h" "target x = TPendingSend po c"
  shows "\<exists>g'. fire_target (g\<lparr>deadlines := h\<rparr>) (TPendingSend po c) now = Some g' \<and> turned now h g g'
    \<and> po_completed g' po KError_TimedOut \<and> (\<forall>th\<in>blocked g'. po \<notin> set (waiting g th))"
proof -
  note i = sched_invD [OF assms(1)]
  have "TPendingSend po c \<in># targets g" using assms(2,3) by (simp add: popped_def targets_def)
  then have "po \<in> live_sends g c" by (rule dl_invD(7) [OF i(2)])
  then obtain e p where e: "get_ipc g c = Some e" "p \<in> set (held_sends g c)" "ps_po p = po" "\<not> ps_cancelled p"
    by (rule live_sendE)
  note so = sends_okD [OF i(3)]
  let ?e = "fst (cancel_pending_send po e)"
  define g1 where "g1 = g\<lparr>deadlines := h, sk_objs := (sk_objs g)(c \<mapsto> WIpc ?e)\<rparr>"
  have s: "sk_objs g1 = (sk_objs g)(c \<mapsto> WIpc ?e)" "sk_threads g1 = sk_threads g" "sk_blocked g1 = sk_blocked g" "sk_regs g1 = sk_regs g"
      "deadlines g1 = h" "deadline_slots g1 = deadline_slots g" "sk_ready g1 = sk_ready g"
    by (simp_all add: g1_def)
  note v = ipc_views [OF e(1) s(1)]
  note d = held_distinct [OF i(3) e(1)]
  note ce = cancel_pending_send_spec [OF d, of po]
  have pd: "po_done g po = Some False" using so(3) [OF e(2)] e(3,4) by simp
  have w1: "wait_inv {} g1"
  proof (rule wait_inv_cong [OF i(1)])
    show "obj_waiters g1 y = obj_waiters g y" for y using e(1) by (simp add: obj_waiters_def s ce get_ipc_Some)
    show "y \<in> {} \<or> (obj_settled g1 y \<longrightarrow> y \<notin> {} \<and> obj_settled g y)" for y
      using e(1) by (simp add: obj_settled_def s ce get_ipc_Some IpcChannel_already_signaled_def)
  qed (simp_all add: s)
  have dl: "dl_inv {} g1" by (rule cancel_dl [OF assms e(1) s(1-3,5,6)])
  define g' where "g' = signal_pending_op g1 po KError_TimedOut"
  note g'_def' = g'_def [unfolded signal_pending_op_def]
  have "ipc_inv g'"
  proof (rule ipc_inv_upd [OF i(3) e(1)])
    show v': "ipc_view g' = (ipc_view g)(c \<mapsto> ?e\<lparr>ipc_waiters := []\<rparr>)" by (simp add: g'_def' signal_po_views v(1))
    show "acyclic (holds g')"
      by (rule acyclic_shrunk [OF i(3) e(1) v']) (auto simp: ce ipc_refs_def)
    show "endpoint_ok (?e\<lparr>ipc_waiters := []\<rparr>)" using ipc_inv_endpoint [OF i(3) e(1)] by (simp add: ce endpoint_ok_def)
    show "distinct (map ps_po (rs_items (ipc_pending (?e\<lparr>ipc_waiters := []\<rparr>))))" using d by (simp add: ce comp_def)
    have pos: "set (rs_items (ipc_pending (?e\<lparr>ipc_waiters := []\<rparr>))) = cancel_send po ` set (held_sends g c)" by (simp add: ce v(6))
    show "ps_po q \<in> set (send_pos g c) \<or> (\<forall>c'. ps_po q \<notin> set (send_pos g c')) \<and> (\<forall>r u. sk_regs g r = Some u \<longrightarrow> ps_po q \<notin> reg_pos u)"
      if "q \<in> set (rs_items (ipc_pending (?e\<lparr>ipc_waiters := []\<rparr>)))" for q using that unfolding pos by (auto simp: send_pos_def)
    show "po_done g' (ps_po q) = Some (ps_cancelled q)" if "q \<in> set (rs_items (ipc_pending (?e\<lparr>ipc_waiters := []\<rparr>)))" for q
      using that so(3) pd unfolding pos by (auto simp: g'_def' signal_po_views v(3))
    show "po_done g' po' = po_done g po'" if "c' \<noteq> c" "po' \<in> set (send_pos g c')" for c' po'
    proof -
      have "po \<in> set (send_pos g c)" using e(2,3) by (auto simp: send_pos_def)
      then have "po' \<noteq> po" using so(2) [OF that] by blast
      then show ?thesis by (simp add: g'_def' signal_po_views v(3))
    qed
  qed (auto simp: ce g'_def' s)
  moreover have "wait_inv {} g'" "dl_inv {} g'" unfolding g'_def' by (rule signal_po_wait [OF w1], rule signal_po_dl [OF w1 dl])
  moreover have "moves g g1" using e(1) by (intro moves_frame) (auto simp: s po_completed_def get_ipc_Some split: if_splits)
  then have "moves g g'" unfolding g'_def' using signal_po_moves(1) [OF w1] moves_trans by blast
  moreover have "deadlines g' = h" by (simp add: g'_def' s)
  ultimately have "turned now h g g'" by (simp add: turned_def sched_inv_def)
  moreover have "po_completed g' po KError_TimedOut" "\<forall>th\<in>blocked g'. po \<notin> set (waiting g th)"
    unfolding g'_def' using signal_po_moves(2,3) [OF w1, of po] pd v(3) by (simp_all add: waiting_def s)
  moreover have "fire_target (g\<lparr>deadlines := h\<rparr>) (TPendingSend po c) now = Some g'"
    using e(1) by (simp add: fire_target_def g'_def g1_def get_ipc_Some)
  ultimately show ?thesis by blast
qed

lemma one_turn:
  assumes "sched_inv {} g" "popped g e h" "now \<noteq> -1"
  shows "\<exists>g'. fire_target (g\<lparr>deadlines := h\<rparr>) (target e) now = Some g' \<and> turned now h g g' \<and> handled e g g'"
proof (cases "target e")
  case (TThread th)
  then show ?thesis using turn_thread [OF assms(1,2) TThread] by (simp add: handled_def)
next
  case (TTimer ob)
  then show ?thesis using turn_timer [OF assms(1,2) TTimer assms(3)] by (simp add: handled_def)
next
  case (TPendingSend po c)
  then show ?thesis using turn_send [OF assms(1,2) TPendingSend] by (simp add: handled_def)
qed

section \<open>The loop\<close>

definition due :: "u64 \<Rightarrow> SchedState \<Rightarrow> Entry multiset" where
  "due now g = filter_mset (\<lambda>e. deadline_ns e \<le> now) (heap_held (deadlines g))"

text \<open>Each turn takes out one entry that is due, and puts in none.\<close>

lemma turned_due:
  assumes "popped g e h" "deadline_ns e \<le> now" "turned now h g g'"
  shows "due now g = add_mset e (due now g')"
  using assms by (auto simp: due_def popped_def turned_def)

lemma tick_loop:
  assumes "sched_inv {} g" "now \<noteq> -1"
  shows "\<exists>g'. fire_expired_deadlines now g = Some g' \<and> sched_inv {} g' \<and> moves g g'
    \<and> (\<forall>e\<in>#due now g. handled e g g') \<and> (\<forall>e\<in>#heap_held (deadlines g'). now < deadline_ns e)"
  using assms(1)
proof (induction "size (due now g)" arbitrary: g rule: less_induct)
  case less
  note ok = slots_okD(1) [OF dl_invD(1) [OF sched_invD(2) [OF less.prems]]]
  show ?case
  proof (cases "dl_pop_min (deadlines g)")
    case (Pair h r)
    have peek: "dl_peek (deadlines g) = r" using dq.peek_pop [OF ok] Pair by simp
    show ?thesis
    proof (cases r)
      case None
      then have "heap_held (deadlines g) = {#}" using dq.peek_empty [OF ok] peek by simp
      then show ?thesis using less.prems None peek
        by (subst fire_expired_deadlines.simps) (simp add: due_def moves_refl)
    next
      case (Some e)
      have least: "deadline_ns e \<le> deadline_ns x" if "x \<in># heap_held (deadlines g)" for x
        using dq.pop_least [OF ok _ that] Pair Some by simp
      show ?thesis
      proof (cases "now < deadline_ns e")
        case True
        then have late: "now < deadline_ns x" if "x \<in># heap_held (deadlines g)" for x using least [OF that] by simp
        have "due now g = {#}" using late by (force simp: due_def filter_mset_eq_conv)
        then show ?thesis using less.prems late True peek Some
          by (subst fire_expired_deadlines.simps) (simp add: moves_refl)
      next
        case False
        have p: "popped g e h" using dq.pop_takes [OF ok] Pair Some by (simp add: popped_def)
        obtain g1 where g1: "fire_target (g\<lparr>deadlines := h\<rparr>) (target e) now = Some g1" "turned now h g g1" "handled e g g1"
          using one_turn [OF less.prems p assms(2)] by blast
        have d: "due now g = add_mset e (due now g1)" using turned_due [OF p _ g1(2)] False by simp
        moreover have "sched_inv {} g1" and m: "moves g g1" using g1(2) by (simp_all add: turned_def)
        ultimately obtain g' where g': "fire_expired_deadlines now g1 = Some g'" "sched_inv {} g'" "moves g1 g'"
            "\<forall>e\<in>#due now g1. handled e g1 g'" "\<forall>e\<in>#heap_held (deadlines g'). now < deadline_ns e"
          using less.hyps [of g1] by auto
        have "fire_expired_deadlines now g = Some g'"
          using False peek Some Pair g1(1) g'(1) by (subst fire_expired_deadlines.simps) simp
        moreover have "\<forall>x\<in>#due now g. handled x g g'"
          using d g'(4) handled_earlier [OF m g'(3)] handled_later [OF g1(3) g'(3)] by auto
        ultimately show ?thesis using g'(2,5) moves_trans [OF m g'(3)] by blast
      qed
    qed
  qed
qed

end
