(* ===== verification/Sched_Blocking.thy ===== *)
theory Sched_Blocking
  imports Sched_Tick
begin

text \<open>
  A wait keeps the scheduler's invariant: its first hold of the lock, which answers or blocks, and
  its second, which removes what is left of the registration. Neither trips an assertion or runs out
  of a reserve.
\<close>

lemma dl_inv_threads:
  assumes inv: "dl_inv P g" and c: "contents g' = contents g" and d: "deadlines g' = deadlines g" "deadline_slots g' = deadline_slots g"
    and b: "rs_cap (sk_blocked g') = rs_cap (sk_blocked g)" "dom (deadline_view g') = dom (deadline_view g)"
    and th: "\<And>x. TThread x \<in># targets g \<Longrightarrow> deadline_view g' x = Some True"
      "\<And>x. x \<in> blocked g' \<Longrightarrow> deadline_view g' x = Some True \<Longrightarrow> TThread x \<in># targets g"
  shows "dl_inv P g'"
proof (rule dl_invI)
  note i = dl_invD [OF inv] and v = same_contents [OF c] and t = targets_cong [OF d(1)]
  show "slots_ok g'" using i(1) d by (rule slots_ok_deadlines)
  show "slots_enough g'" using i(8) by (rule slots_enough_cong) (simp_all add: v d b)
  show "timer_ok P g' ob w" if "timer_view g' ob = Some w" for ob w using i(5) that by (simp add: v timer_ok_def d t)
qed (use th dl_invD [OF inv] in \<open>simp_all add: same_contents [OF c] targets_cong [OF d(1)] live_sends_cong [OF same_contents(4) [OF c]]\<close>)

section \<open>Registering\<close>

lemma w_set_waiters_twice [simp]: "w_set_waiters ws (w_set_waiters ws' w) = w_set_waiters ws w"
  by (cases w) simp_all

lemma upd_obj_contents: "(\<And>w. w_set_waiters [] (f w) = w_set_waiters [] w) \<Longrightarrow> contents (upd_obj g ob f) = contents g"
  by (auto simp: contents_def upd_obj_def fun_eq_iff option.map_comp comp_def)

lemma upd_thread_contents [simp]: "contents (upd_thread g th f) = contents g"
  by (simp add: contents_def fun_eq_iff)

lemma add_waiters_contents: "add_waiters g obs me n = (g', m, failed) \<Longrightarrow> contents g' = contents g"
proof (induction obs arbitrary: g n)
  case (Cons ob obs)
  show ?case
  proof (cases "obj_add_waiter g ob me")
    case (Some g1)
    then have "contents g1 = contents g" by (auto simp: obj_add_waiter_def upd_obj_contents split: option.splits)
    then show ?thesis using Cons Some by auto
  qed (use Cons in auto)
qed simp

lemma remove_waiters_contents: "contents (remove_waiters g obs me) = contents g"
  by (induction obs arbitrary: g) (simp_all add: obj_remove_waiter_def upd_obj_contents)

lemma add_waiters_live: "add_waiters g obs me n = (g', m, False) \<Longrightarrow> ob \<in> set obs \<Longrightarrow> sk_objs g ob \<noteq> None"
proof (induction obs arbitrary: g n)
  case (Cons x obs)
  then obtain g1 where g1: "obj_add_waiter g x me = Some g1" "add_waiters g1 obs me (n + 1) = (g', m, False)"
    by (auto split: option.splits)
  show ?case
  proof (cases "ob = x")
    case False
    then have "sk_objs g1 ob \<noteq> None" using Cons g1(2) by auto
    moreover have "sk_objs g1 ob = sk_objs g ob" using g1(1) False by (auto simp: obj_add_waiter_def upd_obj_def split: option.splits)
    ultimately show ?thesis by simp
  qed (use obj_add_waiterD(9) [OF g1(1)] in simp)
qed simp

lemma blocked_room:
  assumes "wait_inv X g" "dl_inv P g" "sk_threads g me \<noteq> None" "me \<notin> blocked g"
  shows "length (rs_items (sk_blocked g)) < rs_cap (sk_blocked g)"
proof -
  let ?D = "dom (deadline_view g)"
  have D: "finite ?D" "card ?D \<le> rs_cap (sk_blocked g)" using dl_invD(8) [OF assms(2)] by (simp_all add: slots_enough_def)
  have "insert me (blocked g) \<subseteq> ?D" using assms(3) wait_invD(2) [OF assms(1)] by (auto simp: deadline_view_def)
  then have "card (insert me (blocked g)) \<le> card ?D" by (rule card_mono [OF D(1)])
  moreover have "card (insert me (blocked g)) = Suc (length (rs_items (sk_blocked g)))"
    using assms(4) distinct_card [OF wait_invD(1) [OF assms(1)]] by (simp add: blocked_def)
  ultimately show ?thesis using D(2) by simp
qed

section \<open>The first hold\<close>

text \<open>A registration refused and undone.\<close>

lemma wait_undo_sched:
  assumes "sched_inv P g" "sk_threads g me = Some t" "th_phase t = PRunning" "length objs \<le> MAX_WAIT_HANDLES"
    and "add_waiters (upd_thread g me (wait_register objs dl)) objs me 0 = (g1, n, failed)"
  shows "sched_inv P (upd_thread (remove_waiters g1 (take n objs) me) me wait_clear)" (is "sched_inv P ?g")
proof -
  note i = sched_invD [OF assms(1)]
  note r = add_waiters_registered [OF i(1) assms(2-5)]
  have nd: "\<not> th_has_deadline t" using wait_invD(7) [OF i(1) assms(2)] assms(3) by (simp add: thread_ok_def)
  have c: "contents ?g = contents g"
    using add_waiters_contents [OF assms(5)] by (simp add: remove_waiters_contents)
  have b: "sk_blocked ?g = sk_blocked g" by (simp add: r(4))
  have dv: "deadline_view ?g = deadline_view g"
    using assms(2) nd by (auto simp: deadline_view_def fun_eq_iff upd_thread_def r(3) wait_clear_def)
  have "dl_inv P ?g"
  proof (rule dl_inv_threads [OF i(2) c])
    show "TThread x \<in># targets g" if "x \<in> blocked ?g" "deadline_view ?g x = Some True" for x
      using dl_invD(4) [OF i(2)] that by (simp only: blocked_cong [OF b] dv)
    show "deadline_view ?g x = Some True" if "TThread x \<in># targets g" for x using dl_invD(3) [OF i(2) that] by (simp only: dv)
  qed (simp_all only: b dv, simp_all add: r)
  moreover have "ipc_inv ?g" by (rule ipc_inv_same [OF i(3) c]) (simp add: r)
  moreover have "wait_inv {} ?g" by (rule wait_undo_inv [OF i(1) assms(2-5)]) simp_all
  ultimately show ?thesis by (simp add: sched_inv_def)
qed

text \<open>A registration that goes through, with or without a deadline.\<close>

lemma wait_parked:
  assumes "sched_inv {} g" "sk_threads g me = Some t" "th_phase t = PRunning" "length objs \<le> MAX_WAIT_HANDLES"
    and reg: "add_waiters (upd_thread g me (wait_register objs dl)) objs me 0 = (g1, n, False)"
    and g2: "g2 = g1\<lparr>deadlines := h\<rparr>" and quiet: "\<And>ob. ob \<in> set objs \<Longrightarrow> \<not> obj_settled g ob"
    and h: "if dl then slots_ok (g\<lparr>deadlines := h\<rparr>) \<and> (\<exists>d. heap_held h = add_mset \<lparr>deadline_ns = d, target = TThread me\<rparr> (heap_held (deadlines g)))
      else h = deadlines g"
  shows "\<exists>g'. park_blocked g2 me = Some g' \<and> sched_inv {} g' \<and> blocked g' = insert me (blocked g) \<and> waiting g' me = objs"
proof -
  note i = sched_invD [OF assms(1)]
  note r = add_waiters_registered [OF i(1) assms(2-4) reg]
  have room: "length (rs_items (sk_blocked g)) < rs_cap (sk_blocked g)"
    using assms(2) r(6) by (intro blocked_room [OF i(1,2)]) simp_all
  define g' where "g' = (upd_thread g2 me (\<lambda>t. t\<lparr>th_state := TBlocked\<rparr>))\<lparr>sk_blocked := (sk_blocked g)\<lparr>rs_items := rs_items (sk_blocked g) @ [me]\<rparr>\<rparr>"
  have park: "park_blocked g2 me = Some g'"
    using room r(4) by (simp add: park_blocked_def Reserved_push_def g2 g'_def upd_thread_def)
  have w: "wait_inv {} g'" "blocked g' = insert me (blocked g)"
      "sk_threads g' = (sk_threads g)(me \<mapsto> (wait_register objs dl t)\<lparr>th_state := TBlocked\<rparr>)" "deadlines g' = h"
    using wait_park_inv [OF i(1) assms(2-4) reg, of g2 g'] quiet park by (simp_all add: g2)
  note f = wait_register_fields [OF wait_invD(7) [OF i(1) assms(2)] assms(4), of dl]
  have c: "contents g' = contents g"
    using add_waiters_contents [OF reg] by (simp add: g'_def g2 contents_def upd_thread_def fun_eq_iff)
  note v = same_contents [OF c]
  have dv: "deadline_view g' x = (if x = me then Some dl else deadline_view g x)" for x by (simp add: deadline_view_def w(3) f(5))
  have nt: "deadline_view g me = Some False"
    using wait_invD(7) [OF i(1) assms(2)] assms(2,3) by (simp add: deadline_view_def thread_ok_def)
  have out: "TThread me \<notin># targets g" using dl_invD(3) [OF i(2), of me] nt by auto
  have sl: "deadline_slots g' = deadline_slots g" "rs_cap (sk_blocked g') = rs_cap (sk_blocked g)"
    by (simp_all add: g'_def g2 r)
  have dom: "dom (deadline_view g') = dom (deadline_view g)" using nt by (auto simp: dv dom_def)
  have "dl_inv {} g'"
  proof (cases dl)
    case False
    show ?thesis
      by (rule dl_inv_threads [OF i(2) c _ sl dom])
        (use h False w(2,4) out dl_invD(3,4) [OF i(2)] in \<open>auto simp: dv split: if_splits\<close>)
  next
    case True
    then obtain d where d: "slots_ok (g\<lparr>deadlines := h\<rparr>)" "heap_held h = add_mset \<lparr>deadline_ns = d, target = TThread me\<rparr> (heap_held (deadlines g))"
      using h by auto
    show ?thesis
    proof (rule dl_inv_put [OF i(2) d(2), where me = me])
      show "slots_ok g'" by (rule slots_ok_deadlines [OF d(1)]) (simp_all add: w(4) sl)
      show "slots_enough g'" using dl_invD(8) [OF i(2)] by (rule slots_enough_cong) (simp_all add: v dom sl)
    qed (use out True w(2,4) in \<open>auto simp: dv v live_sends_cong [OF v(4)]\<close>)
  qed
  moreover have "ipc_inv g'" by (rule ipc_inv_same [OF i(3) c]) (simp add: g'_def g2 r)
  moreover have "waiting g' me = objs" using f(2) by (simp add: waiting_def w(3) waiting_on_def)
  ultimately show ?thesis using park w(1,2) by (simp add: sched_inv_def)
qed

lemma wait_block_sched:
  assumes "sched_inv {} g" "sk_threads g me = Some t" "th_phase t = PRunning" "length objs \<le> MAX_WAIT_HANDLES"
    and quiet: "\<And>ob. ob \<in> set objs \<Longrightarrow> \<not> obj_already_signaled g ob now"
  shows "\<exists>g' r. wait_block g me objs d = Some (g', r) \<and> sched_inv {} g'
    \<and> (r = None \<and> blocked g' = insert me (blocked g) \<and> waiting g' me = objs
      \<or> r = Some OutOfMemory \<and> blocked g' = blocked g \<and> (\<exists>t'. sk_threads g' me = Some t' \<and> th_wait_count t' = 0 \<and> \<not> th_has_deadline t'))"
proof -
  note i = sched_invD [OF assms(1)]
  let ?dl = "d \<noteq> -1"
  obtain g1 n failed where reg: "add_waiters (upd_thread g me (wait_register objs ?dl)) objs me 0 = (g1, n, failed)"
    by (cases "add_waiters (upd_thread g me (wait_register objs ?dl)) objs me 0") auto
  note r = add_waiters_registered [OF i(1) assms(2-4) reg]
  show ?thesis
  proof (cases failed)
    case True
    let ?g = "upd_thread (remove_waiters g1 (take n objs) me) me wait_clear"
    have "blocked ?g = blocked g" by (rule blocked_cong) (simp add: r(4))
    moreover have "wait_block g me objs d = Some (?g, Some OutOfMemory)" using reg True by (simp add: wait_block_def Let_def)
    moreover have "sk_threads ?g me = Some (wait_clear (wait_register objs ?dl t))" by (simp add: upd_thread_def r(3))
    ultimately show ?thesis using wait_undo_sched [OF assms(1-4) reg] by (auto simp: wait_clear_def)
  next
    case False
    then have reg': "add_waiters (upd_thread g me (wait_register objs ?dl)) objs me 0 = (g1, n, False)" using reg by simp
    have q: "\<not> obj_settled g ob" if "ob \<in> set objs" for ob
      using quiet [OF that] add_waiters_live [OF reg' that] settled_signaled
      by (auto simp: obj_settled_def obj_already_signaled_def)
    have out: "TThread me \<notin># targets g"
      using dl_invD(3) [OF i(2), of me] wait_invD(7) [OF i(1) assms(2)] assms(2,3) by (auto simp: deadline_view_def thread_ok_def)
    have room: "kind_held (heap_held (deadlines g)) DThread < deadline_slots g DThread"
      by (rule thread_room [OF i(2) _ out]) (use assms(2) in \<open>auto simp: deadline_view_def\<close>)
    let ?e = "\<lparr>deadline_ns = d, target = TThread me\<rparr>"
    obtain h where h: "push_promised g ?e = Some (g\<lparr>deadlines := h\<rparr>, True)" "slots_ok (g\<lparr>deadlines := h\<rparr>)"
        "heap_held h = add_mset ?e (heap_held (deadlines g))"
      using push_promised_ok [OF dl_invD(1) [OF i(2)], of ?e] room by auto
    have p1: "push_promised g1 ?e = Some (g1\<lparr>deadlines := h\<rparr>, True)" by (rule push_promised_local [OF h(1)]) (simp_all add: r)
    let ?h = "if ?dl then h else deadlines g"
    have "if ?dl then slots_ok (g\<lparr>deadlines := ?h\<rparr>) \<and> (\<exists>d. heap_held ?h = add_mset \<lparr>deadline_ns = d, target = TThread me\<rparr> (heap_held (deadlines g)))
      else ?h = deadlines g" using h(2,3) by (cases ?dl) auto
    from wait_parked [OF assms(1-4) reg' refl q this]
    obtain g' where g': "park_blocked (g1\<lparr>deadlines := ?h\<rparr>) me = Some g'" "sched_inv {} g'" "blocked g' = insert me (blocked g)" "waiting g' me = objs"
      by blast
    have "g1\<lparr>deadlines := deadlines g\<rparr> = g1" using r(7) by simp
    then have "wait_block g me objs d = Some (g', None)"
      using g'(1) reg' p1 by (auto simp: wait_block_def Let_def split: if_splits)
    then show ?thesis using g'(2-4) by blast
  qed
qed

lemma wait_enter_sched:
  assumes "sched_inv {} g" "sk_threads g me = Some t" "th_phase t = PRunning" "length objs \<le> MAX_WAIT_HANDLES"
  shows "\<exists>g' r. wait_enter g me objs d now heed = Some (g', r) \<and> sched_inv {} g'
    \<and> (case r of None \<Rightarrow> blocked g' = insert me (blocked g) \<and> waiting g' me = objs | Some _ \<Rightarrow> blocked g' = blocked g)"
proof (cases "heed \<and> th_ending t")
  case False
  let ?s = "map (\<lambda>ob. obj_already_signaled g ob now) objs @ replicate (MAX_WAIT_HANDLES - length objs) False"
  show ?thesis
  proof (cases "True \<in> set ?s \<or> d = 0")
    case False
    then have q: "\<not> obj_already_signaled g ob now" if "ob \<in> set objs" for ob using that by auto
    have "wait_enter g me objs d now heed = wait_block g me objs d"
      using assms(2,4) False \<open>\<not> (heed \<and> th_ending t)\<close> by (auto simp: wait_enter_def Let_def)
    with wait_block_sched [OF assms q, of d] show ?thesis by auto
  qed (use assms False in \<open>auto simp: wait_enter_def Let_def\<close>)
qed (use assms in \<open>simp add: wait_enter_def\<close>)

section \<open>The second hold\<close>

lemma wait_finish_sched:
  assumes "sched_inv {} g" "sk_threads g me = Some t" "me \<notin> blocked g"
  shows "\<exists>g'. wait_finish g me (waiting g me) = Some (g', if True \<in> set (wait_signaled t) then Signaled (wait_signaled t) else TimedOut)
    \<and> sched_inv {} g' \<and> blocked g' = blocked g \<and> sk_threads g' = (sk_threads g)(me \<mapsto> wait_clear t)"
proof -
  note i = sched_invD [OF assms(1)]
  let ?r = "remove_waiters g (waiting g me) me"
  define h where "h = (if th_has_deadline t then fst (dl_remove (deadlines g) (TThread me)) else deadlines g)"
  define g' where "g' = upd_thread (?r\<lparr>deadlines := h\<rparr>) me wait_clear"
  have r: "?r\<lparr>deadlines := deadlines g\<rparr> = ?r" by simp
  have fin: "wait_finish g me (waiting g me) = Some (g', if True \<in> set (wait_signaled t) then Signaled (wait_signaled t) else TimedOut)"
    using assms(2) by (cases "th_has_deadline t") (simp_all add: wait_finish_def Let_def g'_def h_def, simp only: r)
  have w: "wait_inv {} g'" by (rule wait_finish_inv [OF i(1) fin assms(3) refl])
  have c: "contents g' = contents g" by (simp add: g'_def remove_waiters_contents)
  note v = same_contents [OF c]
  have th: "sk_threads g' = (sk_threads g)(me \<mapsto> wait_clear t)" using assms(2) by (simp add: g'_def upd_thread_def)
  have fr: "sk_blocked g' = sk_blocked g" "sk_regs g' = sk_regs g" "deadline_slots g' = deadline_slots g" "deadlines g' = h"
    by (simp_all add: g'_def)
  have dv: "deadline_view g' x = (if x = me then Some False else deadline_view g x)" for x
    by (simp add: deadline_view_def th wait_clear_def)
  have dom: "dom (deadline_view g') = dom (deadline_view g)" using assms(2) by (auto simp: th dom_def deadline_view_def)
  have keep: "dl_inv {} g'" if "h = deadlines g" "TThread me \<notin># targets g"
    by (rule dl_inv_threads [OF i(2) c _ fr(3) _ dom])
      (use that fr dl_invD(3,4) [OF i(2)] blocked_cong [OF fr(1)] in \<open>auto simp: dv split: if_splits\<close>)
  have "dl_inv {} g'"
  proof (cases "th_has_deadline t")
    case False
    then show ?thesis using dl_invD(3) [OF i(2), of me] assms(2) by (intro keep) (auto simp: h_def deadline_view_def)
  next
    case True
    consider (misses) "\<forall>e\<in>#heap_held (deadlines g). target e \<noteq> TThread me" "dl_remove (deadlines g) (TThread me) = (deadlines g, False)"
      | (takes) h' e where "dl_remove (deadlines g) (TThread me) = (h', True)" "heap_ok h'" "rs_cap h' = rs_cap (deadlines g)"
          "target e = TThread me" "heap_held (deadlines g) = add_mset e (heap_held h')"
      using heap_remove_cases [OF slots_okD(1) [OF dl_invD(1) [OF i(2)]], of "TThread me"] .
    then show ?thesis
    proof cases
      case misses
      then show ?thesis by (intro keep) (auto simp: h_def True targets_def)
    next
      case (takes h' e)
      have "h = h'" using takes(1) True by (simp add: h_def)
      show ?thesis
      proof (rule dl_inv_take [OF i(2) takes(5,2,3)])
        show "slots_enough g'" using dl_invD(8) [OF i(2)] by (rule slots_enough_cong) (simp_all add: v dom fr)
      qed (use takes(4) fr \<open>h = h'\<close> blocked_cong [OF fr(1)] in \<open>auto simp: dv v live_sends_cong [OF v(4)]\<close>)
    qed
  qed
  moreover have "ipc_inv g'" by (rule ipc_inv_same [OF i(3) c fr(2)])
  ultimately show ?thesis using fin w th blocked_cong [OF fr(1)] by (simp add: sched_inv_def)
qed

section \<open>The end of a process\<close>

lemma mark_ending_sched:
  assumes "sched_inv P g"
  shows "sched_inv P (upd_thread g th (\<lambda>t. t\<lparr>th_ending := True\<rparr>))" (is "sched_inv P ?g")
proof -
  note i = sched_invD [OF assms]
  have b: "blocked ?g = blocked g" by (rule blocked_cong) simp
  have ob: "obj_waiters ?g = obj_waiters g" "obj_settled ?g = obj_settled g" by (simp_all add: obj_waiters_def obj_settled_def fun_eq_iff)
  have wt: "waiting ?g = waiting g" by (auto simp: waiting_def upd_thread_def waiting_on_def fun_eq_iff split: option.split)
  have th: "\<exists>t. sk_threads g x = Some t \<and> th_phase t' = th_phase t \<and> marks t' = marks t \<and> thread_ok t' = thread_ok t"
    if "sk_threads ?g x = Some t'" for x t'
    using that by (auto simp: upd_thread_def marks_def thread_ok_def split: if_splits)
  have ph: "(\<exists>t. sk_threads ?g x = Some t \<and> th_phase t = PWaiting) \<longleftrightarrow> (\<exists>t. sk_threads g x = Some t \<and> th_phase t = PWaiting)" for x
    by (auto simp: upd_thread_def)
  have "wait_inv {} ?g"
  proof (rule wait_invI)
    show "distinct (rs_items (sk_blocked ?g))" using wait_invD(1) [OF i(1)] by simp
    show "x \<in> blocked ?g \<longleftrightarrow> (\<exists>t. sk_threads ?g x = Some t \<and> th_phase t = PWaiting)" for x
      using wait_invD(2) [OF i(1)] by (simp only: b ph)
    show "True \<notin> set (marks t)" if "x \<in> blocked ?g" "sk_threads ?g x = Some t" for x t
      using th [OF that(2)] that(1) wait_invD(6) [OF i(1)] b by auto
    show "thread_ok t" if "sk_threads ?g x = Some t" for x t using th [OF that] wait_invD(7) [OF i(1)] by auto
  qed (use wait_invD(3,4,5) [OF i(1)] in \<open>auto simp: b ob wt\<close>)
  moreover have dv: "deadline_view ?g = deadline_view g" by (auto simp: deadline_view_def upd_thread_def fun_eq_iff option.map_comp comp_def)
  have "dl_inv P ?g"
    by (rule dl_inv_threads [OF i(2)]) (use dl_invD(3,4) [OF i(2)] in \<open>auto simp: dv b\<close>)
  moreover have "ipc_inv ?g" by (rule ipc_inv_same [OF i(3)]) simp_all
  ultimately show ?thesis by (simp add: sched_inv_def)
qed

lemma end_one_sched: "sched_inv P g \<Longrightarrow> sched_inv P (end_one g th)"
  unfolding end_one_def by (intro wake_thread_sched mark_ending_sched)

lemma end_blocked_sched: "sched_inv P g \<Longrightarrow> sched_inv P (end_blocked g pid)"
proof (induction g pid rule: end_blocked.induct)
  case (1 g pid)
  then show ?case by (subst end_blocked.simps) (auto simp: end_one_sched split: option.split)
qed

text \<open>No thread of the process is left blocked unmarked.\<close>

lemma end_blocked_all:
  assumes "th \<in> blocked (end_blocked g pid)"
  shows "\<not> unmarked (end_blocked g pid) pid th"
  using assms
proof (induction g pid rule: end_blocked.induct)
  case (1 g pid)
  show ?case
  proof (cases "position (unmarked g pid) (rs_items (sk_blocked g))")
    case None
    then have "end_blocked g pid = g" by (simp add: end_blocked.simps [of g])
    with None 1(2) show ?thesis by (simp add: position_None blocked_def)
  next
    case (Some i)
    then show ?thesis using 1 by (simp add: end_blocked.simps [of g])
  qed
qed

end
