(* ===== verification/Sched_Messages.thy ===== *)
theory Sched_Messages
  imports Sched_Blocking
begin

text \<open>
  Messages keep the scheduler's invariant: a send delivered, held or refused, and a receipt, which
  promotes the first held send still wanted. A held send never runs out of its reserve or its slot in
  the deadline heap, and no endpoint comes to hold itself.
\<close>

lemma peer_get:
  assumes "ipc_inv g" "peer_of g ob \<noteq> 0"
  obtains e where "get_ipc g (peer_of g ob) = Some e" "ob \<noteq> 0" "peer_of g ob \<noteq> ob" "ipc_peer e = ob"
proof -
  have p: "0 \<notin> endpoints g" "peer_of g ob \<noteq> ob" "peer_of g (peer_of g ob) = ob" using assms by (auto simp: ipc_inv_def peers_ok_def)
  have "ob \<in> endpoints g" using assms(2) by (auto simp: endpoints_def peer_of_def split: option.splits)
  then have "ob \<noteq> 0" using p(1) by blast
  then obtain e where "get_ipc g (peer_of g ob) = Some e" "ipc_peer e = ob" using p(3)
    by (cases "get_ipc g (peer_of g ob)") (auto simp: peer_of_def [of g "peer_of g ob"])
  with p(2) \<open>ob \<noteq> 0\<close> show thesis by (intro that)
qed

text \<open>A change of one endpoint, with the heap it leaves.\<close>

definition endpoint_set :: "SchedState \<Rightarrow> u64 \<Rightarrow> IpcInner \<Rightarrow> Entry Reserved \<Rightarrow> SchedState \<Rightarrow> bool" where
  "endpoint_set g c e h g' \<longleftrightarrow> sk_objs g' = (sk_objs g)(c \<mapsto> WIpc e) \<and> sk_threads g' = sk_threads g \<and> sk_blocked g' = sk_blocked g
     \<and> sk_regs g' = sk_regs g \<and> sk_ready g' = sk_ready g \<and> deadline_slots g' = deadline_slots g \<and> deadlines g' = h"

lemma endpoint_setD:
  assumes "endpoint_set g c e h g'"
  shows "sk_objs g' = (sk_objs g)(c \<mapsto> WIpc e)" "sk_threads g' = sk_threads g" "sk_blocked g' = sk_blocked g" "sk_regs g' = sk_regs g"
    "sk_ready g' = sk_ready g" "deadline_slots g' = deadline_slots g" "deadlines g' = h"
  using assms by (simp_all add: endpoint_set_def)

lemma endpoint_set_ipc: "endpoint_set g c e (deadlines g) (set_ipc g c e)"
  by (simp add: endpoint_set_def set_ipc_def)

lemma endpoint_wait:
  assumes "wait_inv {} g" "get_ipc g c = Some e" "endpoint_set g c e' h g'" "ipc_waiters e' = ipc_waiters e"
  shows "wait_inv {c} g'" "(IpcChannel_already_signaled e' \<Longrightarrow> IpcChannel_already_signaled e) \<Longrightarrow> wait_inv {} g'"
proof -
  note s = endpoint_setD [OF assms(3)]
  have o: "sk_objs g c = Some (WIpc e)" using assms(2) by (simp add: get_ipc_Some)
  show "wait_inv {c} g'" by (rule wait_inv_upd [OF assms(1) o s(1) _ s(2,3)]) (simp_all add: assms(4))
  assume q: "IpcChannel_already_signaled e' \<Longrightarrow> IpcChannel_already_signaled e"
  show "wait_inv {} g'"
  proof (rule wait_inv_cong [OF assms(1) s(2)])
    show "obj_waiters g' x = obj_waiters g x" for x using o assms(4) by (simp add: obj_waiters_def s(1))
    show "x \<in> {} \<or> (obj_settled g' x \<longrightarrow> x \<notin> {} \<and> obj_settled g x)" for x using o q by (simp add: obj_settled_def s(1))
  qed (simp add: s(3))
qed

lemma endpoint_moves: "get_ipc g c = Some e \<Longrightarrow> endpoint_set g c e' h g' \<Longrightarrow> moves g g'"
  by (intro moves_frame) (auto simp: endpoint_set_def po_completed_def get_ipc_Some)

text \<open>Deadlines see of an endpoint only its held sends.\<close>

lemma endpoint_dl:
  assumes inv: "dl_inv P g" and e: "get_ipc g c = Some e" and g': "endpoint_set g c e' (deadlines g) g'"
    and "length (rs_items (ipc_pending e')) \<le> MAX_PENDING_SENDS"
    and live: "\<And>po. TPendingSend po c \<in># targets g \<Longrightarrow> po \<in> live_sends g c \<Longrightarrow> po \<in> ps_po ` {p \<in> set (rs_items (ipc_pending e')). \<not> ps_cancelled p}"
  shows "dl_inv P g'"
proof (rule dl_invI)
  note s = endpoint_setD [OF g'] and v = ipc_views [OF e endpoint_setD(1) [OF g']] and d = dl_invD [OF inv]
  note t = targets_cong [OF s(7)] and dv = deadline_view_cong [OF s(2)]
  have l: "live_sends g' x = (if x = c then ps_po ` {p \<in> set (rs_items (ipc_pending e')). \<not> ps_cancelled p} else live_sends g x)" for x
    by (simp add: live_sends_def v(4))
  show "slots_ok g'" using d(1) by (rule slots_ok_deadlines) (simp_all add: s)
  show "timer_ok P g' x w" if "timer_view g' x = Some w" for x w using d(5) that by (simp add: v timer_ok_def s t)
  show "po \<in> live_sends g' c'" if "TPendingSend po c' \<in># targets g'" for po c'
    using d(7) [of po c'] live [of po] that by (cases "c' = c") (simp_all add: t l)
  show "slots_enough g'" using d(8) assms(4) by (simp add: slots_enough_def v(2,4,5) s dv)
qed (use dl_invD [OF inv] in \<open>simp_all add: targets_cong [OF endpoint_setD(7) [OF g']] deadline_view_cong [OF endpoint_setD(2) [OF g']]
    blocked_cong [OF endpoint_setD(3) [OF g']] ipc_views(2) [OF e endpoint_setD(1) [OF g']]\<close>)

lemma endpoint_peer_of:
  assumes "get_ipc g c = Some e" "endpoint_set g c e' h g'" "ipc_peer e' = ipc_peer e"
  shows "peer_of g' = peer_of g"
  using assms by (auto simp: fun_eq_iff peer_of_def get_ipc_def endpoint_set_def split: option.splits waitable.splits)

section \<open>Delivery\<close>

lemma push_refs:
  assumes "mr_inv r" "\<not> mr_is_full r"
  shows "ipc_refs (e\<lparr>ipc_recv := fst (push_from r m ts)\<rparr>) \<subseteq> ipc_refs (e\<lparr>ipc_recv := r\<rparr>) \<union> slot_refs ts"
  by (auto simp: ipc_refs_def mr_push_spec [OF assms])

text \<open>A message pushed into a ring with room, and the wake if the ring was empty.\<close>

lemma delivered_sched:
  fixes m :: StoredMsg
  assumes "sched_inv {} g" "peer_of g ob \<noteq> 0" "get_ipc g (peer_of g ob) = Some e" "\<not> mr_is_full (ipc_recv e)"
    and "\<not> closes_a_cycle g ob ts"
  defines "g1 \<equiv> set_ipc g (peer_of g ob) (e\<lparr>ipc_recv := fst (push_from (ipc_recv e) m ts)\<rparr>)"
  shows "sched_inv {} (wake_edge g1 ob (mr_is_empty (ipc_recv e)))" "moves g (wake_edge g1 ob (mr_is_empty (ipc_recv e)))"
    "ipc_view (wake_edge g1 ob (mr_is_empty (ipc_recv e))) = (ipc_view g)(peer_of g ob \<mapsto> e\<lparr>ipc_recv := fst (push_from (ipc_recv e) m ts), ipc_waiters := []\<rparr>)"
    "po_done (wake_edge g1 ob (mr_is_empty (ipc_recv e))) = po_done g"
    "sk_regs (wake_edge g1 ob (mr_is_empty (ipc_recv e))) = sk_regs g"
proof -
  let ?c = "peer_of g ob" and ?e = "e\<lparr>ipc_recv := fst (push_from (ipc_recv e) m ts)\<rparr>"
  note i = sched_invD [OF assms(1)]
  have s1: "endpoint_set g ?c ?e (deadlines g) g1" unfolding g1_def by (rule endpoint_set_ipc)
  note s = endpoint_setD [OF s1] and v = ipc_views [OF assms(3) endpoint_setD(1) [OF s1]]
  have ok: "endpoint_ok e" by (rule ipc_inv_endpoint [OF i(3) assms(3)])
  note p = mr_push_spec [of "ipc_recv e" m ts, OF _ assms(4)]
  have inv: "mr_inv (ipc_recv e)" and none: "rs_items (ipc_pending e) = []" using ok assms(4) by (auto simp: endpoint_ok_def)
  have w: "wait_inv {?c} g1" "mr_is_empty (ipc_recv e) \<or> wait_inv {} g1"
    using endpoint_wait [OF i(1) assms(3) s1] by (auto simp: IpcChannel_already_signaled_def)
  have dl: "dl_inv {} g1"
    by (rule endpoint_dl [OF i(2) assms(3) s1]) (use none v(6) in \<open>simp_all add: live_sends_def\<close>)
  have ipc: "ipc_inv g1"
  proof (rule ipc_inv_upd [OF i(3) assms(3) v(1)])
    have "ipc_refs (?e\<lparr>ipc_waiters := []\<rparr>) \<subseteq> ipc_refs e \<union> slot_refs ts" using push_refs [OF inv assms(4), where e = e and m = m and ts = ts] by simp
    then show "acyclic (holds g1)" by (rule acyclic_grown [OF i(3) assms(3) v(1) _ refl assms(5)])
    show "endpoint_ok (?e\<lparr>ipc_waiters := []\<rparr>)" using ok none p(1) [OF inv] by (simp add: endpoint_ok_def)
  qed (use none in \<open>simp_all add: v(3) s(4)\<close>)
  have pe: "peer_of g1 ob = ?c" using endpoint_peer_of [OF assms(3) s1] by simp
  have we: "wake_edge g1 ob edge = (if edge then fst (signal_waiters g1 ?c) else g1)" for edge
    using assms(2) by (simp add: wake_edge_def pe signal_ipc_endpoint_def)
  show "sched_inv {} (wake_edge g1 ob (mr_is_empty (ipc_recv e)))"
    using w dl ipc signal_waiters_inv [of ?c "{}" g1] signal_waiters_dl [OF w(1) dl] signal_waiters_ipc [OF ipc]
    by (auto simp: we sched_inv_def)
  show "moves g (wake_edge g1 ob (mr_is_empty (ipc_recv e)))"
    using endpoint_moves [OF assms(3) s1] moves_trans signal_waiters_moves(1) [OF w(1)] by (auto simp: we)
  show "ipc_view (wake_edge g1 ob (mr_is_empty (ipc_recv e))) = (ipc_view g)(?c \<mapsto> e\<lparr>ipc_recv := fst (push_from (ipc_recv e) m ts), ipc_waiters := []\<rparr>)"
      "po_done (wake_edge g1 ob (mr_is_empty (ipc_recv e))) = po_done g"
      "sk_regs (wake_edge g1 ob (mr_is_empty (ipc_recv e))) = sk_regs g"
    using v(1,3) s(4) by (simp_all add: we same_contents [OF signal_waiters_contents])
qed

lemma ipc_send_push_cases:
  assumes "ipc_inv g"
  obtains (refused) r where "ipc_send_push g ob m ts = (g, ts, r)" "r = Cycle \<or> r = PeerClosed \<or> r = Full"
    | (delivered) e where "peer_of g ob \<noteq> 0" "get_ipc g (peer_of g ob) = Some e" "\<not> mr_is_full (ipc_recv e)" "\<not> closes_a_cycle g ob ts"
        "ipc_send_push g ob m ts = (wake_edge (set_ipc g (peer_of g ob) (e\<lparr>ipc_recv := fst (push_from (ipc_recv e) m ts)\<rparr>)) ob (mr_is_empty (ipc_recv e)),
          no_transfers, Sent (mr_is_empty (ipc_recv e)))"
proof (cases "closes_a_cycle g ob ts \<or> peer_of g ob = 0")
  case True
  then show thesis by (intro refused [of "if closes_a_cycle g ob ts then Cycle else PeerClosed"]) (auto simp: ipc_send_push_def send_push_def)
next
  case False
  then have nz: "peer_of g ob \<noteq> 0" by simp
  obtain e where e: "get_ipc g (peer_of g ob) = Some e" using peer_get [OF assms nz] .
  show thesis
  proof (cases "mr_is_full (ipc_recv e)")
    case True
    then show thesis using False e by (intro refused [of Full]) (auto simp: ipc_send_push_def send_push_def Let_def push_from_def)
  next
    case fu: False
    have "snd (push_from (ipc_recv e) m ts) = (no_transfers, True)"
      using mr_push_spec(4) [OF _ fu] ipc_inv_endpoint [OF assms e] by (simp add: endpoint_ok_def)
    then show thesis using False e fu
      by (intro delivered [of e]) (cases "push_from (ipc_recv e) m ts"; simp add: ipc_send_push_def send_push_def Let_def)+
  qed
qed

lemma ipc_send_push_sched:
  assumes "sched_inv {} g"
  shows "sched_inv {} (fst (ipc_send_push g ob m ts))" "moves g (fst (ipc_send_push g ob m ts))"
  by (cases rule: ipc_send_push_cases [OF sched_invD(3) [OF assms], of ob m ts];
      use assms moves_refl delivered_sched [OF assms] in simp)+

section \<open>Held sends\<close>

text \<open>An operation fit to stand behind a held send: not complete, and standing behind nothing else.\<close>

definition po_free :: "SchedState \<Rightarrow> u64 \<Rightarrow> bool" where
  "po_free g po \<longleftrightarrow> po_done g po = Some False \<and> (\<forall>c. po \<notin> set (send_pos g c)) \<and> (\<forall>r u. sk_regs g r = Some u \<longrightarrow> po \<notin> reg_pos u)"

lemma queued_sched:
  fixes m :: StoredMsg
  assumes "sched_inv {} g" "get_ipc g c = Some e" "mr_is_full (ipc_recv e)" "length (rs_items (ipc_pending e)) < MAX_PENDING_SENDS"
    and "po_free g po" "\<not> closes_a_cycle g ob ts" "peer_of g ob = c"
  defines "e' \<equiv> e\<lparr>ipc_pending := (ipc_pending e)\<lparr>rs_items := rs_items (ipc_pending e) @ [\<lparr>ps_msg = m, ps_transfers = ts, ps_po = po, ps_cancelled = False\<rparr>]\<rparr>\<rparr>"
  shows "sched_inv {} (set_ipc g c e')" "po \<in> live_sends (set_ipc g c e') c" "TPendingSend po c \<notin># targets (set_ipc g c e')"
    "moves g (set_ipc g c e')"
proof -
  let ?g = "set_ipc g c e'" and ?p = "\<lparr>ps_msg = m, ps_transfers = ts, ps_po = po, ps_cancelled = False\<rparr>"
  note i = sched_invD [OF assms(1)]
  have s1: "endpoint_set g c e' (deadlines g) ?g" by (rule endpoint_set_ipc)
  note s = endpoint_setD [OF s1] and v = ipc_views [OF assms(2) endpoint_setD(1) [OF s1]]
  have f: "ipc_recv e' = ipc_recv e" "ipc_waiters e' = ipc_waiters e" "ipc_peer e' = ipc_peer e"
      "rs_items (ipc_pending e') = rs_items (ipc_pending e) @ [?p]" "rs_cap (ipc_pending e') = rs_cap (ipc_pending e)"
    by (simp_all add: e'_def)
  have h: "held_sends ?g z = (if z = c then held_sends g c @ [?p] else held_sends g z)" for z by (simp add: v(4,6) f)
  have fr: "po \<notin> set (send_pos g z)" for z using assms(5) by (simp add: po_free_def)
  have ok: "endpoint_ok e" by (rule ipc_inv_endpoint [OF i(3) assms(2)])
  have "wait_inv {} ?g" using endpoint_wait(2) [OF i(1) assms(2) s1] by (simp add: f IpcChannel_already_signaled_def)
  moreover have "dl_inv {} ?g"
    by (rule endpoint_dl [OF i(2) assms(2) s1]) (use assms(4) v(6) in \<open>auto simp: f live_sends_def\<close>)
  moreover have "ipc_inv ?g"
  proof (rule ipc_inv_upd [OF i(3) assms(2) v(1)])
    have "ipc_refs (e'\<lparr>ipc_waiters := []\<rparr>) \<subseteq> ipc_refs e \<union> slot_refs ts" by (auto simp: ipc_refs_def f)
    then show "acyclic (holds ?g)" by (rule acyclic_grown [OF i(3) assms(2) v(1) _ assms(7,6)])
    show "endpoint_ok (e'\<lparr>ipc_waiters := []\<rparr>)" using ok assms(3,4) by (simp add: endpoint_ok_def f)
    show "distinct (map ps_po (rs_items (ipc_pending (e'\<lparr>ipc_waiters := []\<rparr>))))"
      using held_distinct [OF i(3) assms(2)] fr [of c] v(6) by (simp add: f send_pos_def)
    have it: "set (rs_items (ipc_pending (e'\<lparr>ipc_waiters := []\<rparr>))) = insert ?p (set (held_sends g c))" by (simp add: f v(6))
    show "ps_po q \<in> set (send_pos g c) \<or> (\<forall>c'. ps_po q \<notin> set (send_pos g c')) \<and> (\<forall>r u. sk_regs g r = Some u \<longrightarrow> ps_po q \<notin> reg_pos u)"
      if "q \<in> set (rs_items (ipc_pending (e'\<lparr>ipc_waiters := []\<rparr>)))" for q
    proof (cases "q = ?p")
      case False
      then show ?thesis using that unfolding it by (simp add: send_pos_def)
    qed (use assms(5) in \<open>simp add: po_free_def\<close>)
    show "po_done ?g (ps_po q) = Some (ps_cancelled q)" if "q \<in> set (rs_items (ipc_pending (e'\<lparr>ipc_waiters := []\<rparr>)))" for q
      using that assms(5) sends_okD(3) [OF i(3), of q c] unfolding it by (auto simp: v(3) po_free_def)
  qed (simp_all add: v(3) s(4) f)
  ultimately show "sched_inv {} ?g" by (simp add: sched_inv_def)
  show "po \<in> live_sends ?g c" unfolding live_sends_def by (rule image_eqI [of _ _ ?p]) (simp_all add: h)
  show "TPendingSend po c \<notin># targets ?g"
    using dl_invD(7) [OF i(2), of po c] fr [of c] by (auto simp: targets_cong [of ?g g, OF s(7)] live_sends_def send_pos_def)
  show "moves g ?g" by (rule endpoint_moves [OF assms(2) s1])
qed

text \<open>A held send's deadline goes into one of the slots its endpoint holds.\<close>

lemma send_deadline_sched:
  assumes "sched_inv {} g" "po \<in> live_sends g c" "TPendingSend po c \<notin># targets g"
  shows "\<exists>h. push_promised g \<lparr>deadline_ns = d, target = TPendingSend po c\<rparr> = Some (g\<lparr>deadlines := h\<rparr>, True) \<and> sched_inv {} (g\<lparr>deadlines := h\<rparr>)"
proof -
  let ?e = "\<lparr>deadline_ns = d, target = TPendingSend po c\<rparr>"
  note i = sched_invD [OF assms(1)]
  have "kind_held (heap_held (deadlines g)) DPendingSend < deadline_slots g DPendingSend" by (rule send_room [OF i(2) assms(2,3)])
  then obtain h where h: "push_promised g ?e = Some (g\<lparr>deadlines := h\<rparr>, True)" "slots_ok (g\<lparr>deadlines := h\<rparr>)"
      "heap_held h = add_mset ?e (heap_held (deadlines g))"
    using push_promised_ok [OF dl_invD(1) [OF i(2)], of ?e] by auto
  let ?g = "g\<lparr>deadlines := h\<rparr>"
  have c: "contents ?g = contents g" and dv: "deadline_view ?g = deadline_view g" by (simp_all add: deadline_view_def fun_eq_iff)
  note v = same_contents [OF c]
  have "dl_inv {} ?g"
  proof (rule dl_inv_put [OF i(2) h(3), where me = 0])
    show "slots_enough ?g" using dl_invD(8) [OF i(2)] by (rule slots_enough_cong) (simp_all add: v dv)
  qed (use h(2) assms(2,3) in \<open>auto simp: v dv live_sends_cong [OF v(4)]\<close>)
  then show ?thesis using h(1) i(1) ipc_inv_deadlines [OF i(3)] by (auto simp: sched_inv_def)
qed

definition held :: "IpcInner \<Rightarrow> PendingSend \<Rightarrow> IpcInner" where
  "held e p = e\<lparr>ipc_pending := (ipc_pending e)\<lparr>rs_items := rs_items (ipc_pending e) @ [p]\<rparr>\<rparr>"

lemma ipc_send_push_blocking_cases:
  assumes "sched_inv {} g" "po_free g po"
  obtains (refused) r where "ipc_send_push_blocking g ob m ts po d = Some (g, ts, r)" "r = BCycle \<or> r = BPeerClosed \<or> r = PendingFull"
    | (delivered) e where "peer_of g ob \<noteq> 0" "get_ipc g (peer_of g ob) = Some e" "\<not> mr_is_full (ipc_recv e)" "\<not> closes_a_cycle g ob ts"
        "ipc_send_push_blocking g ob m ts po d = Some (signal_pending_op (wake_edge (set_ipc g (peer_of g ob)
           (e\<lparr>ipc_recv := fst (push_from (ipc_recv e) m ts)\<rparr>)) ob (mr_is_empty (ipc_recv e))) po 0, no_transfers, BSent (mr_is_empty (ipc_recv e)))"
    | (queued) e h where "peer_of g ob \<noteq> 0" "get_ipc g (peer_of g ob) = Some e" "mr_is_full (ipc_recv e)"
        "ipc_send_push_blocking g ob m ts po d = Some ((set_ipc g (peer_of g ob)
           (held e \<lparr>ps_msg = m, ps_transfers = ts, ps_po = po, ps_cancelled = False\<rparr>))\<lparr>deadlines := h\<rparr>, no_transfers, Queued)"
        "sched_inv {} ((set_ipc g (peer_of g ob) (held e \<lparr>ps_msg = m, ps_transfers = ts, ps_po = po, ps_cancelled = False\<rparr>))\<lparr>deadlines := h\<rparr>)"
        "moves g ((set_ipc g (peer_of g ob) (held e \<lparr>ps_msg = m, ps_transfers = ts, ps_po = po, ps_cancelled = False\<rparr>))\<lparr>deadlines := h\<rparr>)"
proof (cases "closes_a_cycle g ob ts \<or> peer_of g ob = 0")
  case True
  show thesis
    by (rule refused [of "if closes_a_cycle g ob ts then BCycle else BPeerClosed"])
      (use True in \<open>auto simp: ipc_send_push_blocking_def send_or_queue_def\<close>)
next
  case False
  note i = sched_invD [OF assms(1)]
  have nz: "peer_of g ob \<noteq> 0" and nc: "\<not> closes_a_cycle g ob ts" using False by simp_all
  obtain e where e: "get_ipc g (peer_of g ob) = Some e" "ipc_peer e = ob" "ob \<noteq> 0" "peer_of g ob \<noteq> ob" using peer_get [OF i(3) nz] .
  have ok: "endpoint_ok e" by (rule ipc_inv_endpoint [OF i(3) e(1)])
  consider (room) "\<not> mr_is_full (ipc_recv e)" | (full) "mr_is_full (ipc_recv e)" "MAX_PENDING_SENDS \<le> length (rs_items (ipc_pending e))"
    | (hold) "mr_is_full (ipc_recv e)" "length (rs_items (ipc_pending e)) < MAX_PENDING_SENDS" by linarith
  then show thesis
  proof cases
    case room
    have "snd (push_from (ipc_recv e) m ts) = (no_transfers, True)" using mr_push_spec(4) [OF _ room] ok by (simp add: endpoint_ok_def)
    then show thesis using nz nc e(1)
      by (intro delivered [OF nz e(1) room nc]) (cases "push_from (ipc_recv e) m ts", simp add: ipc_send_push_blocking_def send_or_queue_def Let_def)
  next
    case full
    show thesis by (rule refused [of PendingFull])
      (use full nz nc e(1) in \<open>simp_all add: ipc_send_push_blocking_def send_or_queue_def Let_def push_from_def\<close>)
  next
    case hold
    define g1 where "g1 = set_ipc g (peer_of g ob) (held e \<lparr>ps_msg = m, ps_transfers = ts, ps_po = po, ps_cancelled = False\<rparr>)"
    note q = queued_sched [OF assms(1) e(1) hold assms(2) nc refl, of m, folded held_def g1_def]
    have sq: "send_or_queue g ob m ts po = Some (g1, no_transfers, Queued)"
      using hold nz e(1) ok by (simp add: send_or_queue_def Let_def push_from_def g1_def held_def Reserved_push_def endpoint_ok_def)
    have pe: "peer_of g1 ob = peer_of g ob"
      using endpoint_peer_of [OF e(1) endpoint_set_ipc] by (simp add: g1_def held_def)
    obtain h where h: "push_promised g1 \<lparr>deadline_ns = d, target = TPendingSend po (peer_of g ob)\<rparr> = Some (g1\<lparr>deadlines := h\<rparr>, True)"
        "sched_inv {} (g1\<lparr>deadlines := h\<rparr>)" using send_deadline_sched [OF q(1-3)] by blast
    define k where "k = (if d = -1 then deadlines g1 else h)"
    have "ipc_send_push_blocking g ob m ts po d = Some (g1\<lparr>deadlines := k\<rparr>, no_transfers, Queued)"
      using sq nc h(1) pe by (simp add: ipc_send_push_blocking_def Let_def k_def)
    moreover have "sched_inv {} (g1\<lparr>deadlines := k\<rparr>)" using q(1) h(2) by (simp add: k_def)
    ultimately show thesis using moves_trans [OF q(4) moves_deadlines] unfolding g1_def by (intro queued [OF nz e(1) hold(1)])
  qed
qed

lemma ipc_send_push_blocking_sched:
  assumes "sched_inv {} g" "po_free g po"
  shows "\<exists>g' ts' r. ipc_send_push_blocking g ob m ts po d = Some (g', ts', r) \<and> sched_inv {} g' \<and> moves g g'"
  using assms
proof (cases rule: ipc_send_push_blocking_cases [where ob = ob and m = m and ts = ts and d = d])
  case (refused r)
  then show ?thesis using assms(1) moves_refl by blast
next
  case (delivered e)
  let ?g1 = "wake_edge (set_ipc g (peer_of g ob) (e\<lparr>ipc_recv := fst (push_from (ipc_recv e) m ts)\<rparr>)) ob (mr_is_empty (ipc_recv e))"
  note d = delivered_sched [OF assms(1) delivered(1-4), of m]
  have "send_pos ?g1 c = send_pos g c" for c using delivered(2) by (simp add: send_pos_def held_sends_view d(3) ipc_view_get)
  then have "sched_inv {} (signal_pending_op ?g1 po 0)"
    unfolding signal_pending_op_def using assms(2) by (intro signal_pending_op_sched [OF d(1)]) (simp add: po_free_def)
  moreover have "moves g (signal_pending_op ?g1 po 0)"
    unfolding signal_pending_op_def using moves_trans [OF d(2)] signal_po_moves(1) [OF sched_invD(1) [OF d(1)]] by blast
  ultimately show ?thesis using delivered(5) by blast
next
  case (queued e h)
  then show ?thesis by blast
qed

section \<open>Receipt\<close>

definition reclaimed_of :: "PendingSend \<Rightarrow> ReclaimedSend" where
  "reclaimed_of p = \<lparr>rc_po = ps_po p, rc_transfers = ps_transfers p\<rparr>"

lemma promote_loop_spec:
  "promote_loop r ps acc =
     (case dropWhile ps_cancelled ps of
        [] \<Rightarrow> (r, [], acc @ map reclaimed_of (takeWhile ps_cancelled ps), None)
      | p # rest \<Rightarrow> if mr_is_full r then (r, p # rest, acc @ map reclaimed_of (takeWhile ps_cancelled ps), None)
          else (fst (push_from r (ps_msg p) (ps_transfers p)), rest, acc @ map reclaimed_of (takeWhile ps_cancelled ps), Some (ps_po p)))"
  by (induction ps arbitrary: acc) (simp_all add: reclaimed_of_def del: dropWhile_eq_Nil_conv split: list.split)

text \<open>The endpoint after a receipt, and the held send it promoted.\<close>

definition received :: "IpcInner \<Rightarrow> IpcInner \<Rightarrow> PendingSend option \<Rightarrow> bool" where
  "received e e' pr \<longleftrightarrow> ipc_waiters e' = ipc_waiters e \<and> ipc_peer e' = ipc_peer e \<and> ipc_us_reg e' = ipc_us_reg e
     \<and> rs_cap (ipc_pending e') = rs_cap (ipc_pending e) \<and> mr_inv (ipc_recv e') \<and> mr_cap (ipc_recv e') = mr_cap (ipc_recv e)
     \<and> (case pr of
          None \<Rightarrow> mr_contents (ipc_recv e') = tl (mr_contents (ipc_recv e)) \<and> rs_items (ipc_pending e') = []
            \<and> (\<forall>p\<in>set (rs_items (ipc_pending e)). ps_cancelled p)
        | Some p \<Rightarrow> mr_contents (ipc_recv e') = tl (mr_contents (ipc_recv e)) @ [(ps_msg p, ps_transfers p)]
            \<and> dropWhile ps_cancelled (rs_items (ipc_pending e)) = p # rs_items (ipc_pending e') \<and> \<not> ps_cancelled p)"

lemma ipc_recv_pop_cases:
  assumes "ipc_inv g" "get_ipc g c = Some e"
  obtains (empty) "mr_contents (ipc_recv e) = []" "ipc_recv_pop_into g c = (g, None, None, [])"
    | (taken) e' rc where "mr_contents (ipc_recv e) \<noteq> []" "received e e' None" "rc = map reclaimed_of (rs_items (ipc_pending e))"
        "ipc_recv_pop_into g c = (set_ipc g c e', Some (hd (mr_contents (ipc_recv e))), None, rc)"
    | (promoted) e' p rc where "mr_contents (ipc_recv e) \<noteq> []" "received e e' (Some p)"
        "rc = map reclaimed_of (takeWhile ps_cancelled (rs_items (ipc_pending e)))"
        "ipc_recv_pop_into g c = (signal_pending_op ((set_ipc g c e')\<lparr>deadlines := fst (dl_remove (deadlines g) (TPendingSend (ps_po p) c))\<rparr>) (ps_po p) 0,
           Some (hd (mr_contents (ipc_recv e))), Some (ps_po p), rc)"
proof (cases "mr_is_empty (ipc_recv e)")
  case True
  then show thesis using assms(2) by (intro empty) (simp_all add: mr_empty_contents ipc_recv_pop_into_def pop_into_def)
next
  case False
  have inv: "mr_inv (ipc_recv e)" using ipc_inv_endpoint [OF assms] by (simp add: endpoint_ok_def)
  obtain r where pi: "pop_into (ipc_recv e) = (r, Some (hd (mr_contents (ipc_recv e))))"
    using mr_pop_spec(4) [OF inv False] by (cases "pop_into (ipc_recv e)") simp
  note pop = mr_pop_spec(1-3) [OF inv False, unfolded pi fst_conv]
  have ne: "mr_contents (ipc_recv e) \<noteq> []" using False by (simp add: mr_empty_contents)
  have "length (mr_contents (ipc_recv e)) \<le> mr_cap (ipc_recv e)" using inv by (rule mr.bound)
  moreover have "0 < length (mr_contents (ipc_recv e))" using ne by (simp only: length_greater_0_conv not_False_eq_True)
  moreover have "length (mr_contents r) = length (mr_contents (ipc_recv e)) - 1" by (simp only: pop(2) length_tl)
  ultimately have nf: "\<not> mr_is_full r" using pop(3) by (simp add: mr_full_contents)
  show thesis
  proof (cases "dropWhile ps_cancelled (rs_items (ipc_pending e))")
    case Nil
    then have all: "takeWhile ps_cancelled (rs_items (ipc_pending e)) = rs_items (ipc_pending e)" "\<forall>p\<in>set (rs_items (ipc_pending e)). ps_cancelled p"
      by (simp_all add: takeWhile_eq_all_conv dropWhile_eq_Nil_conv)
    let ?e = "e\<lparr>ipc_recv := r, ipc_pending := (ipc_pending e)\<lparr>rs_items := []\<rparr>\<rparr>"
    show thesis
    proof (rule taken [OF ne _ refl])
      show "received e ?e None" using pop all(2) by (simp add: received_def)
      show "ipc_recv_pop_into g c = (set_ipc g c ?e, Some (hd (mr_contents (ipc_recv e))), None, map reclaimed_of (rs_items (ipc_pending e)))"
        using assms(2) by (simp add: ipc_recv_pop_into_def pi promote_pending_send_def promote_loop_spec Nil all(1))
    qed
  next
    case (Cons p rest)
    note pu = mr_push_spec [OF pop(1) nf, of "ps_msg p" "ps_transfers p"]
    let ?e = "e\<lparr>ipc_recv := fst (push_from r (ps_msg p) (ps_transfers p)), ipc_pending := (ipc_pending e)\<lparr>rs_items := rest\<rparr>\<rparr>"
    show thesis
    proof (rule promoted [OF ne _ refl])
      have "\<not> ps_cancelled p" using Cons hd_dropWhile [of ps_cancelled "rs_items (ipc_pending e)"] by auto
      then show "received e ?e (Some p)" using pop pu Cons by (simp add: received_def)
      show "ipc_recv_pop_into g c = (signal_pending_op ((set_ipc g c ?e)\<lparr>deadlines := fst (dl_remove (deadlines g) (TPendingSend (ps_po p) c))\<rparr>) (ps_po p) 0,
           Some (hd (mr_contents (ipc_recv e))), Some (ps_po p), map reclaimed_of (takeWhile ps_cancelled (rs_items (ipc_pending e))))"
        using assms(2) Cons nf by (simp add: ipc_recv_pop_into_def pi promote_pending_send_def promote_loop_spec set_ipc_def)
    qed
  qed
qed

text \<open>The sends still held are among those held before, in order, without the one promoted.\<close>

lemma received_held:
  assumes "received e e' pr" "distinct (map ps_po (rs_items (ipc_pending e)))"
  shows "set (rs_items (ipc_pending e')) \<subseteq> set (rs_items (ipc_pending e))" "distinct (map ps_po (rs_items (ipc_pending e')))"
    "length (rs_items (ipc_pending e')) \<le> length (rs_items (ipc_pending e))"
    "pr = Some p \<Longrightarrow> p \<in> set (rs_items (ipc_pending e)) \<and> ps_po p \<notin> ps_po ` set (rs_items (ipc_pending e'))"
    "q \<in> set (rs_items (ipc_pending e)) \<Longrightarrow> \<not> ps_cancelled q \<Longrightarrow> pr = Some q \<or> q \<in> set (rs_items (ipc_pending e'))"
proof -
  let ?ps = "rs_items (ipc_pending e)"
  obtain cs where cs: "?ps = cs @ (case pr of None \<Rightarrow> [] | Some p \<Rightarrow> [p]) @ rs_items (ipc_pending e')" "\<forall>p\<in>set cs. ps_cancelled p"
  proof (cases pr)
    case None
    then show thesis using assms(1) by (intro that [of ?ps]) (simp_all add: received_def)
  next
    case (Some p)
    then have "?ps = takeWhile ps_cancelled ?ps @ p # rs_items (ipc_pending e')"
      using assms(1) takeWhile_dropWhile_id [of ps_cancelled ?ps] by (simp add: received_def)
    then show thesis using Some by (intro that [of "takeWhile ps_cancelled ?ps"]) (auto dest: set_takeWhileD)
  qed
  show "set (rs_items (ipc_pending e')) \<subseteq> set ?ps" "length (rs_items (ipc_pending e')) \<le> length ?ps" by (auto simp: cs(1))
  show "distinct (map ps_po (rs_items (ipc_pending e')))" using assms(2) by (simp add: cs(1))
  show "p \<in> set ?ps \<and> ps_po p \<notin> ps_po ` set (rs_items (ipc_pending e'))" if "pr = Some p" using assms(2) that by (auto simp: cs(1))
  show "pr = Some q \<or> q \<in> set (rs_items (ipc_pending e'))" if "q \<in> set ?ps" "\<not> ps_cancelled q"
    using that cs(2) by (cases pr) (auto simp: cs(1))
qed

lemma received_ok:
  assumes "endpoint_ok e" "received e e' pr" "mr_contents (ipc_recv e) \<noteq> []"
  shows "endpoint_ok e'" "ipc_refs e' \<subseteq> ipc_refs e" "IpcChannel_already_signaled e"
proof -
  show "IpcChannel_already_signaled e" using assms(3) by (simp add: IpcChannel_already_signaled_def mr_empty_contents)
  have tl: "set (tl (mr_contents (ipc_recv e))) \<subseteq> set (mr_contents (ipc_recv e))" by (cases "mr_contents (ipc_recv e)") auto
  show "ipc_refs e' \<subseteq> ipc_refs e"
  proof (cases pr)
    case None
    then show ?thesis using assms(2) tl by (auto simp: received_def ipc_refs_def)
  next
    case (Some p)
    then have "set (p # rs_items (ipc_pending e')) \<subseteq> set (rs_items (ipc_pending e))"
      using assms(2) set_dropWhileD [of _ ps_cancelled "rs_items (ipc_pending e)"] by (auto simp: received_def)
    then show ?thesis using assms(2) Some tl by (auto simp: received_def ipc_refs_def)
  qed
  show "endpoint_ok e'"
  proof (cases pr)
    case None
    then show ?thesis using assms(1,2) by (simp add: endpoint_ok_def received_def)
  next
    case (Some p)
    have dw: "dropWhile ps_cancelled (rs_items (ipc_pending e)) = p # rs_items (ipc_pending e')" using assms(2) Some by (simp add: received_def)
    then have "rs_items (ipc_pending e) \<noteq> []" by auto
    then have "mr_is_full (ipc_recv e)" using assms(1) by (simp add: endpoint_ok_def)
    then have "mr_is_full (ipc_recv e')" using assms(2,3) Some
      by (cases "mr_contents (ipc_recv e)") (simp_all add: received_def mr_full_contents del: length_mr_contents)
    moreover have "length (rs_items (ipc_pending e')) \<le> length (rs_items (ipc_pending e))"
      using dw length_dropWhile_le [of ps_cancelled "rs_items (ipc_pending e)"] by simp
    ultimately show ?thesis using assms(1,2) by (simp add: endpoint_ok_def received_def)
  qed
qed

lemma received_live:
  assumes "received e e' pr" "distinct (map ps_po (rs_items (ipc_pending e)))"
    "po \<in> ps_po ` {p \<in> set (rs_items (ipc_pending e)). \<not> ps_cancelled p}" "pr = None \<or> ps_po (the pr) \<noteq> po"
  shows "po \<in> ps_po ` {p \<in> set (rs_items (ipc_pending e')). \<not> ps_cancelled p}"
  using assms(3,4) received_held(5) [OF assms(1,2)] by fastforce

text \<open>The endpoint and the deadline heap after a receipt, before the promoted send's operation completes.\<close>

lemma received_dl:
  assumes "sched_inv {} g" "get_ipc g c = Some e" "received e e' pr" "endpoint_set g c e' h g'"
    and "h = (case pr of None \<Rightarrow> deadlines g | Some p \<Rightarrow> fst (dl_remove (deadlines g) (TPendingSend (ps_po p) c)))"
  shows "dl_inv {} g'"
proof -
  note i = sched_invD [OF assms(1)] and s = endpoint_setD [OF assms(4)] and v = ipc_views [OF assms(2) endpoint_setD(1) [OF assms(4)]]
  note d = held_distinct [OF i(3) assms(2)]
  note r = received_held [OF assms(3) d] and live = received_live [OF assms(3) d]
  have len: "length (rs_items (ipc_pending e')) \<le> MAX_PENDING_SENDS"
    using r(3) ipc_inv_endpoint [OF i(3) assms(2)] by (simp add: endpoint_ok_def)
  have lv: "live_sends g c = ps_po ` {p \<in> set (rs_items (ipc_pending e)). \<not> ps_cancelled p}" by (simp add: live_sends_def v(6))
  have keep: "dl_inv {} g'" if "h = deadlines g" "\<And>p. pr = Some p \<Longrightarrow> TPendingSend (ps_po p) c \<notin># targets g"
  proof (rule endpoint_dl [OF i(2) assms(2) _ len])
    show "endpoint_set g c e' (deadlines g) g'" using assms(4) that(1) by simp
    show "po \<in> ps_po ` {p \<in> set (rs_items (ipc_pending e')). \<not> ps_cancelled p}" if t: "TPendingSend po c \<in># targets g" "po \<in> live_sends g c" for po
      using \<open>\<And>p. pr = Some p \<Longrightarrow> TPendingSend (ps_po p) c \<notin># targets g\<close> t by (intro live) (auto simp: lv)
  qed
  show ?thesis
  proof (cases pr)
    case None
    then show ?thesis using assms(5) by (intro keep) simp_all
  next
    case (Some p)
    let ?t = "TPendingSend (ps_po p) c"
    consider (misses) "\<forall>e\<in>#heap_held (deadlines g). target e \<noteq> ?t" "dl_remove (deadlines g) ?t = (deadlines g, False)"
      | (takes) h' x where "dl_remove (deadlines g) ?t = (h', True)" "heap_ok h'" "rs_cap h' = rs_cap (deadlines g)"
          "target x = ?t" "heap_held (deadlines g) = add_mset x (heap_held h')"
      using heap_remove_cases [OF slots_okD(1) [OF dl_invD(1) [OF i(2)]], of ?t] .
    then show ?thesis
    proof cases
      case misses
      then show ?thesis using assms(5) Some by (intro keep) (auto simp: targets_def)
    next
      case (takes h' x)
      have l: "live_sends g' y = (if y = c then ps_po ` {p \<in> set (rs_items (ipc_pending e')). \<not> ps_cancelled p} else live_sends g y)" for y
        by (simp add: live_sends_def v(4))
      show ?thesis
      proof (rule dl_inv_take [OF i(2) takes(5,2,3)])
        show "deadlines g' = h'" using assms(5) takes(1) Some s(7) by simp
        show "slots_enough g'"
          using dl_invD(8) [OF i(2)] len by (simp add: slots_enough_def v(2,4,5) s deadline_view_cong [OF s(2)])
        show "po \<in> live_sends g' c'" if "TPendingSend po c' \<noteq> target x" "po \<in> live_sends g c'" for po c'
          using that takes(4) live [of po] Some lv by (cases "c' = c") (auto simp: l)
      qed (use takes(4) in \<open>auto simp: s v(2) deadline_view_cong [OF s(2)] blocked_cong [OF s(3)]\<close>)
    qed
  qed
qed

lemma received_ipc:
  assumes inv: "ipc_inv g" and e: "get_ipc g c = Some e" and r: "received e e' pr" and ne: "mr_contents (ipc_recv e) \<noteq> []"
    and v: "ipc_view g' = (ipc_view g)(c \<mapsto> e'\<lparr>ipc_waiters := []\<rparr>)" and regs: "sk_regs g' = sk_regs g"
    and po: "\<And>po. (\<forall>p. pr = Some p \<longrightarrow> po \<noteq> ps_po p) \<Longrightarrow> po_done g' po = po_done g po"
  shows "ipc_inv g'"
proof (rule ipc_inv_upd [OF inv e v])
  note ok = received_ok [OF ipc_inv_endpoint [OF inv e] r ne] and h = received_held [OF r held_distinct [OF inv e]]
  have hs: "held_sends g c = rs_items (ipc_pending e)" using e by (simp add: held_sends_def)
  show "endpoint_ok (e'\<lparr>ipc_waiters := []\<rparr>)" "acyclic (holds g')" using ok(1,2) acyclic_shrunk [OF inv e v] by simp_all
  show "ipc_peer (e'\<lparr>ipc_waiters := []\<rparr>) = ipc_peer e" using r by (simp add: received_def)
  show "distinct (map ps_po (rs_items (ipc_pending (e'\<lparr>ipc_waiters := []\<rparr>))))" using h(2) by simp
  have mem: "ps_po q \<in> set (send_pos g c)" "q \<in> set (held_sends g c)" "\<And>p. pr = Some p \<Longrightarrow> ps_po q \<noteq> ps_po p"
    if "q \<in> set (rs_items (ipc_pending (e'\<lparr>ipc_waiters := []\<rparr>)))" for q
    using that h(1) by (auto simp: send_pos_def hs) (use h(4) in \<open>force simp: image_iff\<close>)
  then show "ps_po q \<in> set (send_pos g c) \<or> (\<forall>c'. ps_po q \<notin> set (send_pos g c')) \<and> (\<forall>r u. sk_regs g r = Some u \<longrightarrow> ps_po q \<notin> reg_pos u)"
    if "q \<in> set (rs_items (ipc_pending (e'\<lparr>ipc_waiters := []\<rparr>)))" for q using that by blast
  show "po_done g' (ps_po q) = Some (ps_cancelled q)" if "q \<in> set (rs_items (ipc_pending (e'\<lparr>ipc_waiters := []\<rparr>)))" for q
    using po [of "ps_po q"] mem(2,3) [OF that] sends_okD(3) [OF inv] by auto
  show "po_done g' po' = po_done g po'" if "c' \<noteq> c" "po' \<in> set (send_pos g c')" for c' po'
  proof (rule po, intro allI impI)
    fix p
    assume "pr = Some p"
    then have "ps_po p \<in> set (send_pos g c)" using h(4) by (auto simp: send_pos_def hs)
    then show "po' \<noteq> ps_po p" using sends_okD(2) [OF inv that] by blast
  qed
qed (simp add: regs)

lemma ipc_recv_pop_sched:
  assumes "sched_inv {} g"
  shows "sched_inv {} (fst (ipc_recv_pop_into g c))"
proof (cases "get_ipc g c")
  case (Some e)
  note i = sched_invD [OF assms]
  show ?thesis
  proof (cases rule: ipc_recv_pop_cases [OF i(3) Some])
    case 1
    then show ?thesis using assms by simp
  next
    case (2 e' rc)
    have s: "endpoint_set g c e' (deadlines g) (set_ipc g c e')" by (rule endpoint_set_ipc)
    note v = ipc_views [OF Some endpoint_setD(1) [OF s]]
    have "ipc_waiters e' = ipc_waiters e" using 2(2) by (simp add: received_def)
    then have "wait_inv {} (set_ipc g c e')"
      using endpoint_wait(2) [OF i(1) Some s] received_ok(3) [OF ipc_inv_endpoint [OF i(3) Some] 2(2,1)] by simp
    moreover have "dl_inv {} (set_ipc g c e')" by (rule received_dl [OF assms Some 2(2) s]) simp
    moreover have "ipc_inv (set_ipc g c e')" by (rule received_ipc [OF i(3) Some 2(2,1) v(1) endpoint_setD(4) [OF s]]) (simp add: v(3))
    ultimately show ?thesis by (simp add: 2(4) sched_inv_def)
  next
    case (3 e' p rc)
    let ?h = "fst (dl_remove (deadlines g) (TPendingSend (ps_po p) c))"
    define g1 where "g1 = (set_ipc g c e')\<lparr>deadlines := ?h\<rparr>"
    have s: "endpoint_set g c e' ?h g1" by (simp add: endpoint_set_def g1_def set_ipc_def)
    note v = ipc_views [OF Some endpoint_setD(1) [OF s]]
    have "ipc_waiters e' = ipc_waiters e" using 3(2) by (simp add: received_def)
    then have w: "wait_inv {} g1"
      using endpoint_wait(2) [OF i(1) Some s] received_ok(3) [OF ipc_inv_endpoint [OF i(3) Some] 3(2,1)] by simp
    have dl: "dl_inv {} g1" by (rule received_dl [OF assms Some 3(2) s]) simp
    let ?g' = "signal_pending_op_with_result g1 (ps_po p) 0 0"
    have "ipc_inv ?g'"
    proof (rule received_ipc [OF i(3) Some 3(2,1)])
      show "ipc_view ?g' = (ipc_view g)(c \<mapsto> e'\<lparr>ipc_waiters := []\<rparr>)" by (simp add: signal_po_views v(1))
      show "sk_regs ?g' = sk_regs g" using endpoint_setD(4) [OF s] by simp
      show "po_done ?g' po = po_done g po" if "\<forall>q. Some p = Some q \<longrightarrow> po \<noteq> ps_po q" for po using that by (simp add: signal_po_views v(3))
    qed
    then show ?thesis using signal_po_wait [OF w] signal_po_dl [OF w dl]
      by (simp add: 3(4) sched_inv_def signal_pending_op_def flip: g1_def)
  qed
qed (simp add: ipc_recv_pop_into_def assms)

end
