(* ===== verification/Sched_Servers.thy ===== *)
theory Sched_Servers
  imports Sched_Messages
begin

text \<open>
  Userspace servers and the end of an endpoint keep the scheduler's invariant: a request forwarded,
  answered or failed, a registration attached or detached, and an endpoint closed with its peer told,
  its registrations' requests failed and its held sends completed.
\<close>

section \<open>Registrations\<close>

lemma set_regs [simp]:
  "contents (g\<lparr>sk_regs := m\<rparr>) = contents g" "deadline_view (g\<lparr>sk_regs := m\<rparr>) = deadline_view g" "blocked (g\<lparr>sk_regs := m\<rparr>) = blocked g"
  "wait_inv X (g\<lparr>sk_regs := m\<rparr>) = wait_inv X g" "moves (g\<lparr>sk_regs := m\<rparr>) g' = moves g g'" "moves g' (g\<lparr>sk_regs := m\<rparr>) = moves g' g"
  by (simp_all add: contents_def deadline_view_def blocked_def fun_eq_iff wait_inv_def obj_waiters_def obj_settled_def waiting_def
      moves_def po_completed_def)

lemma set_regs_views:
  "ipc_view (g\<lparr>sk_regs := m\<rparr>) = ipc_view g" "timer_view (g\<lparr>sk_regs := m\<rparr>) = timer_view g" "po_done (g\<lparr>sk_regs := m\<rparr>) = po_done g"
  "held_sends (g\<lparr>sk_regs := m\<rparr>) = held_sends g" "send_pos (g\<lparr>sk_regs := m\<rparr>) = send_pos g"
  using same_contents [of "g\<lparr>sk_regs := m\<rparr>" g] by (simp_all add: send_pos_def fun_eq_iff)

lemma set_regs_sched:
  assumes "sched_inv P g" and "\<And>r u po c. m r = Some u \<Longrightarrow> po \<in> reg_pos u \<Longrightarrow> po \<notin> set (send_pos g c)"
  shows "sched_inv P (g\<lparr>sk_regs := m\<rparr>)"
proof -
  let ?g = "g\<lparr>sk_regs := m\<rparr>"
  note i = sched_invD [OF assms(1)]
  have "dl_inv P ?g" by (rule dl_inv_same [OF i(2)]) (simp_all add: set_regs_views)
  moreover have "peer_of ?g = peer_of g" "endpoints ?g = endpoints g" "holds ?g = holds g"
    by (simp_all add: fun_eq_iff peer_of_view endpoints_view holds_view set_regs_views)
  then have "ipc_inv ?g"
    using i(3) assms(2) unfolding ipc_inv_def sends_ok_def peers_ok_def by (auto simp: set_regs_views)
  ultimately show ?thesis using i(1) by (simp add: sched_inv_def)
qed

lemma take_pending_pos:
  "reg_pos (fst (take_pending_matching rid u)) \<subseteq> reg_pos u" "reg_pos (fst (take_pending_fill_matching rid u)) \<subseteq> reg_pos u"
proof -
  obtain ps r where p: "take_slot_where (\<lambda>p. pl_request_id p = rid) (us_pending u) = (ps, r)" by fastforce
  obtain fs q where f: "take_slot_where (\<lambda>p. pf_request_id p = rid) (us_fill u) = (fs, q)" by fastforce
  show "reg_pos (fst (take_pending_matching rid u)) \<subseteq> reg_pos u"
    using take_slot_whereD [OF p] by (cases r) (auto simp: take_pending_matching_def p reg_pos_def)
  show "reg_pos (fst (take_pending_fill_matching rid u)) \<subseteq> reg_pos u"
    using take_slot_whereD [OF f] by (cases q) (auto simp: take_pending_fill_matching_def f reg_pos_def)
qed

lemma upd_reg_sched:
  assumes "sched_inv P g" and "\<And>po c. po \<in> reg_pos u \<Longrightarrow> po \<notin> set (send_pos g c)"
  shows "sched_inv P (upd_reg g reg u)"
  unfolding upd_reg_def
  by (rule set_regs_sched [OF assms(1)]) (use assms(2) sends_okD(4) [OF sched_invD(3) [OF assms(1)]] in \<open>auto split: if_splits\<close>)

lemma us_forward_take_pending_sched:
  assumes "sched_inv P g"
  shows "sched_inv P (fst (us_forward_take_pending g reg rid))" "sched_inv P (fst (us_forward_take_pending_fill g reg rid))"
proof -
  have "sched_inv P (fst (us_forward_take_pending g reg rid)) \<and> sched_inv P (fst (us_forward_take_pending_fill g reg rid))"
  proof (cases "sk_regs g reg")
    case (Some u)
    note free = sends_okD(4) [OF sched_invD(3) [OF assms] Some]
    have "sched_inv P (upd_reg g reg (fst (take_pending_matching rid u)))" "sched_inv P (upd_reg g reg (fst (take_pending_fill_matching rid u)))"
      by (rule upd_reg_sched [OF assms]; use free take_pending_pos [of rid u] in blast)+
    then show ?thesis by (simp add: us_forward_take_pending_def us_forward_take_pending_fill_def Some case_prod_unfold)
  qed (simp add: us_forward_take_pending_def us_forward_take_pending_fill_def assms)
  then show "sched_inv P (fst (us_forward_take_pending g reg rid))" "sched_inv P (fst (us_forward_take_pending_fill g reg rid))" by blast+
qed

section \<open>Forwarding\<close>

text \<open>A message without transfers closes no cycle, so forwarding it is a plain send.\<close>

lemma send_plain:
  "ipc_send_push g ob m no_transfers =
     (case send_push g ob m no_transfers of (g, ts, Sent edge) \<Rightarrow> (wake_edge g ob edge, ts, Sent edge) | r \<Rightarrow> r)"
proof -
  have "\<not> closes_a_cycle g ob no_transfers" by (simp add: closes_a_cycle_def no_transfers_def)
  then show ?thesis by (simp add: ipc_send_push_def)
qed

text \<open>A send that fails changes nothing.\<close>

lemma send_push_failed: "send_push g ob m ts = (g', ts', r) \<Longrightarrow> (\<forall>edge. r \<noteq> Sent edge) \<Longrightarrow> g' = g"
  by (auto simp: send_push_def Let_def split: if_splits option.splits prod.splits bool.splits)

lemma forwarded_sched:
  assumes "sched_inv {} g" "send_push g ob m no_transfers = (g', ts, r)"
  shows "case r of Sent edge \<Rightarrow> sched_inv {} (wake_edge g' ob edge) \<and> moves g (wake_edge g' ob edge) | _ \<Rightarrow> g' = g"
proof (cases r)
  case (Sent edge)
  then show ?thesis using ipc_send_push_sched [OF assms(1), of ob m no_transfers] assms(2) by (simp add: send_plain)
qed (use send_push_failed [OF assms(2)] in auto)

lemma us_forward_notify_sched:
  assumes "sched_inv {} g"
  shows "sched_inv {} (fst (us_forward_notify g reg m))"
proof (cases "sk_regs g reg")
  case (Some u)
  obtain g' ts r where s: "send_push g (us_endpoint u) m no_transfers = (g', ts, r)" by (cases "send_push g (us_endpoint u) m no_transfers")
  show ?thesis using forwarded_sched [OF assms s] assms by (cases r) (simp_all add: us_forward_notify_def Some s)
qed (simp add: us_forward_notify_def assms)

lemma begin_pos:
  "reg_pos (fst (begin_forward po rq suffix fwd u)) \<subseteq> insert po (reg_pos u)"
  "reg_pos (fst (begin_fill po fo frame index u)) \<subseteq> insert po (reg_pos u)"
  by (auto simp: begin_forward_def begin_fill_def reg_pos_def Let_def table_put split: option.splits)

lemma us_forward_originate_sched:
  assumes "sched_inv {} g" "\<And>c. po \<notin> set (send_pos g c)"
  shows "sched_inv {} (fst (us_forward_originate g reg m po rq suffix fwd))"
proof (cases "sk_regs g reg")
  case (Some u)
  obtain u1 q where b: "begin_forward po rq suffix fwd u = (u1, q)" by fastforce
  show ?thesis
  proof (cases q)
    case id: (Some rid)
    have free: "po' \<notin> set (send_pos g c)" if "po' \<in> reg_pos u1" for po' c
      using begin_pos(1) [of po rq suffix fwd u] b assms(2) that sends_okD(4) [OF sched_invD(3) [OF assms(1)] Some] by auto
    let ?m = "stamp_request_id rid m"
    have i1: "sched_inv {} (upd_reg g reg u1)" using free by (rule upd_reg_sched [OF assms(1)])
    obtain g' ts r where s: "send_push (upd_reg g reg u1) (us_endpoint u1) ?m no_transfers = (g', ts, r)"
      by (cases "send_push (upd_reg g reg u1) (us_endpoint u1) ?m no_transfers")
    have undo: "sched_inv {} (upd_reg (upd_reg g reg u1) reg (fst (take_pending_matching rid u1)))"
      by (rule upd_reg_sched [OF i1]) (use free take_pending_pos(1) [of rid u1] in \<open>auto simp: upd_reg_def set_regs_views\<close>)
    show ?thesis using forwarded_sched [OF i1 s] undo by (cases r) (simp_all add: us_forward_originate_def Some b id s Let_def)
  qed (simp add: us_forward_originate_def Some b assms)
qed (simp add: us_forward_originate_def assms)

lemma us_forward_originate_fill_sched:
  assumes "sched_inv {} g" "\<And>c. po \<notin> set (send_pos g c)"
  shows "sched_inv {} (fst (us_forward_originate_fill g reg m po fo frame index))"
proof (cases "sk_regs g reg")
  case (Some u)
  obtain u1 q where b: "begin_fill po fo frame index u = (u1, q)" by fastforce
  show ?thesis
  proof (cases q)
    case id: (Some rid)
    have free: "po' \<notin> set (send_pos g c)" if "po' \<in> reg_pos u1" for po' c
      using begin_pos(2) [where po = po and fo = fo and frame = frame and index = index and u = u] b assms(2) that sends_okD(4) [OF sched_invD(3) [OF assms(1)] Some] by auto
    let ?m = "stamp_request_id rid m"
    have i1: "sched_inv {} (upd_reg g reg u1)" using free by (rule upd_reg_sched [OF assms(1)])
    obtain g' ts r where s: "send_push (upd_reg g reg u1) (us_endpoint u1) ?m no_transfers = (g', ts, r)"
      by (cases "send_push (upd_reg g reg u1) (us_endpoint u1) ?m no_transfers")
    have undo: "sched_inv {} (upd_reg (upd_reg g reg u1) reg (fst (take_pending_fill_matching rid u1)))"
      by (rule upd_reg_sched [OF i1]) (use free take_pending_pos(2) [of rid u1] in \<open>auto simp: upd_reg_def set_regs_views\<close>)
    show ?thesis using forwarded_sched [OF i1 s] undo by (cases r) (simp_all add: us_forward_originate_fill_def Some b id s Let_def)
  qed (simp add: us_forward_originate_fill_def Some b assms)
qed (simp add: us_forward_originate_fill_def assms)

section \<open>Failing what is outstanding\<close>

text \<open>Operations of registrations complete, and nothing else of the endpoints changes.\<close>

definition reg_free :: "SchedState \<Rightarrow> u64 \<Rightarrow> bool" where
  "reg_free g po \<longleftrightarrow> (\<forall>r u. sk_regs g r = Some u \<longrightarrow> po \<notin> reg_pos u)"

definition fails :: "SchedState \<Rightarrow> SchedState \<Rightarrow> bool" where
  "fails g g' \<longleftrightarrow> ipc_view g' = ipc_view g \<and> deadlines g' = deadlines g \<and> moves g g'
     \<and> (\<forall>r u'. sk_regs g' r = Some u' \<longrightarrow> (\<exists>u. sk_regs g r = Some u \<and> reg_pos u' \<subseteq> reg_pos u))
     \<and> (\<forall>po. reg_free g po \<longrightarrow> po_done g' po = po_done g po)"

lemma fails_refl: "fails g g"
  by (simp add: fails_def moves_refl)

lemma fails_free: "fails g g' \<Longrightarrow> reg_free g po \<Longrightarrow> reg_free g' po"
  unfolding fails_def reg_free_def by blast

lemma fails_trans:
  assumes "fails g g1" "fails g1 g2"
  shows "fails g g2"
proof -
  have "\<exists>u. sk_regs g r = Some u \<and> reg_pos u' \<subseteq> reg_pos u" if "sk_regs g2 r = Some u'" for r u'
    using assms that unfolding fails_def by (meson subset_trans)
  moreover have "po_done g2 po = po_done g po" if "reg_free g po" for po
    using assms that fails_free [OF assms(1) that] unfolding fails_def by simp
  ultimately show ?thesis using assms moves_trans [of g g1 g2] unfolding fails_def by auto
qed

lemma fails_ipc:
  assumes "ipc_inv g" "fails g g'"
  shows "ipc_inv g'"
proof (rule ipc_inv_cong [OF assms(1)])
  show "po_done g' po = po_done g po" if "po \<in> set (send_pos g c)" for c po
    using that sends_okD(4) [OF assms(1)] assms(2) unfolding fails_def reg_free_def by blast
qed (use assms(2) in \<open>simp_all add: fails_def\<close>)

lemma fail_one:
  assumes "wait_inv X g" "dl_inv P g" "sk_regs g reg = Some u" "reg_pos u' \<subseteq> reg_pos u" "po \<in> reg_pos u"
  defines "g' \<equiv> signal_pending_op (upd_reg g reg u') po KError_PeerClosed"
  shows "wait_inv X g'" "dl_inv P g'" "fails g g'"
proof -
  have w: "wait_inv X (upd_reg g reg u')" using assms(1) by (simp add: upd_reg_def)
  moreover have "dl_inv P (upd_reg g reg u')" unfolding upd_reg_def
    by (rule dl_inv_same [OF assms(2)]) (simp_all add: set_regs_views)
  ultimately show "wait_inv X g'" "dl_inv P g'" unfolding g'_def signal_pending_op_def by (simp_all add: signal_po_wait signal_po_dl)
  have "moves g g'" using signal_po_moves(1) [OF w] by (simp add: g'_def signal_pending_op_def upd_reg_def)
  moreover have "po_done g' x = po_done g x" if "reg_free g x" for x
    using that assms(3,5) by (auto simp: g'_def signal_pending_op_def signal_po_views upd_reg_def set_regs_views reg_free_def)
  ultimately show "fails g g'" using assms(3,4)
    by (auto simp: fails_def g'_def signal_pending_op_def signal_po_views upd_reg_def set_regs_views split: if_splits)
qed

lemma fail_lookups_fails:
  assumes "wait_inv X g" "dl_inv P g"
  shows "wait_inv X (fail_lookups g reg) \<and> dl_inv P (fail_lookups g reg) \<and> fails g (fail_lookups g reg)"
  using assms
proof (induction g reg rule: fail_lookups.induct)
  case (1 g reg)
  show ?case
  proof (cases "sk_regs g reg")
    case (Some u)
    obtain ps r where t: "take_slot_where (\<lambda>p. True) (us_pending u) = (ps, r)" by fastforce
    have n: "take_pending_next u = (u\<lparr>us_pending := ps\<rparr>, r)" by (simp add: take_pending_next_def t)
    show ?thesis
    proof (cases r)
      case (Some pl)
      have "table (us_pending u) = add_mset pl (table ps)" using take_slot_whereD [OF t] Some by simp
      then have pos: "reg_pos (u\<lparr>us_pending := ps\<rparr>) \<subseteq> reg_pos u" "pl_po pl \<in> reg_pos u" by (auto simp: reg_pos_def)
      note f = fail_one [OF 1(2,3) \<open>sk_regs g reg = Some u\<close> pos]
      have eq: "fail_lookups g reg = fail_lookups (signal_pending_op (upd_reg g reg (u\<lparr>us_pending := ps\<rparr>)) (pl_po pl) KError_PeerClosed) reg"
        by (subst fail_lookups.simps) (simp add: \<open>sk_regs g reg = Some u\<close> n Some)
      show ?thesis unfolding eq
        using 1(1) [OF \<open>sk_regs g reg = Some u\<close> n [symmetric] Some f(1,2)] fails_trans [OF f(3)] by blast
    qed (use 1(2,3) fails_refl in \<open>simp add: fail_lookups.simps [of g] \<open>sk_regs g reg = Some u\<close> n\<close>)
  qed (use 1(2,3) fails_refl in \<open>simp add: fail_lookups.simps [of g]\<close>)
qed

lemma fail_fills_fails:
  assumes "wait_inv X g" "dl_inv P g"
  shows "wait_inv X (fail_fills g reg) \<and> dl_inv P (fail_fills g reg) \<and> fails g (fail_fills g reg)"
  using assms
proof (induction g reg rule: fail_fills.induct)
  case (1 g reg)
  show ?case
  proof (cases "sk_regs g reg")
    case (Some u)
    obtain ps r where t: "take_slot_where (\<lambda>p. True) (us_fill u) = (ps, r)" by fastforce
    have n: "take_pending_fill_next u = (u\<lparr>us_fill := ps\<rparr>, r)" by (simp add: take_pending_fill_next_def t)
    show ?thesis
    proof (cases r)
      case (Some pf)
      have "table (us_fill u) = add_mset pf (table ps)" using take_slot_whereD [OF t] Some by simp
      then have pos: "reg_pos (u\<lparr>us_fill := ps\<rparr>) \<subseteq> reg_pos u" "pf_po pf \<in> reg_pos u" by (auto simp: reg_pos_def)
      note f = fail_one [OF 1(2,3) \<open>sk_regs g reg = Some u\<close> pos]
      have eq: "fail_fills g reg = fail_fills (signal_pending_op (upd_reg g reg (u\<lparr>us_fill := ps\<rparr>)) (pf_po pf) KError_PeerClosed) reg"
        by (subst fail_fills.simps) (simp add: \<open>sk_regs g reg = Some u\<close> n Some)
      show ?thesis unfolding eq
        using 1(1) [OF \<open>sk_regs g reg = Some u\<close> n [symmetric] Some f(1,2)] fails_trans [OF f(3)] by blast
    qed (use 1(2,3) fails_refl in \<open>simp add: fail_fills.simps [of g] \<open>sk_regs g reg = Some u\<close> n\<close>)
  qed (use 1(2,3) fails_refl in \<open>simp add: fail_fills.simps [of g]\<close>)
qed

lemma fail_outstanding_fails:
  assumes "wait_inv X g" "dl_inv P g"
  shows "wait_inv X (fail_outstanding g reg)" "dl_inv P (fail_outstanding g reg)" "fails g (fail_outstanding g reg)"
  using fail_lookups_fails [OF assms, of reg] fail_fills_fails [of X "fail_lookups g reg" P reg] fails_trans
  by (auto simp: fail_outstanding_def)

section \<open>Attaching and detaching a server\<close>

lemma set_us_reg_sched:
  assumes "sched_inv {} g" "get_ipc g c = Some e"
  shows "sched_inv {} (set_ipc g c (e\<lparr>ipc_us_reg := r\<rparr>))" (is "sched_inv {} ?g")
proof -
  note i = sched_invD [OF assms(1)]
  have s: "endpoint_set g c (e\<lparr>ipc_us_reg := r\<rparr>) (deadlines g) ?g" by (rule endpoint_set_ipc)
  note v = ipc_views [OF assms(2) endpoint_setD(1) [OF s]] and ok = ipc_inv_endpoint [OF i(3) assms(2)]
  have "wait_inv {} ?g" using endpoint_wait(2) [OF i(1) assms(2) s] by (simp add: IpcChannel_already_signaled_def)
  moreover have "dl_inv {} ?g"
    by (rule endpoint_dl [OF i(2) assms(2) s]) (use ok v(6) in \<open>auto simp: endpoint_ok_def live_sends_def\<close>)
  moreover have "ipc_inv ?g"
  proof (rule ipc_inv_upd [OF i(3) assms(2) v(1)])
    show "acyclic (holds ?g)" by (rule acyclic_shrunk [OF i(3) assms(2) v(1)]) (simp add: ipc_refs_def)
    show "distinct (map ps_po (rs_items (ipc_pending (e\<lparr>ipc_us_reg := r, ipc_waiters := []\<rparr>))))" using held_distinct [OF i(3) assms(2)] by simp
  qed (use ok v(6) sends_okD(3) [OF i(3), where c = c] in \<open>simp_all add: v(3) endpoint_setD(4) [OF s] endpoint_ok_def send_pos_def\<close>)
  ultimately show ?thesis by (simp add: sched_inv_def)
qed

lemma us_server_attach_sched: "sched_inv {} g \<Longrightarrow> sched_inv {} (fst (us_server_attach acq g ob reg))"
  by (simp add: us_server_attach_def Let_def set_us_reg_sched split: option.split)

lemma us_reg_detach_sched:
  assumes "sched_inv {} g"
  shows "sched_inv {} (us_reg_detach g reg)"
proof (cases "sk_regs g reg")
  case (Some u)
  note f = fail_outstanding_fails [OF sched_invD(1,2) [OF assms], of reg]
  have "sched_inv {} (fail_outstanding g reg)" using f fails_ipc [OF sched_invD(3) [OF assms]] by (simp add: sched_inv_def)
  then show ?thesis by (simp add: us_reg_detach_def Some Let_def set_us_reg_sched split: option.split)
qed (simp add: us_reg_detach_def assms)

end
