(* ===== verification/Sched_Closing.thy ===== *)
theory Sched_Closing
  imports Sched_Servers
begin

text \<open>
  The end of an endpoint. \<^verbatim>\<open>ipc_endpoint_closing\<close> runs as the endpoint is dropped, its last reference gone:
  no thread waits on it and no queued message carries it. Its memory goes with it.
\<close>

definition close_endpoint :: "SchedState \<Rightarrow> u64 \<Rightarrow> SchedState" where
  "close_endpoint g ob = (let g = ipc_endpoint_closing g ob in g\<lparr>sk_objs := (sk_objs g)(ob := None)\<rparr>)"

section \<open>Completing the held sends\<close>

definition sends_failed :: "u64 \<Rightarrow> u64 list \<Rightarrow> SchedState \<Rightarrow> SchedState \<Rightarrow> bool" where
  "sends_failed ob pos g g' \<longleftrightarrow> ipc_view g' = ipc_view g \<and> sk_regs g' = sk_regs g \<and> moves g g'
     \<and> (\<forall>po. po \<notin> set pos \<longrightarrow> po_done g' po = po_done g po) \<and> set_mset (targets g') \<subseteq> set_mset (targets g)
     \<and> (\<forall>po\<in>set pos. TPendingSend po ob \<notin># targets g' \<and> (po_done g po \<noteq> None \<longrightarrow> po_done g' po = Some True))"

lemma drop_entry:
  fixes po ob :: u64
  assumes "dl_inv P g" "wait_inv X g"
  defines "g' \<equiv> g\<lparr>deadlines := fst (dl_remove (deadlines g) (TPendingSend po ob))\<rparr>"
  shows "dl_inv P g'" "wait_inv X g'" "TPendingSend po ob \<notin># targets g'" "set_mset (targets g') \<subseteq> set_mset (targets g)"
proof -
  let ?t = "TPendingSend po ob"
  consider (misses) "\<forall>e\<in>#heap_held (deadlines g). target e \<noteq> ?t" "dl_remove (deadlines g) ?t = (deadlines g, False)"
    | (takes) h x where "dl_remove (deadlines g) ?t = (h, True)" "heap_ok h" "rs_cap h = rs_cap (deadlines g)"
        "target x = ?t" "heap_held (deadlines g) = add_mset x (heap_held h)"
    using heap_remove_cases [OF slots_okD(1) [OF dl_invD(1) [OF assms(1)]], of ?t] .
  then have "dl_inv P g' \<and> ?t \<notin># targets g' \<and> set_mset (targets g') \<subseteq> set_mset (targets g)"
  proof cases
    case misses
    then have "g' = g" by (simp add: g'_def)
    then show ?thesis using misses(1) assms(1) by (auto simp: targets_def)
  next
    case (takes h x)
    have v: "deadline_view g' = deadline_view g" "contents g' = contents g" by (simp_all add: g'_def deadline_view_def fun_eq_iff)
    note c = same_contents [OF v(2)]
    have "dl_inv P g'"
    proof (rule dl_inv_take [OF assms(1) takes(5,2,3)])
      show "slots_enough g'" using dl_invD(8) [OF assms(1)] by (rule slots_enough_cong) (simp_all add: v c, simp_all add: g'_def)
    qed (use takes(1,4) in \<open>auto simp: v c live_sends_cong [OF c(4)]\<close>, auto simp: g'_def takes(1))
    moreover have "deadlines g' = h" by (simp add: g'_def takes(1))
    ultimately show ?thesis
      using taken_target [OF assms(1) takes(5)] takes(4,5) by (auto simp: targets_def)
  qed
  then show "dl_inv P g'" "?t \<notin># targets g'" "set_mset (targets g') \<subseteq> set_mset (targets g)" by blast+
  show "wait_inv X g'" using assms(2) by (simp add: g'_def)
qed

lemma fail_sends_spec:
  assumes "wait_inv X g" "dl_inv P g"
  shows "wait_inv X (fail_sends g ob pos) \<and> dl_inv P (fail_sends g ob pos) \<and> sends_failed ob pos g (fail_sends g ob pos)"
  using assms
proof (induction pos arbitrary: g)
  case Nil
  then show ?case by (simp add: sends_failed_def moves_refl)
next
  case (Cons po pos)
  define g1 where "g1 = g\<lparr>deadlines := fst (dl_remove (deadlines g) (TPendingSend po ob))\<rparr>"
  note d = drop_entry [OF Cons.prems(2,1), of po ob, folded g1_def]
  define g2 where "g2 = signal_pending_op g1 po KError_PeerClosed"
  note g2_def' = g2_def [unfolded signal_pending_op_def]
  have i: "wait_inv X g2" "dl_inv P g2" unfolding g2_def' by (rule signal_po_wait [OF d(2)], rule signal_po_dl [OF d(2,1)])
  have f: "fail_sends g ob (po # pos) = fail_sends g2 ob pos" by (simp add: g2_def g1_def)
  have c: "contents g1 = contents g" by (simp add: g1_def)
  note v = same_contents [OF c]
  have v2: "ipc_view g2 = ipc_view g" "po_done g2 = (po_done g)(po := map_option (\<lambda>_. True) (po_done g po))" "sk_regs g2 = sk_regs g" "targets g2 = targets g1"
    by (simp_all add: g2_def' signal_po_views v targets_def) (simp add: g1_def)
  have m: "moves g g2" using moves_trans [OF _ signal_po_moves(1) [OF d(2)]] moves_deadlines by (simp add: g2_def' g1_def)
  let ?r = "fail_sends g2 ob pos"
  have r: "wait_inv X ?r" "dl_inv P ?r" "sends_failed ob pos g2 ?r" using Cons.IH [OF i] by blast+
  note sf = r(3) [unfolded sends_failed_def]
  have t: "TPendingSend po ob \<notin># targets ?r" "set_mset (targets ?r) \<subseteq> set_mset (targets g)" using sf d(3,4) v2(4) by auto
  have "po_done ?r po = Some True" if "po_done g po \<noteq> None"
  proof -
    have "po_done g2 po = Some True" using that v2(2) by auto
    then show ?thesis using sf by (cases "po \<in> set pos") auto
  qed
  moreover have "po_done ?r x = Some True" if "x \<in> set pos" "po_done g x \<noteq> None" for x
  proof -
    have "po_done g2 x \<noteq> None" using that(2) v2(2) by auto
    then show ?thesis using sf that(1) by blast
  qed
  moreover have "po_done ?r x = po_done g x" if "x \<notin> set (po # pos)" for x using sf that v2(2) by auto
  moreover have "\<forall>x\<in>set pos. TPendingSend x ob \<notin># targets ?r" "ipc_view ?r = ipc_view g" "sk_regs ?r = sk_regs g" "moves g ?r"
    using sf v2 moves_trans [OF m, of ?r] by auto
  ultimately have "sends_failed ob (po # pos) g ?r" unfolding sends_failed_def using t by auto
  then show ?case unfolding f using r by blast
qed

section \<open>Telling the peer\<close>

definition fail_live :: "SchedState \<Rightarrow> u64 \<Rightarrow> SchedState" where
  "fail_live g reg = (if reg_is_live g reg then fail_outstanding g reg else g)"

definition tell_peer :: "SchedState \<Rightarrow> u64 \<Rightarrow> SchedState" where
  "tell_peer g peer =
     (if peer \<noteq> 0 then
        let g = (case get_ipc g peer of None \<Rightarrow> g | Some e \<Rightarrow> set_ipc g peer (e\<lparr>ipc_peer := 0\<rparr>));
            g = signal_ipc_endpoint g peer
        in fail_live g (us_reg_of g peer)
      else g)"

lemma ipc_endpoint_closing_parts:
  "ipc_endpoint_closing g ob =
     (let g' = tell_peer (fail_live g (us_reg_of g ob)) (peer_of g ob)
      in case get_ipc g' ob of None \<Rightarrow> g' | Some e \<Rightarrow> fail_sends g' ob (pending_send_pos e))"
  unfolding ipc_endpoint_closing_def fail_live_def tell_peer_def Let_def by simp

definition unlinked :: "SchedState \<Rightarrow> u64 \<Rightarrow> u64 \<rightharpoonup> IpcInner" where
  "unlinked g peer = (if peer = 0 then ipc_view g else (ipc_view g)(peer := map_option (\<lambda>e. e\<lparr>ipc_peer := 0\<rparr>) (ipc_view g peer)))"

text \<open>As \<open>fails\<close>, but for the view of the endpoints.\<close>

definition unlinks :: "u64 \<Rightarrow> SchedState \<Rightarrow> SchedState \<Rightarrow> bool" where
  "unlinks peer g g' \<longleftrightarrow> ipc_view g' = unlinked g peer \<and> moves g g'
     \<and> (\<forall>r u'. sk_regs g' r = Some u' \<longrightarrow> (\<exists>u. sk_regs g r = Some u \<and> reg_pos u' \<subseteq> reg_pos u))
     \<and> (\<forall>po. reg_free g po \<longrightarrow> po_done g' po = po_done g po)"

lemma fail_live_fails:
  assumes "wait_inv X g" "dl_inv P g"
  shows "wait_inv X (fail_live g reg)" "dl_inv P (fail_live g reg)" "fails g (fail_live g reg)"
  using fail_outstanding_fails [OF assms] assms fails_refl by (simp_all add: fail_live_def)

lemma fails_unlinks:
  assumes "fails g g1" "unlinks peer g1 g2"
  shows "unlinks peer g g2"
proof -
  have "\<exists>u. sk_regs g r = Some u \<and> reg_pos u' \<subseteq> reg_pos u" if "sk_regs g2 r = Some u'" for r u'
    using assms that unfolding fails_def unlinks_def by (meson subset_trans)
  moreover have "po_done g2 po = po_done g po" if "reg_free g po" for po
    using assms that fails_free [OF assms(1) that] unfolding fails_def unlinks_def by simp
  moreover have "unlinked g1 peer = unlinked g peer" using assms(1) by (simp add: unlinked_def fails_def)
  ultimately show ?thesis using assms moves_trans [of g g1 g2] unfolding fails_def unlinks_def by auto
qed

lemma unlinks_fails:
  assumes "unlinks peer g g1" "fails g1 g2"
  shows "unlinks peer g g2"
proof -
  have "\<exists>u. sk_regs g r = Some u \<and> reg_pos u' \<subseteq> reg_pos u" if "sk_regs g2 r = Some u'" for r u'
    using assms that unfolding fails_def unlinks_def by (meson subset_trans)
  moreover have "po_done g2 po = po_done g po" if "reg_free g po" for po
  proof -
    have "reg_free g1 po" using assms(1) that unfolding unlinks_def reg_free_def by blast
    then show ?thesis using assms that unfolding fails_def unlinks_def by simp
  qed
  ultimately show ?thesis using assms moves_trans [of g g1 g2] unfolding fails_def unlinks_def by auto
qed

lemma tell_peer_unlinks:
  assumes "wait_inv {} g" "dl_inv {} g" and ok: "\<And>e. get_ipc g peer = Some e \<Longrightarrow> endpoint_ok e"
  shows "wait_inv {} (tell_peer g peer)" "dl_inv {} (tell_peer g peer)" "unlinks peer g (tell_peer g peer)"
proof -
  have "wait_inv {} (tell_peer g peer) \<and> dl_inv {} (tell_peer g peer) \<and> unlinks peer g (tell_peer g peer)"
  proof (cases "peer = 0")
    case True
    then show ?thesis using assms by (simp add: tell_peer_def unlinks_def unlinked_def moves_refl)
  next
    case nz: False
    define g1 where "g1 = (case get_ipc g peer of None \<Rightarrow> g | Some e \<Rightarrow> set_ipc g peer (e\<lparr>ipc_peer := 0\<rparr>))"
    have g1: "wait_inv {peer} g1 \<and> dl_inv {} g1 \<and> unlinks peer g g1"
    proof (cases "get_ipc g peer")
      case None
      then show ?thesis using assms wait_inv_mono [OF assms(1)] nz
        by (auto simp: g1_def unlinks_def unlinked_def ipc_view_def moves_refl)
    next
      case (Some e)
      have s: "endpoint_set g peer (e\<lparr>ipc_peer := 0\<rparr>) (deadlines g) g1" using endpoint_set_ipc by (simp add: g1_def Some)
      note v = ipc_views [OF Some endpoint_setD(1) [OF s]]
      have "wait_inv {peer} g1" using endpoint_wait(1) [OF assms(1) Some s] by simp
      moreover have "dl_inv {} g1"
        by (rule endpoint_dl [OF assms(2) Some s]) (use ok [OF Some] v(6) in \<open>auto simp: endpoint_ok_def live_sends_def\<close>)
      moreover have "unlinks peer g g1"
        using v(1,3) endpoint_moves [OF Some s] endpoint_setD(4) [OF s] nz ipc_view_get(1) [OF Some]
        by (auto simp: unlinks_def unlinked_def)
      ultimately show ?thesis by blast
    qed
    define g2 where "g2 = signal_ipc_endpoint g1 peer"
    note w = signal_waiters_inv [of peer "{}" g1] signal_waiters_dl [of "{peer}" g1 "{}" peer] signal_waiters_moves(1) [of "{peer}" g1 peer]
    have c: "contents g2 = contents g1" "sk_regs g2 = sk_regs g1" "deadlines g2 = deadlines g1"
      by (simp_all add: g2_def signal_ipc_endpoint_def signal_waiters_contents)
    have i2: "wait_inv {} g2" "dl_inv {} g2" using w(1,2) g1 by (simp_all add: g2_def signal_ipc_endpoint_def)
    have "fails g1 g2" using w(3) g1 same_contents [OF c(1)] c by (simp add: fails_def) (simp add: g2_def signal_ipc_endpoint_def)
    then have u2: "unlinks peer g g2" using g1 unlinks_fails by blast
    note f = fail_live_fails [OF i2, of "us_reg_of g2 peer"]
    have "tell_peer g peer = fail_live g2 (us_reg_of g2 peer)" using nz by (simp add: tell_peer_def Let_def flip: g1_def g2_def)
    then show ?thesis using f u2 unlinks_fails by simp
  qed
  then show "wait_inv {} (tell_peer g peer)" "dl_inv {} (tell_peer g peer)" "unlinks peer g (tell_peer g peer)" by blast+
qed

section \<open>The endpoint gone\<close>

lemma remove_wait:
  assumes "wait_inv {} g" "\<And>th. th \<in> blocked g \<Longrightarrow> ob \<notin> set (waiting g th)"
  shows "wait_inv {} (g\<lparr>sk_objs := (sk_objs g)(ob := None)\<rparr>)" (is "wait_inv {} ?g")
proof (rule wait_invI)
  note d = wait_invD [OF assms(1)]
  have b: "blocked ?g = blocked g" "waiting ?g = waiting g" by (simp_all add: blocked_def waiting_def fun_eq_iff)
  have ow: "obj_waiters ?g x = (if x = ob then [] else obj_waiters g x)" for x by (simp add: obj_waiters_def)
  have os: "x \<noteq> ob \<Longrightarrow> obj_settled ?g x = obj_settled g x" for x by (simp add: obj_settled_def)
  show "distinct (rs_items (sk_blocked ?g))" using d(1) by simp
  show "th \<in> blocked ?g \<longleftrightarrow> (\<exists>t. sk_threads ?g th = Some t \<and> th_phase t = PWaiting)" for th using d(2) by (simp add: b)
  show "count_list (obj_waiters ?g x) th \<le> count_list (waiting ?g th) x" for x th using d(3) by (simp add: b ow)
  show "count_list (waiting ?g th) x \<le> count_list (obj_waiters ?g x) th" if "th \<in> blocked ?g" for x th
    using d(4) [of th x] assms(2) [of th] that by (auto simp: b ow count_list_0_iff)
  show "x \<in> {} \<or> \<not> obj_settled ?g x" if "th \<in> blocked ?g" "x \<in> set (waiting ?g th)" for x th
    using d(5) [of th x] assms(2) [of th] that os [of x] by (cases "x = ob") (auto simp: b)
  show "True \<notin> set (marks t)" if "th \<in> blocked ?g" "sk_threads ?g th = Some t" for th t using d(6) that by (simp add: b)
  show "thread_ok t" if "sk_threads ?g th = Some t" for th t using d(7) that by simp
qed

lemma remove_views:
  assumes "sk_objs g' = (sk_objs g)(ob := None)"
  shows "ipc_view g' = (ipc_view g)(ob := None)" "timer_view g' = (timer_view g)(ob := None)" "po_done g' = (po_done g)(ob := None)"
    "held_sends g' = (held_sends g)(ob := [])" "endpoints g' = endpoints g - {ob}"
proof -
  show v: "ipc_view g' = (ipc_view g)(ob := None)" and "timer_view g' = (timer_view g)(ob := None)" "po_done g' = (po_done g)(ob := None)"
    by (simp_all add: fun_eq_iff pick_views assms)
  show "held_sends g' = (held_sends g)(ob := [])" "endpoints g' = endpoints g - {ob}"
    by (simp_all add: fun_eq_iff held_sends_view endpoints_view v)
qed

lemma remove_dl:
  assumes inv: "dl_inv P g" and out: "\<And>po. TPendingSend po ob \<notin># targets g" "TTimer ob \<notin># targets g"
  shows "dl_inv P (g\<lparr>sk_objs := (sk_objs g)(ob := None)\<rparr>)" (is "dl_inv P ?g")
proof (rule dl_invI)
  note d = dl_invD [OF inv] and v = remove_views [of ?g g ob]
  have fr: "targets ?g = targets g" "blocked ?g = blocked g" "deadline_view ?g = deadline_view g"
    by (simp_all add: targets_def blocked_def deadline_view_def fun_eq_iff)
  have ls: "c \<noteq> ob \<Longrightarrow> live_sends ?g c = live_sends g c" for c by (simp add: live_sends_def v)
  show "slots_ok ?g" using d(1) by (rule slots_ok_deadlines) simp_all
  show "timer_ok P ?g x w" if "timer_view ?g x = Some w" for x w using d(5) that by (auto simp: v timer_ok_def fr split: if_splits)
  show "po \<in> live_sends ?g c" if "TPendingSend po c \<in># targets ?g" for po c
    using d(7) [of po c] out(1) that ls by (cases "c = ob") (auto simp: fr)
  have "card (endpoints ?g) \<le> card (endpoints g)" using d(8) by (auto simp: v slots_enough_def intro: card_mono)
  then have "MAX_PENDING_SENDS * card (endpoints ?g) \<le> deadline_slots g DPendingSend"
    using d(8) by (auto simp: slots_enough_def dest: mult_le_mono2 intro: order_trans)
  moreover have "card (dom (timer_view g) - {ob}) \<le> deadline_slots g DTimer"
    using d(8) card_mono [of "dom (timer_view g)" "dom (timer_view g) - {ob}"] by (auto simp: slots_enough_def)
  ultimately show "slots_enough ?g" using d(8) by (simp add: slots_enough_def fr v)
  show "timer_view ?g x \<noteq> None" if "TTimer x \<in># targets ?g" for x using d(6) out(2) that by (auto simp: v fr)
  show "deadline_view ?g th = Some True" if "TThread th \<in># targets ?g" for th using d(3) that by (simp add: fr)
  show "TThread th \<in># targets ?g" if "th \<in> blocked ?g" "deadline_view ?g th = Some True" for th using d(4) that by (simp add: fr)
  show "count (targets ?g) t \<le> 1" for t using d(2) by (simp add: fr)
qed

lemma ipc_inv_unlinked:
  assumes inv: "ipc_inv g" and v: "ipc_view g' = (unlinked g (peer_of g ob))(ob := None)"
    and regs: "\<And>r u'. sk_regs g' r = Some u' \<Longrightarrow> \<exists>u. sk_regs g r = Some u \<and> reg_pos u' \<subseteq> reg_pos u"
    and po: "\<And>c po. c \<noteq> ob \<Longrightarrow> po \<in> set (send_pos g c) \<Longrightarrow> po_done g' po = po_done g po"
  shows "ipc_inv g'"
proof -
  let ?p = "peer_of g ob"
  have pk: "0 \<notin> endpoints g" "\<And>x. peer_of g x \<noteq> 0 \<Longrightarrow> peer_of g x \<noteq> x \<and> peer_of g (peer_of g x) = x"
    using inv by (auto simp: ipc_inv_def peers_ok_def)
  have uv: "ipc_view g' x = (if x = ob then None else if x = ?p \<and> ?p \<noteq> 0 then map_option (\<lambda>e. e\<lparr>ipc_peer := 0\<rparr>) (ipc_view g x) else ipc_view g x)" for x
    by (simp add: v unlinked_def)
  have h: "held_sends g' x = (if x = ob then [] else held_sends g x)" for x
    by (auto simp: held_sends_view uv split: option.split)
  then have s: "send_pos g' x = (if x = ob then [] else send_pos g x)" for x by (simp add: send_pos_def)
  have pe: "peer_of g' x = (if x = ob \<or> x = ?p \<and> ?p \<noteq> 0 then 0 else peer_of g x)" for x
    by (auto simp: peer_of_view [of g'] uv peer_of_view [of g x] split: option.split)
  have en: "endpoints g' \<subseteq> endpoints g" by (auto simp: endpoints_view uv split: if_splits)
  have "peers_ok g'" unfolding peers_ok_def
  proof (intro conjI allI impI)
    show "0 \<notin> endpoints g'" using pk(1) en by blast
    fix x
    assume "peer_of g' x \<noteq> 0"
    then have x: "peer_of g' x = peer_of g x" "x \<noteq> ob" "\<not> (x = ?p \<and> ?p \<noteq> 0)" "peer_of g x \<noteq> 0" by (auto simp: pe split: if_splits)
    have q: "peer_of g x \<noteq> x" "peer_of g (peer_of g x) = x" using pk(2) [OF x(4)] by blast+
    have "x \<noteq> 0" using x(4) pk(1) by (auto simp: peer_of_view endpoints_view split: option.splits)
    then have n: "peer_of g x \<noteq> ob" using q(2) x(3) by auto
    have m: "\<not> (peer_of g x = ?p \<and> ?p \<noteq> 0)" using q(2) pk(2) [of ob] x(2) by metis
    have "peer_of g' (peer_of g x) = peer_of g (peer_of g x)" unfolding pe [of "peer_of g x"] using n m by auto
    then show "peer_of g' x \<noteq> x" "peer_of g' (peer_of g' x) = x" using q x(1) by simp_all
  qed
  moreover have "sends_ok g'" unfolding sends_ok_def
  proof (intro conjI allI impI ballI)
    show "distinct (send_pos g' c)" for c using sends_okD(1) [OF inv] by (simp add: s)
    show "set (send_pos g' c) \<inter> set (send_pos g' c') = {}" if "c \<noteq> c'" for c c' using sends_okD(2) [OF inv that] by (auto simp: s)
    show "po_done g' (ps_po p) = Some (ps_cancelled p)" if "p \<in> set (held_sends g' c)" for c p
    proof -
      have p: "c \<noteq> ob" "p \<in> set (held_sends g c)" using that by (auto simp: h split: if_splits)
      then have "ps_po p \<in> set (send_pos g c)" by (simp add: send_pos_def)
      then show ?thesis using po [OF p(1)] sends_okD(3) [OF inv p(2)] by simp
    qed
    show "reg_pos u \<inter> set (send_pos g' c) = {}" if k: "sk_regs g' r = Some u" for r u c
    proof -
      obtain ua where ua: "sk_regs g r = Some ua" "reg_pos u \<subseteq> reg_pos ua" using regs [OF k] by blast
      then show ?thesis using sends_okD(4) [OF inv ua(1)] by (auto simp: s)
    qed
  qed
  moreover have "endpoint_ok e" if "ipc_view g' x = Some e" for x e
    using that inv by (auto simp: uv ipc_inv_def endpoint_ok_def split: if_splits)
  moreover have "ipc_refs (e\<lparr>ipc_peer := 0\<rparr>) = ipc_refs e" for e by (simp add: ipc_refs_def)
  then have "holds g' \<subseteq> holds g" using en by (auto simp: holds_view uv split: if_splits)
  ultimately show ?thesis using inv by (auto simp: ipc_inv_def intro: acyclic_subset)
qed

lemma close_endpoint_sched:
  assumes "sched_inv {} g" "get_ipc g ob = Some e" "\<And>th. ob \<notin> set (waiting g th)"
  shows "sched_inv {} (close_endpoint g ob)" "blocked (close_endpoint g ob) \<subseteq> blocked g"
    and "po \<in> set (send_pos g ob) \<Longrightarrow> po_done (close_endpoint g ob) po = Some True"
    and "peer_of g ob \<noteq> 0 \<Longrightarrow> \<exists>e'. get_ipc (close_endpoint g ob) (peer_of g ob) = Some e' \<and> ipc_peer e' = 0"
proof -
  note i = sched_invD [OF assms(1)]
  let ?peer = "peer_of g ob"
  define g1 where "g1 = fail_live g (us_reg_of g ob)"
  note f1 = fail_live_fails [OF i(1,2), of "us_reg_of g ob", folded g1_def]
  have i1: "ipc_inv g1" by (rule fails_ipc [OF i(3) f1(3)])
  define g2 where "g2 = tell_peer g1 ?peer"
  note t = tell_peer_unlinks [OF f1(1,2) ipc_inv_endpoint [OF i1], of ?peer, folded g2_def]
  note u = fails_unlinks [OF f1(3) t(3)]
  have np: "?peer \<noteq> ob \<or> ?peer = 0" using i(3) unfolding ipc_inv_def peers_ok_def by blast
  have v2: "ipc_view g2 = unlinked g ?peer" using u by (simp add: unlinks_def)
  have "ob \<noteq> 0" using assms(2) i(3) by (auto simp: ipc_inv_def peers_ok_def endpoints_def)
  then have "ipc_view g2 ob = Some (e\<lparr>ipc_waiters := []\<rparr>)" using np ipc_view_get(1) [OF assms(2)] by (auto simp: v2 unlinked_def)
  then obtain e2 where e2: "get_ipc g2 ob = Some e2" "e\<lparr>ipc_waiters := []\<rparr> = e2\<lparr>ipc_waiters := []\<rparr>" using ipc_view_get(2) by blast
  then have p2: "rs_items (ipc_pending e2) = rs_items (ipc_pending e)" by (cases e; cases e2) simp
  have hs: "held_sends g ob = rs_items (ipc_pending e)" using assms(2) by (simp add: held_sends_def)
  have pos: "pending_send_pos e2 = send_pos g ob"
    using ipc_inv_endpoint [OF i(3) assms(2)] by (simp add: pending_send_pos_def p2 send_pos_def hs endpoint_ok_def)
  define g3 where "g3 = fail_sends g2 ob (send_pos g ob)"
  have "wait_inv {} g3 \<and> dl_inv {} g3 \<and> sends_failed ob (send_pos g ob) g2 g3" unfolding g3_def by (rule fail_sends_spec [OF t(1,2)])
  then have i3: "wait_inv {} g3" "dl_inv {} g3" and sf: "sends_failed ob (send_pos g ob) g2 g3" by blast+
  note sf' = sf [unfolded sends_failed_def]
  have v3: "ipc_view g3 = unlinked g ?peer" using sf' v2 by simp
  have m: "moves g g3" using moves_trans [of g g2 g3] u sf' by (simp add: unlinks_def)
  have close: "close_endpoint g ob = g3\<lparr>sk_objs := (sk_objs g3)(ob := None)\<rparr>"
    by (simp add: close_endpoint_def ipc_endpoint_closing_parts Let_def e2(1) pos flip: g1_def g2_def g3_def)
  note r = remove_views [of "close_endpoint g ob" g3 ob]
  obtain e3 where e3: "get_ipc g3 ob = Some e3" using e2(1) sf' ipc_view_get by metis
  have "TPendingSend po ob \<notin># targets g3" for po
  proof
    assume a: "TPendingSend po ob \<in># targets g3"
    then have "po \<in> live_sends g3 ob" by (rule dl_invD(7) [OF i3(2)])
    moreover have "held_sends g3 ob = held_sends g ob" using np \<open>ob \<noteq> 0\<close> by (auto simp: held_sends_view v3 unlinked_def)
    ultimately have "po \<in> set (send_pos g ob)" by (auto simp: live_sends_def send_pos_def)
    then show False using a sf' by blast
  qed
  moreover have "TTimer ob \<notin># targets g3" using dl_invD(6) [OF i3(2), of ob] e3 by (auto simp: timer_view_def get_timer_def get_ipc_Some)
  ultimately have "dl_inv {} (close_endpoint g ob)" unfolding close by (rule remove_dl [OF i3(2)])
  moreover have "wait_inv {} (close_endpoint g ob)" unfolding close
    using moves_waiting [OF m] assms(3) by (intro remove_wait [OF i3(1)]) simp
  moreover have "ipc_inv (close_endpoint g ob)"
  proof (rule ipc_inv_unlinked [OF i(3), of _ ob])
    show "ipc_view (close_endpoint g ob) = (unlinked g ?peer)(ob := None)" using r(1) v3 by (simp add: close)
    show "\<exists>u. sk_regs g r = Some u \<and> reg_pos u' \<subseteq> reg_pos u" if "sk_regs (close_endpoint g ob) r = Some u'" for r u'
      using that u sf' by (simp add: close unlinks_def)
    show "po_done (close_endpoint g ob) po = po_done g po" if c: "c \<noteq> ob" "po \<in> set (send_pos g c)" for c po
    proof -
      have "reg_free g po" using sends_okD(4) [OF i(3)] c(2) by (auto simp: reg_free_def)
      then have "po_done g2 po = po_done g po" using u by (simp add: unlinks_def)
      moreover have "po \<notin> set (send_pos g ob)" using sends_okD(2) [OF i(3) c] .
      then have "po_done g3 po = po_done g2 po" using sf' by blast
      moreover have "po_done g3 ob = None" using e3 by (simp add: po_done_def get_ipc_Some)
      ultimately show ?thesis using r(3) by (auto simp: close)
    qed
  qed
  ultimately show "sched_inv {} (close_endpoint g ob)" by (simp add: sched_inv_def)
  show "blocked (close_endpoint g ob) \<subseteq> blocked g" using m by (simp add: close blocked_def moves_def)
  show "po_done (close_endpoint g ob) po = Some True" if "po \<in> set (send_pos g ob)"
  proof -
    have "reg_free g po" using sends_okD(4) [OF i(3)] that by (auto simp: reg_free_def)
    then have "po_done g2 po \<noteq> None" using u that sends_okD(3) [OF i(3), of _ ob] by (auto simp: unlinks_def send_pos_def)
    then have "po_done g3 po = Some True" using sf' that by blast
    moreover have "po_done g3 ob = None" using e3 by (simp add: po_done_def get_ipc_Some)
    ultimately show ?thesis using r(3) by (auto simp: close)
  qed
  show "\<exists>e'. get_ipc (close_endpoint g ob) ?peer = Some e' \<and> ipc_peer e' = 0" if nz: "?peer \<noteq> 0"
  proof -
    obtain f where "get_ipc g ?peer = Some f" using peer_get [OF i(3) nz] by metis
    then have "ipc_view (close_endpoint g ob) ?peer = Some (f\<lparr>ipc_waiters := [], ipc_peer := 0\<rparr>)"
      using r(1) nz np ipc_view_get(1) by (simp add: close v3 unlinked_def)
    then obtain e' where e': "get_ipc (close_endpoint g ob) ?peer = Some e'" "f\<lparr>ipc_waiters := [], ipc_peer := 0\<rparr> = e'\<lparr>ipc_waiters := []\<rparr>"
      using ipc_view_get(2) by blast
    have "ipc_peer e' = 0" using arg_cong [OF e'(2), of ipc_peer] by simp
    with e'(1) show ?thesis by blast
  qed
qed

end
