(* ===== verification/Sched_Life.thy ===== *)
theory Sched_Life
  imports Sched_Closing
begin

text \<open>
  The life of what the scheduler names by address: the state \<^verbatim>\<open>sched::init\<close> leaves
  (\<^verbatim>\<open>kernel/src/sched/spawn.rs\<close>), objects, threads and registrations made and dropped, and the heap
  slots promised and given back (\<^verbatim>\<open>SlotHold\<close> in \<^verbatim>\<open>kernel/src/sched/deadline.rs\<close>). An address given
  to a new object is one where nothing lives; an object is dropped with its last reference.
\<close>

definition Thread_new :: "u32 \<Rightarrow> ThreadWait" where
  "Thread_new pid =
     \<lparr>th_state = TReady, th_wait_objs = replicate MAX_WAIT_HANDLES 0, th_wait_signaled = replicate MAX_WAIT_HANDLES False,
      th_wait_count = 0, th_has_deadline = False, th_phase = PRunning, th_ending = False, th_pid = pid\<rparr>"

text \<open>The boot thread runs, and the reaper is on the run queue.\<close>

definition sched_init :: "u64 \<Rightarrow> u64 \<Rightarrow> SchedState" where
  "sched_init boot reaper =
     \<lparr>deadlines = \<lparr>rs_items = [], rs_cap = HEAP_RESERVE\<rparr>, deadline_slots = (\<lambda>_. 0)(DThread := HEAP_RESERVE),
      sk_objs = Map.empty, sk_threads = [boot \<mapsto> (Thread_new 0)\<lparr>th_state := TRunning\<rparr>, reaper \<mapsto> Thread_new 0],
      sk_regs = Map.empty, sk_blocked = \<lparr>rs_items = [], rs_cap = MAX_THREADS\<rparr>, sk_ready = [reaper]\<rparr>"

text \<open>
  A connected pair at two addresses, once each endpoint has its slots. Whether the ring and the held
  sends of each endpoint get their memory are arguments.
\<close>

definition try_new_pair :: "bool \<times> bool \<Rightarrow> bool \<times> bool \<Rightarrow> SchedState \<Rightarrow> u64 \<Rightarrow> u64 \<Rightarrow> u32 \<Rightarrow> SchedState option" where
  "try_new_pair mem_a mem_b g a b depth =
     (let cap = unat (min (max depth 1) IPC_MAX_QUEUE_DEPTH) in
      case IpcInner_new (fst mem_a) (snd mem_a) cap of
        None \<Rightarrow> None
      | Some ea \<Rightarrow>
          (case IpcInner_new (fst mem_b) (snd mem_b) cap of
             None \<Rightarrow> None
           | Some eb \<Rightarrow> Some (set_ipc (set_ipc g a (ea\<lparr>ipc_peer := b\<rparr>)) b (eb\<lparr>ipc_peer := a\<rparr>))))"

definition drop_obj :: "SchedState \<Rightarrow> u64 \<Rightarrow> SchedState" where
  "drop_obj g ob = g\<lparr>sk_objs := (sk_objs g)(ob := None)\<rparr>"

definition Timer_drop :: "SchedState \<Rightarrow> u64 \<Rightarrow> SchedState" where
  "Timer_drop g ob = drop_obj (timer_closing g ob) ob"

definition UsReg_drop :: "SchedState \<Rightarrow> u64 \<Rightarrow> SchedState" where
  "UsReg_drop g reg = (let g = us_reg_detach g reg in g\<lparr>sk_regs := (sk_regs g)(reg := None)\<rparr>)"

text \<open>No wait, held send, message or registration has a reference to the object.\<close>

definition unreferenced :: "SchedState \<Rightarrow> u64 \<Rightarrow> bool" where
  "unreferenced g ob \<longleftrightarrow> (\<forall>th. ob \<notin> set (waiting g th)) \<and> (\<forall>c. ob \<notin> set (send_pos g c))
     \<and> (\<forall>c e. get_ipc g c = Some e \<longrightarrow> ob \<notin> ipc_refs e) \<and> (\<forall>r u. sk_regs g r = Some u \<longrightarrow> ob \<notin> reg_pos u)"

section \<open>The first state\<close>

lemma init_inv:
  assumes "boot \<noteq> reaper"
  shows "sched_inv {} (sched_init boot reaper)"
proof -
  let ?g = "sched_init boot reaper"
  have b: "blocked ?g = {}" "targets ?g = {#}" "get_ipc ?g = Map.empty" "get_timer ?g = Map.empty"
    by (simp_all add: fun_eq_iff sched_init_def blocked_def targets_def heap_held_def get_ipc_def get_timer_def)
  have e: "ipc_view ?g = Map.empty" "held_sends ?g c = []" "send_pos ?g c = []" "endpoints ?g = {}" "peer_of ?g c = 0" for c
    by (simp_all add: fun_eq_iff ipc_view_def held_sends_def send_pos_def endpoints_def peer_of_def b)
  have "thread_ok (Thread_new 0)" "thread_ok ((Thread_new 0)\<lparr>th_state := TRunning\<rparr>)" by (simp_all add: thread_ok_def Thread_new_def)
  then have "wait_inv {} ?g" unfolding wait_inv_def b
    by (auto simp: sched_init_def obj_waiters_def waiting_def Thread_new_def split: if_splits)
  moreover have "slots_ok ?g"
    by (simp add: slots_ok_def sched_init_def heap_ok_def heap_held_def promised_slots_def heap_ordered_def)
  moreover have "dom (deadline_view ?g) = {boot, reaper}" "dom (timer_view ?g) = {}"
    by (auto simp: timer_view_def b) (auto simp: deadline_view_def sched_init_def split: if_splits)
  then have "slots_enough ?g" using assms by (simp add: slots_enough_def e) (simp add: sched_init_def HEAP_RESERVE_def MAX_THREADS_def)
  ultimately have "wait_inv {} ?g" "dl_inv {} ?g" by (simp_all add: dl_inv_def b timer_view_def)
  moreover have "ipc_inv ?g" by (simp add: ipc_inv_def peers_ok_def sends_ok_def e holds_def b acyclic_def)
  ultimately show ?thesis by (simp add: sched_inv_def)
qed

section \<open>Objects made\<close>

lemma new_wait:
  assumes "wait_inv {} g" "sk_objs g ob = None" "w_waiters w = []"
  shows "wait_inv {} (g\<lparr>sk_objs := (sk_objs g)(ob \<mapsto> w)\<rparr>)"
  by (rule wait_inv_cong [OF assms(1)]) (use assms(2,3) in \<open>auto simp: obj_waiters_def obj_settled_def\<close>)

text \<open>A notification channel, a pending operation, an interrupt object.\<close>

lemma new_plain_sched:
  assumes "sched_inv {} g" "sk_objs g ob = None" "w_waiters w = []" "pick_timer w = None" "pick_ipc w = None"
  shows "sched_inv {} (g\<lparr>sk_objs := (sk_objs g)(ob \<mapsto> w)\<rparr>)" (is "sched_inv {} ?g")
proof -
  note i = sched_invD [OF assms(1)] and v = upd_views [of ?g g ob w, simplified]
  have tv: "timer_view ?g = timer_view g" "ipc_view ?g = ipc_view g"
    using assms(2,4,5) by (auto simp: v fun_eq_iff) (simp_all add: pick_views)
  have "dl_inv {} ?g" by (rule dl_inv_same [OF i(2) tv]) (simp_all add: blocked_def deadline_view_def fun_eq_iff)
  moreover have "ipc_inv ?g"
  proof (rule ipc_inv_cong [OF i(3) tv(2)])
    show "po_done ?g po = po_done g po" if "po \<in> set (send_pos g c)" for c po
    proof -
      have "po_done g po \<noteq> None" using sends_okD(3) [OF i(3)] that by (auto simp: send_pos_def)
      then have "po \<noteq> ob" using assms(2) by (auto simp: pick_views)
      then show ?thesis by (simp add: v)
    qed
  qed auto
  ultimately show ?thesis using new_wait [OF i(1) assms(2,3)] by (simp add: sched_inv_def)
qed

lemma new_timer_sched:
  assumes "sched_inv {} g" "sk_objs g ob = None" "needed g DTimer < deadline_slots g DTimer"
  shows "sched_inv {} (set_timer g ob TimerInner_new)" (is "sched_inv {} ?g")
proof -
  note i = sched_invD [OF assms(1)] and d = dl_invD [OF sched_invD(2) [OF assms(1)]]
  have objs: "sk_objs ?g = (sk_objs g)(ob \<mapsto> WTimer TimerInner_new)" by (simp add: set_timer_def)
  note v = upd_views [OF objs]
  have tv: "timer_view ?g = (timer_view g)(ob \<mapsto> (0, 0, False))" "timer_view g ob = None"
    using assms(2) by (simp_all only: v pick_timer_def) (simp_all add: TimerInner_new_def pick_views)
  have iv: "ipc_view ?g = ipc_view g" "po_done ?g = po_done g"
    using assms(2) by (auto simp: v fun_eq_iff pick_ipc_def pick_po_def pick_views)
  have fr: "targets ?g = targets g" "blocked ?g = blocked g" "deadline_view ?g = deadline_view g" "deadlines ?g = deadlines g"
      "deadline_slots ?g = deadline_slots g" "sk_blocked ?g = sk_blocked g"
    by (simp_all add: set_timer_def targets_def blocked_def deadline_view_def fun_eq_iff)
  have he: "held_sends ?g = held_sends g" "endpoints ?g = endpoints g" using ipc_view_held [OF iv(1)] ipc_view_endpoints [OF iv(1)] by simp_all
  have out: "TTimer ob \<notin># targets g" using d(6) tv(2) by blast
  have "dl_inv {} ?g"
  proof (rule dl_invI)
    show "slots_ok ?g" by (rule slots_ok_deadlines [OF d(1) fr(4,5)])
    have none: "target e \<noteq> TTimer ob" if "e \<in># heap_held (deadlines g)" for e using in_targets [OF that] out by auto
    show "timer_ok {} ?g x w" if "timer_view ?g x = Some w" for x w
    proof (cases "x = ob")
      case True
      then show ?thesis using that out none by (auto simp: tv timer_ok_def fr)
    next
      case False
      then show ?thesis using d(5) [of x w] that by (simp add: tv timer_ok_def fr)
    qed
    have "card (insert ob (dom (timer_view g))) \<le> Suc (card (dom (timer_view g)))" by (rule card_insert_le_m1) simp_all
    then show "slots_enough ?g" using d(8) assms(3) by (simp add: slots_enough_def fr he tv needed_def)
    show "po \<in> live_sends ?g c" if "TPendingSend po c \<in># targets ?g" for po c using d(7) that by (simp add: fr live_sends_cong [OF he(1)])
    show "timer_view ?g x \<noteq> None" if "TTimer x \<in># targets ?g" for x using d(6) [of x] that unfolding fr tv by auto
    show "deadline_view ?g th = Some True" if "TThread th \<in># targets ?g" for th using d(3) that by (simp only: fr)
    show "TThread th \<in># targets ?g" if "th \<in> blocked ?g" "deadline_view ?g th = Some True" for th using d(4) that by (simp only: fr)
    show "count (targets ?g) t \<le> 1" for t using d(2) by (simp only: fr)
  qed
  moreover have "ipc_inv ?g" by (rule ipc_inv_cong [OF i(3) iv(1)]) (simp_all add: iv, simp add: set_timer_def)
  moreover have "wait_inv {} ?g" unfolding set_timer_def by (rule new_wait [OF i(1) assms(2)]) (simp add: TimerInner_new_def)
  ultimately show ?thesis by (simp add: sched_inv_def)
qed


section \<open>Endpoints made\<close>

lemma IpcInner_new_ok:
  assumes "IpcInner_new m1 m2 cap = Some e" "0 < cap"
  shows "endpoint_ok e" "ipc_refs e = {}" "rs_items (ipc_pending e) = []" "ipc_waiters e = []"
proof -
  have e: "ipc_recv e = \<lparr>mr_slots = replicate cap RingSlot_empty, mr_head = 0, mr_len = 0\<rparr>"
      "ipc_pending e = \<lparr>rs_items = [], rs_cap = MAX_PENDING_SENDS\<rparr>" "ipc_waiters e = []"
    using assms(1) by (auto simp: IpcInner_new_def MsgRing_with_capacity_def split: if_splits)
  then show "rs_items (ipc_pending e) = []" "ipc_waiters e = []" by simp_all
  have "mr_inv (ipc_recv e)" "mr_contents (ipc_recv e) = []"
    using assms(2) by (simp_all add: e mr_inv_def mr_contents_def mr_cap_def RingSlot_empty_def)
  then show "endpoint_ok e" "ipc_refs e = {}" by (simp_all add: endpoint_ok_def ipc_refs_def e(2))
qed

lemma try_new_pair_cases:
  assumes "try_new_pair ma mb g a b depth = Some g'"
  obtains ea eb where "g' = set_ipc (set_ipc g a ea) b eb" "endpoint_ok ea" "endpoint_ok eb" "ipc_refs ea = {}" "ipc_refs eb = {}"
    "rs_items (ipc_pending ea) = []" "rs_items (ipc_pending eb) = []" "ipc_waiters ea = []" "ipc_waiters eb = []"
    "ipc_peer ea = b" "ipc_peer eb = a"
proof -
  let ?cap = "unat (min (max depth 1) IPC_MAX_QUEUE_DEPTH)"
  have cap: "0 < ?cap" by (auto simp: unat_gt_0 IPC_MAX_QUEUE_DEPTH_def min_def max_def split: if_splits)
  obtain e f where ef: "IpcInner_new (fst ma) (snd ma) ?cap = Some e" "IpcInner_new (fst mb) (snd mb) ?cap = Some f"
    "g' = set_ipc (set_ipc g a (e\<lparr>ipc_peer := b\<rparr>)) b (f\<lparr>ipc_peer := a\<rparr>)"
    using assms by (auto simp: try_new_pair_def Let_def split: option.splits)
  show thesis
    using IpcInner_new_ok [OF ef(1) cap] IpcInner_new_ok [OF ef(2) cap] ef(3)
    by (intro that [of "e\<lparr>ipc_peer := b\<rparr>" "f\<lparr>ipc_peer := a\<rparr>"]) (simp_all add: endpoint_ok_def ipc_refs_def)
qed

text \<open>One endpoint appears where nothing was, with no messages; its peer is not yet of concern.\<close>

lemma new_endpoint_dl:
  assumes "dl_inv {} g" "sk_objs g ob = None" "rs_items (ipc_pending e) = []" "MAX_PENDING_SENDS * Suc (card (endpoints g)) \<le> deadline_slots g DPendingSend"
  shows "dl_inv {} (set_ipc g ob e)" (is "dl_inv {} ?g")
proof (rule dl_invI)
  note d = dl_invD [OF assms(1)]
  have objs: "sk_objs ?g = (sk_objs g)(ob \<mapsto> WIpc e)" by (simp add: set_ipc_def)
  note v = upd_views [OF objs]
  have tv: "timer_view ?g = timer_view g" using assms(2) by (auto simp: v fun_eq_iff pick_timer_def pick_views)
  have h: "held_sends ?g = held_sends g" using assms(2,3) by (auto simp: fun_eq_iff held_sends_view v pick_ipc_def) (simp add: pick_views)
  have en: "endpoints ?g = insert ob (endpoints g)" by (auto simp: endpoints_view v pick_ipc_def split: if_splits)
  have fr: "targets ?g = targets g" "blocked ?g = blocked g" "deadline_view ?g = deadline_view g" "deadlines ?g = deadlines g"
      "deadline_slots ?g = deadline_slots g" "sk_blocked ?g = sk_blocked g"
    by (simp_all add: set_ipc_def targets_def blocked_def deadline_view_def fun_eq_iff)
  show "slots_ok ?g" by (rule slots_ok_deadlines [OF d(1) fr(4,5)])
  have "card (insert ob (endpoints g)) \<le> Suc (card (endpoints g))" by (rule card_insert_le_m1) simp_all
  then have "MAX_PENDING_SENDS * card (endpoints ?g) \<le> deadline_slots g DPendingSend"
    using assms(4) unfolding en by (meson mult_le_mono2 order_trans)
  then show "slots_enough ?g" using d(8) by (simp add: slots_enough_def fr h tv en)
  show "timer_ok {} ?g x w" if "timer_view ?g x = Some w" for x w using d(5) that by (simp add: tv timer_ok_def fr)
  show "po \<in> live_sends ?g c" if "TPendingSend po c \<in># targets ?g" for po c using d(7) that by (simp add: fr live_sends_cong [OF h])
  show "timer_view ?g x \<noteq> None" if "TTimer x \<in># targets ?g" for x using d(6) [of x] that unfolding fr tv by blast
  show "deadline_view ?g th = Some True" if "TThread th \<in># targets ?g" for th using d(3) that by (simp only: fr)
  show "TThread th \<in># targets ?g" if "th \<in> blocked ?g" "deadline_view ?g th = Some True" for th using d(4) that by (simp only: fr)
  show "count (targets ?g) t \<le> 1" for t using d(2) by (simp only: fr)
qed

lemma set_ipc_frame: "deadline_slots (set_ipc g ob e) = deadline_slots g"
  by (simp add: set_ipc_def)

lemma set_ipc_endpoints: "endpoints (set_ipc g ob e) = insert ob (endpoints g)"
  by (auto simp: endpoints_def set_ipc_def get_ipc_def)

lemma pair_ipc:
  assumes inv: "ipc_inv g" and n: "sk_objs g a = None" "sk_objs g b = None" "a \<noteq> b" "a \<noteq> 0" "b \<noteq> 0"
    and e: "endpoint_ok ea" "endpoint_ok eb" "ipc_refs ea = {}" "ipc_refs eb = {}"
      "rs_items (ipc_pending ea) = []" "rs_items (ipc_pending eb) = []" "ipc_peer ea = b" "ipc_peer eb = a"
  shows "ipc_inv (set_ipc (set_ipc g a ea) b eb)" (is "ipc_inv ?g")
proof -
  let ?fa = "ea\<lparr>ipc_waiters := []\<rparr>" and ?fb = "eb\<lparr>ipc_waiters := []\<rparr>"
  have objs: "sk_objs ?g = (sk_objs g)(a \<mapsto> WIpc ea, b \<mapsto> WIpc eb)" by (simp add: set_ipc_def)
  have iv: "ipc_view ?g x = (if x = b then Some ?fb else if x = a then Some ?fa else ipc_view g x)" for x
    by (simp add: pick_views objs pick_ipc_def)
  have pd: "po_done ?g = po_done g" using n(1,2) by (auto simp: fun_eq_iff pick_views objs pick_po_def)
  have old: "ipc_view g a = None" "ipc_view g b = None" using n(1,2) by (simp_all add: pick_views)
  have h: "held_sends ?g = held_sends g" using e(5,6) old by (auto simp: fun_eq_iff held_sends_view iv)
  then have sp: "send_pos ?g = send_pos g" by (simp add: send_pos_def fun_eq_iff)
  have en: "endpoints ?g = endpoints g \<union> {a, b}" by (auto simp: endpoints_view iv split: if_splits)
  have pe: "peer_of ?g x = (if x = b then a else if x = a then b else peer_of g x)" for x
    using e(7,8) by (simp add: peer_of_view iv)
  have pa: "peer_of g a = 0" "peer_of g b = 0" by (simp_all add: peer_of_view old)
  have pk: "0 \<notin> endpoints g" "\<And>x. peer_of g x \<noteq> 0 \<Longrightarrow> peer_of g x \<noteq> x \<and> peer_of g (peer_of g x) = x"
    using inv unfolding ipc_inv_def peers_ok_def by blast+
  have "peers_ok ?g" unfolding peers_ok_def
  proof (intro conjI allI impI)
    show "0 \<notin> endpoints ?g" using pk(1) n(4,5) by (simp add: en)
    fix x
    assume nz: "peer_of ?g x \<noteq> 0"
    show "peer_of ?g x \<noteq> x" using nz pk(2) [of x] n(3) by (auto simp: pe split: if_splits)
    show "peer_of ?g (peer_of ?g x) = x"
    proof (cases "x = a \<or> x = b")
      case False
      then have x: "peer_of g x \<noteq> 0" "peer_of g (peer_of g x) = x" using nz pk(2) [of x] by (simp_all add: pe)
      then have "peer_of g x \<noteq> a" "peer_of g x \<noteq> b" using pa pk(1) by (auto simp: peer_of_view endpoints_view split: option.splits)
      then show ?thesis using x False by (simp add: pe)
    qed (use n(3) in \<open>auto simp: pe\<close>)
  qed
  moreover have "sends_ok ?g" using inv by (simp add: ipc_inv_def sends_ok_def sp h pd) (simp add: set_ipc_def)
  moreover have "endpoint_ok f" if "ipc_view ?g x = Some f" for x f
    using that inv e(1,2) by (auto simp: iv ipc_inv_def endpoint_ok_def split: if_splits)
  moreover have "ipc_refs ?fa = {}" "ipc_refs ?fb = {}" using e(3,4) by (simp_all add: ipc_refs_def)
  then have "holds ?g \<subseteq> holds g \<union> (UNIV \<times> {a, b})" "a \<notin> Domain (holds ?g)" "b \<notin> Domain (holds ?g)"
    by (auto simp: holds_view iv en split: if_splits)
  then have "acyclic (holds ?g)" using inv by (intro acyclic_sinks [of "holds g" "holds ?g" "{a, b}"]) (auto simp: ipc_inv_def)
  ultimately show ?thesis by (simp add: ipc_inv_def)
qed

lemma try_new_pair_sched:
  assumes "sched_inv {} g" "try_new_pair ma mb g a b depth = Some g'" "sk_objs g a = None" "sk_objs g b = None" "a \<noteq> b" "a \<noteq> 0" "b \<noteq> 0"
    and "needed g DPendingSend + 2 * MAX_PENDING_SENDS \<le> deadline_slots g DPendingSend"
  shows "sched_inv {} g'"
proof -
  note i = sched_invD [OF assms(1)]
  obtain ea eb where e: "g' = set_ipc (set_ipc g a ea) b eb" "endpoint_ok ea" "endpoint_ok eb" "ipc_refs ea = {}" "ipc_refs eb = {}"
    "rs_items (ipc_pending ea) = []" "rs_items (ipc_pending eb) = []" "ipc_waiters ea = []" "ipc_waiters eb = []"
    "ipc_peer ea = b" "ipc_peer eb = a" using try_new_pair_cases [OF assms(2)] .
  have b: "sk_objs (set_ipc g a ea) b = None" using assms(4,5) by (simp add: set_ipc_def)
  have "card (endpoints (set_ipc g a ea)) \<le> Suc (card (endpoints g))"
    unfolding set_ipc_endpoints by (rule card_insert_le_m1) simp_all
  then have c: "MAX_PENDING_SENDS * Suc (card (endpoints (set_ipc g a ea))) \<le> deadline_slots g DPendingSend"
    using assms(8) by (simp add: needed_def MAX_PENDING_SENDS_def)
  have "dl_inv {} (set_ipc g a ea)" using assms(8) by (intro new_endpoint_dl i assms(3) e(6)) (simp add: needed_def MAX_PENDING_SENDS_def)
  then have "dl_inv {} g'" unfolding e(1) using c by (intro new_endpoint_dl [OF _ b e(7)]) (simp_all only: set_ipc_frame)
  moreover have "wait_inv {} (set_ipc g a ea)" unfolding set_ipc_def by (rule new_wait [OF i(1) assms(3)]) (simp add: e(8))
  then have "wait_inv {} g'" unfolding e(1) set_ipc_def [of _ b] by (rule new_wait [OF _ b]) (simp add: e(9))
  moreover have "ipc_inv g'" unfolding e(1) by (rule pair_ipc [OF i(3) assms(3-7) e(2-7,10,11)])
  ultimately show ?thesis by (simp add: sched_inv_def)
qed

section \<open>Threads\<close>

text \<open>A thread outside a wait comes or goes.\<close>

definition outside_wait :: "ThreadWait option \<Rightarrow> bool" where
  "outside_wait o' = (case o' of None \<Rightarrow> True | Some t \<Rightarrow> thread_ok t \<and> th_phase t = PRunning)"

lemma thread_sched:
  assumes "sched_inv {} g" "outside_wait (sk_threads g th)" "outside_wait v"
    and "card (dom ((sk_threads g)(th := v))) \<le> deadline_slots g DThread" "card (dom ((sk_threads g)(th := v))) \<le> rs_cap (sk_blocked g)"
  shows "sched_inv {} (g\<lparr>sk_threads := (sk_threads g)(th := v)\<rparr>)" (is "sched_inv {} ?g")
proof -
  note i = sched_invD [OF assms(1)] and d = dl_invD [OF sched_invD(2) [OF assms(1)]] and w = wait_invD [OF sched_invD(1) [OF assms(1)]]
  have out: "th_wait_count t = 0" "\<not> th_has_deadline t" "th_phase t \<noteq> PWaiting" if "sk_threads g th = Some t \<or> v = Some t" for t
    using that assms(2,3) by (auto simp: outside_wait_def thread_ok_def)
  have fr: "contents ?g = contents g" "blocked ?g = blocked g" "targets ?g = targets g" "obj_waiters ?g = obj_waiters g" "obj_settled ?g = obj_settled g"
    by (simp_all add: contents_def blocked_def targets_def obj_waiters_def obj_settled_def fun_eq_iff)
  note c = same_contents [OF fr(1)]
  have nb: "th \<notin> blocked g" using w(2) out(3) by auto
  have wt: "waiting ?g x = waiting g x" for x using out(1) by (simp add: waiting_def waiting_on_def split: option.split)
  have dv: "x \<noteq> th \<Longrightarrow> deadline_view ?g x = deadline_view g x" "deadline_view ?g th \<noteq> Some True" "deadline_view g th \<noteq> Some True" for x
    using out(2) by (auto simp: deadline_view_def)
  have dom: "dom (deadline_view ?g) = dom ((sk_threads g)(th := v))" "dom (deadline_view g) = dom (sk_threads g)" by (auto simp: deadline_view_def split: if_splits)
  have "wait_inv {} ?g"
  proof (rule wait_invI)
    show "x \<in> blocked ?g \<longleftrightarrow> (\<exists>t. sk_threads ?g x = Some t \<and> th_phase t = PWaiting)" for x
      using w(2) [of x] nb out(3) by (auto simp: fr)
    show "thread_ok t'" if "sk_threads ?g x = Some t'" for x t'
      using that w(7) assms(3) by (auto simp: outside_wait_def split: if_splits)
    show "True \<notin> set (marks t')" if "x \<in> blocked ?g" "sk_threads ?g x = Some t'" for x t' using that w(6) nb by (auto simp: fr split: if_splits)
  qed (use w(1,3,4,5) in \<open>simp_all add: fr wt\<close>)
  moreover have "dl_inv {} ?g"
  proof (rule dl_invI)
    show "slots_ok ?g" by (rule slots_ok_deadlines [OF d(1)]) simp_all
    show "timer_ok {} ?g x v" if "timer_view ?g x = Some v" for x v using d(5) that by (simp add: c timer_ok_def fr)
    have "finite (dom ((sk_threads g)(th := v)))" using d(8) dom(2) by (simp add: slots_enough_def)
    then show "slots_enough ?g" using d(8) assms(4,5) by (simp add: slots_enough_def c dom(1))
    show "po \<in> live_sends ?g c" if "TPendingSend po c \<in># targets ?g" for po c using d(7) that by (simp add: fr live_sends_cong [OF c(4)])
    show "timer_view ?g x \<noteq> None" if "TTimer x \<in># targets ?g" for x using d(6) [of x] that unfolding fr c .
    show "deadline_view ?g x = Some True" if "TThread x \<in># targets ?g" for x using d(3) [of x] that dv(1) [of x] dv(3) unfolding fr by metis
    show "TThread x \<in># targets ?g" if "x \<in> blocked ?g" "deadline_view ?g x = Some True" for x
      using d(4) [of x] that dv(1) [of x] dv(2) unfolding fr by metis
    show "count (targets ?g) x \<le> 1" for x using d(2) by (simp only: fr)
  qed
  moreover have "ipc_inv ?g" by (rule ipc_inv_same [OF i(3) fr(1)]) simp
  ultimately show ?thesis by (simp add: sched_inv_def)
qed

lemma threads_needed: "needed g DThread = card (dom (sk_threads g))"
  by (simp add: needed_def deadline_view_def dom_def)

lemma new_thread_sched:
  assumes "sched_inv {} g" "sk_threads g th = None" "needed g DThread < deadline_slots g DThread" "needed g DThread < rs_cap (sk_blocked g)"
  shows "sched_inv {} (g\<lparr>sk_threads := (sk_threads g)(th \<mapsto> Thread_new pid)\<rparr>)"
proof -
  have "card (insert th (dom (sk_threads g))) \<le> Suc (card (dom (sk_threads g)))" by (rule card_insert_le_m1) simp_all
  then show ?thesis using assms(2-)
    by (intro thread_sched [OF assms(1)]) (simp_all add: threads_needed outside_wait_def Thread_new_def thread_ok_def)
qed

lemma drop_thread_sched:
  assumes "sched_inv {} g" "sk_threads g th = Some t" "th_phase t = PRunning"
  shows "sched_inv {} (g\<lparr>sk_threads := (sk_threads g)(th := None)\<rparr>)"
proof -
  have s: "slots_enough g" using assms(1) by (simp add: sched_inv_def dl_inv_def)
  then have "finite (dom (sk_threads g))" "card (dom (sk_threads g)) \<le> deadline_slots g DThread" "card (dom (sk_threads g)) \<le> rs_cap (sk_blocked g)"
    by (simp_all add: slots_enough_def deadline_view_def dom_def)
  moreover have "card (dom (sk_threads g) - {th}) \<le> card (dom (sk_threads g))" by (rule card_mono) (use calculation in auto)
  ultimately show ?thesis
    using assms(2,3) wait_invD(7) [OF sched_invD(1) [OF assms(1)] assms(2)] by (intro thread_sched [OF assms(1)]) (simp_all add: outside_wait_def)
qed

section \<open>Objects and registrations dropped\<close>

lemma drop_plain_sched:
  assumes "sched_inv {} g" "unreferenced g ob" "timer_view g ob = None" "ipc_view g ob = None"
  shows "sched_inv {} (drop_obj g ob)" (is "sched_inv {} ?g")
proof -
  note i = sched_invD [OF assms(1)] and d = dl_invD [OF sched_invD(2) [OF assms(1)]]
  have objs: "sk_objs ?g = (sk_objs g)(ob := None)" by (simp add: drop_obj_def)
  note v = remove_views [OF objs]
  have "wait_inv {} ?g" unfolding drop_obj_def by (rule remove_wait [OF i(1)]) (use assms(2) in \<open>simp add: unreferenced_def\<close>)
  moreover have "TTimer ob \<notin># targets g" using d(6) assms(3) by blast
  moreover have "TPendingSend po ob \<notin># targets g" for po
    using d(7) [of po ob] live_endpoint [of po g ob] assms(4) by (auto simp: endpoints_view)
  ultimately have "wait_inv {} ?g" "dl_inv {} ?g" unfolding drop_obj_def using remove_dl [OF i(2)] by blast+
  moreover have "ipc_view ?g = ipc_view g" using assms(4) by (simp add: v fun_upd_idem)
  then have "ipc_inv ?g"
  proof (rule ipc_inv_cong [OF i(3)])
    show "po_done ?g po = po_done g po" if "po \<in> set (send_pos g c)" for c po using assms(2) that by (auto simp: v unreferenced_def)
  qed (simp add: drop_obj_def)
  ultimately show ?thesis by (simp add: sched_inv_def)
qed

lemma Timer_drop_sched:
  assumes "sched_inv {} g" "get_timer g ob = Some t" "unreferenced g ob"
  shows "sched_inv {} (Timer_drop g ob)" (is "sched_inv {} ?g")
proof -
  note i = sched_invD [OF assms(1)] and u = unheap_spec [OF assms(1,2)]
  let ?u = "unheap g ob"
  have objs: "sk_objs ?g = (sk_objs ?u)(ob := None)" "sk_objs ?g = (sk_objs g)(ob := None)"
    using u(1) by (simp_all add: Timer_drop_def timer_closing_def drop_obj_def)
  note v = remove_views [OF objs(2)] and du = dl_invD [OF u(6)]
  have g: "?g = ?u\<lparr>sk_objs := (sk_objs ?u)(ob := None)\<rparr>" by (simp add: Timer_drop_def timer_closing_def drop_obj_def)
  have tu: "timer_view ?u ob = Some (tm_deadline_ns t, tm_interval_ns t, False)" "ipc_view ?u ob = None"
    using u(1) by (simp_all add: pick_views pick_timer_def pick_ipc_def)
  have "TTimer ob \<notin># targets ?u" using du(5) [OF tu(1)] by (simp add: timer_ok_def)
  moreover have "TPendingSend po ob \<notin># targets ?u" for po
    using du(7) [of po ob] live_endpoint [of po ?u ob] tu(2) by (auto simp: endpoints_view)
  ultimately have "dl_inv {ob} ?g" unfolding g using remove_dl [OF u(6)] by blast
  then have "dl_inv {} ?g" by (rule dl_inv_exempt) (simp add: v split: if_splits)
  moreover have "wait_inv {} ?g"
  proof (rule wait_inv_cong [OF remove_wait [OF i(1), of ob]])
    show "ob \<notin> set (waiting g th)" for th using assms(3) by (simp add: unreferenced_def)
  qed (use u objs(2) in \<open>auto simp: g obj_waiters_def obj_settled_def\<close>)
  moreover have "ipc_inv ?g"
  proof (rule ipc_inv_cong [OF i(3)])
    have "ipc_view g ob = None" using assms(2) by (simp add: pick_views get_timer_Some pick_ipc_def)
    then show "ipc_view ?g = ipc_view g" by (simp add: v fun_upd_idem)
    show "po_done ?g po = po_done g po" if "po \<in> set (send_pos g c)" for c po using assms(3) that by (auto simp: v unreferenced_def)
  qed (use u(4) in \<open>simp add: g\<close>)
  ultimately show ?thesis by (simp add: sched_inv_def)
qed

lemma new_reg_sched: "sched_inv {} g \<Longrightarrow> sched_inv {} (g\<lparr>sk_regs := (sk_regs g)(reg \<mapsto> UsReg_new ep)\<rparr>)"
proof (rule set_regs_sched, assumption)
  fix r u po c
  assume inv: "sched_inv {} g" and u: "((sk_regs g)(reg \<mapsto> UsReg_new ep)) r = Some u" "po \<in> reg_pos u"
  have "reg_pos (UsReg_new ep) = {}" by (simp add: reg_pos_def UsReg_new_def table_def)
  then have "r \<noteq> reg" using u by auto
  then show "po \<notin> set (send_pos g c)" using u sends_okD(4) [OF sched_invD(3) [OF inv]] by auto
qed

lemma UsReg_drop_sched: "sched_inv {} g \<Longrightarrow> sched_inv {} (UsReg_drop g reg)"
proof -
  assume "sched_inv {} g"
  then have inv: "sched_inv {} (us_reg_detach g reg)" by (rule us_reg_detach_sched)
  show ?thesis unfolding UsReg_drop_def Let_def
    by (rule set_regs_sched [OF inv]) (use sends_okD(4) [OF sched_invD(3) [OF inv]] in \<open>auto split: if_splits\<close>)
qed

end
