(* ===== verification/Sched_Steps.thy ===== *)
theory Sched_Steps
  imports Sched_Life
begin

text \<open>
  The scheduler as a transition system. A step is one hold of \<^verbatim>\<open>SCHED\<close>: one operation of
  \<^verbatim>\<open>kernel/src/sched\<close> on the state behind the lock, so every interleaving of threads, processors and
  interrupts is a sequence of steps. A rule's premises are what the caller of the operation
  guarantees: who runs is not in a wait, an address is live or free, a reference pins its object.
\<close>

inductive sched_step :: "SchedState \<Rightarrow> SchedState \<Rightarrow> bool" where
  wait_enters: "sk_threads g me = Some t \<Longrightarrow> th_phase t = PRunning \<Longrightarrow> length objs \<le> MAX_WAIT_HANDLES
    \<Longrightarrow> wait_enter g me objs deadline now heed = Some (g', r) \<Longrightarrow> sched_step g g'"
| wait_finishes: "sk_threads g me = Some t \<Longrightarrow> th_phase t = PWoken
    \<Longrightarrow> wait_finish g me (waiting g me) = Some (g', r) \<Longrightarrow> sched_step g g'"
| tick: "now \<noteq> -1 \<Longrightarrow> fire_expired_deadlines now g = Some g' \<Longrightarrow> sched_step g g'"
| arms: "get_timer g ob = Some t \<Longrightarrow> timer_arm g ob deadline interval = Some (g', ok) \<Longrightarrow> sched_step g g'"
| notifies: "sched_step g (fst (notify g chan n))"
| receives_notification: "sched_step g (fst (notif_try_recv g chan))"
| completes: "(\<And>c. po \<notin> set (send_pos g c)) \<Longrightarrow> sched_step g (complete_pending_op g po status res)"
| completes_lookup: "(\<And>c. po \<notin> set (send_pos g c)) \<Longrightarrow> sched_step g (fst (complete_lookup g po status parked))"
| takes_completion: "sched_step g (fst (pending_op_take g po))"
| installs: "sched_step g (pending_op_installed g po outcome)"
| interrupts: "sched_step g (signal_interrupt g irq)"
| acknowledges: "sched_step g (interrupt_consume g irq)"
| sends: "sched_step g (fst (ipc_send_push g ob m ts))"
| sends_blocking: "po_free g po \<Longrightarrow> ipc_send_push_blocking g ob m ts po deadline = Some (g', ts', r) \<Longrightarrow> sched_step g g'"
| receives: "sched_step g (fst (ipc_recv_pop_into g ob))"
| forwards_notice: "sched_step g (fst (us_forward_notify g reg m))"
| forwards_lookup: "(\<And>c. po \<notin> set (send_pos g c)) \<Longrightarrow> sched_step g (fst (us_forward_originate g reg m po rights suffix fwd))"
| forwards_fill: "(\<And>c. po \<notin> set (send_pos g c)) \<Longrightarrow> sched_step g (fst (us_forward_originate_fill g reg m po fo frame index))"
| takes_lookup: "sched_step g (fst (us_forward_take_pending g reg rid))"
| takes_fill: "sched_step g (fst (us_forward_take_pending_fill g reg rid))"
| attaches: "sched_step g (fst (us_server_attach acquirable g ob reg))"
| ends_process: "sched_step g (end_blocked g pid)"
| promises: "reserve_slots [] g slots = Some (g', True) \<Longrightarrow> sched_step g g'"
| regrows: "regrow (deadlines g) \<lparr>rs_items = [], rs_cap = n\<rparr> = Some (h, spare) \<Longrightarrow> sched_step g (g\<lparr>deadlines := h\<rparr>)"
| releases: "needed g (Slots_kind slots) + Slots_count slots \<le> deadline_slots g (Slots_kind slots)
    \<Longrightarrow> release_slots g slots = Some g' \<Longrightarrow> sched_step g g'"
| new_timer: "sk_objs g ob = None \<Longrightarrow> needed g DTimer < deadline_slots g DTimer \<Longrightarrow> sched_step g (set_timer g ob TimerInner_new)"
| new_pair: "sk_objs g a = None \<Longrightarrow> sk_objs g b = None \<Longrightarrow> a \<noteq> b \<Longrightarrow> a \<noteq> 0 \<Longrightarrow> b \<noteq> 0
    \<Longrightarrow> needed g DPendingSend + 2 * MAX_PENDING_SENDS \<le> deadline_slots g DPendingSend
    \<Longrightarrow> try_new_pair mem_a mem_b g a b depth = Some g' \<Longrightarrow> sched_step g g'"
| new_channel: "sk_objs g ob = None \<Longrightarrow> NotifInner_new mem = Some c \<Longrightarrow> sched_step g (g\<lparr>sk_objs := (sk_objs g)(ob \<mapsto> WNotif c)\<rparr>)"
| new_operation: "sk_objs g ob = None \<Longrightarrow> sched_step g (g\<lparr>sk_objs := (sk_objs g)(ob \<mapsto> WPo PendingOpInner_new)\<rparr>)"
| new_interrupt: "sk_objs g ob = None \<Longrightarrow> sched_step g (g\<lparr>sk_objs := (sk_objs g)(ob \<mapsto> WIrq InterruptInner_new)\<rparr>)"
| new_thread: "sk_threads g th = None \<Longrightarrow> needed g DThread < deadline_slots g DThread \<Longrightarrow> needed g DThread < rs_cap (sk_blocked g)
    \<Longrightarrow> sched_step g (g\<lparr>sk_threads := (sk_threads g)(th \<mapsto> Thread_new pid)\<rparr>)"
| new_registration: "sk_regs g reg = None \<Longrightarrow> sched_step g (g\<lparr>sk_regs := (sk_regs g)(reg \<mapsto> UsReg_new ep)\<rparr>)"
| drops_timer: "get_timer g ob = Some t \<Longrightarrow> unreferenced g ob \<Longrightarrow> sched_step g (Timer_drop g ob)"
| drops_endpoint: "get_ipc g ob = Some e \<Longrightarrow> unreferenced g ob \<Longrightarrow> sched_step g (close_endpoint g ob)"
| drops_plain: "unreferenced g ob \<Longrightarrow> get_timer g ob = None \<Longrightarrow> get_ipc g ob = None \<Longrightarrow> sched_step g (drop_obj g ob)"
| drops_thread: "sk_threads g th = Some t \<Longrightarrow> th_phase t = PRunning \<Longrightarrow> sched_step g (g\<lparr>sk_threads := (sk_threads g)(th := None)\<rparr>)"
| drops_registration: "sched_step g (UsReg_drop g reg)"

inductive sched_reach :: "SchedState \<Rightarrow> bool" where
  boots: "boot \<noteq> reaper \<Longrightarrow> sched_reach (sched_init boot reaper)"
| steps: "sched_reach g \<Longrightarrow> sched_step g g' \<Longrightarrow> sched_reach g'"

section \<open>Slots\<close>

lemma slots_sched:
  assumes "sched_inv {} g" "slots_ok (g\<lparr>deadlines := h, deadline_slots := s\<rparr>)" "heap_held h = heap_held (deadlines g)"
    and "\<And>k. needed g k \<le> s k"
  shows "sched_inv {} (g\<lparr>deadlines := h, deadline_slots := s\<rparr>)" (is "sched_inv {} ?g")
proof -
  note i = sched_invD [OF assms(1)] and d = dl_invD [OF sched_invD(2) [OF assms(1)]]
  have c0: "contents ?g = contents g" by (simp add: contents_def fun_eq_iff)
  note c = same_contents [OF c0]
  have fr: "targets ?g = targets g" "blocked ?g = blocked g" "deadline_view ?g = deadline_view g"
    using assms(3) by (simp_all add: targets_def blocked_def deadline_view_def fun_eq_iff)
  have "wait_inv {} ?g" by (rule wait_inv_cong [OF i(1)]) (simp_all add: obj_waiters_def obj_settled_def)
  moreover have "ipc_inv ?g" by (rule ipc_inv_same [OF i(3) c0]) simp
  moreover have "dl_inv {} ?g"
  proof (rule dl_invI [OF assms(2)])
    show "timer_ok {} ?g x v" if "timer_view ?g x = Some v" for x v using d(5) that assms(3) by (simp add: c timer_ok_def fr)
    have "needed g DThread \<le> s DThread" "needed g DTimer \<le> s DTimer" "needed g DPendingSend \<le> s DPendingSend" using assms(4) by blast+
    then show "slots_enough ?g" using d(8) by (simp add: slots_enough_def needed_def c fr)
    show "po \<in> live_sends ?g c" if "TPendingSend po c \<in># targets ?g" for po c using d(7) that by (simp add: fr live_sends_cong [OF c(4)])
    show "timer_view ?g x \<noteq> None" if "TTimer x \<in># targets ?g" for x using d(6) [of x] that unfolding fr c .
    show "deadline_view ?g x = Some True" if "TThread x \<in># targets ?g" for x using d(3) [of x] that unfolding fr .
    show "TThread x \<in># targets ?g" if "x \<in> blocked ?g" "deadline_view ?g x = Some True" for x using d(4) [of x] that unfolding fr .
    show "count (targets ?g) x \<le> 1" for x using d(2) by (simp only: fr)
  qed
  ultimately show ?thesis by (simp add: sched_inv_def)
qed

lemma promises_sched:
  assumes "sched_inv {} g" "reserve_slots [] g slots = Some (g', True)"
  shows "sched_inv {} g'"
proof -
  note i = sched_invD [OF assms(1)]
  let ?s = "(deadline_slots g)(Slots_kind slots := deadline_slots g (Slots_kind slots) + Slots_count slots)"
  have room: "promised_slots g + Slots_count slots \<le> rs_cap (deadlines g)" and g': "g' = g\<lparr>deadline_slots := ?s\<rparr>"
    using assms(2) by (auto simp: reserve_slots.simps Let_def split: if_splits option.splits)
  have "needed g k \<le> ?s k" for k using possible_needed(3) [OF dl_invD(8) [OF i(2)], of k] by auto
  then have "sched_inv {} (g\<lparr>deadlines := deadlines g, deadline_slots := ?s\<rparr>)"
    using slots_ok_promise [OF dl_invD(1) [OF i(2)] room] by (intro slots_sched [OF assms(1)]) simp_all
  then show ?thesis by (simp add: g')
qed

lemma regrows_sched:
  assumes "sched_inv {} g" "regrow (deadlines g) \<lparr>rs_items = [], rs_cap = n\<rparr> = Some (h, spare)"
  shows "sched_inv {} (g\<lparr>deadlines := h\<rparr>)"
proof -
  note i = sched_invD [OF assms(1)]
  have "slots_ok (g\<lparr>deadlines := h\<rparr>)" "rs_items h = rs_items (deadlines g)"
    using regrow_keeps [OF dl_invD(1) [OF i(2)], of n] assms(2) by auto
  then have "sched_inv {} (g\<lparr>deadlines := h, deadline_slots := deadline_slots g\<rparr>)"
    using possible_needed(3) [OF dl_invD(8) [OF i(2)]] by (intro slots_sched [OF assms(1)]) (simp_all add: heap_held_def)
  then show ?thesis by simp
qed

lemma releases_sched:
  assumes "sched_inv {} g" "needed g (Slots_kind slots) + Slots_count slots \<le> deadline_slots g (Slots_kind slots)" "release_slots g slots = Some g'"
  shows "sched_inv {} g'"
proof -
  note i = sched_invD [OF assms(1)] and s = dl_invD(1) [OF sched_invD(2) [OF assms(1)]]
  let ?k = "Slots_kind slots"
  let ?s = "(deadline_slots g)(?k := deadline_slots g ?k - Slots_count slots)"
  have g': "g' = g\<lparr>deadline_slots := ?s\<rparr>" using assms(3) by (simp add: release_slots_def split: if_splits)
  have n: "needed g k \<le> ?s k" for k using possible_needed(3) [OF dl_invD(8) [OF i(2)], of k] assms(2) by auto
  then have "kind_held (heap_held (deadlines g)) k \<le> ?s k" for k using kinds_needed [OF i(2), of k] le_trans by blast
  moreover have "promised_slots (g\<lparr>deadline_slots := ?s\<rparr>) \<le> promised_slots g" by (cases slots) (simp_all add: promised_slots_def)
  ultimately have "slots_ok (g\<lparr>deadline_slots := ?s\<rparr>)" using s by (simp add: slots_ok_def)
  then have "sched_inv {} (g\<lparr>deadlines := deadlines g, deadline_slots := ?s\<rparr>)" using n by (intro slots_sched [OF assms(1)]) simp_all
  then show ?thesis by (simp add: g')
qed

section \<open>The invariant\<close>

lemmas plain_step_keeps =
  notify_sched notif_try_recv_sched pending_op_take_sched pending_op_installed_sched signal_interrupt_sched interrupt_consume_sched
  ipc_send_push_sched(1) ipc_recv_pop_sched us_forward_notify_sched us_forward_originate_sched us_forward_originate_fill_sched
  us_forward_take_pending_sched us_server_attach_sched end_blocked_sched complete_lookup_sched signal_pending_op_sched
  new_timer_sched new_thread_sched new_reg_sched drop_thread_sched UsReg_drop_sched promises_sched regrows_sched releases_sched

lemma new_objects_plain:
  "w_waiters (WPo PendingOpInner_new) = []" "pick_timer (WPo p) = None" "pick_ipc (WPo p) = None"
  "w_waiters (WIrq InterruptInner_new) = []" "pick_timer (WIrq q) = None" "pick_ipc (WIrq q) = None"
  "NotifInner_new mem = Some c \<Longrightarrow> w_waiters (WNotif c) = []" "pick_timer (WNotif c) = None" "pick_ipc (WNotif c) = None"
  by (auto simp: PendingOpInner_new_def InterruptInner_new_def NotifInner_new_def pick_timer_def pick_ipc_def split: if_splits)

lemma sched_step_keeps:
  assumes "sched_step g g'" "sched_inv {} g"
  shows "sched_inv {} g'"
  using assms
proof (induction rule: sched_step.induct)
  case (wait_enters g me t objs deadline now heed g' r)
  then show ?case using wait_enter_sched [of g me t objs deadline now heed] by auto
next
  case (wait_finishes g me t g' r)
  then have "me \<notin> blocked g" using wait_invD(2) [OF sched_invD(1)] by auto
  with wait_finishes show ?case using wait_finish_sched [of g me t] by auto
next
  case (tick now g g')
  then show ?case using tick_loop [of g now] by auto
next
  case (arms g ob t deadline interval g' ok)
  then show ?case using timer_arm_spec [of g ob t deadline interval] by (metis fst_conv option.inject)
next
  case (sends_blocking g po ob m ts deadline g' ts' r)
  then show ?case using ipc_send_push_blocking_sched [of g po ob m ts deadline] by auto
next
  case (new_pair g a b mem_a mem_b depth g')
  then show ?case using try_new_pair_sched by blast
next
  case (drops_timer g ob t)
  then show ?case using Timer_drop_sched by blast
next
  case (drops_endpoint g ob e)
  then show ?case using close_endpoint_sched(1) by (auto simp: unreferenced_def)
next
  case (drops_plain g ob)
  then show ?case by (intro drop_plain_sched) (simp_all add: timer_view_def ipc_view_get(3))
next
  case (completes po g status res)
  then show ?case unfolding complete_pending_op_def by (intro signal_pending_op_sched)
next
  case (new_channel g ob mem c)
  then show ?case by (intro new_plain_sched new_objects_plain)
next
  case (new_operation g ob)
  then show ?case by (intro new_plain_sched new_objects_plain)
next
  case (new_interrupt g ob)
  then show ?case by (intro new_plain_sched new_objects_plain)
qed (auto intro: plain_step_keeps)

lemma sched_reach_inv: "sched_reach g \<Longrightarrow> sched_inv {} g"
  by (induction rule: sched_reach.induct) (auto intro: init_inv sched_step_keeps)

end
