(* ===== verification/Sched_Streams.thy ===== *)
theory Sched_Streams
  imports Sched_Steps
begin

text \<open>
  What an endpoint promises its users: a stream of messages. The stream of an endpoint is its receive
  ring followed by the sends it holds that have not timed out; the contract \<open>message_streams\<close> says
  each operation takes messages from the front of a stream and adds messages to its end, and its client
  lemma that over any sequence of operations nothing is lost, doubled or reordered. The sends and
  the receipt of \<^verbatim>\<open>kernel/src/sched/ipc.rs\<close> meet it.
\<close>

text \<open>What a sequence of operations gives, operation by operation, and whether each is allowed when its turn comes.\<close>

primrec collect :: "('s \<Rightarrow> 'op \<Rightarrow> 's) \<Rightarrow> ('s \<Rightarrow> 'op \<Rightarrow> 'm list) \<Rightarrow> 's \<Rightarrow> 'op list \<Rightarrow> 'm list" where
  "collect perform out s [] = []"
| "collect perform out s (op # ops) = out s op @ collect perform out (perform s op) ops"

primrec allowed_run :: "('s \<Rightarrow> 'op \<Rightarrow> 's) \<Rightarrow> ('s \<Rightarrow> 'op \<Rightarrow> bool) \<Rightarrow> 's \<Rightarrow> 'op list \<Rightarrow> bool" where
  "allowed_run perform allowed s [] = True"
| "allowed_run perform allowed s (op # ops) = (allowed s op \<and> allowed_run perform allowed (perform s op) ops)"

locale message_streams =
  fixes ok :: "'s \<Rightarrow> bool"
    and stream_of :: "'s \<Rightarrow> 'c \<Rightarrow> 'm list"
    and allowed :: "'s \<Rightarrow> 'op \<Rightarrow> bool"
    and perform :: "'s \<Rightarrow> 'op \<Rightarrow> 's"
    and added :: "'s \<Rightarrow> 'op \<Rightarrow> 'c \<Rightarrow> 'm list"
    and taken :: "'s \<Rightarrow> 'op \<Rightarrow> 'c \<Rightarrow> 'm list"
  assumes perform_ok: "ok s \<Longrightarrow> allowed s op \<Longrightarrow> ok (perform s op)"
    and perform_stream: "ok s \<Longrightarrow> allowed s op \<Longrightarrow> taken s op c @ stream_of (perform s op) c = stream_of s c @ added s op c"
begin

lemma history:
  "ok s \<Longrightarrow> allowed_run perform allowed s ops \<Longrightarrow>
    collect perform (\<lambda>s op. taken s op c) s ops @ stream_of (foldl perform s ops) c = stream_of s c @ collect perform (\<lambda>s op. added s op c) s ops"
proof (induction ops arbitrary: s)
  case (Cons op ops)
  let ?s = "perform s op"
  have "collect perform (\<lambda>s op. taken s op c) ?s ops @ stream_of (foldl perform ?s ops) c = stream_of ?s c @ collect perform (\<lambda>s op. added s op c) ?s ops"
    using Cons perform_ok by simp
  moreover have "taken s op c @ stream_of ?s c = stream_of s c @ added s op c" using Cons.prems perform_stream by simp
  ultimately show ?case by simp
qed simp

end

section \<open>The stream of an endpoint\<close>

definition undelivered :: "IpcInner \<Rightarrow> (StoredMsg \<times> transfers) list" where
  "undelivered e = mr_contents (ipc_recv e) @ map (\<lambda>p. (ps_msg p, ps_transfers p)) (filter (\<lambda>p. \<not> ps_cancelled p) (rs_items (ipc_pending e)))"

definition stream :: "SchedState \<Rightarrow> u64 \<Rightarrow> (StoredMsg \<times> transfers) list" where
  "stream g c = (case get_ipc g c of None \<Rightarrow> [] | Some e \<Rightarrow> undelivered e)"

lemma stream_view: "stream g c = (case ipc_view g c of None \<Rightarrow> [] | Some e \<Rightarrow> undelivered e)"
  by (simp add: stream_def ipc_view_def undelivered_def split: option.split)

lemma stream_upd:
  assumes "ipc_view g' = (ipc_view g)(c \<mapsto> e')"
  shows "stream g' x = (if x = c then undelivered e' else stream g x)"
  by (simp add: stream_view assms)

lemma stream_same: "ipc_view g' = ipc_view g \<Longrightarrow> stream g' = stream g"
  by (simp add: fun_eq_iff stream_view)

text \<open>Nothing is held while the ring has room, so a message goes behind all others wherever it is put.\<close>

lemma undelivered_pushed:
  assumes "endpoint_ok e" "\<not> mr_is_full (ipc_recv e)"
  shows "undelivered (e\<lparr>ipc_recv := fst (push_from (ipc_recv e) m ts), ipc_waiters := ws\<rparr>) = undelivered e @ [(m, ts)]"
proof -
  have "rs_items (ipc_pending e) = []" "mr_inv (ipc_recv e)" using assms by (auto simp: endpoint_ok_def)
  then show ?thesis using mr_push_spec(2) [OF _ assms(2)] by (simp add: undelivered_def)
qed

lemma undelivered_held: "undelivered (held e \<lparr>ps_msg = m, ps_transfers = ts, ps_po = po, ps_cancelled = False\<rparr>) = undelivered e @ [(m, ts)]"
  by (simp add: undelivered_def held_def)

lemma filter_dropWhile: "filter (\<lambda>x. \<not> P x) xs = filter (\<lambda>x. \<not> P x) (dropWhile P xs)"
  by (induction xs) simp_all

lemma undelivered_received:
  assumes "received e e' pr" "mr_contents (ipc_recv e) \<noteq> []"
  shows "undelivered e = hd (mr_contents (ipc_recv e)) # undelivered e'"
proof (cases pr)
  case None
  then have "filter (\<lambda>p. \<not> ps_cancelled p) (rs_items (ipc_pending e)) = []" using assms(1) by (simp add: received_def filter_empty_conv)
  then show ?thesis using assms None by (simp add: received_def undelivered_def)
next
  case (Some p)
  let ?live = "\<lambda>p. \<not> ps_cancelled p"
  have "filter ?live (rs_items (ipc_pending e)) = filter ?live (dropWhile ps_cancelled (rs_items (ipc_pending e)))"
    by (rule filter_dropWhile)
  then have "filter ?live (rs_items (ipc_pending e)) = p # filter ?live (rs_items (ipc_pending e'))"
    using assms(1) Some by (simp add: received_def)
  then show ?thesis using assms Some by (simp add: received_def undelivered_def)
qed

section \<open>Sends and receipt\<close>

datatype ChannelOp = Send u64 StoredMsg transfers | SendBlocking u64 StoredMsg transfers u64 u64 | Receive u64

fun op_allowed :: "SchedState \<Rightarrow> ChannelOp \<Rightarrow> bool" where
  "op_allowed g (SendBlocking ob m ts po d) = po_free g po"
| "op_allowed g _ = True"

text \<open>A blocking send returns (\<open>ipc_send_push_blocking_sched\<close>), so the state it leaves is the one named here.\<close>

fun op_perform :: "SchedState \<Rightarrow> ChannelOp \<Rightarrow> SchedState" where
  "op_perform g (Send ob m ts) = fst (ipc_send_push g ob m ts)"
| "op_perform g (SendBlocking ob m ts po d) = fst (the (ipc_send_push_blocking g ob m ts po d))"
| "op_perform g (Receive c) = fst (ipc_recv_pop_into g c)"

fun op_added :: "SchedState \<Rightarrow> ChannelOp \<Rightarrow> u64 \<Rightarrow> (StoredMsg \<times> transfers) list" where
  "op_added g (Send ob m ts) c = (case ipc_send_push g ob m ts of (_, _, Sent _) \<Rightarrow> if c = peer_of g ob then [(m, ts)] else [] | _ \<Rightarrow> [])"
| "op_added g (SendBlocking ob m ts po d) c =
     (case ipc_send_push_blocking g ob m ts po d of
        Some (_, _, BSent _) \<Rightarrow> if c = peer_of g ob then [(m, ts)] else []
      | Some (_, _, Queued) \<Rightarrow> if c = peer_of g ob then [(m, ts)] else []
      | _ \<Rightarrow> [])"
| "op_added g (Receive ob) c = []"

fun op_taken :: "SchedState \<Rightarrow> ChannelOp \<Rightarrow> u64 \<Rightarrow> (StoredMsg \<times> transfers) list" where
  "op_taken g (Receive ob) c = (case ipc_recv_pop_into g ob of (_, Some x, _) \<Rightarrow> if c = ob then [x] else [] | _ \<Rightarrow> [])"
| "op_taken g _ c = []"

lemma send_stream:
  assumes "sched_inv {} g"
  shows "stream (op_perform g (Send ob m ts)) c = stream g c @ op_added g (Send ob m ts) c"
proof (cases rule: ipc_send_push_cases [OF sched_invD(3) [OF assms], where ob = ob and m = m and ts = ts])
  case (1 r)
  then show ?thesis by auto
next
  case (2 e)
  note d = delivered_sched(3) [OF assms 2(1-4), of m]
  have ok: "endpoint_ok e" by (rule ipc_inv_endpoint [OF sched_invD(3) [OF assms] 2(2)])
  have "stream g (peer_of g ob) = undelivered e" using 2(2) by (simp add: stream_def)
  then show ?thesis using 2(5) by (simp add: stream_upd [OF d] undelivered_pushed [OF ok 2(3)])
qed

lemma send_blocking_stream:
  assumes "sched_inv {} g" "po_free g po"
  shows "stream (op_perform g (SendBlocking ob m ts po d)) c = stream g c @ op_added g (SendBlocking ob m ts po d) c"
  using assms
proof (cases rule: ipc_send_push_blocking_cases [where ob = ob and m = m and ts = ts and d = d])
  case (refused r)
  then show ?thesis by auto
next
  case (delivered e)
  let ?g1 = "wake_edge (set_ipc g (peer_of g ob) (e\<lparr>ipc_recv := fst (push_from (ipc_recv e) m ts)\<rparr>)) ob (mr_is_empty (ipc_recv e))"
  note dl = delivered_sched(3) [OF assms(1) delivered(1-4), of m]
  have ok: "endpoint_ok e" by (rule ipc_inv_endpoint [OF sched_invD(3) [OF assms(1)] delivered(2)])
  have "stream g (peer_of g ob) = undelivered e" using delivered(2) by (simp add: stream_def)
  moreover have "stream (signal_pending_op ?g1 po 0) = stream ?g1" by (rule stream_same) (simp add: signal_pending_op_def signal_po_views)
  ultimately show ?thesis using delivered(5) by (simp add: stream_upd [OF dl] undelivered_pushed [OF ok delivered(3)])
next
  case (queued e h)
  have "stream g (peer_of g ob) = undelivered e" using queued(2) by (simp add: stream_def)
  then show ?thesis using queued(4) by (simp add: undelivered_held) (simp add: stream_def get_ipc_def set_ipc_def undelivered_held)
qed

lemma receive_stream:
  assumes "sched_inv {} g"
  shows "op_taken g (Receive ob) c @ stream (op_perform g (Receive ob)) c = stream g c"
proof (cases "get_ipc g ob")
  case None
  then show ?thesis by (simp add: ipc_recv_pop_into_def)
next
  case (Some e)
  consider (empty) "ipc_recv_pop_into g ob = (g, None, None, [])"
    | (took) e' pr g' r where "mr_contents (ipc_recv e) \<noteq> []" "received e e' pr" "ipc_recv_pop_into g ob = (g', Some (hd (mr_contents (ipc_recv e))), r)"
        "ipc_view g' = (ipc_view g)(ob \<mapsto> e'\<lparr>ipc_waiters := []\<rparr>)"
  proof (cases rule: ipc_recv_pop_cases [OF sched_invD(3) [OF assms] Some])
    case (2 e' rc)
    show thesis by (rule took [OF 2(1,2,4)]) (simp add: fun_eq_iff pick_views set_ipc_def pick_ipc_def)
  next
    case (3 e' p rc)
    show thesis by (rule took [OF 3(1,2,4)])
      (simp add: signal_pending_op_def signal_po_views fun_eq_iff, simp add: pick_views set_ipc_def pick_ipc_def)
  qed (use that in blast)
  then show ?thesis
  proof cases
    case took
    have "undelivered (e'\<lparr>ipc_waiters := []\<rparr>) = undelivered e'" by (simp add: undelivered_def)
    then show ?thesis using undelivered_received [OF took(2,1)] Some
      by (auto simp: took(3) stream_upd [OF took(4)]) (simp add: stream_def)
  qed simp
qed

interpretation ms: message_streams "sched_inv {}" stream op_allowed op_perform op_added op_taken
proof
  fix g op c
  assume inv: "sched_inv {} g" and al: "op_allowed g op"
  show "sched_inv {} (op_perform g op)"
  proof (cases op)
    case (SendBlocking ob m ts po d)
    then show ?thesis using ipc_send_push_blocking_sched [OF inv, of po ob m ts d] al by auto
  qed (use inv in \<open>simp_all add: ipc_send_push_sched ipc_recv_pop_sched\<close>)
  show "op_taken g op c @ stream (op_perform g op) c = stream g c @ op_added g op c"
    using send_stream [OF inv] send_blocking_stream [OF inv] receive_stream [OF inv] al by (cases op) simp_all
qed

end
