(* ===== verification/Sched_Example.thy ===== *)
theory Sched_Example
  imports Sched_Streams
begin

text \<open>
  A short run of the scheduler, for evaluation: the boot thread waits on a pending operation with a
  deadline, and a channel with a ring of one message takes a message and holds a second.
\<close>

definition ex_boot :: SchedState where "ex_boot = sched_init 1 2"

definition ex_operation :: SchedState where "ex_operation = ex_boot\<lparr>sk_objs := (sk_objs ex_boot)(16 \<mapsto> WPo PendingOpInner_new)\<rparr>"

definition ex_waits :: SchedState where "ex_waits = fst (the (wait_enter ex_operation 1 [16] 500 0 True))"

definition ex_room :: SchedState where
  "ex_room = ex_operation\<lparr>deadlines := \<lparr>rs_items = [], rs_cap = 528\<rparr>, deadline_slots := (deadline_slots ex_operation)(DPendingSend := 8)\<rparr>"

definition ex_pair :: SchedState where "ex_pair = the (try_new_pair (True, True) (True, True) ex_room 32 48 1)"

definition ex_msg :: "u64 \<Rightarrow> StoredMsg" where "ex_msg k = StoredMsg_zeroed\<lparr>sm_payload := [], sm_handles := [k]\<rparr>"

definition ex_full :: SchedState where "ex_full = op_perform ex_pair (Send 32 (ex_msg 1) no_transfers)"

definition ex_held :: SchedState where "ex_held = op_perform ex_full (SendBlocking 32 (ex_msg 2) no_transfers 16 900)"

lemma ex_boot_reach: "sched_reach ex_boot"
  unfolding ex_boot_def by (rule sched_reach.boots) simp

lemma ex_operation_reach: "sched_reach ex_operation"
  unfolding ex_operation_def by (rule sched_reach.steps [OF ex_boot_reach], rule sched_step.new_operation) (simp add: ex_boot_def sched_init_def)

lemma ex_operation_thread:
  "sk_threads ex_operation 1 = Some ((Thread_new 0)\<lparr>th_state := TRunning\<rparr>)" "th_phase ((Thread_new 0)\<lparr>th_state := TRunning\<rparr>) = PRunning"
  by (simp_all add: ex_operation_def ex_boot_def sched_init_def Thread_new_def)

lemma ex_waits_reach: "sched_reach ex_waits"
proof -
  obtain g r where g: "wait_enter ex_operation 1 [16] 500 0 True = Some (g, r)"
    using wait_enter_sched [OF sched_reach_inv [OF ex_operation_reach] ex_operation_thread, of "[16]" 500 0 True]
    by (auto simp: MAX_WAIT_HANDLES_def)
  have "sched_step ex_operation g"
    by (rule sched_step.wait_enters [OF ex_operation_thread _ g]) (simp add: MAX_WAIT_HANDLES_def)
  with ex_operation_reach g show ?thesis by (simp add: ex_waits_def sched_reach.steps)
qed

lemma ex_room_reach: "sched_reach ex_room"
proof -
  let ?g = "ex_operation\<lparr>deadlines := \<lparr>rs_items = [], rs_cap = 528\<rparr>\<rparr>"
  let ?h = "?g\<lparr>deadline_slots := (deadline_slots ?g)(DPendingSend := 4)\<rparr>"
  have d: "deadlines ex_operation = \<lparr>rs_items = [], rs_cap = 520\<rparr>" "deadline_slots ex_operation = (\<lambda>_. 0)(DThread := 520)"
    by (simp_all add: ex_operation_def ex_boot_def sched_init_def HEAP_RESERVE_def MAX_THREADS_def MAX_CPUS_def)
  have "sched_step ex_operation ?g" by (rule sched_step.regrows [of _ 528 _ "deadlines ex_operation"]) (simp add: d regrow_def)
  then have "sched_reach ?g" using ex_operation_reach by (rule sched_reach.steps [rotated])
  moreover have "sched_step ?g ?h"
    by (rule sched_step.promises [of _ SEndpoint]) (simp add: reserve_slots.simps Let_def d promised_slots_def MAX_PENDING_SENDS_def)
  moreover have "sched_step ?h ex_room"
    by (rule sched_step.promises [of _ SEndpoint]) (simp add: reserve_slots.simps Let_def d promised_slots_def MAX_PENDING_SENDS_def ex_room_def)
  ultimately show ?thesis by (blast intro: sched_reach.steps)
qed

lemma ex_pair_reach: "sched_reach ex_pair"
proof -
  have "endpoints ex_room = {}"
    by (auto simp: endpoints_def get_ipc_def ex_room_def ex_operation_def ex_boot_def sched_init_def split: if_splits)
  moreover have "deadline_slots ex_room DPendingSend = 8" by (simp add: ex_room_def)
  moreover have "try_new_pair (True, True) (True, True) ex_room 32 48 1 = Some ex_pair"
    by (simp add: ex_pair_def try_new_pair_def IpcInner_new_def MsgRing_with_capacity_def Let_def)
  ultimately have "sched_step ex_room ex_pair"
    by (intro sched_step.new_pair [of _ 32 48 "(True, True)" "(True, True)" 1])
      (simp_all add: needed_def MAX_PENDING_SENDS_def ex_room_def ex_operation_def ex_boot_def sched_init_def)
  then show ?thesis by (rule sched_reach.steps [OF ex_room_reach])
qed

lemma ex_full_reach: "sched_reach ex_full"
  unfolding ex_full_def by (rule sched_reach.steps [OF ex_pair_reach]) (simp add: sched_step.sends)

text \<open>The operation is still the caller's own once the ring is full.\<close>

definition ex_endpoint :: "u64 \<Rightarrow> IpcInner" where
  "ex_endpoint peer = \<lparr>ipc_recv = \<lparr>mr_slots = [RingSlot_empty], mr_head = 0, mr_len = 0\<rparr>, ipc_waiters = [],
     ipc_pending = \<lparr>rs_items = [], rs_cap = MAX_PENDING_SENDS\<rparr>, ipc_peer = peer, ipc_us_reg = 0\<rparr>"

lemma ex_pair_objs:
  "sk_objs ex_pair = [16 \<mapsto> WPo PendingOpInner_new, 32 \<mapsto> WIpc (ex_endpoint 48), 48 \<mapsto> WIpc (ex_endpoint 32)]" "sk_regs ex_pair = Map.empty"
  and ex_pair_threads: "sk_threads ex_pair = [1 \<mapsto> (Thread_new 0)\<lparr>th_state := TRunning\<rparr>, 2 \<mapsto> Thread_new 0]"
  by (simp_all add: ex_pair_def try_new_pair_def IpcInner_new_def MsgRing_with_capacity_def IPC_MAX_QUEUE_DEPTH_def Let_def set_ipc_def
      ex_room_def ex_operation_def ex_boot_def sched_init_def ex_endpoint_def)

lemma ipc_send_push_delivers:
  assumes "ipc_inv g" "peer_of g ob \<noteq> 0" "get_ipc g (peer_of g ob) = Some e" "\<not> mr_is_full (ipc_recv e)" "\<not> closes_a_cycle g ob ts"
  shows "fst (ipc_send_push g ob m ts)
    = wake_edge (set_ipc g (peer_of g ob) (e\<lparr>ipc_recv := fst (push_from (ipc_recv e) m ts)\<rparr>)) ob (mr_is_empty (ipc_recv e))"
proof -
  have "snd (push_from (ipc_recv e) m ts) = (no_transfers, True)"
    using mr_push_spec(4) [OF _ assms(4)] ipc_inv_endpoint [OF assms(1,3)] by (simp add: endpoint_ok_def)
  then show ?thesis using assms(2,3,5) by (cases "push_from (ipc_recv e) m ts") (simp add: ipc_send_push_def send_push_def Let_def)
qed

lemma ex_full_free: "po_free ex_full 16"
proof -
  have ep: "get_ipc ex_pair 48 = Some (ex_endpoint 32)" "peer_of ex_pair 32 = 48"
    by (simp_all add: get_ipc_def peer_of_def ex_pair_objs) (simp add: ex_endpoint_def)
  have nf: "\<not> mr_is_full (ipc_recv (ex_endpoint 32))" by (simp add: ex_endpoint_def mr_is_full_def mr_cap_def)
  have nc: "\<not> closes_a_cycle ex_pair 32 no_transfers" by (simp add: closes_a_cycle_def no_transfers_def)
  note inv = sched_reach_inv [OF ex_pair_reach]
  have nz: "peer_of ex_pair 32 \<noteq> 0" "get_ipc ex_pair (peer_of ex_pair 32) = Some (ex_endpoint 32)" by (simp_all add: ep)
  have "ex_full = fst (ipc_send_push ex_pair 32 (ex_msg 1) no_transfers)" by (simp add: ex_full_def)
  note full = this [unfolded ipc_send_push_delivers [OF sched_invD(3) [OF inv] nz nf nc]]
  note v = delivered_sched(3-5) [OF inv nz nf nc, of "ex_msg 1", folded full, unfolded ep(2)]
  have "held_sends ex_pair c = []" for c by (simp add: held_sends_def get_ipc_def ex_pair_objs ex_endpoint_def)
  then have "held_sends ex_full c = []" for c by (simp add: held_sends_view v) (simp add: held_sends_view ex_endpoint_def)
  moreover have "po_done ex_full 16 = Some False" by (simp add: v po_done_def ex_pair_objs PendingOpInner_new_def)
  ultimately show ?thesis by (simp add: po_free_def send_pos_def v ex_pair_objs)
qed

end
