(* ===== verification/Sched_Properties.thy ===== *)
theory Sched_Properties
  imports Sched_Example
begin

text \<open>
  What the scheduler promises the threads that wait, send and receive, in every state its steps
  reach. Each statement rests on the invariant of \<^verbatim>\<open>Sched_Steps\<close>.
\<close>

definition pending_op_status :: "SchedState \<Rightarrow> u64 \<Rightarrow> u32 option" where
  "pending_op_status g po = (case sk_objs g po of Some (WPo p) \<Rightarrow> if po_signaled p then Some (po_status p) else None | _ \<Rightarrow> None)"

section \<open>Waiting\<close>

text \<open>The thread is registered on the object and has an event of it to come.\<close>

definition will_hear :: "SchedState \<Rightarrow> u64 \<Rightarrow> u64 \<Rightarrow> bool" where
  "will_hear g th ob =
     (case sk_objs g ob of
        None \<Rightarrow> False
      | Some w \<Rightarrow> th \<in> set (w_waiters w)
          \<and> (case w of
               WTimer t \<Rightarrow> tm_deadline_ns t \<noteq> 0 \<longrightarrow> (\<exists>e\<in>#heap_held (deadlines g). target e = TTimer ob \<and> deadline_ns e = tm_deadline_ns t)
             | _ \<Rightarrow> \<forall>now. \<not> already_signaled now w))"

lemma armed_in_heap:
  assumes "dl_inv {} g" "get_timer g ob = Some t" "\<not> settled (WTimer t)" "tm_deadline_ns t \<noteq> 0"
  shows "\<exists>e\<in>#heap_held (deadlines g). target e = TTimer ob \<and> deadline_ns e = tm_deadline_ns t"
proof -
  have ok: "timer_ok {} g ob (tm_deadline_ns t, tm_interval_ns t, tm_in_heap t)"
    using dl_invD(5) [OF assms(1)] assms(2) by (simp add: timer_view_def)
  have "tm_in_heap t" using ok assms(3,4) by (auto simp: timer_ok_def timer_fired_def)
  then obtain e where "e \<in># heap_held (deadlines g)" "target e = TTimer ob" using ok by (auto simp: timer_ok_def targets_def)
  then show ?thesis using ok by (auto simp: timer_ok_def)
qed

text \<open>
  C2. No wakeup is lost. In every reachable state, a blocked thread is registered on each object it waits
  on, and that object is not signalled: a pending operation is incomplete, a queue empty with its
  peer open, an interrupt consumed. A timer it waits on, if armed, has its entry in the deadline
  heap at the timer's deadline, and a wait with a deadline has one of its own.
\<close>

theorem no_lost_wakeup:
  assumes "sched_reach g" "th \<in> blocked g"
  shows "(\<forall>ob\<in>set (waiting g th). will_hear g th ob)
    \<and> (\<forall>t. sk_threads g th = Some t \<and> th_has_deadline t \<longrightarrow> (\<exists>e\<in>#heap_held (deadlines g). target e = TThread th))"
proof (intro conjI ballI)
  note i = sched_invD [OF sched_reach_inv [OF assms(1)]]
  fix ob
  assume ob: "ob \<in> set (waiting g th)"
  have "\<not> obj_settled g ob" using wait_invD(5) [OF i(1) assms(2) ob] by simp
  then obtain w where w: "sk_objs g ob = Some w" "\<not> settled w" by (auto simp: obj_settled_def split: option.splits)
  have "0 < count_list (waiting g th) ob" using ob count_list_0_iff [of "waiting g th" ob] by (metis gr0I)
  then have "0 < count_list (w_waiters w) th" using wait_invD(4) [OF i(1) assms(2), of ob] w(1) by (simp add: obj_waiters_def)
  then have "th \<in> set (w_waiters w)" using count_list_0_iff [of "w_waiters w" th] by auto
  then show "will_hear g th ob"
    using armed_in_heap [OF i(2), of ob] w by (cases w) (auto simp: will_hear_def get_timer_Some)
next
  note i = sched_invD [OF sched_reach_inv [OF assms(1)]]
  show "\<forall>t. sk_threads g th = Some t \<and> th_has_deadline t \<longrightarrow> (\<exists>e\<in>#heap_held (deadlines g). target e = TThread th)"
    using dl_invD(4) [OF i(2) assms(2)] by (auto simp: deadline_view_def targets_def) metis
qed

lemma ex_waits_blocked: "blocked ex_waits = {1}" "waiting ex_waits 1 = [16]"
proof -
  have "rs_items (sk_blocked ex_waits) = [1]" by code_simp
  then show "blocked ex_waits = {1}" by (simp add: blocked_def)
  show "waiting ex_waits 1 = [16]" by code_simp
qed

theorem no_lost_wakeup_witness: "will_hear ex_waits 1 16"
  using no_lost_wakeup [OF ex_waits_reach, of 1] by (simp add: ex_waits_blocked)

text \<open>
  C3. The tick delivers every deadline that has come. In every reachable state and at every time but
  the last the clock can show, the loop over the deadline heap ends without tripping an assertion.
  Then no thread is blocked whose own deadline has come or that waits on a timer whose deadline has
  come; every held send whose deadline has come is completed as timed out; every deadline left
  in the heap is in the future; and the threads the tick unblocked are on the run queue.
\<close>

theorem tick_delivers_due:
  assumes "sched_reach g" "now \<noteq> -1"
  shows "\<exists>g'. fire_expired_deadlines now g = Some g'
    \<and> (\<forall>e\<in>#heap_held (deadlines g). deadline_ns e \<le> now \<longrightarrow>
         (case target e of
            TThread th \<Rightarrow> th \<notin> blocked g'
          | TTimer ob \<Rightarrow> \<forall>th\<in>blocked g'. ob \<notin> set (waiting g' th)
          | TPendingSend po c \<Rightarrow> pending_op_status g' po = Some KError_TimedOut))
    \<and> (\<forall>e\<in>#heap_held (deadlines g'). now < deadline_ns e) \<and> blocked g - blocked g' \<subseteq> set (sk_ready g')"
proof -
  obtain g' where g': "fire_expired_deadlines now g = Some g'" "moves g g'" "\<forall>e\<in>#due now g. handled e g g'"
      "\<forall>e\<in>#heap_held (deadlines g'). now < deadline_ns e"
    using tick_loop [OF sched_reach_inv [OF assms(1)] assms(2)] by blast
  have w: "waiting g' th = waiting g th" if "th \<in> blocked g'" for th using g'(2) that by (simp add: moves_def waiting_def)
  have "case target e of TThread th \<Rightarrow> th \<notin> blocked g' | TTimer ob \<Rightarrow> \<forall>th\<in>blocked g'. ob \<notin> set (waiting g' th)
      | TPendingSend po c \<Rightarrow> pending_op_status g' po = Some KError_TimedOut"
    if "e \<in># heap_held (deadlines g)" "deadline_ns e \<le> now" for e
  proof -
    have "handled e g g'" using g'(3) that by (simp add: due_def)
    then show ?thesis using w
      by (cases "target e") (auto simp: handled_def po_completed_def pending_op_status_def split: option.splits waitable.splits)
  qed
  then show ?thesis using g' by (intro exI [of _ g']) (auto simp: moves_def)
qed

theorem tick_delivers_due_witness: "\<exists>g'. fire_expired_deadlines 600 ex_waits = Some g' \<and> 1 \<notin> blocked g'"
proof -
  have "rs_items (deadlines ex_waits) = [\<lparr>deadline_ns = 500, target = TThread 1\<rparr>]" by code_simp
  then have "\<lparr>deadline_ns = 500, target = TThread 1\<rparr> \<in># heap_held (deadlines ex_waits)" by (simp add: heap_held_def)
  then show ?thesis using tick_delivers_due [OF ex_waits_reach, of 600] by fastforce
qed







text \<open>
  C37. The first completion of an operation wins, and wakes. In every reachable state, completing a pending
  operation that is not complete gives it that status and result, one that is complete keeps its own,
  and either way no thread stays blocked on it: those that were are on the run queue.
\<close>

theorem first_completion_wins:
  assumes "sched_reach g" "sk_objs g po = Some (WPo p)" "\<forall>c. po \<notin> set (send_pos g c)"
  shows "pending_op_completion (complete_pending_op g po status res) po = Some (if po_signaled p then (po_status p, po_result p) else (status, res))
    \<and> (\<forall>th\<in>blocked (complete_pending_op g po status res). po \<notin> set (waiting (complete_pending_op g po status res) th))
    \<and> (\<forall>th\<in>blocked g. po \<in> set (waiting g th) \<longrightarrow> th \<in> set (sk_ready (complete_pending_op g po status res)))"
proof -
  let ?g = "complete_pending_op g po status res"
  note i = sched_invD [OF sched_reach_inv [OF assms(1)]]
  have inv: "sched_inv {} ?g"
    unfolding complete_pending_op_def using assms(3) by (intro signal_pending_op_sched [OF sched_reach_inv [OF assms(1)]]) simp
  have m: "moves g ?g" unfolding complete_pending_op_def by (rule signal_po_moves(1) [OF i(1)])
  have objs: "sk_objs ?g po = Some (WPo (if po_signaled p then p else p\<lparr>po_status := status, po_result := res, po_signaled := True, po_waiters := []\<rparr>))"
    using assms(2) by (simp add: complete_pending_op_def signal_pending_op_with_result_def signal_with_result_def)
  have "obj_settled ?g po" by (simp add: obj_settled_def objs)
  then have none: "po \<notin> set (waiting ?g th)" if "th \<in> blocked ?g" for th
    using wait_invD(5) [OF sched_invD(1) [OF inv] that] by blast
  have "th \<in> set (sk_ready ?g)" if "th \<in> blocked g" "po \<in> set (waiting g th)" for th
  proof (cases "th \<in> blocked ?g")
    case True
    then show ?thesis using none [OF True] moves_waiting [OF m True] that(2) by simp
  next
    case False
    then show ?thesis using m that(1) by (auto simp: moves_def)
  qed
  then show ?thesis using none objs by (simp add: pending_op_completion_def)
qed

theorem first_completion_wins_witness: "pending_op_completion (complete_pending_op ex_pair 16 0 7) 16 = Some (0, 7)"
proof -
  have "sk_objs ex_pair 16 = Some (WPo PendingOpInner_new)" by (simp add: ex_pair_objs)
  moreover have "send_pos ex_pair c = []" for c by (simp add: send_pos_def held_sends_def get_ipc_def ex_pair_objs ex_endpoint_def)
  ultimately show ?thesis
    using first_completion_wins [OF ex_pair_reach, of 16 PendingOpInner_new 0 7] by (simp add: PendingOpInner_new_def)
qed

section \<open>Messages\<close>

text \<open>
  C4. Messages are neither lost, doubled nor reordered. From every reachable state, over any sequence of sends,
  blocking sends and receipts on any channels, what has been received on an endpoint followed by
  what it still has to deliver is what it had to deliver at first followed by what has been accepted
  for it since, in order; a send that does not fit in the ring is held, and one that comes later does
  not overtake it.
\<close>

theorem messages_in_order:
  assumes "sched_reach g" "allowed_run op_perform op_allowed g ops"
  shows "collect op_perform (\<lambda>g op. op_taken g op c) g ops @ stream (foldl op_perform g ops) c
    = stream g c @ collect op_perform (\<lambda>g op. op_added g op c) g ops"
  by (rule ms.history [OF sched_reach_inv [OF assms(1)] assms(2)])

theorem messages_in_order_witness:
  "collect op_perform (\<lambda>g op. op_taken g op 48) ex_full [SendBlocking 32 (ex_msg 2) no_transfers 16 900, Receive 48, Receive 48]
    @ stream (foldl op_perform ex_full [SendBlocking 32 (ex_msg 2) no_transfers 16 900, Receive 48, Receive 48]) 48
    = stream ex_full 48 @ collect op_perform (\<lambda>g op. op_added g op 48) ex_full [SendBlocking 32 (ex_msg 2) no_transfers 16 900, Receive 48, Receive 48]"
  by (rule messages_in_order [OF ex_full_reach]) (simp add: ex_full_free)



text \<open>
  C36. No cycle of endpoints, so none is kept alive by itself. In every reachable state the relation "a message queued or
  held at the one endpoint carries the other" has no cycle, and each connected endpoint's peer is another endpoint
  whose peer is the first.
\<close>

theorem no_endpoint_cycles:
  assumes "sched_reach g"
  shows "acyclic (holds g) \<and> (\<forall>ob. peer_of g ob \<noteq> 0 \<longrightarrow> peer_of g ob \<noteq> ob \<and> peer_of g (peer_of g ob) = ob)"
  using sched_invD(3) [OF sched_reach_inv [OF assms]] by (simp add: ipc_inv_def peers_ok_def)

theorem no_endpoint_cycles_witness: "acyclic (holds ex_full)"
  using no_endpoint_cycles [OF ex_full_reach] by simp

text \<open>
  C35. Closing an endpoint leaves no one waiting for it. In every reachable state, when an endpoint's last
  reference goes, every blocking send it held is completed, its peer sees the channel closed, and no
  thread stays blocked on the peer or on one of those operations.
\<close>

theorem closing_completes:
  assumes "sched_reach g" "get_ipc g ob = Some e" "unreferenced g ob"
  shows "(\<forall>po\<in>set (send_pos g ob). pending_op_status (close_endpoint g ob) po \<noteq> None
        \<and> (\<forall>th\<in>blocked (close_endpoint g ob). po \<notin> set (waiting (close_endpoint g ob) th)))
    \<and> (peer_of g ob \<noteq> 0 \<longrightarrow> peer_of (close_endpoint g ob) (peer_of g ob) = 0
        \<and> (\<forall>th\<in>blocked (close_endpoint g ob). peer_of g ob \<notin> set (waiting (close_endpoint g ob) th)))"
proof -
  let ?g = "close_endpoint g ob"
  have un: "ob \<notin> set (waiting g th)" for th using assms(3) by (simp add: unreferenced_def)
  note c = close_endpoint_sched [OF sched_reach_inv [OF assms(1)] assms(2) un]
  have quiet: "x \<notin> set (waiting ?g th)" if "th \<in> blocked ?g" "obj_settled ?g x" for th x
    using wait_invD(5) [OF sched_invD(1) [OF c(1)] that(1)] that(2) by blast
  have po: "pending_op_status ?g po \<noteq> None" "obj_settled ?g po" if "po \<in> set (send_pos g ob)" for po
    using c(3) [OF that] by (auto simp: po_done_def pending_op_status_def obj_settled_def split: option.splits waitable.splits)
  have pe: "peer_of ?g (peer_of g ob) = 0" "obj_settled ?g (peer_of g ob)" if nz: "peer_of g ob \<noteq> 0"
  proof -
    obtain e' where "get_ipc ?g (peer_of g ob) = Some e'" "ipc_peer e' = 0" using c(4) [OF nz] by blast
    then show "peer_of ?g (peer_of g ob) = 0" "obj_settled ?g (peer_of g ob)"
      unfolding get_ipc_Some by (simp_all add: peer_of_def [of ?g] get_ipc_def [of ?g] obj_settled_def IpcChannel_already_signaled_def)
  qed
  show ?thesis using po pe quiet by blast
qed

theorem closing_completes_witness: "peer_of (close_endpoint ex_pair 32) 48 = 0"
proof -
  have "waiting ex_pair th = []" for th by (simp add: waiting_def waiting_on_def ex_pair_threads Thread_new_def)
  then have "unreferenced ex_pair 32"
    by (simp add: unreferenced_def send_pos_def held_sends_def get_ipc_def ex_pair_objs)
      (auto simp: ex_endpoint_def ipc_refs_def mr_contents_def split: if_splits)
  moreover have "get_ipc ex_pair 32 = Some (ex_endpoint 48)" "peer_of ex_pair 32 = 48"
    by (simp_all add: peer_of_def get_ipc_def ex_pair_objs) (simp add: ex_endpoint_def)
  ultimately show ?thesis using closing_completes [OF ex_pair_reach, of 32 "ex_endpoint 48"] by simp
qed

end
