(* ===== verification/Run_Queue.thy ===== *)
theory Run_Queue
  imports Waitables "HOL-Library.Product_Lexorder"
begin

text \<open>
  Which thread runs where: the run queues of \<^verbatim>\<open>kernel/src/sched.rs\<close>, placement and stealing in
  \<^verbatim>\<open>sched/placement.rs\<close>, and the switch from one thread to the next.

  Every operation runs under one hold of \<^verbatim>\<open>SCHED\<close> on a processor, its first argument \<open>me\<close>. The arrays
  indexed by a processor are functions of its number, below \<^verbatim>\<open>MAX_CPUS\<close>. A thread's fields are found
  at its address; what is at an address no list holds is of no account. Processors poked with a
  reschedule interrupt are listed in the order of sending. A result None is a failed assertion, an
  exhausted reserve or a missing current or idle thread.
\<close>

section \<open>Threads and the state under the lock\<close>

datatype SchedClass = RealTime | TimeShared | Idle

record RunThread =
  rt_state :: ThreadState
  rt_pid :: u32
  rt_has_process :: bool
  rt_process_ended :: bool
  rt_ending :: bool
  rt_disposition :: "u8 \<times> u32"
  rt_class :: SchedClass
  rt_priority :: u8
  rt_nice :: u8
  rt_vruntime :: u64
  rt_last_cpu :: u8
  rt_cpu_mask :: u8
  rt_on_cpu :: bool

record Counters =
  st_switches :: u64
  st_steals :: u64
  st_placed :: u64
  st_resched_ipis :: u64
  st_ticks :: u64

text \<open>
  \<open>rq_switching c\<close> is the thread processor c has switched from and whose context it has not yet
  committed: the stretch of \<^verbatim>\<open>switch_into\<close> after it releases the lock.
\<close>

record RunState =
  rq_ready :: "nat \<Rightarrow> u64 Reserved"
  rq_cpu_online :: "nat \<Rightarrow> bool"
  rq_current :: "nat \<Rightarrow> u64 option"
  rq_reap :: "nat \<Rightarrow> u64 Reserved"
  rq_suspended :: "u64 Reserved"
  rq_quantum :: "nat \<Rightarrow> u32"
  rq_min_vruntime :: "nat \<Rightarrow> u64"
  rq_idle :: "nat \<Rightarrow> u64 option"
  rq_idle_addr :: "nat \<Rightarrow> u64"
  rq_blocked :: "u64 Reserved"
  rq_stats :: "nat \<Rightarrow> Counters"
  rq_ended_pids :: "u32 Reserved"
  rq_reaper :: "u64 option"
  rq_threads :: nat
  rq_online_mask :: u64
  rq_preempt_off :: "nat \<Rightarrow> u32"
  rq_resched_pending :: "nat \<Rightarrow> bool"
  rq_ending :: "nat \<Rightarrow> bool"
  rq_thread :: "u64 \<Rightarrow> RunThread"
  rq_switching :: "nat \<Rightarrow> u64 option"
  rq_ipis :: "nat list"

abbreviation ready_list :: "RunState \<Rightarrow> nat \<Rightarrow> u64 list" where
  "ready_list g c \<equiv> rs_items (rq_ready g c)"

definition set_thread :: "RunState \<Rightarrow> u64 \<Rightarrow> (RunThread \<Rightarrow> RunThread) \<Rightarrow> RunState" where
  "set_thread g th f = g\<lparr>rq_thread := (rq_thread g)(th := f (rq_thread g th))\<rparr>"

definition set_state :: "RunState \<Rightarrow> u64 \<Rightarrow> ThreadState \<Rightarrow> RunState" where
  "set_state g th s = set_thread g th (\<lambda>t. t\<lparr>rt_state := s\<rparr>)"

definition set_ready :: "RunState \<Rightarrow> nat \<Rightarrow> u64 Reserved \<Rightarrow> RunState" where
  "set_ready g c q = g\<lparr>rq_ready := (rq_ready g)(c := q)\<rparr>"

definition count_event :: "RunState \<Rightarrow> nat \<Rightarrow> (Counters \<Rightarrow> Counters) \<Rightarrow> RunState" where
  "count_event g c f = g\<lparr>rq_stats := (rq_stats g)(c := f (rq_stats g c))\<rparr>"

section \<open>Weights and virtual runtime\<close>

definition TICK_NS :: u64 where "TICK_NS = 10000000"
definition NICE_0_WEIGHT :: u64 where "NICE_0_WEIGHT = 1024"
definition QUANTUM_TICKS :: u32 where "QUANTUM_TICKS = 1"

definition NICE_WEIGHTS :: "u64 list" where
  "NICE_WEIGHTS =
    [88761, 71755, 56483, 46273, 36291,
     29154, 23254, 18705, 14949, 11916,
     9548, 7620, 6100, 4904, 3906,
     3121, 2501, 1991, 1586, 1277,
     1024, 820, 655, 526, 423,
     335, 272, 215, 172, 137,
     110, 87, 70, 56, 45,
     36, 29, 23, 18, 15]"

definition nice_weight :: "u8 \<Rightarrow> u64" where
  "nice_weight nice = NICE_WEIGHTS ! nat (min 39 (max 0 (sint nice + 20)))"

definition vruntime_delta :: "u8 \<Rightarrow> u64" where
  "vruntime_delta nice = TICK_NS * NICE_0_WEIGHT div nice_weight nice"

definition sat_add :: "u64 \<Rightarrow> u64 \<Rightarrow> u64" where
  "sat_add a b = (if a + b < a then -1 else a + b)"

definition sat_sub :: "u64 \<Rightarrow> u64 \<Rightarrow> u64" where
  "sat_sub a b = (if a < b then 0 else a - b)"

definition accrue_vruntime :: "nat \<Rightarrow> RunState \<Rightarrow> RunState" where
  "accrue_vruntime me g =
     (case rq_current g me of
        None \<Rightarrow> g
      | Some th \<Rightarrow>
          if rt_class (rq_thread g th) = TimeShared
          then set_thread g th (\<lambda>t. t\<lparr>rt_vruntime := sat_add (rt_vruntime t) (vruntime_delta (rt_nice t))\<rparr>)
          else g)"

definition seed_vruntime :: "RunState \<Rightarrow> u64 \<Rightarrow> nat \<Rightarrow> bool \<Rightarrow> RunState" where
  "seed_vruntime g th cpu woken =
     (if rt_class (rq_thread g th) \<noteq> TimeShared then g
      else let base = rq_min_vruntime g cpu;
               floor = (if woken then sat_sub base TICK_NS else base)
           in if rt_vruntime (rq_thread g th) < floor then set_thread g th (\<lambda>t. t\<lparr>rt_vruntime := floor\<rparr>) else g)"

section \<open>Picking\<close>

type_synonym pick_key = "u8 \<times> u8 \<times> u64"

definition sched_key :: "RunState \<Rightarrow> u64 \<Rightarrow> pick_key" where
  "sched_key g th =
     (case rt_class (rq_thread g th) of
        RealTime \<Rightarrow> (0, rt_priority (rq_thread g th), 0)
      | TimeShared \<Rightarrow> (1, 0, rt_vruntime (rq_thread g th))
      | Idle \<Rightarrow> (2, 0, -1))"

text \<open>The scan for the least key, the first on ties, from index i on.\<close>

fun best_loop :: "pick_key list \<Rightarrow> nat \<Rightarrow> nat \<Rightarrow> pick_key \<Rightarrow> nat \<times> pick_key" where
  "best_loop [] i best_i best_key = (best_i, best_key)"
| "best_loop (key # keys) i best_i best_key =
     (if key < best_key then best_loop keys (Suc i) i key else best_loop keys (Suc i) best_i best_key)"

definition dequeue_front :: "nat \<Rightarrow> RunState \<Rightarrow> RunState \<times> u64 option" where
  "dequeue_front me g =
     (case map (sched_key g) (ready_list g me) of
        [] \<Rightarrow> (g, None)
      | key # keys \<Rightarrow>
          let (best_i, best_key) = best_loop keys 1 0 key;
              th = ready_list g me ! best_i;
              g = (if fst best_key = 1 then g\<lparr>rq_min_vruntime := (rq_min_vruntime g)(me := max (rq_min_vruntime g me) (snd (snd best_key)))\<rparr> else g)
          in (set_ready g me (Reserved_remove (rq_ready g me) best_i), Some th))"

section \<open>Placement\<close>

definition cpu_accepts_work :: "RunState \<Rightarrow> nat \<Rightarrow> u64 \<Rightarrow> bool" where
  "cpu_accepts_work g cpu online \<longleftrightarrow> rq_cpu_online g cpu \<and> bit online cpu"

text \<open>A candidate processor with its queue's length, kept unless the next is strictly shorter.\<close>

fun shorter :: "nat \<Rightarrow> nat \<Rightarrow> (nat \<times> nat) option \<Rightarrow> (nat \<times> nat) option" where
  "shorter c len None = Some (c, len)"
| "shorter c len (Some (b, best_len)) = (if len < best_len then Some (c, len) else Some (b, best_len))"

fun target_loop :: "RunState \<Rightarrow> u8 \<Rightarrow> u64 \<Rightarrow> nat list \<Rightarrow> (nat \<times> nat) option \<Rightarrow> (nat \<times> nat) option
    \<Rightarrow> (nat \<times> nat) option \<times> (nat \<times> nat) option" where
  "target_loop g affinity online [] best spare = (best, spare)"
| "target_loop g affinity online (c # cs) best spare =
     (if \<not> cpu_accepts_work g c online then target_loop g affinity online cs best spare
      else let len = length (ready_list g c);
               spare = shorter c len spare;
               best = (if bit affinity c then shorter c len best else best)
           in target_loop g affinity online cs best spare)"

definition pick_target_cpu :: "nat \<Rightarrow> RunState \<Rightarrow> u64 \<Rightarrow> u64 \<Rightarrow> nat" where
  "pick_target_cpu me g th online =
     (case target_loop g (rt_cpu_mask (rq_thread g th)) online [0..<MAX_CPUS] None None of
        (Some (c, _), _) \<Rightarrow> c
      | (None, Some (c, _)) \<Rightarrow> c
      | (None, None) \<Rightarrow> me)"

definition pick_wake_cpu :: "nat \<Rightarrow> RunState \<Rightarrow> u64 \<Rightarrow> u64 \<Rightarrow> nat" where
  "pick_wake_cpu me g th online =
     (let home = unat (rt_last_cpu (rq_thread g th)) in
      if home < MAX_CPUS \<and> cpu_accepts_work g home online \<and> bit (rt_cpu_mask (rq_thread g th)) home
        \<and> length (ready_list g home) < rs_cap (rq_ready g home)
      then home else pick_target_cpu me g th online)"

text \<open>\<^verbatim>\<open>place_thread\<close>: False when the thread is handed back.\<close>

definition place_thread :: "nat \<Rightarrow> RunState \<Rightarrow> u64 \<Rightarrow> bool \<Rightarrow> (RunState \<times> bool) option" where
  "place_thread me g th wake =
     (let online = rq_online_mask g;
          cpu = (if wake then pick_wake_cpu me g th online else pick_target_cpu me g th online)
      in if (\<not> wake \<and> MAX_THREADS \<le> rq_threads g) \<or> rs_cap (rq_ready g cpu) \<le> length (ready_list g cpu)
         then Some (g, False)
         else let g = (if wake then g else g\<lparr>rq_threads := rq_threads g + 1\<rparr>);
                  g = seed_vruntime g th cpu wake
              in case Reserved_push (rq_ready g cpu) th of
                   None \<Rightarrow> None
                 | Some q \<Rightarrow>
                     let g = count_event (set_ready g cpu q) cpu (\<lambda>s. s\<lparr>st_placed := st_placed s + 1\<rparr>)
                     in Some (if cpu \<noteq> me then g\<lparr>rq_ipis := rq_ipis g @ [cpu]\<rparr> else g, True))"

definition place_woken :: "nat \<Rightarrow> RunState \<Rightarrow> u64 \<Rightarrow> RunState option" where
  "place_woken me g th = (case place_thread me g th True of Some (g, True) \<Rightarrow> Some g | _ \<Rightarrow> None)"

section \<open>Stealing\<close>

definition stealable_to :: "RunState \<Rightarrow> nat \<Rightarrow> u64 \<Rightarrow> bool" where
  "stealable_to g me th \<longleftrightarrow> \<not> rt_on_cpu (rq_thread g th) \<and> bit (rt_cpu_mask (rq_thread g th)) me"

text \<open>The victim so far: its number and the position of the thread to take, with the length of its queue.\<close>

fun victim_loop :: "nat \<Rightarrow> RunState \<Rightarrow> nat list \<Rightarrow> (nat \<times> nat) option \<Rightarrow> nat \<Rightarrow> (nat \<times> nat) option" where
  "victim_loop me g [] victim victim_len = victim"
| "victim_loop me g (c # cs) victim victim_len =
     (if c = me \<or> \<not> rq_cpu_online g c \<or> length (ready_list g c) \<le> victim_len
      then victim_loop me g cs victim victim_len
      else case position (stealable_to g me) (ready_list g c) of
             Some pos \<Rightarrow> victim_loop me g cs (Some (c, pos)) (length (ready_list g c))
           | None \<Rightarrow> victim_loop me g cs victim victim_len)"

definition steal_one :: "nat \<Rightarrow> RunState \<Rightarrow> RunState \<times> u64 option" where
  "steal_one me g =
     (case victim_loop me g [0..<MAX_CPUS] None 0 of
        None \<Rightarrow> (g, None)
      | Some (c, pos) \<Rightarrow>
          let g' = count_event g me (\<lambda>s. s\<lparr>st_steals := st_steals s + 1\<rparr>)
          in (set_ready g' c (Reserved_remove (rq_ready g' c) pos), Some (ready_list g c ! pos)))"

definition steal_available :: "RunState \<Rightarrow> nat \<Rightarrow> bool" where
  "steal_available g me \<longleftrightarrow>
     (\<exists>c\<in>set [0..<MAX_CPUS]. c \<noteq> me \<and> rq_cpu_online g c \<and> (\<exists>th\<in>set (ready_list g c). stealable_to g me th))"

definition pick_next :: "nat \<Rightarrow> RunState \<Rightarrow> RunState \<times> u64 option" where
  "pick_next me g =
     (case dequeue_front me g of
        (g, Some th) \<Rightarrow> (g, Some th)
      | (g, None) \<Rightarrow>
          (case steal_one me g of
             (g, None) \<Rightarrow> (g, None)
           | (g, Some th) \<Rightarrow> (seed_vruntime g th me True, Some th)))"

section \<open>Switching\<close>

definition current_is_idle :: "nat \<Rightarrow> RunState \<Rightarrow> bool" where
  "current_is_idle me g \<longleftrightarrow> rq_current g me = Some (rq_idle_addr g me)"

definition take_current :: "nat \<Rightarrow> RunState \<Rightarrow> (RunState \<times> u64) option" where
  "take_current me g =
     (case rq_current g me of None \<Rightarrow> None | Some th \<Rightarrow> Some (g\<lparr>rq_current := (rq_current g)(me := None)\<rparr>, th))"

datatype Park = ParkReady | ParkBlocked | ParkSuspended | ParkExited | ParkReaper

fun park_state :: "Park \<Rightarrow> ThreadState" where
  "park_state ParkReady = TReady"
| "park_state ParkBlocked = TBlocked"
| "park_state ParkReaper = TBlocked"
| "park_state ParkSuspended = TSuspended"
| "park_state ParkExited = TExited"

definition park :: "nat \<Rightarrow> RunState \<Rightarrow> u64 \<Rightarrow> Park \<Rightarrow> RunState option" where
  "park me g prev to =
     (let idle = (rq_idle_addr g me = prev) in
      if idle \<and> to \<noteq> ParkReady then None
      else let g = set_state g prev (park_state to) in
        case to of
          ParkReady \<Rightarrow>
            if idle then (if rq_idle g me \<noteq> None then None else Some (g\<lparr>rq_idle := (rq_idle g)(me := Some prev)\<rparr>))
            else map_option (set_ready g me) (Reserved_push (rq_ready g me) prev)
        | ParkBlocked \<Rightarrow> map_option (\<lambda>q. g\<lparr>rq_blocked := q\<rparr>) (Reserved_push (rq_blocked g) prev)
        | ParkSuspended \<Rightarrow> map_option (\<lambda>q. g\<lparr>rq_suspended := q\<rparr>) (Reserved_push (rq_suspended g) prev)
        | ParkExited \<Rightarrow> map_option (\<lambda>q. g\<lparr>rq_reap := (rq_reap g)(me := q)\<rparr>) (Reserved_push (rq_reap g me) prev)
        | ParkReaper \<Rightarrow> if rq_reaper g \<noteq> None then None else Some (g\<lparr>rq_reaper := Some prev\<rparr>))"

text \<open>
  The processor that switched a thread out commits its context without the lock, so the wait for
  the incoming thread's guard ends with that commit.
\<close>

definition commit_switch :: "RunState \<Rightarrow> u64 \<Rightarrow> RunState" where
  "commit_switch g th =
     (set_thread g th (\<lambda>t. t\<lparr>rt_on_cpu := False\<rparr>))
       \<lparr>rq_switching := (\<lambda>c. if rq_switching g c = Some th then None else rq_switching g c)\<rparr>"

text \<open>The part of \<^verbatim>\<open>switch_into\<close> under the lock, and its check of the preemption count.\<close>

definition switch_into :: "nat \<Rightarrow> RunState \<Rightarrow> u64 \<Rightarrow> u64 \<Rightarrow> RunState option" where
  "switch_into me g out nxt =
     (let g = count_event g me (\<lambda>s. s\<lparr>st_switches := st_switches s + 1\<rparr>);
          g = commit_switch g nxt;
          g = set_thread g nxt (\<lambda>t. t\<lparr>rt_last_cpu := of_nat me\<rparr>);
          g = g\<lparr>rq_ending := (rq_ending g)(me := rt_ending (rq_thread g nxt))\<rparr>;
          g = set_thread g out (\<lambda>t. t\<lparr>rt_on_cpu := True\<rparr>);
          g = g\<lparr>rq_switching := (rq_switching g)(me := Some out)\<rparr>
      in if rq_preempt_off g me \<noteq> 0 then None else Some g)"

definition switch_away :: "nat \<Rightarrow> RunState \<Rightarrow> u64 \<Rightarrow> Park \<Rightarrow> RunState option" where
  "switch_away me g prev to =
     (case (case pick_next me g of
              (g, Some n) \<Rightarrow> Some (g, n)
            | (g, None) \<Rightarrow>
                (case rq_idle g me of
                   None \<Rightarrow> None
                 | Some n \<Rightarrow> Some (g\<lparr>rq_idle := (rq_idle g)(me := None)\<rparr>, n))) of
        None \<Rightarrow> None
      | Some (g, nxt) \<Rightarrow>
          (case park me g prev to of
             None \<Rightarrow> None
           | Some g \<Rightarrow>
               let g = set_state g nxt TRunning;
                   g = g\<lparr>rq_current := (rq_current g)(me := Some nxt)\<rparr>
               in switch_into me g prev nxt))"

definition switch_to_next :: "nat \<Rightarrow> RunState \<Rightarrow> RunState option" where
  "switch_to_next me g = (case take_current me g of None \<Rightarrow> None | Some (g, prev) \<Rightarrow> switch_away me g prev ParkReady)"

text \<open>\<^verbatim>\<open>yield_now\<close>, once it has reclaimed the exited threads.\<close>

definition yield_now :: "nat \<Rightarrow> RunState \<Rightarrow> RunState option" where
  "yield_now me g = (if ready_list g me = [] then Some g else switch_to_next me g)"

definition tick_quantum :: "u32 \<Rightarrow> bool \<Rightarrow> u32 \<times> bool" where
  "tick_quantum quantum ready_nonempty =
     (let q = (if quantum = 0 then 0 else quantum - 1) in
      if q = 0 then (QUANTUM_TICKS, ready_nonempty) else (q, False))"

end
