(* ===== verification/Run_Life.thy ===== *)
theory Run_Life
  imports Run_Queue
begin

text \<open>
  The life of a thread on the run queues: boot and spawning (\<^verbatim>\<open>sched/spawn.rs\<close>), the tick and the
  reschedule interrupt (\<^verbatim>\<open>sched.rs\<close>), preemption control (\<^verbatim>\<open>sched/preempt.rs\<close>), and exit, suspension and
  the reaper (\<^verbatim>\<open>sched/exit.rs\<close>).

  The threads that a signal, a deadline or a notification makes runnable during an operation are an
  argument of it, in the order they are placed; \<^verbatim>\<open>Sched\<close> models which they are.
\<close>

section \<open>Boot and spawning\<close>

definition new_thread :: "u32 \<Rightarrow> bool \<Rightarrow> ThreadState \<Rightarrow> RunThread" where
  "new_thread pid has_process state =
     \<lparr>rt_state = state, rt_pid = pid, rt_has_process = has_process, rt_process_ended = False, rt_ending = False,
      rt_disposition = (0, 0), rt_class = TimeShared, rt_priority = 0, rt_nice = 0, rt_vruntime = 0,
      rt_last_cpu = 0, rt_cpu_mask = -1, rt_on_cpu = False\<rparr>"

definition thread_list :: "u64 Reserved" where
  "thread_list = \<lparr>rs_items = [], rs_cap = MAX_THREADS\<rparr>"

definition unreserved :: "'a Reserved" where
  "unreserved = \<lparr>rs_items = [], rs_cap = 0\<rparr>"

definition ENDED_PIDS_RESERVE :: nat where "ENDED_PIDS_RESERVE = 64"

definition Counters_ZERO :: Counters where
  "Counters_ZERO = \<lparr>st_switches = 0, st_steals = 0, st_placed = 0, st_resched_ipis = 0, st_ticks = 0\<rparr>"

definition online_add :: "u64 \<Rightarrow> nat \<Rightarrow> u64" where
  "online_add online cpu = online OR push_bit cpu 1"

definition online_remove :: "u64 \<Rightarrow> nat \<Rightarrow> u64" where
  "online_remove online cpu = online AND NOT (push_bit cpu 1)"

text \<open>The state once \<^verbatim>\<open>init\<close> has run on processor 0, given the addresses of the three threads it makes.\<close>

definition run_init :: "u64 \<Rightarrow> u64 \<Rightarrow> u64 \<Rightarrow> RunState" where
  "run_init boot idle reaper =
     \<lparr>rq_ready = (\<lambda>_. unreserved)(0 := thread_list\<lparr>rs_items := [reaper]\<rparr>), rq_cpu_online = (\<lambda>_. False)(0 := True),
      rq_current = (\<lambda>_. None)(0 := Some boot), rq_reap = (\<lambda>_. unreserved)(0 := thread_list), rq_suspended = thread_list,
      rq_quantum = (\<lambda>_. QUANTUM_TICKS), rq_min_vruntime = (\<lambda>_. 0), rq_idle = (\<lambda>_. None)(0 := Some idle),
      rq_idle_addr = (\<lambda>_. 0)(0 := idle), rq_blocked = thread_list, rq_stats = (\<lambda>_. Counters_ZERO),
      rq_ended_pids = \<lparr>rs_items = [], rs_cap = ENDED_PIDS_RESERVE\<rparr>, rq_reaper = None, rq_threads = 2,
      rq_online_mask = online_add 0 0, rq_preempt_off = (\<lambda>_. 0), rq_resched_pending = (\<lambda>_. False), rq_ending = (\<lambda>_. False),
      rq_thread = (\<lambda>_. new_thread 0 False TReady)(boot := new_thread 0 False TRunning),
      rq_switching = (\<lambda>_. None), rq_ipis = []\<rparr>"

definition ap_init :: "nat \<Rightarrow> RunState \<Rightarrow> u64 \<Rightarrow> u64 \<Rightarrow> RunState" where
  "ap_init me g boot idle =
     g\<lparr>rq_thread := (rq_thread g)(boot := new_thread 0 False TRunning, idle := new_thread 0 False TReady),
       rq_current := (rq_current g)(me := Some boot), rq_threads := rq_threads g + 1,
       rq_idle := (rq_idle g)(me := Some idle), rq_idle_addr := (rq_idle_addr g)(me := idle),
       rq_reap := (rq_reap g)(me := thread_list), rq_ready := (rq_ready g)(me := thread_list),
       rq_cpu_online := (rq_cpu_online g)(me := True), rq_online_mask := online_add (rq_online_mask g) me\<rparr>"

definition clear_online_bit :: "bool \<Rightarrow> nat \<Rightarrow> RunState \<Rightarrow> RunState" where
  "clear_online_bit identity_bound me g =
     (if \<not> identity_bound \<or> MAX_CPUS \<le> me then g else g\<lparr>rq_online_mask := online_remove (rq_online_mask g) me\<rparr>)"

definition set_thread_affinity :: "RunState \<Rightarrow> u64 \<Rightarrow> u8 \<Rightarrow> RunState" where
  "set_thread_affinity g th affinity = set_thread g th (\<lambda>t. t\<lparr>rt_cpu_mask := affinity\<rparr>)"

text \<open>The thread as made, with its scheduling parameters, before the lock is taken to place it.\<close>

definition make_thread :: "RunState \<Rightarrow> u64 \<Rightarrow> u32 \<Rightarrow> bool \<Rightarrow> SchedClass \<Rightarrow> u8 \<Rightarrow> u8 \<Rightarrow> u8 \<Rightarrow> RunState" where
  "make_thread g th pid has_process cls priority nice affinity =
     g\<lparr>rq_thread := (rq_thread g)(th := (new_thread pid has_process TReady)
         \<lparr>rt_class := cls, rt_priority := priority, rt_nice := nice, rt_cpu_mask := affinity\<rparr>)\<rparr>"

definition spawn_inner :: "nat \<Rightarrow> RunState \<Rightarrow> u64 \<Rightarrow> SchedClass \<Rightarrow> u8 \<Rightarrow> u8 \<Rightarrow> u8 \<Rightarrow> (RunState \<times> bool) option" where
  "spawn_inner me g th cls priority nice affinity =
     place_thread me (make_thread g th 0 False cls priority nice affinity) th False"

text \<open>Whether the thread's process has begun to exit is an argument.\<close>

definition place_spawned :: "nat \<Rightarrow> RunState \<Rightarrow> u64 \<Rightarrow> bool \<Rightarrow> (RunState \<times> bool) option" where
  "place_spawned me g th process_ending =
     place_thread me (if process_ending then set_thread g th (\<lambda>t. t\<lparr>rt_ending := True\<rparr>) else g) th False"

text \<open>A user thread made by \<^verbatim>\<open>make_user_sched\<close> and enqueued by \<^verbatim>\<open>start_user\<close>; and with the default scheduling.\<close>

definition start_user ::
    "nat \<Rightarrow> RunState \<Rightarrow> u64 \<Rightarrow> u32 \<Rightarrow> SchedClass \<Rightarrow> u8 \<Rightarrow> u8 \<Rightarrow> u8 \<Rightarrow> bool \<Rightarrow> (RunState \<times> bool) option" where
  "start_user me g th pid cls priority nice affinity process_ending =
     place_spawned me (make_thread g th pid True cls priority nice affinity) th process_ending"

definition spawn_user :: "nat \<Rightarrow> RunState \<Rightarrow> u64 \<Rightarrow> u32 \<Rightarrow> bool \<Rightarrow> (RunState \<times> bool) option" where
  "spawn_user me g th pid process_ending = start_user me g th pid TimeShared 0 0 (-1) process_ending"

section \<open>Waking\<close>

definition rq_make_runnable :: "nat \<Rightarrow> RunState \<Rightarrow> u64 \<Rightarrow> (RunState \<times> bool) option" where
  "rq_make_runnable me g th =
     (case position (\<lambda>r. r = th) (rs_items (rq_blocked g)) of
        None \<Rightarrow> Some (g, False)
      | Some i \<Rightarrow>
          let g = g\<lparr>rq_blocked := Reserved_remove (rq_blocked g) i\<rparr>;
              g = set_state g th TReady
          in map_option (\<lambda>g. (g, True)) (place_woken me g th))"

fun wake_each :: "nat \<Rightarrow> RunState \<Rightarrow> u64 list \<Rightarrow> RunState option" where
  "wake_each me g [] = Some g"
| "wake_each me g (th # ths) = Option.bind (rq_make_runnable me g th) (\<lambda>(g, _). wake_each me g ths)"

definition wake_reaper :: "nat \<Rightarrow> RunState \<Rightarrow> RunState option" where
  "wake_reaper me g =
     (case rq_reaper g of
        None \<Rightarrow> Some g
      | Some r \<Rightarrow>
          let g = set_state (g\<lparr>rq_reaper := None\<rparr>) r TReady
          in map_option (set_ready g me) (Reserved_push (rq_ready g me) r))"

section \<open>The tick, the reschedule interrupt and preemption control\<close>

definition switch_if_idle :: "nat \<Rightarrow> RunState \<Rightarrow> RunState option" where
  "switch_if_idle me g =
     (if current_is_idle me g \<and> (ready_list g me \<noteq> [] \<or> steal_available g me) then switch_to_next me g else Some g)"

definition on_timer_tick :: "nat \<Rightarrow> RunState \<Rightarrow> u64 list \<Rightarrow> RunState option" where
  "on_timer_tick me g woken =
     Option.bind (wake_each me g woken) (\<lambda>g.
       let g = accrue_vruntime me g;
           g = count_event g me (\<lambda>s. s\<lparr>st_ticks := st_ticks s + 1\<rparr>);
           ready_here = (ready_list g me \<noteq> []);
           (new_quantum, reschedule) = tick_quantum (rq_quantum g me) ready_here;
           g = g\<lparr>rq_quantum := (rq_quantum g)(me := new_quantum)\<rparr>
       in if 0 < rq_preempt_off g me
          then Some (if reschedule \<or> (\<not> ready_here \<and> current_is_idle me g \<and> steal_available g me)
                     then g\<lparr>rq_resched_pending := (rq_resched_pending g)(me := True)\<rparr> else g)
          else if reschedule then switch_to_next me g
          else if \<not> ready_here \<and> current_is_idle me g \<and> steal_available g me then switch_to_next me g
          else Some g)"

definition resched_if_idle :: "nat \<Rightarrow> RunState \<Rightarrow> RunState option" where
  "resched_if_idle me g =
     (if 0 < rq_preempt_off g me then Some (g\<lparr>rq_resched_pending := (rq_resched_pending g)(me := True)\<rparr>)
      else switch_if_idle me g)"

definition on_reschedule_ipi :: "nat \<Rightarrow> RunState \<Rightarrow> RunState option" where
  "on_reschedule_ipi me g =
     resched_if_idle me (count_event g me (\<lambda>s. s\<lparr>st_resched_ipis := st_resched_ipis s + 1\<rparr>))"

definition preempt_disable :: "nat \<Rightarrow> RunState \<Rightarrow> RunState" where
  "preempt_disable me g = g\<lparr>rq_preempt_off := (rq_preempt_off g)(me := rq_preempt_off g me + 1)\<rparr>"

text \<open>\<^verbatim>\<open>preempt_enable\<close> up to where it takes the lock: whether it replays a skipped reschedule.\<close>

definition preempt_enable :: "nat \<Rightarrow> RunState \<Rightarrow> (RunState \<times> bool) option" where
  "preempt_enable me g =
     (let depth = rq_preempt_off g me in
      if depth = 0 then None
      else let g = g\<lparr>rq_preempt_off := (rq_preempt_off g)(me := depth - 1)\<rparr>
           in if depth = 1
              then Some (g\<lparr>rq_resched_pending := (rq_resched_pending g)(me := False)\<rparr>, rq_resched_pending g me)
              else Some (g, False))"

section \<open>Exit\<close>

definition has_live_siblings :: "RunState \<Rightarrow> u32 \<Rightarrow> bool" where
  "has_live_siblings g pid =
     (let same = (\<lambda>th. rt_pid (rq_thread g th) = pid) in
      (\<exists>c\<in>set [0..<MAX_CPUS]. \<exists>th\<in>set (ready_list g c). same th)
      \<or> (\<exists>th\<in>set (rs_items (rq_blocked g)). same th) \<or> (\<exists>th\<in>set (rs_items (rq_suspended g)). same th)
      \<or> (\<exists>c\<in>set [0..<MAX_CPUS]. case rq_current g c of None \<Rightarrow> False | Some th \<Rightarrow> same th))"

definition set_ending :: "RunState \<Rightarrow> u64 \<Rightarrow> RunState" where
  "set_ending g th = set_thread g th (\<lambda>t. t\<lparr>rt_ending := True\<rparr>)"

text \<open>\<^verbatim>\<open>resume_parked\<close> and the loops of \<^verbatim>\<open>end_siblings\<close> over the processors, the blocked and the suspended.\<close>

definition resume_parked :: "nat \<Rightarrow> RunState \<Rightarrow> u64 \<Rightarrow> u8 \<Rightarrow> u32 \<Rightarrow> RunState option" where
  "resume_parked me g th tag code =
     place_woken me (set_thread g th (\<lambda>t. t\<lparr>rt_disposition := (tag, code), rt_state := TReady\<rparr>)) th"

definition DISP_TERMINATE :: u8 where "DISP_TERMINATE = 2"

definition same_pid :: "RunState \<Rightarrow> u32 \<Rightarrow> u64 \<Rightarrow> bool" where
  "same_pid g pid th \<longleftrightarrow> rt_pid (rq_thread g th) = pid"

definition mark_cpu :: "nat \<Rightarrow> u32 \<Rightarrow> nat \<Rightarrow> RunState \<Rightarrow> RunState" where
  "mark_cpu me pid c g =
     (let g = foldl set_ending g (filter (same_pid g pid) (ready_list g c)) in
      case rq_current g c of
        Some th \<Rightarrow>
          if same_pid g pid th
          then let g = set_ending g th;
                   g = g\<lparr>rq_ending := (rq_ending g)(c := True)\<rparr>
               in if c \<noteq> me then g\<lparr>rq_ipis := rq_ipis g @ [c]\<rparr> else g
          else g
      | None \<Rightarrow> g)"

partial_function (option) mark_blocked :: "nat \<Rightarrow> u32 \<Rightarrow> (u64 \<Rightarrow> bool) \<Rightarrow> RunState \<Rightarrow> RunState option" where
  "mark_blocked me pid claims g =
     (case position (\<lambda>th. same_pid g pid th \<and> \<not> rt_ending (rq_thread g th)) (rs_items (rq_blocked g)) of
        None \<Rightarrow> Some g
      | Some i \<Rightarrow>
          let th = rs_items (rq_blocked g) ! i;
              g = set_ending g th
          in if claims th then Option.bind (rq_make_runnable me g th) (\<lambda>r. mark_blocked me pid claims (fst r))
             else mark_blocked me pid claims g)"

partial_function (option) end_suspended :: "nat \<Rightarrow> u32 \<Rightarrow> RunState \<Rightarrow> RunState option" where
  "end_suspended me pid g =
     (case position (same_pid g pid) (rs_items (rq_suspended g)) of
        None \<Rightarrow> Some g
      | Some i \<Rightarrow>
          let th = rs_items (rq_suspended g) ! i;
              g = set_ending (g\<lparr>rq_suspended := Reserved_remove (rq_suspended g) i\<rparr>) th
          in Option.bind (resume_parked me g th DISP_TERMINATE 0) (end_suspended me pid))"

text \<open>Which blocked threads the wake handshake hands to this waker is an argument.\<close>

definition end_siblings :: "nat \<Rightarrow> RunState \<Rightarrow> u32 \<Rightarrow> (u64 \<Rightarrow> bool) \<Rightarrow> RunState option" where
  "end_siblings me g pid claims =
     Option.bind (mark_blocked me pid claims (fold (mark_cpu me pid) [0..<MAX_CPUS] g)) (end_suspended me pid)"

definition end_process_if_last :: "nat \<Rightarrow> RunState \<Rightarrow> u64 \<Rightarrow> u64 list \<Rightarrow> (RunState \<times> bool) option" where
  "end_process_if_last me g th woken =
     (let pid = rt_pid (rq_thread g th) in
      if \<not> rt_has_process (rq_thread g th) \<or> has_live_siblings g pid then Some (g, False)
      else let g = set_thread g th (\<lambda>t. t\<lparr>rt_process_ended := True\<rparr>)
           in Option.bind (case Reserved_push (rq_ended_pids g) pid of
                             Some q \<Rightarrow> wake_reaper me (g\<lparr>rq_ended_pids := q\<rparr>)
                           | None \<Rightarrow> Some g)
                (\<lambda>g. map_option (\<lambda>g. (g, True)) (wake_each me g woken)))"

definition exit_thread :: "nat \<Rightarrow> RunState \<Rightarrow> u64 list \<Rightarrow> RunState option" where
  "exit_thread me g woken =
     (case take_current me g of
        None \<Rightarrow> None
      | Some (g, th) \<Rightarrow>
          Option.bind (end_process_if_last me g th woken) (\<lambda>r. switch_away me (fst r) th ParkExited))"

definition exit_process :: "nat \<Rightarrow> RunState \<Rightarrow> (u64 \<Rightarrow> bool) \<Rightarrow> u64 list \<Rightarrow> RunState option" where
  "exit_process me g claims woken =
     (case take_current me g of
        None \<Rightarrow> None
      | Some (g, th) \<Rightarrow>
          Option.bind (if rt_has_process (rq_thread g th) then end_siblings me g (rt_pid (rq_thread g th)) claims else Some g)
            (\<lambda>g. Option.bind (end_process_if_last me g th woken) (\<lambda>r. switch_away me (fst r) th ParkExited)))"

text \<open>The block at the end of a wait's first hold.\<close>

definition block_current :: "nat \<Rightarrow> RunState \<Rightarrow> RunState option" where
  "block_current me g = (case take_current me g of None \<Rightarrow> None | Some (g, th) \<Rightarrow> switch_away me g th ParkBlocked)"

section \<open>Suspension and the reaper\<close>

text \<open>\<^verbatim>\<open>suspend_with_fault\<close>, first hold: False when the thread is to terminate instead. Its registers are not modelled.\<close>

definition suspend_with_fault :: "nat \<Rightarrow> RunState \<Rightarrow> u64 list \<Rightarrow> (RunState \<times> bool) option" where
  "suspend_with_fault me g woken =
     (case rq_current g me of
        None \<Rightarrow> None
      | Some th \<Rightarrow>
          if rt_ending (rq_thread g th) then Some (g, False)
          else case take_current me g of
                 None \<Rightarrow> None
               | Some (g, th) \<Rightarrow>
                   Option.bind (wake_each me g woken) (\<lambda>g. map_option (\<lambda>g. (g, True)) (switch_away me g th ParkSuspended)))"

definition resume_suspended :: "nat \<Rightarrow> RunState \<Rightarrow> u64 \<Rightarrow> u8 \<Rightarrow> u32 \<Rightarrow> (RunState \<times> bool) option" where
  "resume_suspended me g th tag code =
     (case position (\<lambda>r. r = th) (rs_items (rq_suspended g)) of
        None \<Rightarrow> Some (g, False)
      | Some i \<Rightarrow>
          map_option (\<lambda>g. (g, True)) (resume_parked me (g\<lparr>rq_suspended := Reserved_remove (rq_suspended g) i\<rparr>) th tag code))"

text \<open>The drain of this processor's reap list: up to \<open>n\<close> threads off its end.\<close>

fun drain_reap :: "nat \<Rightarrow> nat \<Rightarrow> RunState \<Rightarrow> RunState \<times> u64 list" where
  "drain_reap me 0 g = (g, [])"
| "drain_reap me (Suc n) g =
     (if rs_items (rq_reap g me) = [] then (g, [])
      else let th = last (rs_items (rq_reap g me));
               g = g\<lparr>rq_reap := (rq_reap g)(me := (rq_reap g me)\<lparr>rs_items := butlast (rs_items (rq_reap g me))\<rparr>),
                     rq_threads := rq_threads g - 1\<rparr>;
               (g, ths) = drain_reap me n g
           in (g, th # ths))"

definition take_ended_pid :: "RunState \<Rightarrow> RunState \<times> u32 option" where
  "take_ended_pid g =
     (if rs_items (rq_ended_pids g) = [] then (g, None)
      else (g\<lparr>rq_ended_pids := (rq_ended_pids g)\<lparr>rs_items := butlast (rs_items (rq_ended_pids g))\<rparr>\<rparr>, Some (last (rs_items (rq_ended_pids g)))))"

text \<open>Whether completed block requests wait to be freed is an argument.\<close>

definition park_reaper :: "nat \<Rightarrow> RunState \<Rightarrow> bool \<Rightarrow> RunState option" where
  "park_reaper me g backlog =
     (if rs_items (rq_ended_pids g) \<noteq> [] \<or> backlog then Some g
      else case take_current me g of None \<Rightarrow> None | Some (g, th) \<Rightarrow> switch_away me g th ParkReaper)"

end
