(* ===== verification/Run_Invariant.thy ===== *)
theory Run_Invariant
  imports Run_Life
begin

text \<open>
  The invariant of the run queues: where every thread is, and that the lists have room for it. \<open>H\<close>
  holds the threads an operation has in hand, off every list; it is empty between holds of the lock.
\<close>

section \<open>Fields\<close>

lemma set_thread_fields [simp]:
  "rq_ready (set_thread g th f) = rq_ready g" "rq_cpu_online (set_thread g th f) = rq_cpu_online g" "rq_current (set_thread g th f) = rq_current g" "rq_reap (set_thread g th f) = rq_reap g"
  "rq_suspended (set_thread g th f) = rq_suspended g" "rq_quantum (set_thread g th f) = rq_quantum g" "rq_min_vruntime (set_thread g th f) = rq_min_vruntime g" "rq_idle (set_thread g th f) = rq_idle g"
  "rq_idle_addr (set_thread g th f) = rq_idle_addr g" "rq_blocked (set_thread g th f) = rq_blocked g" "rq_stats (set_thread g th f) = rq_stats g" "rq_ended_pids (set_thread g th f) = rq_ended_pids g"
  "rq_reaper (set_thread g th f) = rq_reaper g" "rq_threads (set_thread g th f) = rq_threads g" "rq_online_mask (set_thread g th f) = rq_online_mask g" "rq_preempt_off (set_thread g th f) = rq_preempt_off g"
  "rq_resched_pending (set_thread g th f) = rq_resched_pending g" "rq_ending (set_thread g th f) = rq_ending g" "rq_switching (set_thread g th f) = rq_switching g" "rq_ipis (set_thread g th f) = rq_ipis g"
 
  "rq_thread (set_thread g th f) = (rq_thread g)(th := f (rq_thread g th))"
  by (simp_all add: set_thread_def)

lemma set_ready_fields [simp]:
  "rq_cpu_online (set_ready g c q) = rq_cpu_online g" "rq_current (set_ready g c q) = rq_current g" "rq_reap (set_ready g c q) = rq_reap g" "rq_suspended (set_ready g c q) = rq_suspended g"
  "rq_quantum (set_ready g c q) = rq_quantum g" "rq_min_vruntime (set_ready g c q) = rq_min_vruntime g" "rq_idle (set_ready g c q) = rq_idle g" "rq_idle_addr (set_ready g c q) = rq_idle_addr g"
  "rq_blocked (set_ready g c q) = rq_blocked g" "rq_stats (set_ready g c q) = rq_stats g" "rq_ended_pids (set_ready g c q) = rq_ended_pids g" "rq_reaper (set_ready g c q) = rq_reaper g"
  "rq_threads (set_ready g c q) = rq_threads g" "rq_online_mask (set_ready g c q) = rq_online_mask g" "rq_preempt_off (set_ready g c q) = rq_preempt_off g" "rq_resched_pending (set_ready g c q) = rq_resched_pending g"
  "rq_ending (set_ready g c q) = rq_ending g" "rq_switching (set_ready g c q) = rq_switching g" "rq_ipis (set_ready g c q) = rq_ipis g"
  "rq_ready (set_ready g c q) = (rq_ready g)(c := q)" "rq_thread (set_ready g c q) = rq_thread g"
  by (simp_all add: set_ready_def)

lemma count_event_fields [simp]:
  "rq_ready (count_event g c h) = rq_ready g" "rq_cpu_online (count_event g c h) = rq_cpu_online g" "rq_current (count_event g c h) = rq_current g" "rq_reap (count_event g c h) = rq_reap g"
  "rq_suspended (count_event g c h) = rq_suspended g" "rq_quantum (count_event g c h) = rq_quantum g" "rq_min_vruntime (count_event g c h) = rq_min_vruntime g" "rq_idle (count_event g c h) = rq_idle g"
  "rq_idle_addr (count_event g c h) = rq_idle_addr g" "rq_blocked (count_event g c h) = rq_blocked g" "rq_ended_pids (count_event g c h) = rq_ended_pids g" "rq_reaper (count_event g c h) = rq_reaper g"
  "rq_threads (count_event g c h) = rq_threads g" "rq_online_mask (count_event g c h) = rq_online_mask g" "rq_preempt_off (count_event g c h) = rq_preempt_off g" "rq_resched_pending (count_event g c h) = rq_resched_pending g"
  "rq_ending (count_event g c h) = rq_ending g" "rq_switching (count_event g c h) = rq_switching g" "rq_ipis (count_event g c h) = rq_ipis g"
  "rq_thread (count_event g c h) = rq_thread g"
  by (simp_all add: count_event_def)

section \<open>Where threads are\<close>

fun slot :: "'a option \<Rightarrow> 'a multiset" where
  "slot None = {#}"
| "slot (Some x) = {#x#}"

lemma in_slot [simp]: "x \<in># slot y \<longleftrightarrow> y = Some x"
  by (cases y) auto

definition at_cpu :: "RunState \<Rightarrow> nat \<Rightarrow> u64 multiset" where
  "at_cpu g c = mset (ready_list g c) + mset (rs_items (rq_reap g c)) + slot (rq_current g c) + slot (rq_idle g c)"

definition off_cpu :: "RunState \<Rightarrow> u64 multiset" where
  "off_cpu g = mset (rs_items (rq_blocked g)) + mset (rs_items (rq_suspended g)) + slot (rq_reaper g)"

definition tracked :: "RunState \<Rightarrow> u64 multiset" where
  "tracked g = (\<Sum>c<MAX_CPUS. at_cpu g c) + off_cpu g"

definition online_set :: "RunState \<Rightarrow> nat set" where
  "online_set g = {c. c < MAX_CPUS \<and> rq_cpu_online g c}"

definition idle_threads :: "RunState \<Rightarrow> u64 set" where
  "idle_threads g = rq_idle_addr g ` online_set g"

section \<open>The invariant\<close>

definition cpu_ok :: "u64 multiset \<Rightarrow> RunState \<Rightarrow> nat \<Rightarrow> bool" where
  "cpu_ok H g c \<longleftrightarrow>
     (if rq_cpu_online g c
      then rs_cap (rq_ready g c) = MAX_THREADS \<and> rs_cap (rq_reap g c) = MAX_THREADS
        \<and> rq_idle_addr g c \<in># slot (rq_idle g c) + slot (rq_current g c) + H
        \<and> (\<forall>th. rq_idle g c = Some th \<longrightarrow> th = rq_idle_addr g c)
      else at_cpu g c = {#})"

text \<open>A thread's state names the list it is on.\<close>

definition listed :: "RunState \<Rightarrow> u64 \<Rightarrow> ThreadState \<Rightarrow> bool" where
  "listed g th s \<longleftrightarrow>
     (\<exists>c<MAX_CPUS. th \<in> set (ready_list g c) \<and> s = TReady \<or> th \<in> set (rs_items (rq_reap g c)) \<and> s = TExited
        \<or> rq_current g c = Some th \<and> s = TRunning \<or> rq_idle g c = Some th \<and> s = TReady)
     \<or> th \<in> set (rs_items (rq_blocked g)) \<and> s = TBlocked \<or> th \<in> set (rs_items (rq_suspended g)) \<and> s = TSuspended
     \<or> rq_reaper g = Some th \<and> s = TBlocked"

definition states_ok :: "RunState \<Rightarrow> bool" where
  "states_ok g \<longleftrightarrow> (\<forall>th s. listed g th s \<longrightarrow> rt_state (rq_thread g th) = s)"

text \<open>
  A thread whose context is not committed is named by the one processor that is switching from it,
  runs nowhere, and is on no other processor's reap list.
\<close>

definition switch_ok :: "u64 multiset \<Rightarrow> RunState \<Rightarrow> bool" where
  "switch_ok M g \<longleftrightarrow>
     (\<forall>c<MAX_CPUS. \<forall>th. rq_switching g c = Some th \<longrightarrow> th \<in># M \<and> rt_on_cpu (rq_thread g th)
        \<and> (\<forall>d<MAX_CPUS. rq_current g d \<noteq> Some th \<and> (d \<noteq> c \<longrightarrow> th \<notin> set (rs_items (rq_reap g d)) \<and> rq_switching g d \<noteq> Some th)))
     \<and> (\<forall>th\<in>#M. rt_on_cpu (rq_thread g th) \<longrightarrow> (\<exists>c<MAX_CPUS. rq_switching g c = Some th))"

definition ending_ok :: "RunState \<Rightarrow> bool" where
  "ending_ok g \<longleftrightarrow> (\<forall>c<MAX_CPUS. (\<forall>th. rq_current g c = Some th \<longrightarrow> rq_ending g c = rt_ending (rq_thread g th))
     \<and> (\<not> rq_cpu_online g c \<longrightarrow> \<not> rq_ending g c))"

definition reaper_ok :: "u64 \<Rightarrow> RunState \<Rightarrow> bool" where
  "reaper_ok rp g \<longleftrightarrow> (\<forall>r. rq_reaper g = Some r \<longrightarrow> r = rp \<and> rs_items (rq_ended_pids g) = [])"

definition run_inv :: "u64 \<Rightarrow> u64 multiset \<Rightarrow> RunState \<Rightarrow> bool" where
  "run_inv rp H g \<longleftrightarrow>
     (\<forall>x. count (tracked g + H) x \<le> 1)
     \<and> rq_threads g + card (online_set g) = size (tracked g + H) \<and> rq_threads g \<le> MAX_THREADS
     \<and> inj_on (rq_idle_addr g) (online_set g) \<and> (\<forall>c<MAX_CPUS. cpu_ok H g c)
     \<and> rs_cap (rq_blocked g) = MAX_THREADS \<and> rs_cap (rq_suspended g) = MAX_THREADS
     \<and> states_ok g \<and> switch_ok (tracked g + H) g \<and> ending_ok g \<and> reaper_ok rp g"

lemma run_invD:
  assumes "run_inv rp H g"
  shows "count (tracked g + H) x \<le> 1" "rq_threads g + card (online_set g) = size (tracked g + H)" "rq_threads g \<le> MAX_THREADS"
    "inj_on (rq_idle_addr g) (online_set g)" "c < MAX_CPUS \<Longrightarrow> cpu_ok H g c"
    "rs_cap (rq_blocked g) = MAX_THREADS" "rs_cap (rq_suspended g) = MAX_THREADS"
    "states_ok g" "switch_ok (tracked g + H) g" "ending_ok g" "reaper_ok rp g"
  using assms by (simp_all add: run_inv_def)

text \<open>Every processor that is up runs something.\<close>

definition all_run :: "RunState \<Rightarrow> bool" where
  "all_run g \<longleftrightarrow> (\<forall>c<MAX_CPUS. rq_cpu_online g c \<longrightarrow> rq_current g c \<noteq> None)"

section \<open>Moving threads between places\<close>

lemma tracked_at: "c < MAX_CPUS \<Longrightarrow> tracked g = at_cpu g c + (\<Sum>d\<in>{..<MAX_CPUS} - {c}. at_cpu g d) + off_cpu g"
  by (simp add: tracked_def sum.remove [of "{..<MAX_CPUS}" c])

lemma tracked_cpu:
  assumes "c < MAX_CPUS" and "\<And>d. d \<noteq> c \<Longrightarrow> at_cpu g' d = at_cpu g d" and "off_cpu g' = off_cpu g"
  shows "tracked g' + at_cpu g c = tracked g + at_cpu g' c"
proof -
  have "(\<Sum>d\<in>{..<MAX_CPUS} - {c}. at_cpu g' d) = (\<Sum>d\<in>{..<MAX_CPUS} - {c}. at_cpu g d)"
    by (intro sum.cong) (simp_all add: assms(2))
  then show ?thesis using assms(3) by (simp add: tracked_at [OF assms(1)] ac_simps)
qed

lemma tracked_current:
  assumes "c < MAX_CPUS"
  shows "tracked (g\<lparr>rq_current := (rq_current g)(c := x)\<rparr>) + slot (rq_current g c) = tracked g + slot x"
proof -
  let ?g = "g\<lparr>rq_current := (rq_current g)(c := x)\<rparr>"
  have "tracked ?g + at_cpu g c = tracked g + at_cpu ?g c" by (rule tracked_cpu [OF assms]) (simp_all add: at_cpu_def off_cpu_def)
  then show ?thesis by (simp add: at_cpu_def ac_simps)
qed

lemma tracked_idle:
  assumes "c < MAX_CPUS"
  shows "tracked (g\<lparr>rq_idle := (rq_idle g)(c := x)\<rparr>) + slot (rq_idle g c) = tracked g + slot x"
proof -
  let ?g = "g\<lparr>rq_idle := (rq_idle g)(c := x)\<rparr>"
  have "tracked ?g + at_cpu g c = tracked g + at_cpu ?g c" by (rule tracked_cpu [OF assms]) (simp_all add: at_cpu_def off_cpu_def)
  then show ?thesis by (simp add: at_cpu_def ac_simps)
qed

lemma tracked_ready:
  assumes "c < MAX_CPUS"
  shows "tracked (set_ready g c q) + mset (ready_list g c) = tracked g + mset (rs_items q)"
proof -
  let ?g = "set_ready g c q"
  have "tracked ?g + at_cpu g c = tracked g + at_cpu ?g c"
    by (rule tracked_cpu [OF assms]) (simp_all add: at_cpu_def off_cpu_def set_ready_def)
  then show ?thesis by (simp add: at_cpu_def set_ready_def ac_simps)
qed

lemma tracked_reap:
  assumes "c < MAX_CPUS"
  shows "tracked (g\<lparr>rq_reap := (rq_reap g)(c := q)\<rparr>) + mset (rs_items (rq_reap g c)) = tracked g + mset (rs_items q)"
proof -
  let ?g = "g\<lparr>rq_reap := (rq_reap g)(c := q)\<rparr>"
  have "tracked ?g + at_cpu g c = tracked g + at_cpu ?g c" by (rule tracked_cpu [OF assms]) (simp_all add: at_cpu_def off_cpu_def)
  then show ?thesis by (simp add: at_cpu_def ac_simps)
qed

lemma tracked_off:
  "tracked (g\<lparr>rq_blocked := q\<rparr>) + mset (rs_items (rq_blocked g)) = tracked g + mset (rs_items q)"
  "tracked (g\<lparr>rq_suspended := q\<rparr>) + mset (rs_items (rq_suspended g)) = tracked g + mset (rs_items q)"
  "tracked (g\<lparr>rq_reaper := x\<rparr>) + slot (rq_reaper g) = tracked g + slot x"
  by (simp_all add: tracked_def at_cpu_def off_cpu_def)

lemma tracked_cong:
  "rq_ready g' = rq_ready g \<Longrightarrow> rq_reap g' = rq_reap g \<Longrightarrow> rq_current g' = rq_current g \<Longrightarrow> rq_idle g' = rq_idle g
    \<Longrightarrow> rq_blocked g' = rq_blocked g \<Longrightarrow> rq_suspended g' = rq_suspended g \<Longrightarrow> rq_reaper g' = rq_reaper g \<Longrightarrow> tracked g' = tracked g"
  by (simp add: tracked_def at_cpu_def off_cpu_def)

lemma tracked_set_thread [simp]: "tracked (set_thread g th f) = tracked g"
  by (rule tracked_cong) (simp_all add: set_thread_def)

lemma at_cpu_tracked: "c < MAX_CPUS \<Longrightarrow> at_cpu g c \<subseteq># tracked g"
  by (simp add: tracked_at)

lemma places_tracked:
  "c < MAX_CPUS \<Longrightarrow> th \<in> set (ready_list g c) \<Longrightarrow> th \<in># tracked g"
  "c < MAX_CPUS \<Longrightarrow> th \<in> set (rs_items (rq_reap g c)) \<Longrightarrow> th \<in># tracked g"
  "c < MAX_CPUS \<Longrightarrow> rq_current g c = Some th \<Longrightarrow> th \<in># tracked g"
  "c < MAX_CPUS \<Longrightarrow> rq_idle g c = Some th \<Longrightarrow> th \<in># tracked g"
  "th \<in> set (rs_items (rq_blocked g)) \<Longrightarrow> th \<in># tracked g"
  "th \<in> set (rs_items (rq_suspended g)) \<Longrightarrow> th \<in># tracked g"
  "rq_reaper g = Some th \<Longrightarrow> th \<in># tracked g"
  by (simp_all add: tracked_at at_cpu_def) (simp_all add: tracked_def off_cpu_def)

lemma listed_tracked: "listed g th s \<Longrightarrow> th \<in># tracked g"
  unfolding listed_def using places_tracked by blast

lemma listed_cong:
  "rq_ready g' = rq_ready g \<Longrightarrow> rq_reap g' = rq_reap g \<Longrightarrow> rq_current g' = rq_current g \<Longrightarrow> rq_idle g' = rq_idle g
    \<Longrightarrow> rq_blocked g' = rq_blocked g \<Longrightarrow> rq_suspended g' = rq_suspended g \<Longrightarrow> rq_reaper g' = rq_reaper g \<Longrightarrow> listed g' = listed g"
  by (simp add: listed_def fun_eq_iff)

lemma mset_Reserved_remove: "i < length (rs_items q) \<Longrightarrow> mset (rs_items q) = add_mset (rs_items q ! i) (mset (rs_items (Reserved_remove q i)))"
  by (subst id_take_nth_drop [of i "rs_items q"]) (simp_all add: Reserved_remove_def)

lemma set_Reserved_remove: "set (rs_items (Reserved_remove q i)) \<subseteq> set (rs_items q)"
  by (auto simp: Reserved_remove_def dest: in_set_takeD in_set_dropD)

lemma rs_cap_Reserved_remove [simp]: "rs_cap (Reserved_remove q i) = rs_cap q"
  by (simp add: Reserved_remove_def)

lemma tracked_same_fields [simp]:
  "tracked (g\<lparr>rq_thread := t\<rparr>) = tracked g" "tracked (g\<lparr>rq_switching := s\<rparr>) = tracked g" "tracked (g\<lparr>rq_ending := e\<rparr>) = tracked g"
  "tracked (g\<lparr>rq_threads := n\<rparr>) = tracked g"
  by (rule tracked_cong; simp)+

section \<open>Bookkeeping keeps the invariant\<close>

lemma run_inv_move:
  assumes "run_inv rp H g" "tracked g' + H' = tracked g + H" "rq_threads g' = rq_threads g" "rq_cpu_online g' = rq_cpu_online g"
    "rq_idle_addr g' = rq_idle_addr g" "\<And>c. c < MAX_CPUS \<Longrightarrow> cpu_ok H' g' c"
    "rs_cap (rq_blocked g') = MAX_THREADS" "rs_cap (rq_suspended g') = MAX_THREADS"
    "states_ok g'" "switch_ok (tracked g + H) g'" "ending_ok g'" "reaper_ok rp g'"
  shows "run_inv rp H' g'"
  using assms by (simp add: run_inv_def online_set_def)

definition same_places :: "RunState \<Rightarrow> RunState \<Rightarrow> bool" where
  "same_places g g' \<longleftrightarrow> rq_ready g' = rq_ready g \<and> rq_cpu_online g' = rq_cpu_online g \<and> rq_current g' = rq_current g
     \<and> rq_reap g' = rq_reap g \<and> rq_suspended g' = rq_suspended g \<and> rq_idle g' = rq_idle g \<and> rq_idle_addr g' = rq_idle_addr g
     \<and> rq_blocked g' = rq_blocked g \<and> rq_reaper g' = rq_reaper g \<and> rq_threads g' = rq_threads g
     \<and> rq_switching g' = rq_switching g"

lemma same_places_parts:
  assumes "same_places g g'"
  shows "tracked g' = tracked g" "at_cpu g' = at_cpu g" "cpu_ok H g' = cpu_ok H g" "listed g' = listed g"
proof -
  show "tracked g' = tracked g" "listed g' = listed g"
    by (rule tracked_cong listed_cong; use assms in \<open>simp add: same_places_def\<close>)+
  show "at_cpu g' = at_cpu g" "cpu_ok H g' = cpu_ok H g"
    using assms by (simp_all add: same_places_def fun_eq_iff cpu_ok_def at_cpu_def)
qed

lemma run_inv_same:
  assumes "run_inv rp H g" "same_places g g'" "rq_ending g' = rq_ending g" "rq_ended_pids g' = rq_ended_pids g"
    and "\<And>th. rt_state (rq_thread g' th) = rt_state (rq_thread g th) \<and> rt_on_cpu (rq_thread g' th) = rt_on_cpu (rq_thread g th)
      \<and> rt_ending (rq_thread g' th) = rt_ending (rq_thread g th)"
  shows "run_inv rp H g'"
proof (rule run_inv_move [OF assms(1)])
  note i = run_invD [OF assms(1)] and p = same_places_parts [OF assms(2)] and f = assms(2) [unfolded same_places_def]
  show "tracked g' + H = tracked g + H" by (simp add: p)
  show "cpu_ok H g' c" if "c < MAX_CPUS" for c using i(5) [OF that] by (simp add: p)
  show "states_ok g'" using i(8) assms(5) by (simp add: states_ok_def p)
  show "switch_ok (tracked g + H) g'" using i(9) f assms(5) by (simp add: switch_ok_def)
  show "ending_ok g'" using i(10) f assms(3,5) by (simp add: ending_ok_def)
  show "reaper_ok rp g'" using i(11) f assms(4) by (simp add: reaper_ok_def)
qed (use assms(2) run_invD(6,7) [OF assms(1)] in \<open>simp_all add: same_places_def\<close>)

lemma hand_untracked:
  assumes "run_inv rp H g" "th \<in># H"
  shows "th \<notin># tracked g"
proof -
  have "count (tracked g) th + count H th \<le> 1" using run_invD(1) [OF assms(1), of th] by simp
  moreover have "0 < count H th" using assms(2) by simp
  ultimately have "count (tracked g) th = 0" by linarith
  then show ?thesis by (simp add: not_in_iff)
qed

lemma untracked_places:
  assumes "th \<notin># tracked g"
  shows "c < MAX_CPUS \<Longrightarrow> th \<notin> set (ready_list g c)" "c < MAX_CPUS \<Longrightarrow> th \<notin> set (rs_items (rq_reap g c))"
    "c < MAX_CPUS \<Longrightarrow> rq_current g c \<noteq> Some th" "c < MAX_CPUS \<Longrightarrow> rq_idle g c \<noteq> Some th"
    "th \<notin> set (rs_items (rq_blocked g))" "th \<notin> set (rs_items (rq_suspended g))" "rq_reaper g \<noteq> Some th"
  using places_tracked assms by blast+

lemma same_places_set_thread [simp]: "same_places g (set_thread g th f)"
  by (simp add: same_places_def set_thread_def)

lemma states_ok_untracked:
  assumes "states_ok g" "th \<notin># tracked g"
  shows "states_ok (set_thread g th f)"
  using assms listed_tracked [of g]
  by (auto simp: states_ok_def same_places_parts(4) [OF same_places_set_thread])

text \<open>The fields of a thread in hand may change, its switch guard apart.\<close>

lemma run_inv_hand:
  assumes "run_inv rp H g" "th \<in># H" "rt_on_cpu (f (rq_thread g th)) = rt_on_cpu (rq_thread g th)"
  shows "run_inv rp H (set_thread g th f)"
proof (rule run_inv_move [OF assms(1)])
  note i = run_invD [OF assms(1)] and u = hand_untracked [OF assms(1,2)]
  note p = same_places_parts [OF same_places_set_thread [of g th f]]
  show "cpu_ok H (set_thread g th f) c" if "c < MAX_CPUS" for c using i(5) [OF that] by (simp add: p)
  show "states_ok (set_thread g th f)" by (rule states_ok_untracked [OF i(8) u])
  show "switch_ok (tracked g + H) (set_thread g th f)" using i(9) assms(3) by (simp add: switch_ok_def set_thread_def)
  show "ending_ok (set_thread g th f)" using i(10) untracked_places(3) [OF u] by (simp add: ending_ok_def set_thread_def)
  show "reaper_ok rp (set_thread g th f)" using i(11) by (simp add: reaper_ok_def set_thread_def)
qed (use run_invD(6,7) [OF assms(1)] in \<open>simp_all add: set_thread_def\<close>)

text \<open>No idle thread is on a list that is not its own slot.\<close>

lemma tracked_once:
  assumes "run_inv rp H g" "M \<subseteq># tracked g + H"
  shows "count M x \<le> 1"
  using run_invD(1) [OF assms(1), of x] mset_subset_eq_count [OF assms(2), of x] by linarith

lemma idle_slots:
  assumes "run_inv rp H g" "c \<in> online_set g"
  shows "rq_idle_addr g c \<in># slot (rq_idle g c) + slot (rq_current g c) + H"
  using run_invD(5) [OF assms(1), of c] assms(2) by (simp add: online_set_def cpu_ok_def)

lemma not_idle:
  assumes "run_inv rp H g" "th \<in># X" "\<And>c. c < MAX_CPUS \<Longrightarrow> X + slot (rq_idle g c) + slot (rq_current g c) \<subseteq># tracked g"
  shows "th \<notin> idle_threads g"
proof
  assume "th \<in> idle_threads g"
  then obtain c where c: "c \<in> online_set g" "th = rq_idle_addr g c" by (auto simp: idle_threads_def)
  let ?S = "slot (rq_idle g c) + slot (rq_current g c)"
  have "X + ?S \<subseteq># tracked g" using assms(3) [of c] c(1) by (simp add: online_set_def ac_simps)
  then have "X + (?S + H) \<subseteq># tracked g + H" by (metis (no_types, lifting) add.assoc subset_mset.add_le_cancel_right)
  then have "count (X + (?S + H)) th \<le> 1" by (rule tracked_once [OF assms(1)])
  moreover have "0 < count X th" "0 < count (?S + H) th" using assms(2) idle_slots [OF assms(1) c(1)] c(2) by (simp_all add: count_greater_zero_iff)
  ultimately show False unfolding count_union [of X "?S + H" th] by linarith
qed

lemma slots_sum: "c < MAX_CPUS \<Longrightarrow> slot (rq_idle g c) + slot (rq_current g c) \<subseteq># (\<Sum>c<MAX_CPUS. at_cpu g c)"
  by (simp add: sum.remove [of "{..<MAX_CPUS}" c] at_cpu_def)

lemma slots_queue:
  assumes "c < MAX_CPUS" "d < MAX_CPUS"
  shows "mset (ready_list g d) + mset (rs_items (rq_reap g d)) + (slot (rq_idle g c) + slot (rq_current g c)) \<subseteq># (\<Sum>c<MAX_CPUS. at_cpu g c)"
proof (cases "c = d")
  case True
  then show ?thesis using assms(1)
    by (simp add: sum.remove [of "{..<MAX_CPUS}" c] at_cpu_def)
next
  case False
  have "slot (rq_idle g c) + slot (rq_current g c) \<subseteq># (\<Sum>c\<in>{..<MAX_CPUS} - {d}. at_cpu g c)"
    using assms(1) False by (simp add: sum.remove [of "{..<MAX_CPUS} - {d}" c] at_cpu_def)
  moreover have "mset (ready_list g d) + mset (rs_items (rq_reap g d)) \<subseteq># at_cpu g d" by (simp add: at_cpu_def)
  ultimately show ?thesis using assms(2) by (simp add: sum.remove [of "{..<MAX_CPUS}" d] subset_mset.add_mono)
qed

lemma queued_not_idle:
  assumes "run_inv rp H g"
  shows "d < MAX_CPUS \<Longrightarrow> th \<in> set (ready_list g d) \<Longrightarrow> th \<notin> idle_threads g"
    and "d < MAX_CPUS \<Longrightarrow> th \<in> set (rs_items (rq_reap g d)) \<Longrightarrow> th \<notin> idle_threads g"
    and "th \<in> set (rs_items (rq_blocked g)) \<Longrightarrow> th \<notin> idle_threads g"
    and "th \<in> set (rs_items (rq_suspended g)) \<Longrightarrow> th \<notin> idle_threads g"
    and "rq_reaper g = Some th \<Longrightarrow> th \<notin> idle_threads g"
proof -
  have "th \<notin> idle_threads g" if "d < MAX_CPUS" "th \<in># mset (ready_list g d) + mset (rs_items (rq_reap g d))"
  proof (rule not_idle [OF assms that(2)])
    fix c assume "c < MAX_CPUS"
    from slots_queue [OF this that(1), of g] mset_subset_eq_add_left [of "\<Sum>c<MAX_CPUS. at_cpu g c" "off_cpu g"]
    show "mset (ready_list g d) + mset (rs_items (rq_reap g d)) + slot (rq_idle g c) + slot (rq_current g c) \<subseteq># tracked g"
      unfolding tracked_def add.assoc by (rule subset_mset.order_trans)
  qed
  then show "d < MAX_CPUS \<Longrightarrow> th \<in> set (ready_list g d) \<Longrightarrow> th \<notin> idle_threads g"
    "d < MAX_CPUS \<Longrightarrow> th \<in> set (rs_items (rq_reap g d)) \<Longrightarrow> th \<notin> idle_threads g" by auto
  have "th \<notin> idle_threads g" if "th \<in># off_cpu g"
  proof (rule not_idle [OF assms that])
    fix c assume "c < MAX_CPUS"
    then show "off_cpu g + slot (rq_idle g c) + slot (rq_current g c) \<subseteq># tracked g"
      using slots_sum [of c g] by (simp add: tracked_def ac_simps subset_mset.add_left_mono)
  qed
  then show "th \<in> set (rs_items (rq_blocked g)) \<Longrightarrow> th \<notin> idle_threads g"
    "th \<in> set (rs_items (rq_suspended g)) \<Longrightarrow> th \<notin> idle_threads g" "rq_reaper g = Some th \<Longrightarrow> th \<notin> idle_threads g"
    by (auto simp: off_cpu_def)
qed

end
