(* ===== verification/Run_Moves.thy ===== *)
theory Run_Moves
  imports Run_Invariant
begin

text \<open>
  The moves the scheduler makes with threads - off a list into its hand, from its hand onto a list -
  keep the invariant, and no list is ever full for a thread in hand.
\<close>

section \<open>Room\<close>

lemma size_once: "(\<And>x. count M x \<le> 1) \<Longrightarrow> size M = card (set_mset M)"
proof -
  assume one: "\<And>x. count M x \<le> 1"
  have "count M x = 1" if "x \<in># M" for x using one [of x] that count_greater_eq_one_iff [of M x] by linarith
  then have "size M = (\<Sum>x\<in>set_mset M. 1)" by (simp add: size_multiset_overloaded_eq)
  then show ?thesis by simp
qed

lemma idle_threads_there: "run_inv rp H g \<Longrightarrow> idle_threads g \<subseteq> set_mset (tracked g + H)"
proof
  fix th assume inv: "run_inv rp H g" and "th \<in> idle_threads g"
  then obtain c where c: "c \<in> online_set g" "th = rq_idle_addr g c" by (auto simp: idle_threads_def)
  then show "th \<in> set_mset (tracked g + H)"
    using idle_slots [OF inv c(1)] places_tracked(3,4) [of c g] by (auto simp: online_set_def)
qed

lemma room:
  assumes "run_inv rp H g" "th \<in># H" "th \<notin> idle_threads g" "mset xs \<subseteq># tracked g" "set xs \<inter> idle_threads g = {}"
  shows "length xs < MAX_THREADS"
proof -
  note i = run_invD [OF assms(1)]
  let ?S = "set_mset (tracked g + H)"
  have "count (mset xs) x \<le> 1" for x
    using i(1) [of x] mset_subset_eq_count [OF assms(4), of x] by simp
  then have len: "length xs = card (set xs)" using size_once [of "mset xs"] by simp
  have "finite (online_set g)" by (simp add: online_set_def)
  then have I: "card (idle_threads g) = card (online_set g)" "finite (idle_threads g)"
    using card_image [OF i(4)] by (simp_all add: idle_threads_def)
  have "th \<notin> set xs" using hand_untracked [OF assms(1,2)] mset_subset_eqD [OF assms(4), of th] by auto
  then have "Suc (length xs) = card (insert th (set xs))" by (simp add: len)
  also have "\<dots> \<le> card (?S - idle_threads g)"
    using assms(2,3,5) mset_subset_eqD [OF assms(4)] by (intro card_mono) auto
  also have "\<dots> = card ?S - card (idle_threads g)" by (rule card_Diff_subset [OF I(2) idle_threads_there [OF assms(1)]])
  also have "\<dots> = rq_threads g" using i(2) size_once [OF i(1)] I(1) by simp
  finally show ?thesis using i(3) by simp
qed

lemma rooms:
  assumes "run_inv rp H g" "th \<in># H" "th \<notin> idle_threads g"
  shows "c < MAX_CPUS \<Longrightarrow> length (ready_list g c) < MAX_THREADS" "c < MAX_CPUS \<Longrightarrow> length (rs_items (rq_reap g c)) < MAX_THREADS"
    "length (rs_items (rq_blocked g)) < MAX_THREADS" "length (rs_items (rq_suspended g)) < MAX_THREADS"
proof -
  note q = queued_not_idle [OF assms(1)]
  show "length (ready_list g c) < MAX_THREADS" "length (rs_items (rq_reap g c)) < MAX_THREADS" if "c < MAX_CPUS" for c
    using q(1,2) [OF that] that by (auto intro!: room [OF assms] simp: tracked_at at_cpu_def)
  show "length (rs_items (rq_blocked g)) < MAX_THREADS" "length (rs_items (rq_suspended g)) < MAX_THREADS"
    using q(3,4) by (auto intro!: room [OF assms] simp: tracked_def off_cpu_def)
qed

section \<open>Off a list\<close>

lemma take_current_inv:
  assumes "run_inv rp H g" "me < MAX_CPUS" "rq_current g me = Some th"
  defines "g' \<equiv> g\<lparr>rq_current := (rq_current g)(me := None)\<rparr>"
  shows "run_inv rp (add_mset th H) g'"
proof (rule run_inv_move [OF assms(1)])
  note i = run_invD [OF assms(1)]
  show "tracked g' + add_mset th H = tracked g + H" using tracked_current [OF assms(2), of g None] by (simp add: g'_def assms(3))
  show "cpu_ok (add_mset th H) g' c" if "c < MAX_CPUS" for c
    using i(5) [OF that] assms(3) by (auto simp: g'_def cpu_ok_def at_cpu_def split: if_splits)
  have "listed g' x s \<Longrightarrow> listed g x s" for x s by (auto simp: listed_def g'_def split: if_splits)
  then show "states_ok g'" using i(8) by (simp add: states_ok_def g'_def)
  show "switch_ok (tracked g + H) g'" using i(9) by (simp add: switch_ok_def g'_def)
  show "ending_ok g'" using i(10) by (simp add: ending_ok_def g'_def)
  show "reaper_ok rp g'" using i(11) by (simp add: reaper_ok_def g'_def)
qed (use run_invD(6,7) [OF assms(1)] in \<open>simp_all add: g'_def\<close>)

lemma take_idle_inv:
  assumes "run_inv rp H g" "me < MAX_CPUS" "rq_idle g me = Some th"
  defines "g' \<equiv> g\<lparr>rq_idle := (rq_idle g)(me := None)\<rparr>"
  shows "run_inv rp (add_mset th H) g'"
proof (rule run_inv_move [OF assms(1)])
  note i = run_invD [OF assms(1)]
  show "tracked g' + add_mset th H = tracked g + H" using tracked_idle [OF assms(2), of g None] by (simp add: g'_def assms(3))
  show "cpu_ok (add_mset th H) g' c" if "c < MAX_CPUS" for c
    using i(5) [OF that] assms(3) by (auto simp: g'_def cpu_ok_def at_cpu_def split: if_splits)
  have "listed g' x s \<Longrightarrow> listed g x s" for x s by (auto simp: listed_def g'_def split: if_splits)
  then show "states_ok g'" using i(8) by (simp add: states_ok_def g'_def)
  show "switch_ok (tracked g + H) g'" using i(9) by (simp add: switch_ok_def g'_def)
  show "ending_ok g'" using i(10) by (simp add: ending_ok_def g'_def)
  show "reaper_ok rp g'" using i(11) by (simp add: reaper_ok_def g'_def)
qed (use run_invD(6,7) [OF assms(1)] in \<open>simp_all add: g'_def\<close>)

lemma take_ready_inv:
  assumes "run_inv rp H g" "c < MAX_CPUS" "i < length (ready_list g c)"
  defines "g' \<equiv> set_ready g c (Reserved_remove (rq_ready g c) i)"
  shows "run_inv rp (add_mset (ready_list g c ! i) H) g'"
proof (rule run_inv_move [OF assms(1)])
  note i = run_invD [OF assms(1)] and m = mset_Reserved_remove [OF assms(3)]
  have sub: "set (ready_list g' d) \<subseteq> set (ready_list g d)" for d using set_Reserved_remove [of "rq_ready g c" i] by (simp add: g'_def)
  show "tracked g' + add_mset (ready_list g c ! i) H = tracked g + H"
    using tracked_ready [OF assms(2), of g "Reserved_remove (rq_ready g c) i"] by (simp add: g'_def m)
  show "cpu_ok (add_mset (ready_list g c ! i) H) g' d" if "d < MAX_CPUS" for d
    using i(5) [OF that] assms(3) by (auto simp: g'_def cpu_ok_def at_cpu_def split: if_splits)
  have "listed g' x s \<Longrightarrow> listed g x s" for x s using sub by (fastforce simp: listed_def g'_def simp del: set_ready_fields(20))
  then show "states_ok g'" using i(8) by (simp add: states_ok_def g'_def)
  show "switch_ok (tracked g + H) g'" using i(9) by (simp add: switch_ok_def g'_def)
  show "ending_ok g'" using i(10) by (simp add: ending_ok_def g'_def)
  show "reaper_ok rp g'" using i(11) by (simp add: reaper_ok_def g'_def)
qed (use run_invD(6,7) [OF assms(1)] in \<open>simp_all add: g'_def\<close>)

text \<open>A move that leaves every processor's lists alone.\<close>

definition same_cpus :: "RunState \<Rightarrow> RunState \<Rightarrow> bool" where
  "same_cpus g g' \<longleftrightarrow> rq_ready g' = rq_ready g \<and> rq_cpu_online g' = rq_cpu_online g \<and> rq_current g' = rq_current g
     \<and> rq_reap g' = rq_reap g \<and> rq_idle g' = rq_idle g \<and> rq_idle_addr g' = rq_idle_addr g \<and> rq_threads g' = rq_threads g
     \<and> rq_switching g' = rq_switching g \<and> rq_ending g' = rq_ending g \<and> rq_thread g' = rq_thread g"

lemma off_cpu_move:
  assumes "run_inv rp H g" "same_cpus g g'" "tracked g' + H' = tracked g + H" "\<And>c. c < MAX_CPUS \<Longrightarrow> cpu_ok H' g c"
    "rs_cap (rq_blocked g') = MAX_THREADS" "rs_cap (rq_suspended g') = MAX_THREADS" "states_ok g'" "reaper_ok rp g'"
  shows "run_inv rp H' g'"
proof (rule run_inv_move [OF assms(1,3) _ _ _ _ assms(5,6,7) _ _ assms(8)])
  note i = run_invD [OF assms(1)] and f = assms(2) [unfolded same_cpus_def]
  show "cpu_ok H' g' c" if "c < MAX_CPUS" for c using assms(4) [OF that] f by (simp add: cpu_ok_def at_cpu_def split: if_splits)
  show "switch_ok (tracked g + H) g'" using i(9) f by (simp add: switch_ok_def)
  show "ending_ok g'" using i(10) f by (simp add: ending_ok_def)
qed (use assms(2) in \<open>simp_all add: same_cpus_def\<close>)

lemma cpu_ok_more: "cpu_ok H g c \<Longrightarrow> cpu_ok (add_mset x H) g c"
  by (auto simp: cpu_ok_def split: if_splits)

lemma states_ok_fewer: "states_ok g \<Longrightarrow> (\<And>x s. listed g' x s \<Longrightarrow> listed g x s) \<Longrightarrow> rq_thread g' = rq_thread g \<Longrightarrow> states_ok g'"
  by (simp add: states_ok_def)

lemma take_blocked_inv:
  assumes "run_inv rp H g" "i < length (rs_items (rq_blocked g))"
  shows "run_inv rp (add_mset (rs_items (rq_blocked g) ! i) H) (g\<lparr>rq_blocked := Reserved_remove (rq_blocked g) i\<rparr>)" (is "run_inv _ _ ?g")
proof (rule off_cpu_move [OF assms(1)])
  note i = run_invD [OF assms(1)]
  show "tracked ?g + add_mset (rs_items (rq_blocked g) ! i) H = tracked g + H"
    using tracked_off(1) [where g = g and q = "Reserved_remove (rq_blocked g) i"] by (simp add: mset_Reserved_remove [OF assms(2)])
  show "states_ok ?g" by (rule states_ok_fewer [OF i(8)]) (use set_Reserved_remove [of "rq_blocked g" i] in \<open>auto simp: listed_def\<close>)
  show "cpu_ok (add_mset (rs_items (rq_blocked g) ! i) H) g c" if "c < MAX_CPUS" for c by (rule cpu_ok_more [OF i(5) [OF that]])
  show "reaper_ok rp ?g" using i(11) by (simp add: reaper_ok_def)
qed (use run_invD(6,7) [OF assms(1)] in \<open>simp_all add: same_cpus_def\<close>)

lemma take_suspended_inv:
  assumes "run_inv rp H g" "i < length (rs_items (rq_suspended g))"
  shows "run_inv rp (add_mset (rs_items (rq_suspended g) ! i) H) (g\<lparr>rq_suspended := Reserved_remove (rq_suspended g) i\<rparr>)" (is "run_inv _ _ ?g")
proof (rule off_cpu_move [OF assms(1)])
  note i = run_invD [OF assms(1)]
  show "tracked ?g + add_mset (rs_items (rq_suspended g) ! i) H = tracked g + H"
    using tracked_off(2) [where g = g and q = "Reserved_remove (rq_suspended g) i"] by (simp add: mset_Reserved_remove [OF assms(2)])
  show "states_ok ?g" by (rule states_ok_fewer [OF i(8)]) (use set_Reserved_remove [of "rq_suspended g" i] in \<open>auto simp: listed_def\<close>)
  show "cpu_ok (add_mset (rs_items (rq_suspended g) ! i) H) g c" if "c < MAX_CPUS" for c by (rule cpu_ok_more [OF i(5) [OF that]])
  show "reaper_ok rp ?g" using i(11) by (simp add: reaper_ok_def)
qed (use run_invD(6,7) [OF assms(1)] in \<open>simp_all add: same_cpus_def\<close>)

lemma take_reaper_inv:
  assumes "run_inv rp H g" "rq_reaper g = Some r"
  shows "run_inv rp (add_mset r H) (g\<lparr>rq_reaper := None\<rparr>)" (is "run_inv _ _ ?g")
proof (rule off_cpu_move [OF assms(1)])
  note i = run_invD [OF assms(1)]
  show "tracked ?g + add_mset r H = tracked g + H" using tracked_off(3) [where g = g and x = None] by (simp add: assms(2))
  show "states_ok ?g" by (rule states_ok_fewer [OF i(8)]) (auto simp: listed_def)
  show "cpu_ok (add_mset r H) g c" if "c < MAX_CPUS" for c by (rule cpu_ok_more [OF i(5) [OF that]])
  show "reaper_ok rp ?g" by (simp add: reaper_ok_def)
qed (use run_invD(6,7) [OF assms(1)] in \<open>simp_all add: same_cpus_def\<close>)

section \<open>Onto a list\<close>

lemma cpu_ok_fewer:
  assumes "cpu_ok (add_mset th H) g c" "c < MAX_CPUS" "th \<notin> idle_threads g"
  shows "cpu_ok H g c"
  using assms by (auto simp: cpu_ok_def idle_threads_def online_set_def split: if_splits)

lemma put_ready_inv:
  assumes "run_inv rp (add_mset th H) g" "c < MAX_CPUS" "rq_cpu_online g c" "th \<notin> idle_threads g" "rt_state (rq_thread g th) = TReady"
  defines "q \<equiv> (rq_ready g c)\<lparr>rs_items := ready_list g c @ [th]\<rparr>"
  shows "Reserved_push (rq_ready g c) th = Some q" "run_inv rp H (set_ready g c q)"
proof -
  note i = run_invD [OF assms(1)]
  have ok: "cpu_ok H g d" if "d < MAX_CPUS" for d by (rule cpu_ok_fewer [OF i(5) [OF that] that assms(4)])
  have cap: "rs_cap (rq_ready g c) = MAX_THREADS" using ok [OF assms(2)] assms(3) by (simp add: cpu_ok_def)
  show "Reserved_push (rq_ready g c) th = Some q"
    using rooms(1) [OF assms(1) _ assms(4) assms(2)] by (simp add: Reserved_push_def q_def cap)
  show "run_inv rp H (set_ready g c q)" (is "run_inv _ _ ?g")
  proof (rule run_inv_move [OF assms(1)])
    show "tracked ?g + H = tracked g + add_mset th H" using tracked_ready [OF assms(2), of g q] by (simp add: q_def)
    show "cpu_ok H ?g d" if "d < MAX_CPUS" for d using ok [OF that] assms(3) by (auto simp: cpu_ok_def at_cpu_def q_def)
    have "listed ?g x s \<Longrightarrow> listed g x s \<or> x = th \<and> s = TReady" for x s by (fastforce simp: listed_def q_def split: if_splits)
    then show "states_ok ?g" using i(8) assms(5) by (fastforce simp: states_ok_def)
    show "switch_ok (tracked g + add_mset th H) ?g" using i(9) by (simp add: switch_ok_def)
    show "ending_ok ?g" using i(10) by (simp add: ending_ok_def)
    show "reaper_ok rp ?g" using i(11) by (simp add: reaper_ok_def)
  qed (use run_invD(6,7) [OF assms(1)] in simp_all)
qed

lemma put_blocked_inv:
  assumes "run_inv rp (add_mset th H) g" "th \<notin> idle_threads g" "rt_state (rq_thread g th) = TBlocked"
  defines "q \<equiv> (rq_blocked g)\<lparr>rs_items := rs_items (rq_blocked g) @ [th]\<rparr>"
  shows "Reserved_push (rq_blocked g) th = Some q" "run_inv rp H (g\<lparr>rq_blocked := q\<rparr>)"
proof -
  note i = run_invD [OF assms(1)]
  show "Reserved_push (rq_blocked g) th = Some q"
    using rooms(3) [OF assms(1) _ assms(2)] by (simp add: Reserved_push_def q_def i(6))
  show "run_inv rp H (g\<lparr>rq_blocked := q\<rparr>)" (is "run_inv _ _ ?g")
  proof (rule off_cpu_move [OF assms(1)])
    show "tracked ?g + H = tracked g + add_mset th H" using tracked_off(1) [where g = g and q = q] by (simp add: q_def)
    have "listed ?g x s \<Longrightarrow> listed g x s \<or> x = th \<and> s = TBlocked" for x s by (auto simp: listed_def q_def)
    then show "states_ok ?g" using i(8) assms(3) by (fastforce simp: states_ok_def)
    show "cpu_ok H g c" if "c < MAX_CPUS" for c by (rule cpu_ok_fewer [OF i(5) [OF that] that assms(2)])
    show "reaper_ok rp ?g" using i(11) by (simp add: reaper_ok_def)
  qed (use run_invD(6,7) [OF assms(1)] in \<open>simp_all add: same_cpus_def q_def\<close>)
qed

lemma put_suspended_inv:
  assumes "run_inv rp (add_mset th H) g" "th \<notin> idle_threads g" "rt_state (rq_thread g th) = TSuspended"
  defines "q \<equiv> (rq_suspended g)\<lparr>rs_items := rs_items (rq_suspended g) @ [th]\<rparr>"
  shows "Reserved_push (rq_suspended g) th = Some q" "run_inv rp H (g\<lparr>rq_suspended := q\<rparr>)"
proof -
  note i = run_invD [OF assms(1)]
  show "Reserved_push (rq_suspended g) th = Some q"
    using rooms(4) [OF assms(1) _ assms(2)] by (simp add: Reserved_push_def q_def i(7))
  show "run_inv rp H (g\<lparr>rq_suspended := q\<rparr>)" (is "run_inv _ _ ?g")
  proof (rule off_cpu_move [OF assms(1)])
    show "tracked ?g + H = tracked g + add_mset th H" using tracked_off(2) [where g = g and q = q] by (simp add: q_def)
    have "listed ?g x s \<Longrightarrow> listed g x s \<or> x = th \<and> s = TSuspended" for x s by (auto simp: listed_def q_def)
    then show "states_ok ?g" using i(8) assms(3) by (fastforce simp: states_ok_def)
    show "cpu_ok H g c" if "c < MAX_CPUS" for c by (rule cpu_ok_fewer [OF i(5) [OF that] that assms(2)])
    show "reaper_ok rp ?g" using i(11) by (simp add: reaper_ok_def)
  qed (use run_invD(6,7) [OF assms(1)] in \<open>simp_all add: same_cpus_def q_def\<close>)
qed

lemma put_reap_inv:
  assumes "run_inv rp (add_mset th H) g" "c < MAX_CPUS" "rq_cpu_online g c" "th \<notin> idle_threads g" "rt_state (rq_thread g th) = TExited"
    "\<not> rt_on_cpu (rq_thread g th)"
  defines "q \<equiv> (rq_reap g c)\<lparr>rs_items := rs_items (rq_reap g c) @ [th]\<rparr>"
  shows "Reserved_push (rq_reap g c) th = Some q" "run_inv rp H (g\<lparr>rq_reap := (rq_reap g)(c := q)\<rparr>)"
proof -
  note i = run_invD [OF assms(1)]
  have ok: "cpu_ok H g d" if "d < MAX_CPUS" for d by (rule cpu_ok_fewer [OF i(5) [OF that] that assms(4)])
  have cap: "rs_cap (rq_reap g c) = MAX_THREADS" using ok [OF assms(2)] assms(3) by (simp add: cpu_ok_def)
  show "Reserved_push (rq_reap g c) th = Some q"
    using rooms(2) [OF assms(1) _ assms(4) assms(2)] by (simp add: Reserved_push_def q_def cap)
  show "run_inv rp H (g\<lparr>rq_reap := (rq_reap g)(c := q)\<rparr>)" (is "run_inv _ _ ?g")
  proof (rule run_inv_move [OF assms(1)])
    show "tracked ?g + H = tracked g + add_mset th H" using tracked_reap [OF assms(2), of g q] by (simp add: q_def)
    show "cpu_ok H ?g d" if "d < MAX_CPUS" for d using ok [OF that] assms(3) by (auto simp: cpu_ok_def at_cpu_def q_def)
    have "listed ?g x s \<Longrightarrow> listed g x s \<or> x = th \<and> s = TExited" for x s by (fastforce simp: listed_def q_def split: if_splits)
    then show "states_ok ?g" using i(8) assms(5) by (fastforce simp: states_ok_def)
    have "rq_switching g d \<noteq> Some th" if "d < MAX_CPUS" for d using i(9) that assms(6) by (auto simp: switch_ok_def)
    then show "switch_ok (tracked g + add_mset th H) ?g" using i(9) by (auto simp: switch_ok_def q_def)
    show "ending_ok ?g" using i(10) by (simp add: ending_ok_def)
    show "reaper_ok rp ?g" using i(11) by (simp add: reaper_ok_def)
  qed (use run_invD(6,7) [OF assms(1)] in simp_all)
qed

lemma put_idle_inv:
  assumes "run_inv rp (add_mset th H) g" "c < MAX_CPUS" "rq_cpu_online g c" "th = rq_idle_addr g c" "rq_idle g c = None"
    "rt_state (rq_thread g th) = TReady"
  shows "run_inv rp H (g\<lparr>rq_idle := (rq_idle g)(c := Some th)\<rparr>)" (is "run_inv _ _ ?g")
proof (rule run_inv_move [OF assms(1)])
  note i = run_invD [OF assms(1)]
  show "tracked ?g + H = tracked g + add_mset th H" using tracked_idle [OF assms(2), of g "Some th"] by (simp add: assms(5))
  show "cpu_ok H ?g d" if "d < MAX_CPUS" for d
  proof (cases "d = c \<or> \<not> rq_cpu_online g d")
    case True
    then show ?thesis using i(5) [OF that] assms(3,4) by (auto simp: cpu_ok_def at_cpu_def)
  next
    case False
    then have "rq_idle_addr g d \<noteq> th" using inj_onD [OF i(4), of d c] assms(2,3,4) that by (auto simp: online_set_def)
    then show ?thesis using i(5) [OF that] False by (simp add: cpu_ok_def split: if_splits)
  qed
  have "listed ?g x s \<Longrightarrow> listed g x s \<or> x = th \<and> s = TReady" for x s by (fastforce simp: listed_def split: if_splits)
  then show "states_ok ?g" using i(8) assms(6) by (fastforce simp: states_ok_def)
  show "switch_ok (tracked g + add_mset th H) ?g" using i(9) by (simp add: switch_ok_def)
  show "ending_ok ?g" using i(10) by (simp add: ending_ok_def)
  show "reaper_ok rp ?g" using i(11) by (simp add: reaper_ok_def)
qed (use run_invD(6,7) [OF assms(1)] in simp_all)

lemma put_reaper_inv:
  assumes "run_inv rp (add_mset rp H) g" "rp \<notin> idle_threads g" "rt_state (rq_thread g rp) = TBlocked" "rs_items (rq_ended_pids g) = []"
  shows "rq_reaper g = None" "run_inv rp H (g\<lparr>rq_reaper := Some rp\<rparr>)" (is "run_inv _ _ ?g")
proof -
  note i = run_invD [OF assms(1)]
  show n: "rq_reaper g = None"
    using untracked_places(7) [OF hand_untracked [OF assms(1), of rp]] i(11) by (cases "rq_reaper g") (auto simp: reaper_ok_def)
  show "run_inv rp H ?g"
  proof (rule off_cpu_move [OF assms(1)])
    show "tracked ?g + H = tracked g + add_mset rp H" using tracked_off(3) [where g = g and x = "Some rp"] by (simp add: n)
    have "listed ?g x s \<Longrightarrow> listed g x s \<or> x = rp \<and> s = TBlocked" for x s by (auto simp: listed_def)
    then show "states_ok ?g" using i(8) assms(3) by (fastforce simp: states_ok_def)
    show "cpu_ok H g c" if "c < MAX_CPUS" for c by (rule cpu_ok_fewer [OF i(5) [OF that] that assms(2)])
    show "reaper_ok rp ?g" using assms(4) by (simp add: reaper_ok_def)
  qed (use run_invD(6,7) [OF assms(1)] in \<open>simp_all add: same_cpus_def\<close>)
qed

section \<open>Into a processor\<close>

lemma switch_okD:
  assumes "switch_ok M g" "c < MAX_CPUS" "rq_switching g c = Some th"
  shows "th \<in># M" "rt_on_cpu (rq_thread g th)" "d < MAX_CPUS \<Longrightarrow> rq_current g d \<noteq> Some th"
    "d < MAX_CPUS \<Longrightarrow> d \<noteq> c \<Longrightarrow> th \<notin> set (rs_items (rq_reap g d))" "d < MAX_CPUS \<Longrightarrow> d \<noteq> c \<Longrightarrow> rq_switching g d \<noteq> Some th"
  using assms unfolding switch_ok_def by metis+

lemma switch_ok_named: "switch_ok M g \<Longrightarrow> th \<in># M \<Longrightarrow> rt_on_cpu (rq_thread g th) \<Longrightarrow> \<exists>c<MAX_CPUS. rq_switching g c = Some th"
  by (simp add: switch_ok_def)

lemma switch_okI:
  assumes "\<And>c th. c < MAX_CPUS \<Longrightarrow> rq_switching g c = Some th \<Longrightarrow> th \<in># M \<and> rt_on_cpu (rq_thread g th)"
    "\<And>c d th. c < MAX_CPUS \<Longrightarrow> rq_switching g c = Some th \<Longrightarrow> d < MAX_CPUS \<Longrightarrow> rq_current g d \<noteq> Some th"
    "\<And>c d th. c < MAX_CPUS \<Longrightarrow> rq_switching g c = Some th \<Longrightarrow> d < MAX_CPUS \<Longrightarrow> d \<noteq> c
      \<Longrightarrow> th \<notin> set (rs_items (rq_reap g d)) \<and> rq_switching g d \<noteq> Some th"
    "\<And>th. th \<in># M \<Longrightarrow> rt_on_cpu (rq_thread g th) \<Longrightarrow> \<exists>c<MAX_CPUS. rq_switching g c = Some th"
  shows "switch_ok M g"
  unfolding switch_ok_def using assms by blast

text \<open>The incoming thread becomes current, its context committed, with this processor's copy of its mark.\<close>

lemma put_current_inv:
  assumes "run_inv rp (add_mset n H) g" "me < MAX_CPUS" "rq_cpu_online g me" "rq_current g me = None"
    "n \<notin> idle_threads g \<or> n = rq_idle_addr g me"
    and f: "rt_state (f (rq_thread g n)) = TRunning" "\<not> rt_on_cpu (f (rq_thread g n))"
  shows "run_inv rp H (g\<lparr>rq_current := (rq_current g)(me := Some n), rq_thread := (rq_thread g)(n := f (rq_thread g n)),
    rq_switching := (\<lambda>c. if rq_switching g c = Some n then None else rq_switching g c),
    rq_ending := (rq_ending g)(me := rt_ending (f (rq_thread g n)))\<rparr>)" (is "run_inv _ _ ?g")
proof (rule run_inv_move [OF assms(1)])
  note i = run_invD [OF assms(1)] and u = untracked_places [OF hand_untracked [OF assms(1), of n, simplified]]
  have "tracked ?g = tracked (g\<lparr>rq_current := (rq_current g)(me := Some n)\<rparr>)" by (rule tracked_cong) simp_all
  then show "tracked ?g + H = tracked g + add_mset n H" using tracked_current [OF assms(2), of g "Some n"] by (simp add: assms(4))
  show "cpu_ok H ?g d" if "d < MAX_CPUS" for d
  proof (cases "d = me \<or> \<not> rq_cpu_online g d")
    case True
    then show ?thesis using i(5) [OF that] assms(3,4) by (auto simp: cpu_ok_def at_cpu_def)
  next
    case False
    then have "rq_idle_addr g d \<noteq> n"
      using inj_onD [OF i(4), of d me] assms(2,3,5) that by (auto simp: online_set_def idle_threads_def)
    then show ?thesis using i(5) [OF that] False by (simp add: cpu_ok_def split: if_splits)
  qed
  have "listed ?g x s \<Longrightarrow> listed g x s \<and> x \<noteq> n \<or> x = n \<and> s = TRunning" for x s
    using u by (fastforce simp: listed_def split: if_splits)
  then show "states_ok ?g" using i(8) f(1) by (fastforce simp: states_ok_def)
  show "switch_ok (tracked g + add_mset n H) ?g"
  proof (rule switch_okI)
    fix c th assume c: "c < MAX_CPUS" "rq_switching ?g c = Some th"
    then have old: "rq_switching g c = Some th" "th \<noteq> n" by (auto split: if_splits)
    note d = switch_okD [OF i(9) c(1) old(1)]
    show "th \<in># tracked g + add_mset n H \<and> rt_on_cpu (rq_thread ?g th)" using d(1,2) old(2) by simp
    show "rq_current ?g d \<noteq> Some th" if "d < MAX_CPUS" for d using d(3) [OF that] old(2) by simp
    show "th \<notin> set (rs_items (rq_reap ?g d)) \<and> rq_switching ?g d \<noteq> Some th" if "d < MAX_CPUS" "d \<noteq> c" for d
      using d(4,5) [OF that] by simp
  next
    fix th assume th: "th \<in># tracked g + add_mset n H" "rt_on_cpu (rq_thread ?g th)"
    then have "th \<noteq> n" using f(2) by auto
    then obtain c where "c < MAX_CPUS" "rq_switching g c = Some th" using switch_ok_named [OF i(9) th(1)] th(2) by auto
    then show "\<exists>c<MAX_CPUS. rq_switching ?g c = Some th" using \<open>th \<noteq> n\<close> by (intro exI [of _ c]) simp
  qed
  show "ending_ok ?g" using i(10) u(3) assms(3) by (auto simp: ending_ok_def)
  show "reaper_ok rp ?g" using i(11) by (simp add: reaper_ok_def)
qed (use run_invD(6,7) [OF assms(1)] in simp_all)

text \<open>The outgoing thread, parked, is not committed until this processor has left its stack.\<close>

lemma switching_inv:
  assumes "run_inv rp H g" "me < MAX_CPUS" "rq_switching g me = None" "out \<in># tracked g + H" "\<not> rt_on_cpu (rq_thread g out)"
    "\<And>d. d < MAX_CPUS \<Longrightarrow> rq_current g d \<noteq> Some out" "\<And>d. d < MAX_CPUS \<Longrightarrow> d \<noteq> me \<Longrightarrow> out \<notin> set (rs_items (rq_reap g d))"
  shows "run_inv rp H (g\<lparr>rq_thread := (rq_thread g)(out := (rq_thread g out)\<lparr>rt_on_cpu := True\<rparr>), rq_switching := (rq_switching g)(me := Some out)\<rparr>)"
    (is "run_inv _ _ ?g")
proof (rule run_inv_move [OF assms(1)])
  note i = run_invD [OF assms(1)]
  have p: "tracked ?g = tracked g" "listed ?g = listed g" by (rule tracked_cong listed_cong; simp)+
  show "tracked ?g + H = tracked g + H" by (simp add: p)
  show "cpu_ok H ?g d" if "d < MAX_CPUS" for d using i(5) [OF that] by (simp add: cpu_ok_def at_cpu_def split: if_splits)
  show "states_ok ?g" using i(8) by (auto simp: states_ok_def p)
  have n: "rq_switching g d \<noteq> Some out" if "d < MAX_CPUS" for d using switch_okD(2) [OF i(9) that] assms(5) by blast
  show "switch_ok (tracked g + H) ?g"
  proof (rule switch_okI)
    fix c th assume c: "c < MAX_CPUS" "rq_switching ?g c = Some th"
    have old: "rq_switching g c = Some th" "th \<noteq> out" if "c \<noteq> me" using c n that by auto
    have new: "th = out" if "c = me" using c that by simp
    show "th \<in># tracked g + H \<and> rt_on_cpu (rq_thread ?g th)"
      by (cases "c = me") (use new assms(4) switch_okD(1,2) [OF i(9) c(1) old(1)] in simp_all)
    show "rq_current ?g d \<noteq> Some th" if "d < MAX_CPUS" for d
      by (cases "c = me") (use new assms(6) [OF that] switch_okD(3) [OF i(9) c(1) old(1) that] in simp_all)
    show "th \<notin> set (rs_items (rq_reap ?g d)) \<and> rq_switching ?g d \<noteq> Some th" if d: "d < MAX_CPUS" "d \<noteq> c" for d
    proof (cases "c = me")
      case True
      then show ?thesis using new assms(7) [OF d(1)] n [OF d(1)] d(2) by simp
    next
      case False
      then show ?thesis using old switch_okD(4,5) [OF i(9) c(1) old(1) d] by simp
    qed
  next
    fix th assume th: "th \<in># tracked g + H" "rt_on_cpu (rq_thread ?g th)"
    show "\<exists>c<MAX_CPUS. rq_switching ?g c = Some th"
    proof (cases "th = out")
      case False
      then obtain c where "c < MAX_CPUS" "rq_switching g c = Some th" using switch_ok_named [OF i(9) th(1)] th(2) by auto
      then show ?thesis using assms(3) by (intro exI [of _ c]) auto
    qed (use assms(2) in auto)
  qed
  show "ending_ok ?g" using i(10) by (auto simp: ending_ok_def)
  show "reaper_ok rp ?g" using i(11) by (simp add: reaper_ok_def)
qed (use run_invD(6,7) [OF assms(1)] in simp_all)

end
