(* ===== verification/Run_Picking.thy ===== *)
theory Run_Picking
  imports Run_Moves
begin

text \<open>What is picked, stolen and chosen: the loops of \<^verbatim>\<open>sched/placement.rs\<close> against what they look for.\<close>

section \<open>The least key, first on ties\<close>

lemma best_loop_spec:
  assumes "best_loop keys i best_i best_key = (j, k)" "ks = ks1 @ keys" "length ks1 = i" "best_i < i" "ks ! best_i = best_key"
    "\<And>m. m < i \<Longrightarrow> best_key \<le> ks ! m" "\<And>m. m < best_i \<Longrightarrow> best_key < ks ! m"
  shows "j < length ks \<and> ks ! j = k \<and> (\<forall>m<length ks. k \<le> ks ! m) \<and> (\<forall>m<j. k < ks ! m)"
  using assms
proof (induction keys i best_i best_key arbitrary: ks1 rule: best_loop.induct)
  case (2 key keys i best_i best_key)
  have key: "ks ! i = key" using 2(4,5) by (simp add: nth_append)
  have ks: "ks = (ks1 @ [key]) @ keys" "length (ks1 @ [key]) = Suc i" using 2(4,5) by simp_all
  show ?case
  proof (cases "key < best_key")
    case True
    have "key \<le> ks ! m" if "m < Suc i" for m using 2(8) [of m] that True key by (cases "m = i") (auto simp: less_Suc_eq)
    moreover have "key < ks ! m" if "m < i" for m using 2(8) [OF that] True by simp
    ultimately show ?thesis using 2(1) [OF True _ ks _ key] 2(3) True by simp
  next
    case False
    have "best_key \<le> ks ! m" if "m < Suc i" for m using 2(8) [of m] that False key by (cases "m = i") (auto simp: less_Suc_eq)
    then show ?thesis using 2(2) [OF False _ ks _ 2(7) _ 2(9)] 2(3,6) False by simp
  qed
qed simp

lemma dequeue_front_cases [case_names empty picked]:
  obtains "ready_list g me = []" "dequeue_front me g = (g, None)"
  | i f where "i < length (ready_list g me)"
      "dequeue_front me g = (set_ready (g\<lparr>rq_min_vruntime := f\<rparr>) me (Reserved_remove (rq_ready g me) i), Some (ready_list g me ! i))"
      "\<And>j. j < length (ready_list g me) \<Longrightarrow> sched_key g (ready_list g me ! i) \<le> sched_key g (ready_list g me ! j)"
      "\<And>j. j < i \<Longrightarrow> sched_key g (ready_list g me ! i) < sched_key g (ready_list g me ! j)"
      "\<And>c. rq_min_vruntime g c \<le> f c"
proof (cases "map (sched_key g) (ready_list g me)")
  case Nil
  then show thesis using that(1) by (simp add: dequeue_front_def)
next
  case (Cons key keys)
  obtain i k where b: "best_loop keys 1 0 key = (i, k)" by (cases "best_loop keys 1 0 key") auto
  let ?f = "if fst k = 1 then (rq_min_vruntime g)(me := max (rq_min_vruntime g me) (snd (snd k))) else rq_min_vruntime g"
  have s: "i < length (map (sched_key g) (ready_list g me)) \<and> map (sched_key g) (ready_list g me) ! i = k
      \<and> (\<forall>m<length (map (sched_key g) (ready_list g me)). k \<le> map (sched_key g) (ready_list g me) ! m)
      \<and> (\<forall>m<i. k < map (sched_key g) (ready_list g me) ! m)"
    by (rule best_loop_spec [OF b, of _ "[key]"]) (simp_all add: Cons)
  then have "i < length (ready_list g me)" by simp
  with s have i: "i < length (ready_list g me)" "sched_key g (ready_list g me ! i) = k" by simp_all
  have "dequeue_front me g = (set_ready (g\<lparr>rq_min_vruntime := ?f\<rparr>) me (Reserved_remove (rq_ready g me) i), Some (ready_list g me ! i))"
    unfolding dequeue_front_def Cons list.case b Let_def prod.case by simp
  then show thesis
  proof (rule that(2) [OF i(1)])
    show "sched_key g (ready_list g me ! i) \<le> sched_key g (ready_list g me ! j)" if "j < length (ready_list g me)" for j
      using s that i(2) by simp
    show "sched_key g (ready_list g me ! i) < sched_key g (ready_list g me ! j)" if "j < i" for j
      using s that i by simp
    show "rq_min_vruntime g c \<le> ?f c" for c by simp
  qed
qed

section \<open>The victim of a steal\<close>

text \<open>Processors a thread may be stolen from.\<close>

definition victims :: "nat \<Rightarrow> RunState \<Rightarrow> nat set" where
  "victims me g = {c. c < MAX_CPUS \<and> c \<noteq> me \<and> rq_cpu_online g c \<and> (\<exists>th\<in>set (ready_list g c). stealable_to g me th)}"

lemma steal_available_iff: "steal_available g me \<longleftrightarrow> victims me g \<noteq> {}"
  by (auto simp: steal_available_def victims_def)

definition victim_of :: "nat \<Rightarrow> RunState \<Rightarrow> nat set \<Rightarrow> (nat \<times> nat) option \<Rightarrow> nat \<Rightarrow> bool" where
  "victim_of me g C v len \<longleftrightarrow>
     (case v of
        None \<Rightarrow> len = 0 \<and> victims me g \<inter> C = {}
      | Some (c, pos) \<Rightarrow> c \<in> victims me g \<inter> C \<and> position (stealable_to g me) (ready_list g c) = Some pos
          \<and> len = length (ready_list g c) \<and> (\<forall>d\<in>victims me g \<inter> C. length (ready_list g d) \<le> len))"

lemma victim_loop_spec:
  assumes "victim_of me g C v len" "set cs \<subseteq> {..<MAX_CPUS}"
  shows "\<exists>len'. victim_of me g (C \<union> set cs) (victim_loop me g cs v len) len'"
  using assms
proof (induction cs arbitrary: C v len)
  case (Cons c cs)
  show ?case
  proof (cases "c \<in> victims me g \<and> len < length (ready_list g c)")
    case True
    then obtain pos where pos: "position (stealable_to g me) (ready_list g c) = Some pos"
      using position_None [of "stealable_to g me" "ready_list g c"] by (cases "position (stealable_to g me) (ready_list g c)") (auto simp: victims_def)
    have "length (ready_list g d) \<le> len" if "d \<in> victims me g \<inter> C" for d
      using Cons.prems(1) that by (auto simp: victim_of_def split: option.splits)
    then have "length (ready_list g d) \<le> length (ready_list g c)" if "d \<in> victims me g \<inter> insert c C" for d
      using True that by fastforce
    then have "victim_of me g (insert c C) (Some (c, pos)) (length (ready_list g c))"
      using True pos by (simp add: victim_of_def)
    from Cons.IH [OF this] Cons.prems(2) True pos show ?thesis by (auto simp: victims_def)
  next
    case False
    then have same: "victim_loop me g (c # cs) v len = victim_loop me g cs v len"
      using Cons.prems(2) position_None [of "stealable_to g me" "ready_list g c"] by (auto simp: victims_def split: option.splits)
    have "c \<notin> victims me g \<or> length (ready_list g c) \<le> len" using False by auto
    moreover have "0 < length (ready_list g c)" if "c \<in> victims me g" using that by (auto simp: victims_def)
    ultimately have "victim_of me g (insert c C) v len" using Cons.prems(1) by (cases v) (auto simp: victim_of_def)
    from Cons.IH [OF this] Cons.prems(2) show ?thesis unfolding same by simp
  qed
qed auto

lemma steal_one_cases [case_names none stolen]:
  obtains "victims me g = {}" "steal_one me g = (g, None)"
  | c i h where "c \<in> victims me g" "i < length (ready_list g c)" "stealable_to g me (ready_list g c ! i)"
      "steal_one me g = (set_ready (count_event g me h) c (Reserved_remove (rq_ready g c) i), Some (ready_list g c ! i))"
      "\<And>d. d \<in> victims me g \<Longrightarrow> length (ready_list g d) \<le> length (ready_list g c)"
proof -
  have "victim_of me g {} None 0" by (simp add: victim_of_def)
  then obtain len where v: "victim_of me g {..<MAX_CPUS} (victim_loop me g [0..<MAX_CPUS] None 0) len"
    using victim_loop_spec [of me g "{}" None 0 "[0..<MAX_CPUS]"] by (auto simp: atLeast0LessThan)
  have all: "victims me g \<inter> {..<MAX_CPUS} = victims me g" by (auto simp: victims_def)
  show thesis
  proof (cases "victim_loop me g [0..<MAX_CPUS] None 0")
    case None
    then show thesis using v all that(1) by (simp add: victim_of_def steal_one_def)
  next
    case (Some cp)
    obtain c pos where cp: "cp = (c, pos)" by (cases cp)
    note v' = v [unfolded Some cp victim_of_def, simplified, unfolded all]
    have pos: "pos < length (ready_list g c)" "stealable_to g me (ready_list g c ! pos)" using position_Some v' by blast+
    show thesis
    proof (rule that(2) [OF _ pos])
      show "steal_one me g = (set_ready (count_event g me (\<lambda>s. s\<lparr>st_steals := st_steals s + 1\<rparr>)) c (Reserved_remove (rq_ready g c) pos), Some (ready_list g c ! pos))"
        by (simp add: steal_one_def Some cp Let_def)
    qed (use v' in auto)
  qed
qed

section \<open>The processor to place on\<close>

definition accepting :: "RunState \<Rightarrow> u64 \<Rightarrow> nat set" where
  "accepting g online = {c. c < MAX_CPUS \<and> cpu_accepts_work g c online}"

definition permitted :: "RunState \<Rightarrow> u64 \<Rightarrow> u64 \<Rightarrow> nat set" where
  "permitted g th online = {c \<in> accepting g online. bit (rt_cpu_mask (rq_thread g th)) c}"

text \<open>A processor of the set with no more queued than any other of it.\<close>

definition least_loaded :: "RunState \<Rightarrow> nat set \<Rightarrow> nat \<Rightarrow> bool" where
  "least_loaded g C c \<longleftrightarrow> c \<in> C \<and> (\<forall>d\<in>C. length (ready_list g c) \<le> length (ready_list g d))"

fun chosen :: "RunState \<Rightarrow> nat set \<Rightarrow> (nat \<times> nat) option \<Rightarrow> bool" where
  "chosen g C None \<longleftrightarrow> C = {}"
| "chosen g C (Some (c, len)) \<longleftrightarrow> least_loaded g C c \<and> len = length (ready_list g c)"

lemma chosen_shorter: "chosen g C b \<Longrightarrow> chosen g (insert c C) (shorter c (length (ready_list g c)) b)"
  by (cases b) (auto simp: least_loaded_def dest!: bspec)

lemma target_loop_spec:
  assumes "chosen g ({c \<in> accepting g online. bit affinity c} \<inter> C) best" "chosen g (accepting g online \<inter> C) spare" "set cs \<subseteq> {..<MAX_CPUS}"
  shows "chosen g ({c \<in> accepting g online. bit affinity c} \<inter> (C \<union> set cs)) (fst (target_loop g affinity online cs best spare))
    \<and> chosen g (accepting g online \<inter> (C \<union> set cs)) (snd (target_loop g affinity online cs best spare))"
  using assms
proof (induction cs arbitrary: C best spare)
  case (Cons c cs)
  let ?A = "accepting g online" and ?P = "{c \<in> accepting g online. bit affinity c}"
  have un: "C \<union> set (c # cs) = insert c C \<union> set cs" by auto
  show ?case
  proof (cases "cpu_accepts_work g c online")
    case False
    then have "?A \<inter> insert c C = ?A \<inter> C" "?P \<inter> insert c C = ?P \<inter> C" by (auto simp: accepting_def)
    then show ?thesis using Cons.IH [of "insert c C" best spare] Cons.prems False unfolding un by simp
  next
    case True
    then have a: "?A \<inter> insert c C = insert c (?A \<inter> C)" and p: "?P \<inter> insert c C = (if bit affinity c then insert c (?P \<inter> C) else ?P \<inter> C)"
      using Cons.prems(3) by (auto simp: accepting_def)
    let ?best = "if bit affinity c then shorter c (length (ready_list g c)) best else best"
    have "chosen g (?P \<inter> insert c C) ?best" unfolding p using Cons.prems(1) chosen_shorter by simp
    moreover have "chosen g (?A \<inter> insert c C) (shorter c (length (ready_list g c)) spare)" unfolding a by (rule chosen_shorter [OF Cons.prems(2)])
    ultimately show ?thesis using Cons.IH [of "insert c C" ?best "shorter c (length (ready_list g c)) spare"] Cons.prems(3) True
      unfolding un by (simp add: Let_def)
  qed
qed simp

lemma pick_target_cpu_spec:
  "if permitted g th online \<noteq> {} then least_loaded g (permitted g th online) (pick_target_cpu me g th online)
   else if accepting g online \<noteq> {} then least_loaded g (accepting g online) (pick_target_cpu me g th online)
   else pick_target_cpu me g th online = me"
proof -
  let ?r = "target_loop g (rt_cpu_mask (rq_thread g th)) online [0..<MAX_CPUS] None None"
  have all: "accepting g online \<inter> {0..<MAX_CPUS} = accepting g online" "permitted g th online \<inter> {0..<MAX_CPUS} = permitted g th online"
    by (auto simp: accepting_def permitted_def)
  have "chosen g (permitted g th online) (fst ?r) \<and> chosen g (accepting g online) (snd ?r)"
    using target_loop_spec [of g online "rt_cpu_mask (rq_thread g th)" "{}" None None "[0..<MAX_CPUS]"] all
    unfolding permitted_def [symmetric] by (simp add: lessThan_atLeast0)
  then show ?thesis by (cases ?r) (auto simp: pick_target_cpu_def least_loaded_def split: option.splits)
qed

lemma pick_wake_cpu_spec:
  "pick_wake_cpu me g th online = (let home = unat (rt_last_cpu (rq_thread g th)) in
     if home \<in> permitted g th online \<and> length (ready_list g home) < rs_cap (rq_ready g home) then home else pick_target_cpu me g th online)"
  by (simp add: pick_wake_cpu_def permitted_def accepting_def Let_def)

text \<open>Wherever a thread is placed, the scheduler has that processor up.\<close>

lemma placed_online:
  assumes "me < MAX_CPUS" "rq_cpu_online g me"
  shows "pick_target_cpu me g th online < MAX_CPUS \<and> rq_cpu_online g (pick_target_cpu me g th online)"
    "pick_wake_cpu me g th online < MAX_CPUS \<and> rq_cpu_online g (pick_wake_cpu me g th online)"
proof -
  have acc: "c < MAX_CPUS \<and> rq_cpu_online g c" if "c \<in> accepting g online" for c
    using that by (auto simp: accepting_def cpu_accepts_work_def)
  show t: "pick_target_cpu me g th online < MAX_CPUS \<and> rq_cpu_online g (pick_target_cpu me g th online)"
    using pick_target_cpu_spec [of g th online me] acc assms by (auto simp: least_loaded_def permitted_def split: if_splits)
  then show "pick_wake_cpu me g th online < MAX_CPUS \<and> rq_cpu_online g (pick_wake_cpu me g th online)"
    using acc by (auto simp: pick_wake_cpu_spec Let_def permitted_def)
qed

end
