(* ===== verification/Run_Switching.thy ===== *)
theory Run_Switching
  imports Run_Picking
begin

text \<open>Placement, waking and the switch keep the invariant of the run queues and never fail.\<close>

section \<open>What placing and picking leave alone\<close>

definition keeps :: "RunState \<Rightarrow> RunState \<Rightarrow> bool" where
  "keeps g g' \<longleftrightarrow> rq_current g' = rq_current g \<and> rq_cpu_online g' = rq_cpu_online g \<and> rq_idle g' = rq_idle g
     \<and> rq_idle_addr g' = rq_idle_addr g \<and> rq_reap g' = rq_reap g \<and> rq_switching g' = rq_switching g
     \<and> rq_preempt_off g' = rq_preempt_off g \<and> rq_resched_pending g' = rq_resched_pending g
     \<and> (\<forall>th. rt_on_cpu (rq_thread g' th) = rt_on_cpu (rq_thread g th) \<and> rt_pid (rq_thread g' th) = rt_pid (rq_thread g th)
          \<and> rt_has_process (rq_thread g' th) = rt_has_process (rq_thread g th) \<and> rt_cpu_mask (rq_thread g' th) = rt_cpu_mask (rq_thread g th))"

lemma keeps_refl [simp]: "keeps g g"
  by (simp add: keeps_def)

lemma keeps_trans [trans]: "keeps g g' \<Longrightarrow> keeps g' g'' \<Longrightarrow> keeps g g''"
  by (simp add: keeps_def)

lemma keeps_idle_threads: "keeps g g' \<Longrightarrow> idle_threads g' = idle_threads g"
  by (simp add: keeps_def idle_threads_def online_set_def)

lemma keeps_fields [simp]:
  "keeps g (set_ready g c q)" "keeps g (count_event g c h)" "keeps g (g\<lparr>rq_ipis := l\<rparr>)" "keeps g (g\<lparr>rq_threads := n\<rparr>)"
  "keeps g (g\<lparr>rq_min_vruntime := f\<rparr>)" "keeps g (g\<lparr>rq_blocked := b\<rparr>)" "keeps g (g\<lparr>rq_suspended := b\<rparr>)" "keeps g (g\<lparr>rq_reaper := r\<rparr>)"
  "keeps g (g\<lparr>rq_ended_pids := p\<rparr>)" "keeps g (g\<lparr>rq_ending := e\<rparr>)" "keeps g (set_state g th s)" "keeps g (set_ending g th)"
  by (simp_all add: keeps_def set_state_def set_ending_def)

lemma same_places_fields [simp]:
  "same_places g (count_event g c h)" "same_places g (g\<lparr>rq_ipis := l\<rparr>)" "same_places g (g\<lparr>rq_min_vruntime := f\<rparr>)"
  "same_places g (g\<lparr>rq_quantum := q\<rparr>)" "same_places g (g\<lparr>rq_online_mask := m\<rparr>)" "same_places g (g\<lparr>rq_preempt_off := p\<rparr>)"
  "same_places g (g\<lparr>rq_resched_pending := b\<rparr>)"
  by (simp_all add: same_places_def)

lemma run_inv_fields:
  assumes "run_inv rp H g"
  shows "run_inv rp H (count_event g c h)" "run_inv rp H (g\<lparr>rq_ipis := l\<rparr>)" "run_inv rp H (g\<lparr>rq_min_vruntime := f\<rparr>)"
    "run_inv rp H (g\<lparr>rq_quantum := q\<rparr>)" "run_inv rp H (g\<lparr>rq_online_mask := m\<rparr>)" "run_inv rp H (g\<lparr>rq_preempt_off := p\<rparr>)"
    "run_inv rp H (g\<lparr>rq_resched_pending := b\<rparr>)"
  by (rule run_inv_same [OF assms]; simp)+

lemma run_inv_vruntime: "run_inv rp H g \<Longrightarrow> run_inv rp H (set_thread g th (\<lambda>t. t\<lparr>rt_vruntime := v t\<rparr>))"
  by (rule run_inv_same [of rp H g]) simp_all

lemma seed_vruntime_inv:
  "run_inv rp H g \<Longrightarrow> run_inv rp H (seed_vruntime g th c w)" "keeps g (seed_vruntime g th c w)"
  "rt_state (rq_thread (seed_vruntime g th c w) x) = rt_state (rq_thread g x)" "rq_ready (seed_vruntime g th c w) = rq_ready g"
  "rq_ended_pids (seed_vruntime g th c w) = rq_ended_pids g" "rq_blocked (seed_vruntime g th c w) = rq_blocked g"
  "rq_suspended (seed_vruntime g th c w) = rq_suspended g" "rq_ending (seed_vruntime g th c w) = rq_ending g"
  "rq_reaper (seed_vruntime g th c w) = rq_reaper g" "rq_online_mask (seed_vruntime g th c w) = rq_online_mask g"
  "rt_ending (rq_thread (seed_vruntime g th c w) x) = rt_ending (rq_thread g x)"
  by (simp_all add: seed_vruntime_def Let_def run_inv_vruntime keeps_def)

section \<open>Placing\<close>

text \<open>The thread lists and marks that placing a thread leaves alone.\<close>

definition same_lists :: "RunState \<Rightarrow> RunState \<Rightarrow> bool" where
  "same_lists g g' \<longleftrightarrow> rq_blocked g' = rq_blocked g \<and> rq_suspended g' = rq_suspended g \<and> rq_reaper g' = rq_reaper g
     \<and> rq_ended_pids g' = rq_ended_pids g \<and> rq_ending g' = rq_ending g \<and> rq_online_mask g' = rq_online_mask g
     \<and> (\<forall>th. rt_ending (rq_thread g' th) = rt_ending (rq_thread g th) \<and> rt_state (rq_thread g' th) = rt_state (rq_thread g th))"

lemma place_thread_inv:
  assumes "run_inv rp (add_mset th H) (if wake then g else g\<lparr>rq_threads := rq_threads g + 1\<rparr>)" "me < MAX_CPUS" "rq_cpu_online g me"
    "th \<notin> idle_threads g" "rt_state (rq_thread g th) = TReady"
  defines "cpu \<equiv> if wake then pick_wake_cpu me g th (rq_online_mask g) else pick_target_cpu me g th (rq_online_mask g)"
  shows "\<exists>g'. place_thread me g th wake = Some (g', True) \<and> run_inv rp H g' \<and> keeps g g' \<and> same_lists g g'
    \<and> cpu < MAX_CPUS \<and> rq_ready g' = (rq_ready g)(cpu := (rq_ready g cpu)\<lparr>rs_items := ready_list g cpu @ [th]\<rparr>)
    \<and> rq_ipis g' = rq_ipis g @ (if cpu = me then [] else [cpu])"
proof -
  let ?g = "if wake then g else g\<lparr>rq_threads := rq_threads g + 1\<rparr>"
  let ?s = "seed_vruntime ?g th cpu wake"
  have cpu: "cpu < MAX_CPUS" "rq_cpu_online g cpu" using placed_online [OF assms(2,3)] by (simp_all add: cpu_def)
  have k: "keeps g ?s" using keeps_trans [of g ?g ?s] seed_vruntime_inv(2) by simp
  have idle: "th \<notin> idle_threads ?s" using assms(4) keeps_idle_threads [OF k] by simp
  have on: "rq_cpu_online ?s cpu" using k cpu(2) by (simp add: keeps_def)
  have st: "rt_state (rq_thread ?s th) = TReady" using assms(5) by (simp add: seed_vruntime_inv(3))
  note p = put_ready_inv [OF seed_vruntime_inv(1) [OF assms(1)] cpu(1) on idle st]
  have r: "rq_ready ?s = rq_ready g" by (simp add: seed_vruntime_inv(4))
  let ?q = "(rq_ready g cpu)\<lparr>rs_items := ready_list g cpu @ [th]\<rparr>"
  let ?e = "count_event (set_ready ?s cpu ?q) cpu (\<lambda>s. s\<lparr>st_placed := st_placed s + 1\<rparr>)"
  let ?g' = "?e\<lparr>rq_ipis := rq_ipis ?e @ (if cpu = me then [] else [cpu])\<rparr>"
  have room: "length (ready_list g cpu) < rs_cap (rq_ready g cpu)" using p(1) by (simp add: r Reserved_push_def split: if_splits)
  have "\<not> wake \<Longrightarrow> rq_threads g < MAX_THREADS" using run_invD(3) [OF assms(1)] by simp
  then have eq: "place_thread me g th wake = Some (?g', True)"
    using room p(1) unfolding place_thread_def cpu_def [symmetric] Let_def by (auto simp: r)
  have "run_inv rp H ?e" by (rule run_inv_fields(1)) (use p(2) in \<open>simp add: r\<close>)
  then have inv: "run_inv rp H ?g'" by (rule run_inv_fields(2))
  have "keeps ?s ?g'" by (simp add: keeps_def)
  with k have "keeps g ?g'" by (rule keeps_trans)
  moreover have "same_lists g ?g'" by (simp add: same_lists_def seed_vruntime_inv)
  moreover have "rq_ipis ?s = rq_ipis g" by (simp add: seed_vruntime_def Let_def)
  ultimately show ?thesis using eq inv cpu(1) by (intro exI [of _ ?g']) (simp add: r)
qed

lemma place_woken_inv:
  assumes "run_inv rp (add_mset th H) g" "me < MAX_CPUS" "rq_cpu_online g me" "th \<notin> idle_threads g" "rt_state (rq_thread g th) = TReady"
  shows "\<exists>g' c. place_woken me g th = Some g' \<and> run_inv rp H g' \<and> keeps g g' \<and> same_lists g g'
    \<and> c < MAX_CPUS \<and> rq_ready g' = (rq_ready g)(c := (rq_ready g c)\<lparr>rs_items := ready_list g c @ [th]\<rparr>)"
  using place_thread_inv [where wake = True, OF _ assms(2-5), of rp H] assms(1) by (force simp: place_woken_def)

section \<open>Waking\<close>

definition queued :: "RunState \<Rightarrow> u64 set" where
  "queued g = (\<Union>c<MAX_CPUS. set (ready_list g c))"

text \<open>The blocked threads among these, and no others, have moved to run queues.\<close>

definition wakes :: "RunState \<Rightarrow> u64 list \<Rightarrow> RunState \<Rightarrow> bool" where
  "wakes g ths g' \<longleftrightarrow> keeps g g' \<and> rq_suspended g' = rq_suspended g \<and> rq_reaper g' = rq_reaper g \<and> rq_ended_pids g' = rq_ended_pids g
     \<and> rq_ending g' = rq_ending g \<and> (\<forall>th. rt_ending (rq_thread g' th) = rt_ending (rq_thread g th))
     \<and> rs_items (rq_blocked g') = fold remove1 ths (rs_items (rq_blocked g))
     \<and> queued g' = queued g \<union> (set ths \<inter> set (rs_items (rq_blocked g)))"

lemma wakes_keeps: "wakes g ths g' \<Longrightarrow> keeps g g'"
  by (simp add: wakes_def)

lemma position_eq:
  assumes "position (\<lambda>r. r = x) (rs_items q) = Some i"
  shows "i < length (rs_items q)" "rs_items q ! i = x" "rs_items (Reserved_remove q i) = remove1 x (rs_items q)"
proof -
  note p = position_Some [OF assms]
  then show "i < length (rs_items q)" "rs_items q ! i = x" by simp_all
  have "x \<notin> set (take i (rs_items q))" using p by (auto simp: in_set_conv_nth)
  moreover have "rs_items q = take i (rs_items q) @ x # drop (Suc i) (rs_items q)" using p id_take_nth_drop by metis
  ultimately have "remove1 x (rs_items q) = take i (rs_items q) @ drop (Suc i) (rs_items q)" by (metis remove1_append remove1.simps(2))
  then show "rs_items (Reserved_remove q i) = remove1 x (rs_items q)" by (simp add: Reserved_remove_def)
qed

lemma run_inv_distinct:
  assumes "run_inv rp H g"
  shows "c < MAX_CPUS \<Longrightarrow> distinct (ready_list g c)" "distinct (rs_items (rq_blocked g))" "distinct (rs_items (rq_suspended g))"
    "c < MAX_CPUS \<Longrightarrow> distinct (rs_items (rq_reap g c))"
proof -
  have d: "distinct xs" if "mset xs \<subseteq># tracked g" for xs
  proof -
    have "count (mset xs) x \<le> 1" for x using run_invD(1) [OF assms, of x] mset_subset_eq_count [OF that, of x] by simp
    from size_once [OF this] show ?thesis by (intro card_distinct) simp
  qed
  show "c < MAX_CPUS \<Longrightarrow> distinct (ready_list g c)" "c < MAX_CPUS \<Longrightarrow> distinct (rs_items (rq_reap g c))"
    by (auto intro!: d simp: tracked_at at_cpu_def)
  show "distinct (rs_items (rq_blocked g))" "distinct (rs_items (rq_suspended g))"
    by (auto intro!: d simp: tracked_def off_cpu_def)
qed

lemma make_runnable_inv:
  assumes "run_inv rp H g" "me < MAX_CPUS" "rq_cpu_online g me"
  shows "\<exists>g' b. rq_make_runnable me g th = Some (g', b) \<and> run_inv rp H g' \<and> wakes g [th] g' \<and> (b \<longleftrightarrow> th \<in> set (rs_items (rq_blocked g)))"
proof (cases "position (\<lambda>r. r = th) (rs_items (rq_blocked g))")
  case None
  then have "th \<notin> set (rs_items (rq_blocked g))" by (auto simp: position_None)
  then show ?thesis using assms(1) by (intro exI [of _ g] exI [of _ False]) (simp add: rq_make_runnable_def None wakes_def remove1_idem)
next
  case (Some i)
  note p = position_eq [OF Some]
  have mem: "th \<in> set (rs_items (rq_blocked g))" using p(1,2) nth_mem by blast
  let ?g = "g\<lparr>rq_blocked := Reserved_remove (rq_blocked g) i\<rparr>"
  let ?s = "set_state ?g th TReady"
  have inv: "run_inv rp (add_mset th H) ?s"
    unfolding set_state_def by (rule run_inv_hand) (use take_blocked_inv [OF assms(1) p(1)] p(2) in simp_all)
  have k: "keeps g ?s" by (rule keeps_trans [of g ?g]) simp_all
  have idle: "th \<notin> idle_threads ?s" using queued_not_idle(3) [OF assms(1) mem] keeps_idle_threads [OF k] by simp
  have on: "rq_cpu_online ?s me" and st: "rt_state (rq_thread ?s th) = TReady" using assms(3) by (simp_all add: set_state_def)
  obtain g' c where g': "place_woken me ?s th = Some g'" "run_inv rp H g'" "keeps ?s g'" "same_lists ?s g'"
      "rq_ready g' = (rq_ready ?s)(c := (rq_ready ?s c)\<lparr>rs_items := ready_list ?s c @ [th]\<rparr>)" "c < MAX_CPUS"
    using place_woken_inv [OF inv assms(2) on idle st] by blast
  have "queued g' = queued g \<union> {th}" using g'(5,6) by (auto simp: queued_def set_state_def split: if_splits)
  moreover have "keeps g g'" by (rule keeps_trans [OF k g'(3)])
  ultimately have "wakes g [th] g'" using g'(4) mem p(3) by (simp add: wakes_def same_lists_def set_state_def)
  moreover have "rq_make_runnable me g th = Some (g', True)" by (simp add: rq_make_runnable_def Some Let_def g'(1))
  ultimately show ?thesis using g'(2) mem by blast
qed

lemma wakes_trans:
  assumes "wakes g ths g'" "wakes g' ths' g''" "distinct (rs_items (rq_blocked g))"
  shows "wakes g (ths @ ths') g''"
proof -
  have d: "set (fold remove1 ys xs) = set xs - set ys" if "distinct xs" for ys and xs :: "u64 list"
    using that by (induction ys arbitrary: xs) (auto simp: set_remove1_eq)
  have "keeps g g''" using assms(1,2) keeps_trans by (auto simp: wakes_def)
  then show ?thesis using assms d [OF assms(3), of ths] by (auto simp: wakes_def)
qed

lemma wake_each_inv:
  assumes "run_inv rp H g" "me < MAX_CPUS" "rq_cpu_online g me"
  shows "\<exists>g'. wake_each me g ths = Some g' \<and> run_inv rp H g' \<and> wakes g ths g'"
  using assms(1,3)
proof (induction ths arbitrary: g)
  case Nil
  then show ?case by (simp add: wakes_def)
next
  case (Cons th ths)
  obtain g1 b where g1: "rq_make_runnable me g th = Some (g1, b)" "run_inv rp H g1" "wakes g [th] g1"
    using make_runnable_inv [OF Cons.prems(1) assms(2) Cons.prems(2)] by blast
  have "rq_cpu_online g1 me" using g1(3) Cons.prems(2) by (simp add: wakes_def keeps_def)
  from Cons.IH [OF g1(2) this] obtain g' where g': "wake_each me g1 ths = Some g'" "run_inv rp H g'" "wakes g1 ths g'" by blast
  then show ?case using g1(1) wakes_trans [OF g1(3) g'(3) run_inv_distinct(2) [OF Cons.prems(1)]] by simp
qed

section \<open>Picking\<close>

lemma pick_next_cases [case_names none queue stolen]:
  assumes "run_inv rp H g" "me < MAX_CPUS"
  obtains "ready_list g me = []" "victims me g = {}" "pick_next me g = (g, None)"
  | g' i where "i < length (ready_list g me)" "pick_next me g = (g', Some (ready_list g me ! i))"
      "run_inv rp (add_mset (ready_list g me ! i) H) g'" "keeps g g'" "same_lists g g'"
      "\<And>j. j < length (ready_list g me) \<Longrightarrow> sched_key g (ready_list g me ! i) \<le> sched_key g (ready_list g me ! j)"
      "\<And>j. j < i \<Longrightarrow> sched_key g (ready_list g me ! i) < sched_key g (ready_list g me ! j)"
  | g' c i where "ready_list g me = []" "c \<in> victims me g" "i < length (ready_list g c)" "stealable_to g me (ready_list g c ! i)"
      "pick_next me g = (g', Some (ready_list g c ! i))" "run_inv rp (add_mset (ready_list g c ! i) H) g'" "keeps g g'" "same_lists g g'"
      "\<And>d. d \<in> victims me g \<Longrightarrow> length (ready_list g d) \<le> length (ready_list g c)"
proof (cases rule: dequeue_front_cases [of g me])
  case (picked i f)
  let ?g = "set_ready (g\<lparr>rq_min_vruntime := f\<rparr>) me (Reserved_remove (rq_ready g me) i)"
  have "run_inv rp (add_mset (ready_list g me ! i) H) ?g"
    using take_ready_inv [OF run_inv_fields(3) [OF assms(1), of f] assms(2), of i] picked(1) by simp
  moreover have "keeps g ?g" by (simp add: keeps_def)
  moreover have "same_lists g ?g" by (simp add: same_lists_def)
  moreover have "pick_next me g = (?g, Some (ready_list g me ! i))" by (simp add: pick_next_def picked(2))
  ultimately show thesis using that(2) picked by blast
next
  case empty
  show thesis
  proof (cases rule: steal_one_cases [of me g])
    case none
    then show thesis using that(1) empty by (simp add: pick_next_def)
  next
    case (stolen c i h)
    let ?th = "ready_list g c ! i"
    let ?s = "set_ready (count_event g me h) c (Reserved_remove (rq_ready g c) i)"
    let ?g = "seed_vruntime ?s ?th me True"
    have c: "c < MAX_CPUS" using stolen(1) by (simp add: victims_def)
    have "run_inv rp (add_mset ?th H) ?s"
      using take_ready_inv [OF run_inv_fields(1) [OF assms(1), of me h] c, of i] stolen(2) by simp
    then have "run_inv rp (add_mset ?th H) ?g" by (rule seed_vruntime_inv(1))
    moreover have "keeps g ?g" by (rule keeps_trans [OF _ seed_vruntime_inv(2)]) (simp add: keeps_def)
    moreover have "same_lists g ?g" by (simp add: same_lists_def seed_vruntime_inv)
    moreover have "pick_next me g = (?g, Some ?th)" by (simp add: pick_next_def empty(2) stolen(4))
    ultimately show thesis using that(3) [OF empty(1) stolen(1-3)] stolen(5) by blast
  qed
qed

section \<open>Parking\<close>

definition may_park :: "u64 \<Rightarrow> nat \<Rightarrow> RunState \<Rightarrow> u64 \<Rightarrow> Park \<Rightarrow> bool" where
  "may_park rp me g prev to \<longleftrightarrow>
     (prev \<notin> idle_threads g \<or> prev = rq_idle_addr g me \<and> to = ParkReady \<and> rq_idle g me = None)
     \<and> (to = ParkReaper \<longrightarrow> prev = rp \<and> rs_items (rq_ended_pids g) = [])"

lemma park_inv:
  assumes "run_inv rp (add_mset prev H) g" "me < MAX_CPUS" "rq_cpu_online g me" "\<not> rt_on_cpu (rq_thread g prev)" "may_park rp me g prev to"
  shows "\<exists>g'. park me g prev to = Some g' \<and> run_inv rp H g' \<and> rq_current g' = rq_current g \<and> rq_switching g' = rq_switching g
    \<and> rq_preempt_off g' = rq_preempt_off g \<and> rq_cpu_online g' = rq_cpu_online g \<and> rq_idle_addr g' = rq_idle_addr g
    \<and> rq_thread g' = (rq_thread g)(prev := (rq_thread g prev)\<lparr>rt_state := park_state to\<rparr>)"
proof -
  let ?s = "set_state g prev (park_state to)"
  have inv: "run_inv rp (add_mset prev H) ?s" unfolding set_state_def by (rule run_inv_hand [OF assms(1)]) simp_all
  have f: "idle_threads ?s = idle_threads g" "rq_cpu_online ?s me" "\<not> rt_on_cpu (rq_thread ?s prev)" "rt_state (rq_thread ?s prev) = park_state to"
    using assms(3,4) by (simp_all add: set_state_def idle_threads_def online_set_def)
  have "rq_idle_addr g me \<in> idle_threads g" using assms(2,3) by (simp add: idle_threads_def online_set_def)
  then have mine: "rq_idle_addr g me = prev \<longleftrightarrow> prev \<in> idle_threads g" using assms(5) unfolding may_park_def by blast
  show ?thesis
  proof (cases "prev \<in> idle_threads g")
    case True
    then have "prev = rq_idle_addr ?s me" "to = ParkReady" "rq_idle ?s me = None" using assms(5) by (simp_all add: may_park_def set_state_def)
    moreover from this have "run_inv rp H (?s\<lparr>rq_idle := (rq_idle ?s)(me := Some prev)\<rparr>)"
      using put_idle_inv [OF inv assms(2) f(2)] f(4) by simp
    ultimately show ?thesis by (simp add: park_def Let_def set_state_def)
  next
    case False
    then have n: "prev \<notin> idle_threads ?s" "rq_idle_addr g me \<noteq> prev" using mine by (simp_all add: f(1))
    show ?thesis
    proof (cases to)
      case ParkReady
      then show ?thesis using put_ready_inv [OF inv assms(2) f(2) n(1)] f(4) n(2) by (simp add: park_def set_state_def)
    next
      case ParkBlocked
      then show ?thesis using put_blocked_inv [OF inv n(1)] f(4) n(2) by (simp add: park_def set_state_def)
    next
      case ParkSuspended
      then show ?thesis using put_suspended_inv [OF inv n(1)] f(4) n(2) by (simp add: park_def set_state_def)
    next
      case ParkExited
      then show ?thesis using put_reap_inv [OF inv assms(2) f(2) n(1)] f(3,4) n(2) by (simp add: park_def set_state_def)
    next
      case ParkReaper
      then have "prev = rp" "rs_items (rq_ended_pids ?s) = []" using assms(5) by (simp_all add: may_park_def set_state_def)
      then show ?thesis using put_reaper_inv [of rp H ?s] inv n f(4) ParkReaper by (simp add: park_def set_state_def)
    qed
  qed
qed

lemma park_where:
  assumes "park me g prev to = Some g'" "me < MAX_CPUS"
  shows "prev \<in># tracked g'" "d \<noteq> me \<Longrightarrow> rq_reap g' d = rq_reap g d"
proof -
  have "prev \<in> set (ready_list g' me) \<or> rq_idle g' me = Some prev \<or> prev \<in> set (rs_items (rq_blocked g')) \<or> prev \<in> set (rs_items (rq_suspended g'))
      \<or> prev \<in> set (rs_items (rq_reap g' me)) \<or> rq_reaper g' = Some prev"
    using assms(1) by (cases to) (auto simp: park_def Let_def set_state_def Reserved_push_def split: if_splits)
  then show "prev \<in># tracked g'" using places_tracked assms(2) by blast
  show "rq_reap g' d = rq_reap g d" if "d \<noteq> me"
    using assms(1) that by (cases to) (auto simp: park_def Let_def set_state_def split: if_splits)
qed

section \<open>The switch\<close>

lemma switch_into_inv:
  assumes "run_inv rp (add_mset n {#}) g" "me < MAX_CPUS" "rq_cpu_online g me" "rq_current g me = None" "n \<notin> idle_threads g \<or> n = rq_idle_addr g me"
    "rq_switching g me = None" "rq_preempt_off g me = 0" "out \<in># tracked g" "\<not> rt_on_cpu (rq_thread g out)"
    "\<And>d. d < MAX_CPUS \<Longrightarrow> d \<noteq> me \<Longrightarrow> out \<notin> set (rs_items (rq_reap g d))" "\<And>d. d < MAX_CPUS \<Longrightarrow> rq_current g d \<noteq> Some out"
  defines "s \<equiv> set_state g n TRunning"
  shows "\<exists>g'. switch_into me (s\<lparr>rq_current := (rq_current s)(me := Some n)\<rparr>) out n = Some g' \<and> run_inv rp {#} g'
    \<and> rq_current g' = (rq_current g)(me := Some n) \<and> rq_switching g' me = Some out
    \<and> rq_cpu_online g' = rq_cpu_online g \<and> rq_preempt_off g' = rq_preempt_off g \<and> rq_blocked g' = rq_blocked g
    \<and> rq_suspended g' = rq_suspended g \<and> rq_ready g' = rq_ready g"
proof -
  let ?f = "\<lambda>t. t\<lparr>rt_state := TRunning, rt_on_cpu := False, rt_last_cpu := of_nat me\<rparr>"
  let ?c = "g\<lparr>rq_current := (rq_current g)(me := Some n), rq_thread := (rq_thread g)(n := ?f (rq_thread g n)),
    rq_switching := (\<lambda>c. if rq_switching g c = Some n then None else rq_switching g c),
    rq_ending := (rq_ending g)(me := rt_ending (?f (rq_thread g n)))\<rparr>"
  have ne: "out \<noteq> n" using hand_untracked [OF assms(1), of n] assms(8) by auto
  have inv: "run_inv rp {#} ?c" by (rule put_current_inv [OF assms(1-5)]) simp_all
  have tr: "out \<in># tracked ?c + {#}"
  proof -
    have "tracked ?c = tracked (g\<lparr>rq_current := (rq_current g)(me := Some n)\<rparr>)" by (rule tracked_cong) simp_all
    then show ?thesis using tracked_current [OF assms(2), of g "Some n"] assms(4,8) by simp
  qed
  let ?o = "?c\<lparr>rq_thread := (rq_thread ?c)(out := (rq_thread ?c out)\<lparr>rt_on_cpu := True\<rparr>), rq_switching := (rq_switching ?c)(me := Some out)\<rparr>"
  have oinv: "run_inv rp {#} ?o"
    by (rule switching_inv [OF inv assms(2) _ tr]) (use assms(6,9-11) ne in simp_all)
  obtain g' where g': "switch_into me (s\<lparr>rq_current := (rq_current s)(me := Some n)\<rparr>) out n = Some g'"
    using assms(7) by (simp add: switch_into_def Let_def s_def set_state_def commit_switch_def)
  have f: "same_places ?o g'" "rq_ending g' = rq_ending ?o" "rq_ended_pids g' = rq_ended_pids ?o" "rq_preempt_off g' = rq_preempt_off g"
    "\<And>th. rt_state (rq_thread g' th) = rt_state (rq_thread ?o th) \<and> rt_on_cpu (rq_thread g' th) = rt_on_cpu (rq_thread ?o th)
      \<and> rt_ending (rq_thread g' th) = rt_ending (rq_thread ?o th)"
    using g' ne by (auto simp: switch_into_def Let_def s_def set_state_def commit_switch_def same_places_def split: if_splits)
  have "run_inv rp {#} g'" by (rule run_inv_same [OF oinv f(1-3,5)])
  then show ?thesis using g' f(1,4) by (simp add: same_places_def)
qed

text \<open>What a processor switches to: the pick of its queue, else a stolen thread, else its idle thread.\<close>

definition next_ok :: "nat \<Rightarrow> RunState \<Rightarrow> u64 \<Rightarrow> bool" where
  "next_ok me g n \<longleftrightarrow>
     (if ready_list g me \<noteq> []
      then \<exists>i<length (ready_list g me). n = ready_list g me ! i
             \<and> (\<forall>th\<in>set (ready_list g me). sched_key g n \<le> sched_key g th) \<and> (\<forall>j<i. sched_key g n < sched_key g (ready_list g me ! j))
      else if victims me g \<noteq> {}
      then \<exists>c\<in>victims me g. n \<in> set (ready_list g c) \<and> stealable_to g me n \<and> (\<forall>d\<in>victims me g. length (ready_list g d) \<le> length (ready_list g c))
      else n = rq_idle_addr g me)"

lemma own_idle:
  assumes "run_inv rp H g" "me < MAX_CPUS" "rq_cpu_online g me"
  shows "rq_idle_addr g me \<in> idle_threads g" "rq_current g me = None \<Longrightarrow> rq_idle_addr g me \<notin># H \<Longrightarrow> rq_idle g me = Some (rq_idle_addr g me)"
proof -
  show "rq_idle_addr g me \<in> idle_threads g" using assms(2,3) by (simp add: idle_threads_def online_set_def)
  show "rq_idle g me = Some (rq_idle_addr g me)" if "rq_current g me = None" "rq_idle_addr g me \<notin># H"
    using idle_slots [OF assms(1), of me] assms(2,3) that by (simp add: online_set_def)
qed

lemma pick_or_idle:
  assumes "run_inv rp {#prev#} g" "me < MAX_CPUS" "rq_cpu_online g me" "rq_current g me = None"
    "prev = rq_idle_addr g me \<Longrightarrow> ready_list g me \<noteq> [] \<or> victims me g \<noteq> {}"
  shows "\<exists>g' n. (case pick_next me g of
              (g, Some n) \<Rightarrow> Some (g, n)
            | (g, None) \<Rightarrow>
                (case rq_idle g me of
                   None \<Rightarrow> None
                 | Some n \<Rightarrow> Some (g\<lparr>rq_idle := (rq_idle g)(me := None)\<rparr>, n))) = Some (g', n)
      \<and> run_inv rp {#n, prev#} g' \<and> next_ok me g n \<and> (n \<notin> idle_threads g' \<or> n = rq_idle_addr g' me)
      \<and> idle_threads g' = idle_threads g \<and> rq_idle_addr g' = rq_idle_addr g \<and> rq_cpu_online g' = rq_cpu_online g \<and> rq_current g' = rq_current g
      \<and> rq_switching g' = rq_switching g \<and> rq_preempt_off g' = rq_preempt_off g \<and> rq_reap g' = rq_reap g
      \<and> rq_ended_pids g' = rq_ended_pids g \<and> (\<forall>th. rt_on_cpu (rq_thread g' th) = rt_on_cpu (rq_thread g th))
      \<and> (prev = rq_idle_addr g me \<longrightarrow> rq_idle g' me = None)"
proof (cases rule: pick_next_cases [OF assms(1,2)])
  case 1
  note none = 1
  then have ne: "prev \<noteq> rq_idle_addr g me" using assms(5) by auto
  then have idle: "rq_idle g me = Some (rq_idle_addr g me)" using own_idle(2) [OF assms(1-4)] by simp
  let ?g = "g\<lparr>rq_idle := (rq_idle g)(me := None)\<rparr>"
  have "run_inv rp {#rq_idle_addr g me, prev#} ?g" by (rule take_idle_inv [OF assms(1,2) idle])
  moreover have "idle_threads ?g = idle_threads g" by (simp add: idle_threads_def online_set_def)
  ultimately show ?thesis using none idle ne by (simp add: next_ok_def)
next
  case (2 g' i)
  note queue = 2
  have "prev = rq_idle_addr g me \<longrightarrow> rq_idle g me = None"
    using run_invD(5) [OF assms(1,2)] assms(3) untracked_places(4) [OF hand_untracked [OF assms(1), of prev] assms(2)]
    by (cases "rq_idle g me") (auto simp: cpu_ok_def)
  moreover have "next_ok me g (ready_list g me ! i)" using queue(1,6,7) by (auto simp: next_ok_def in_set_conv_nth intro!: exI [of _ i])
  moreover have "ready_list g me ! i \<notin> idle_threads g" using queued_not_idle(1) [OF assms(1,2)] queue(1) by simp
  ultimately show ?thesis using queue(2-5) keeps_idle_threads [OF queue(4)] by (simp add: keeps_def same_lists_def)
next
  case (3 g' c i)
  note stolen = 3
  have "prev = rq_idle_addr g me \<longrightarrow> rq_idle g me = None"
    using run_invD(5) [OF assms(1,2)] assms(3) untracked_places(4) [OF hand_untracked [OF assms(1), of prev] assms(2)]
    by (cases "rq_idle g me") (auto simp: cpu_ok_def)
  moreover have "next_ok me g (ready_list g c ! i)" using stolen(1-4,9) nth_mem [OF stolen(3)] unfolding next_ok_def by (auto intro!: bexI [of _ c])
  moreover have "ready_list g c ! i \<notin> idle_threads g" using queued_not_idle(1) [OF assms(1), of c] stolen(2,3) by (simp add: victims_def)
  ultimately show ?thesis using stolen(5-8) keeps_idle_threads [OF stolen(7)] by (simp add: keeps_def same_lists_def)
qed

definition may_switch :: "u64 \<Rightarrow> nat \<Rightarrow> RunState \<Rightarrow> u64 \<Rightarrow> Park \<Rightarrow> bool" where
  "may_switch rp me g prev to \<longleftrightarrow>
     (prev \<notin> idle_threads g \<or> prev = rq_idle_addr g me \<and> to = ParkReady \<and> (ready_list g me \<noteq> [] \<or> victims me g \<noteq> {}))
     \<and> (to = ParkReaper \<longrightarrow> prev = rp \<and> rs_items (rq_ended_pids g) = [])"

lemma switch_away_inv:
  assumes "run_inv rp {#prev#} g" "me < MAX_CPUS" "rq_cpu_online g me" "rq_current g me = None" "rq_switching g me = None"
    "rq_preempt_off g me = 0" "\<not> rt_on_cpu (rq_thread g prev)" "may_switch rp me g prev to"
  shows "\<exists>g' n. switch_away me g prev to = Some g' \<and> run_inv rp {#} g' \<and> rq_current g' = (rq_current g)(me := Some n) \<and> next_ok me g n
    \<and> rq_switching g' me = Some prev \<and> rq_cpu_online g' = rq_cpu_online g \<and> rq_preempt_off g' = rq_preempt_off g"
proof -
  have "prev = rq_idle_addr g me \<Longrightarrow> ready_list g me \<noteq> [] \<or> victims me g \<noteq> {}"
    using assms(8) own_idle(1) [OF assms(1-3)] by (auto simp: may_switch_def)
  from pick_or_idle [OF assms(1-4) this] obtain g1 n where
    eq: "(case pick_next me g of
              (g, Some n) \<Rightarrow> Some (g, n)
            | (g, None) \<Rightarrow>
                (case rq_idle g me of
                   None \<Rightarrow> None
                 | Some n \<Rightarrow> Some (g\<lparr>rq_idle := (rq_idle g)(me := None)\<rparr>, n))) = Some (g1, n)"
    and g1: "run_inv rp {#n, prev#} g1" "next_ok me g n" "n \<notin> idle_threads g1 \<or> n = rq_idle_addr g1 me"
      "idle_threads g1 = idle_threads g" "rq_idle_addr g1 = rq_idle_addr g" "rq_cpu_online g1 = rq_cpu_online g" "rq_current g1 = rq_current g"
      "rq_switching g1 = rq_switching g" "rq_preempt_off g1 = rq_preempt_off g" "rq_ended_pids g1 = rq_ended_pids g"
      "\<forall>th. rt_on_cpu (rq_thread g1 th) = rt_on_cpu (rq_thread g th)" "prev = rq_idle_addr g me \<longrightarrow> rq_idle g1 me = None" by blast
  have inv: "run_inv rp (add_mset prev {#n#}) g1" using g1(1) by (simp add: add_mset_commute)
  have mp: "may_park rp me g1 prev to" using assms(8) g1(4,5,10,12) unfolding may_park_def may_switch_def by metis
  obtain g2 where g2: "park me g1 prev to = Some g2" "run_inv rp {#n#} g2" "rq_current g2 = rq_current g1" "rq_switching g2 = rq_switching g1"
      "rq_preempt_off g2 = rq_preempt_off g1" "rq_cpu_online g2 = rq_cpu_online g1" "rq_idle_addr g2 = rq_idle_addr g1"
      "rq_thread g2 = (rq_thread g1)(prev := (rq_thread g1 prev)\<lparr>rt_state := park_state to\<rparr>)"
    using park_inv [OF inv assms(2) _ _ mp] assms(3,7) g1(6,11) by auto
  have u: "prev \<notin># tracked g1" using hand_untracked [OF inv, of prev] by simp
  note pw = park_where [OF g2(1) assms(2)]
  have n: "n \<notin> idle_threads g2 \<or> n = rq_idle_addr g2 me" using g1(3) g2(6,7) by (simp add: idle_threads_def online_set_def)
  have reap: "prev \<notin> set (rs_items (rq_reap g2 d))" if "d < MAX_CPUS" "d \<noteq> me" for d
    using pw(2) [OF that(2)] untracked_places(2) [OF u that(1)] by simp
  have cur: "rq_current g2 d \<noteq> Some prev" if "d < MAX_CPUS" for d using untracked_places(3) [OF u that] g2(3) by simp
  obtain g' where "switch_into me ((set_state g2 n TRunning)\<lparr>rq_current := (rq_current (set_state g2 n TRunning))(me := Some n)\<rparr>) prev n = Some g'"
      "run_inv rp {#} g'" "rq_current g' = (rq_current g2)(me := Some n)" "rq_switching g' me = Some prev"
      "rq_cpu_online g' = rq_cpu_online g2" "rq_preempt_off g' = rq_preempt_off g2"
    using switch_into_inv [OF g2(2) assms(2) _ _ n _ _ pw(1) _ reap cur] assms(3-7) g1(6-9,11) g2(3-6,8) by auto
  then show ?thesis using g1(2,6,7,9) g2(1,3,5,6) unfolding switch_away_def eq by (intro exI [of _ g'] exI [of _ n]) simp
qed

end
