(* ===== verification/Run_Exit.thy ===== *)
theory Run_Exit
  imports Run_Switching
begin

text \<open>Switching, waking the reaper, and ending a process, from one hold of the lock to the next.\<close>

section \<open>Switching from the running thread\<close>

text \<open>What holds between two holds of the lock.\<close>

definition settled_run :: "u64 \<Rightarrow> RunState \<Rightarrow> bool" where
  "settled_run rp g \<longleftrightarrow> run_inv rp {#} g \<and> all_run g"

text \<open>The processor \<open>me\<close> runs scheduler code: it is up and has left the stack it last switched from.\<close>

definition runs :: "RunState \<Rightarrow> nat \<Rightarrow> bool" where
  "runs g me \<longleftrightarrow> me < MAX_CPUS \<and> rq_cpu_online g me \<and> rq_switching g me = None"

lemma running_committed:
  assumes "run_inv rp H g" "me < MAX_CPUS" "rq_current g me = Some th"
  shows "\<not> rt_on_cpu (rq_thread g th)"
proof
  assume on: "rt_on_cpu (rq_thread g th)"
  note s = run_invD(9) [OF assms(1)]
  obtain c where "c < MAX_CPUS" "rq_switching g c = Some th"
    using switch_ok_named [OF s _ on] places_tracked(3) [OF assms(2,3)] by auto
  then show False using switch_okD(3) [OF s, of c th me] assms(2,3) by blast
qed

lemma running_idle:
  assumes "run_inv rp {#} g" "me < MAX_CPUS" "rq_current g me = Some th" "th \<in> idle_threads g"
  shows "th = rq_idle_addr g me"
proof (rule ccontr)
  assume ne: "th \<noteq> rq_idle_addr g me"
  obtain c where c: "c \<in> online_set g" "th = rq_idle_addr g c" using assms(4) by (auto simp: idle_threads_def)
  let ?g = "g\<lparr>rq_current := (rq_current g)(me := None)\<rparr>"
  have c': "c < MAX_CPUS" "c \<noteq> me" using c ne by (auto simp: online_set_def)
  have "rq_idle ?g c = Some th \<or> rq_current ?g c = Some th" using idle_slots [OF assms(1) c(1)] c(2) c'(2) by auto
  then have "th \<in># tracked ?g" using places_tracked(3,4) [OF c'(1)] by blast
  then show False using hand_untracked [OF take_current_inv [OF assms(1-3)], of th] by simp
qed

lemma victims_cong: "rq_ready g' = rq_ready g \<Longrightarrow> rq_cpu_online g' = rq_cpu_online g \<Longrightarrow> rq_thread g' = rq_thread g \<Longrightarrow> victims me g' = victims me g"
  by (simp add: victims_def stealable_to_def)

lemma sched_key_cong: "rq_thread g' = rq_thread g \<Longrightarrow> sched_key g' th = sched_key g th"
  by (simp add: sched_key_def split: SchedClass.split)

lemma next_ok_cong:
  "rq_ready g' = rq_ready g \<Longrightarrow> rq_cpu_online g' = rq_cpu_online g \<Longrightarrow> rq_thread g' = rq_thread g \<Longrightarrow> rq_idle_addr g' = rq_idle_addr g
    \<Longrightarrow> next_ok me g' n = next_ok me g n"
  by (simp add: next_ok_def victims_cong [of g' g] stealable_to_def sched_key_cong [of g' g])

text \<open>A switch after the running thread was taken and other work done with it in hand.\<close>

lemma switch_from_inv:
  assumes "settled_run rp g" "runs g me" "rq_current g me = Some th" "rq_preempt_off g me = 0"
    and g1: "run_inv rp {#th#} g1" "keeps (g\<lparr>rq_current := (rq_current g)(me := None)\<rparr>) g1" "may_switch rp me g1 th to"
  shows "\<exists>g' n. switch_away me g1 th to = Some g' \<and> settled_run rp g' \<and> rq_current g' = (rq_current g)(me := Some n) \<and> next_ok me g1 n
    \<and> rq_switching g' me = Some th"
proof -
  have me: "me < MAX_CPUS" using assms(2) by (simp add: runs_def)
  have k: "rq_cpu_online g1 = rq_cpu_online g" "rq_current g1 = (rq_current g)(me := None)" "rq_switching g1 = rq_switching g"
    "rq_preempt_off g1 = rq_preempt_off g" "rt_on_cpu (rq_thread g1 th) = rt_on_cpu (rq_thread g th)" using g1(2) by (simp_all add: keeps_def)
  have "\<not> rt_on_cpu (rq_thread g1 th)" using running_committed [of rp "{#}" g, OF _ me assms(3)] assms(1) k(5) by (simp add: settled_run_def)
  then obtain g' n where g': "switch_away me g1 th to = Some g'" "run_inv rp {#} g'" "rq_current g' = (rq_current g1)(me := Some n)" "next_ok me g1 n"
      "rq_switching g' me = Some th" "rq_cpu_online g' = rq_cpu_online g1"
    using switch_away_inv [OF g1(1) me _ _ _ _ _ g1(3)] assms(2,4) k by (auto simp: runs_def)
  moreover have "all_run g'" using g'(3,6) k(1,2) assms(1) by (auto simp: all_run_def settled_run_def)
  ultimately show ?thesis using k(2) by (auto simp: settled_run_def)
qed

lemma take_current_eq: "rq_current g me = Some th \<Longrightarrow> take_current me g = Some (g\<lparr>rq_current := (rq_current g)(me := None)\<rparr>, th)"
  by (simp add: take_current_def)

lemma running: "settled_run rp g \<Longrightarrow> runs g me \<Longrightarrow> \<exists>th. rq_current g me = Some th"
  by (auto simp: settled_run_def all_run_def runs_def)

lemma switch_to_next_inv:
  assumes "settled_run rp g" "runs g me" "rq_preempt_off g me = 0" "current_is_idle me g \<Longrightarrow> ready_list g me \<noteq> [] \<or> steal_available g me"
  shows "\<exists>g'. switch_to_next me g = Some g' \<and> settled_run rp g' \<and> (\<exists>n. rq_current g' = (rq_current g)(me := Some n) \<and> next_ok me g n)"
proof -
  obtain th where th: "rq_current g me = Some th" using running [OF assms(1,2)] by blast
  let ?g = "g\<lparr>rq_current := (rq_current g)(me := None)\<rparr>"
  have me: "me < MAX_CPUS" and inv: "run_inv rp {#} g" using assms(1,2) by (simp_all add: runs_def settled_run_def)
  have v: "victims me ?g = victims me g" by (rule victims_cong) simp_all
  have "th \<notin> idle_threads g \<or> th = rq_idle_addr g me" using running_idle [OF inv me th] by blast
  then have "may_switch rp me ?g th ParkReady"
    using assms(4) th by (auto simp: may_switch_def v steal_available_iff current_is_idle_def idle_threads_def online_set_def)
  then obtain g' n where "switch_away me ?g th ParkReady = Some g'" "settled_run rp g'" "rq_current g' = (rq_current g)(me := Some n)" "next_ok me ?g n"
    using switch_from_inv [OF assms(1,2) th assms(3) take_current_inv [OF inv me th] keeps_refl] by blast
  moreover have "next_ok me ?g n = next_ok me g n" by (rule next_ok_cong) simp_all
  ultimately show ?thesis by (auto simp: switch_to_next_def take_current_eq [OF th])
qed

section \<open>The reaper\<close>

text \<open>Waking the reaper also when work for it has just been queued.\<close>

lemma wake_reaper_inv:
  assumes "run_inv rp H g" "me < MAX_CPUS" "rq_cpu_online g me"
  shows "\<exists>g'. wake_reaper me (g\<lparr>rq_ended_pids := q\<rparr>) = Some g' \<and> run_inv rp H g' \<and> keeps g g' \<and> rq_reaper g' = None
    \<and> rq_blocked g' = rq_blocked g \<and> rq_suspended g' = rq_suspended g \<and> rq_ended_pids g' = q
    \<and> (\<forall>th. rt_ending (rq_thread g' th) = rt_ending (rq_thread g th))"
proof -
  have q: "run_inv rp H (g\<lparr>rq_ended_pids := q\<rparr>)" if "run_inv rp H g" "rq_reaper g = None" for g H
  proof (rule off_cpu_move [OF that(1)])
    note i = run_invD [OF that(1)]
    show "tracked (g\<lparr>rq_ended_pids := q\<rparr>) + H = tracked g + H" using tracked_cong [of "g\<lparr>rq_ended_pids := q\<rparr>" g] by simp
    show "cpu_ok H g c" if "c < MAX_CPUS" for c by (rule i(5) [OF that])
    show "states_ok (g\<lparr>rq_ended_pids := q\<rparr>)" using i(8) listed_cong [of "g\<lparr>rq_ended_pids := q\<rparr>" g] by (simp add: states_ok_def)
    show "reaper_ok rp (g\<lparr>rq_ended_pids := q\<rparr>)" using that(2) by (simp add: reaper_ok_def)
  qed (use run_invD(6,7) [OF that(1)] in \<open>simp_all add: same_cpus_def\<close>)
  show ?thesis
  proof (cases "rq_reaper g")
    case None
    then show ?thesis using q [OF assms(1)] by (simp add: wake_reaper_def keeps_def)
  next
    case (Some r)
    let ?g = "g\<lparr>rq_ended_pids := q, rq_reaper := None\<rparr>"
    let ?s = "set_state ?g r TReady"
    have eq: "?g = (g\<lparr>rq_reaper := None\<rparr>)\<lparr>rq_ended_pids := q\<rparr>" by (rule RunState.equality) simp_all
    have "run_inv rp (add_mset r H) ?g" unfolding eq by (rule q [OF take_reaper_inv [OF assms(1) Some]]) simp
    then have inv: "run_inv rp (add_mset r H) ?s" unfolding set_state_def by (rule run_inv_hand) simp_all
    have "r \<notin> idle_threads ?s" using queued_not_idle(5) [OF assms(1) Some] by (simp add: set_state_def idle_threads_def online_set_def)
    note p = put_ready_inv [OF inv assms(2) _ this]
    then show ?thesis using assms(3) Some by (simp add: wake_reaper_def Let_def set_state_def keeps_def)
  qed
qed

section \<open>Ending a process\<close>

lemma run_inv_marks:
  assumes "run_inv rp H g" "same_places g g'" "rq_ended_pids g' = rq_ended_pids g" "ending_ok g'"
    and "\<And>th. rt_state (rq_thread g' th) = rt_state (rq_thread g th) \<and> rt_on_cpu (rq_thread g' th) = rt_on_cpu (rq_thread g th)"
  shows "run_inv rp H g'"
proof (rule run_inv_move [OF assms(1)])
  note i = run_invD [OF assms(1)] and p = same_places_parts [OF assms(2)] and f = assms(2) [unfolded same_places_def]
  show "tracked g' + H = tracked g + H" by (simp add: p)
  show "cpu_ok H g' c" if "c < MAX_CPUS" for c using i(5) [OF that] by (simp add: p)
  show "states_ok g'" using i(8) assms(5) by (simp add: states_ok_def p)
  show "switch_ok (tracked g + H) g'" using i(9) f assms(5) by (simp add: switch_ok_def)
  show "reaper_ok rp g'" using i(11) f assms(3) by (simp add: reaper_ok_def)
qed (use assms(2,4) run_invD(6,7) [OF assms(1)] in \<open>simp_all add: same_places_def\<close>)

text \<open>The marks to end stay, and no thread becomes blocked or suspended or stops being suspended.\<close>

definition same_marks :: "RunState \<Rightarrow> RunState \<Rightarrow> bool" where
  "same_marks g g' \<longleftrightarrow> (\<forall>th. rt_ending (rq_thread g' th) = rt_ending (rq_thread g th)) \<and> rq_suspended g' = rq_suspended g
     \<and> set (rs_items (rq_blocked g')) \<subseteq> set (rs_items (rq_blocked g))"

lemma same_marks_trans: "same_marks g g' \<Longrightarrow> same_marks g' g'' \<Longrightarrow> same_marks g g''"
  by (auto simp: same_marks_def)

lemma set_fold_remove1: "set (fold remove1 ths xs) \<subseteq> set xs"
proof (induction ths arbitrary: xs)
  case (Cons th ths)
  then show ?case using set_remove1_subset [of th xs] by fastforce
qed simp

lemma wakes_same_marks: "wakes g ths g' \<Longrightarrow> same_marks g g'"
  using set_fold_remove1 by (simp add: wakes_def same_marks_def)

lemma end_process_if_last_inv:
  assumes "run_inv rp H g" "me < MAX_CPUS" "rq_cpu_online g me"
  shows "\<exists>g' b. end_process_if_last me g th woken = Some (g', b) \<and> run_inv rp H g' \<and> keeps g g' \<and> same_marks g g'"
proof -
  let ?g = "set_thread g th (\<lambda>t. t\<lparr>rt_process_ended := True\<rparr>)"
  have k: "keeps g ?g" by (simp add: keeps_def)
  have inv: "run_inv rp H ?g" by (rule run_inv_same [OF assms(1)]) simp_all
  have on: "rq_cpu_online ?g me" using assms(3) by simp
  have "\<exists>g2. (case Reserved_push (rq_ended_pids ?g) (rt_pid (rq_thread g th)) of
           Some q \<Rightarrow> wake_reaper me (?g\<lparr>rq_ended_pids := q\<rparr>) | None \<Rightarrow> Some ?g) = Some g2 \<and> run_inv rp H g2 \<and> keeps g g2 \<and> same_marks g g2"
  proof (cases "Reserved_push (rq_ended_pids ?g) (rt_pid (rq_thread g th))")
    case None
    then show ?thesis using inv k by (simp add: same_marks_def)
  next
    case (Some q)
    then show ?thesis using wake_reaper_inv [OF inv assms(2) on, of q] keeps_trans [OF k] by (auto simp: same_marks_def)
  qed
  then obtain g2 where g2: "(case Reserved_push (rq_ended_pids ?g) (rt_pid (rq_thread g th)) of
           Some q \<Rightarrow> wake_reaper me (?g\<lparr>rq_ended_pids := q\<rparr>) | None \<Rightarrow> Some ?g) = Some g2" "run_inv rp H g2" "keeps g g2" "same_marks g g2" by blast
  have "rq_cpu_online g2 me" using g2(3) assms(3) by (simp add: keeps_def)
  from wake_each_inv [OF g2(2) assms(2) this] obtain g' where g': "wake_each me g2 woken = Some g'" "run_inv rp H g'" "wakes g2 woken g'" by blast
  have "keeps g g'" by (rule keeps_trans [OF g2(3) wakes_keeps [OF g'(3)]])
  moreover have "same_marks g g'" by (rule same_marks_trans [OF g2(4) wakes_same_marks [OF g'(3)]])
  ultimately show ?thesis
    using assms(1) g2(1) g'(1,2) unfolding end_process_if_last_def Let_def by (auto simp: same_marks_def intro!: exI)
qed

lemma running_once:
  assumes "run_inv rp H g" "c < MAX_CPUS" "rq_current g c = Some th"
  shows "d < MAX_CPUS \<Longrightarrow> rq_current g d = Some th \<Longrightarrow> d = c" "d < MAX_CPUS \<Longrightarrow> th \<notin> set (ready_list g d)"
    "th \<notin> set (rs_items (rq_blocked g))" "th \<notin> set (rs_items (rq_suspended g))"
proof -
  note u = untracked_places [OF hand_untracked [OF take_current_inv [OF assms], of th, simplified]]
  show "d = c" if "d < MAX_CPUS" "rq_current g d = Some th" using u(3) [OF that(1)] that(2) by (auto split: if_splits)
  show "d < MAX_CPUS \<Longrightarrow> th \<notin> set (ready_list g d)" "th \<notin> set (rs_items (rq_blocked g))" "th \<notin> set (rs_items (rq_suspended g))"
    using u(1,5,6) by simp_all
qed

lemma foldl_set_ending: "foldl set_ending g ths = g\<lparr>rq_thread := (\<lambda>x. if x \<in> set ths then (rq_thread g x)\<lparr>rt_ending := True\<rparr> else rq_thread g x)\<rparr>"
  by (induction ths arbitrary: g) (auto simp: set_ending_def set_thread_def fun_eq_iff intro!: RunState.equality)

text \<open>The threads of the process that are queued on processor c or run there.\<close>

definition mates :: "RunState \<Rightarrow> u32 \<Rightarrow> nat \<Rightarrow> u64 set" where
  "mates g pid c = {th. same_pid g pid th \<and> (th \<in> set (ready_list g c) \<or> rq_current g c = Some th)}"

definition runs_mate :: "RunState \<Rightarrow> u32 \<Rightarrow> nat \<Rightarrow> bool" where
  "runs_mate g pid c \<longleftrightarrow> (\<exists>th. rq_current g c = Some th \<and> same_pid g pid th)"

lemma mark_cpu_effect:
  "same_places g (mark_cpu me pid c g)" "keeps g (mark_cpu me pid c g)" "rq_ended_pids (mark_cpu me pid c g) = rq_ended_pids g"
  "rt_state (rq_thread (mark_cpu me pid c g) th) = rt_state (rq_thread g th)"
  "rt_ending (rq_thread (mark_cpu me pid c g) th) \<longleftrightarrow> rt_ending (rq_thread g th) \<or> th \<in> mates g pid c"
  "rq_ending (mark_cpu me pid c g) d \<longleftrightarrow> rq_ending g d \<or> d = c \<and> runs_mate g pid c"
  "rq_ipis (mark_cpu me pid c g) = rq_ipis g @ (if runs_mate g pid c \<and> c \<noteq> me then [c] else [])"
  by (auto simp: mark_cpu_def foldl_set_ending set_ending_def mates_def runs_mate_def same_pid_def same_places_def keeps_def Let_def split: option.split)

lemma mark_cpu_inv:
  assumes "run_inv rp H g" "c < MAX_CPUS"
  shows "run_inv rp H (mark_cpu me pid c g)"
proof (rule run_inv_marks [OF assms(1) mark_cpu_effect(1,3)])
  have "rq_ending (mark_cpu me pid c g) d = rt_ending (rq_thread (mark_cpu me pid c g) th)" if d: "d < MAX_CPUS" "rq_current g d = Some th" for d th
    using run_invD(10) [OF assms(1)] d running_once(1) [OF assms(1) assms(2), of th d] running_once(2) [OF assms(1) d assms(2)]
    by (auto simp: mark_cpu_effect ending_ok_def mates_def runs_mate_def)
  moreover have "\<not> rq_ending (mark_cpu me pid c g) d" if d: "d < MAX_CPUS" "\<not> rq_cpu_online g d" for d
  proof -
    have "rq_current g d = None" using run_invD(5) [OF assms(1) d(1)] d(2) by (cases "rq_current g d") (auto simp: cpu_ok_def at_cpu_def)
    then show ?thesis using run_invD(10) [OF assms(1)] d by (auto simp: mark_cpu_effect ending_ok_def runs_mate_def)
  qed
  ultimately show "ending_ok (mark_cpu me pid c g)" using mark_cpu_effect(1) [of g me pid c] by (simp add: ending_ok_def same_places_def)
qed (use mark_cpu_effect(2) [of g me pid c] in \<open>simp add: mark_cpu_effect keeps_def\<close>)

lemma mates_cong: "rq_ready g' = rq_ready g \<Longrightarrow> rq_current g' = rq_current g \<Longrightarrow> (\<And>th. rt_pid (rq_thread g' th) = rt_pid (rq_thread g th))
    \<Longrightarrow> mates g' = mates g \<and> runs_mate g' = runs_mate g"
  by (simp add: mates_def runs_mate_def same_pid_def fun_eq_iff)

lemma mark_cpus_inv:
  fixes me pid
  assumes "run_inv rp H g" "set cs \<subseteq> {..<MAX_CPUS}"
  defines "g' \<equiv> fold (mark_cpu me pid) cs g"
  shows "run_inv rp H g' \<and> same_places g g' \<and> keeps g g' \<and> rq_ended_pids g' = rq_ended_pids g
    \<and> (\<forall>th. rt_state (rq_thread g' th) = rt_state (rq_thread g th))
    \<and> (\<forall>th. rt_ending (rq_thread g' th) \<longleftrightarrow> rt_ending (rq_thread g th) \<or> (\<exists>c\<in>set cs. th \<in> mates g pid c))
    \<and> (\<forall>d. rq_ending g' d \<longleftrightarrow> rq_ending g d \<or> d \<in> set cs \<and> runs_mate g pid d)
    \<and> rq_ipis g' = rq_ipis g @ filter (\<lambda>c. runs_mate g pid c \<and> c \<noteq> me) cs"
  using assms(1,2) unfolding g'_def
proof (induction cs arbitrary: g)
  case (Cons c cs)
  let ?g = "mark_cpu me pid c g"
  have inv: "run_inv rp H ?g" by (rule mark_cpu_inv) (use Cons.prems in auto)
  have m: "mates ?g = mates g \<and> runs_mate ?g = runs_mate g"
    using mark_cpu_effect(1,2) [of g me pid c] by (intro mates_cong) (simp_all add: same_places_def keeps_def)
  have e: "keeps g ?g" "same_places g ?g" by (simp_all add: mark_cpu_effect)
  from Cons.IH [OF inv] Cons.prems(2) show ?case
    using m e keeps_trans [OF e(1)] by (auto simp: mark_cpu_effect same_places_def)
qed (simp add: same_places_def)

end
