(* ===== verification/Run_Ending.thy ===== *)
theory Run_Ending
  imports Run_Exit
begin

text \<open>
  Setting every thread of a process to end: the loops of \<^verbatim>\<open>end_siblings\<close> return, and reach every thread
  of the process wherever it is.
\<close>

section \<open>Resuming a suspended thread\<close>

lemma resume_parked_inv:
  assumes "run_inv rp (add_mset th H) g" "me < MAX_CPUS" "rq_cpu_online g me" "th \<notin> idle_threads g"
  shows "\<exists>g'. resume_parked me g th tag code = Some g' \<and> run_inv rp H g' \<and> keeps g g' \<and> rq_blocked g' = rq_blocked g
    \<and> rq_suspended g' = rq_suspended g \<and> rq_reaper g' = rq_reaper g \<and> rq_ended_pids g' = rq_ended_pids g \<and> rq_ending g' = rq_ending g
    \<and> (\<forall>x. rt_ending (rq_thread g' x) = rt_ending (rq_thread g x)) \<and> queued g' = insert th (queued g)"
proof -
  let ?s = "set_thread g th (\<lambda>t. t\<lparr>rt_disposition := (tag, code), rt_state := TReady\<rparr>)"
  have inv: "run_inv rp (add_mset th H) ?s" by (rule run_inv_hand [OF assms(1)]) simp_all
  have k: "keeps g ?s" by (simp add: keeps_def)
  have "th \<notin> idle_threads ?s" using assms(4) keeps_idle_threads [OF k] by simp
  then obtain g' c where g': "place_woken me ?s th = Some g'" "run_inv rp H g'" "keeps ?s g'" "same_lists ?s g'" "c < MAX_CPUS"
      "rq_ready g' = (rq_ready ?s)(c := (rq_ready ?s c)\<lparr>rs_items := ready_list ?s c @ [th]\<rparr>)"
    using place_woken_inv [OF inv assms(2)] assms(3) by auto
  have "queued g' = insert th (queued g)" using g'(5,6) by (auto simp: queued_def split: if_splits)
  then show ?thesis using g' keeps_trans [OF k g'(3)] by (simp add: resume_parked_def same_lists_def)
qed

section \<open>The blocked\<close>

text \<open>Marking a thread that does not run.\<close>

lemma set_ending_inv:
  assumes "run_inv rp H g" "\<And>c. c < MAX_CPUS \<Longrightarrow> rq_current g c \<noteq> Some th"
  shows "run_inv rp H (set_ending g th)"
  unfolding set_ending_def
proof (rule run_inv_marks [OF assms(1)])
  show "ending_ok (set_thread g th (\<lambda>t. t\<lparr>rt_ending := True\<rparr>))"
    using run_invD(10) [OF assms(1)] assms(2) by (auto simp: ending_ok_def)
qed simp_all

lemma blocked_not_running:
  assumes "run_inv rp H g" "th \<in> set (rs_items (rq_blocked g)) \<union> set (rs_items (rq_suspended g))" "c < MAX_CPUS"
  shows "rq_current g c \<noteq> Some th"
  using running_once(3,4) [OF assms(1,3)] assms(2) by blast

definition to_mark :: "RunState \<Rightarrow> u32 \<Rightarrow> u64 list" where
  "to_mark g pid = filter (\<lambda>th. same_pid g pid th \<and> \<not> rt_ending (rq_thread g th)) (rs_items (rq_blocked g))"

text \<open>What the loop over the blocked threads does.\<close>

definition blocked_marked :: "u32 \<Rightarrow> (u64 \<Rightarrow> bool) \<Rightarrow> RunState \<Rightarrow> RunState \<Rightarrow> bool" where
  "blocked_marked pid claims g g' \<longleftrightarrow> keeps g g' \<and> to_mark g' pid = [] \<and> rq_suspended g' = rq_suspended g \<and> rq_reaper g' = rq_reaper g
     \<and> rq_ended_pids g' = rq_ended_pids g \<and> rq_ending g' = rq_ending g
     \<and> (\<forall>th. rt_ending (rq_thread g' th) \<longleftrightarrow> rt_ending (rq_thread g th) \<or> th \<in> set (to_mark g pid))
     \<and> set (rs_items (rq_blocked g')) = set (rs_items (rq_blocked g)) - {th \<in> set (to_mark g pid). claims th}
     \<and> queued g' = queued g \<union> {th \<in> set (to_mark g pid). claims th}"

lemma set_to_mark: "set (to_mark g pid) = {th \<in> set (rs_items (rq_blocked g)). same_pid g pid th \<and> \<not> rt_ending (rq_thread g th)}"
  by (auto simp: to_mark_def)

lemma mark_blocked_inv:
  assumes "run_inv rp H g" "me < MAX_CPUS" "rq_cpu_online g me"
  shows "\<exists>g'. mark_blocked me pid claims g = Some g' \<and> run_inv rp H g' \<and> blocked_marked pid claims g g'"
  using assms(1,3)
proof (induction "length (to_mark g pid)" arbitrary: g rule: less_induct)
  case less
  let ?P = "\<lambda>th. same_pid g pid th \<and> \<not> rt_ending (rq_thread g th)"
  show ?case
  proof (cases "position ?P (rs_items (rq_blocked g))")
    case None
    then have "to_mark g pid = []" by (auto simp: to_mark_def position_None filter_empty_conv)
    then show ?thesis using less.prems(1) None by (subst mark_blocked.simps) (simp add: blocked_marked_def)
  next
    case (Some i)
    let ?th = "rs_items (rq_blocked g) ! i"
    let ?m = "set_ending g ?th"
    have th: "?th \<in> set (rs_items (rq_blocked g))" "same_pid g pid ?th" "\<not> rt_ending (rq_thread g ?th)"
      using position_Some [OF Some] by auto
    have m: "run_inv rp H ?m" using blocked_not_running [OF less.prems(1)] th(1) by (intro set_ending_inv [OF less.prems(1)]) blast
    have km: "keeps g ?m" by simp
    have fm: "rq_blocked ?m = rq_blocked g" "rq_suspended ?m = rq_suspended g" "rq_reaper ?m = rq_reaper g" "rq_ended_pids ?m = rq_ended_pids g"
      "rq_ending ?m = rq_ending g" "queued ?m = queued g" "\<And>x. rt_ending (rq_thread ?m x) \<longleftrightarrow> rt_ending (rq_thread g x) \<or> x = ?th"
      by (auto simp: set_ending_def queued_def)
    have on: "rq_cpu_online ?m me" using less.prems(2) by (simp add: set_ending_def)
    obtain g1 where g1: "run_inv rp H g1" "wakes ?m (if claims ?th then [?th] else []) g1"
        "mark_blocked me pid claims g = mark_blocked me pid claims g1"
    proof (cases "claims ?th")
      case True
      obtain g1 b where g1: "rq_make_runnable me ?m ?th = Some (g1, b)" "run_inv rp H g1" "wakes ?m [?th] g1"
        using make_runnable_inv [OF m assms(2) on] by blast
      have "mark_blocked me pid claims g = mark_blocked me pid claims g1"
        by (subst mark_blocked.simps) (simp add: Some True g1(1) Let_def)
      then show thesis using that g1(2,3) True by simp
    next
      case False
      have "mark_blocked me pid claims g = mark_blocked me pid claims ?m"
        by (subst mark_blocked.simps) (simp add: Some False Let_def)
      then show thesis using that [of ?m] m False by (simp add: wakes_def)
    qed
    have k1: "keeps g g1" using keeps_trans [OF km wakes_keeps [OF g1(2)]] .
    have pid: "same_pid g1 pid x = same_pid g pid x" for x using k1 by (simp add: keeps_def same_pid_def)
    have dist: "distinct (rs_items (rq_blocked g))" by (rule run_inv_distinct(2) [OF less.prems(1)])
    have end1: "rt_ending (rq_thread g1 x) \<longleftrightarrow> rt_ending (rq_thread g x) \<or> x = ?th" for x using g1(2) fm(7) by (simp add: wakes_def)
    have bl: "rs_items (rq_blocked g1) = (if claims ?th then remove1 ?th (rs_items (rq_blocked g)) else rs_items (rq_blocked g))"
      using g1(2) fm(1) by (simp add: wakes_def split: if_splits)
    have "to_mark g1 pid = filter (\<lambda>x. x \<noteq> ?th) (to_mark g pid)"
    proof -
      have "filter (\<lambda>x. same_pid g1 pid x \<and> \<not> rt_ending (rq_thread g1 x)) (rs_items (rq_blocked g))
          = filter (\<lambda>x. x \<noteq> ?th) (to_mark g pid)" unfolding to_mark_def filter_filter by (rule filter_cong) (auto simp: pid end1)
      moreover have "filter (\<lambda>x. same_pid g1 pid x \<and> \<not> rt_ending (rq_thread g1 x)) (remove1 ?th xs)
          = filter (\<lambda>x. same_pid g1 pid x \<and> \<not> rt_ending (rq_thread g1 x)) xs" for xs
        by (induction xs) (auto simp: end1)
      ultimately show ?thesis unfolding to_mark_def [of g1] bl by simp
    qed
    then have tm: "to_mark g1 pid = filter (\<lambda>x. x \<noteq> ?th) (to_mark g pid)" .
    have mem: "?th \<in> set (to_mark g pid)" using th by (simp add: set_to_mark)
    then have "length (to_mark g1 pid) < length (to_mark g pid)" unfolding tm by (intro length_filter_less) auto
    moreover have "rq_cpu_online g1 me" using k1 less.prems(2) by (simp add: keeps_def)
    ultimately obtain g' where g': "mark_blocked me pid claims g1 = Some g'" "run_inv rp H g'" "blocked_marked pid claims g1 g'"
      using less.hyps [OF _ g1(1)] by blast
    have q: "queued g1 = queued g \<union> (if claims ?th then {?th} else {})" using g1(2) fm(1,6) th(1) by (auto simp: wakes_def)
    have "set (rs_items (rq_blocked g1)) = set (rs_items (rq_blocked g)) - (if claims ?th then {?th} else {})"
      using dist by (simp add: bl)
    then have "blocked_marked pid claims g g'"
      using g'(3) g1(2) fm k1 keeps_trans [OF k1] mem end1 q
      unfolding blocked_marked_def tm wakes_def by (auto split: if_splits)
    then show ?thesis using g'(1,2) g1(3) by simp
  qed
qed

section \<open>The suspended\<close>

definition mates_suspended :: "RunState \<Rightarrow> u32 \<Rightarrow> u64 set" where
  "mates_suspended g pid = {th \<in> set (rs_items (rq_suspended g)). same_pid g pid th}"

definition suspended_ended :: "u32 \<Rightarrow> RunState \<Rightarrow> RunState \<Rightarrow> bool" where
  "suspended_ended pid g g' \<longleftrightarrow> keeps g g' \<and> rq_blocked g' = rq_blocked g \<and> rq_reaper g' = rq_reaper g
     \<and> rq_ended_pids g' = rq_ended_pids g \<and> rq_ending g' = rq_ending g
     \<and> (\<forall>th. rt_ending (rq_thread g' th) \<longleftrightarrow> rt_ending (rq_thread g th) \<or> th \<in> mates_suspended g pid)
     \<and> set (rs_items (rq_suspended g')) = set (rs_items (rq_suspended g)) - mates_suspended g pid
     \<and> queued g' = queued g \<union> mates_suspended g pid"

lemma set_removed:
  assumes "distinct (rs_items q)" "i < length (rs_items q)"
  shows "set (rs_items (Reserved_remove q i)) = set (rs_items q) - {rs_items q ! i}"
proof -
  have eq: "rs_items q = take i (rs_items q) @ rs_items q ! i # drop (Suc i) (rs_items q)" by (rule id_take_nth_drop [OF assms(2)])
  have "distinct (take i (rs_items q) @ rs_items q ! i # drop (Suc i) (rs_items q))" using assms(1) eq by simp
  then have n: "rs_items q ! i \<notin> set (take i (rs_items q))" "rs_items q ! i \<notin> set (drop (Suc i) (rs_items q))" by simp_all
  have "set (rs_items q) = insert (rs_items q ! i) (set (take i (rs_items q)) \<union> set (drop (Suc i) (rs_items q)))"
    by (subst eq) simp
  then show ?thesis using n by (auto simp: Reserved_remove_def)
qed

lemma end_suspended_inv:
  assumes "run_inv rp H g" "me < MAX_CPUS" "rq_cpu_online g me"
  shows "\<exists>g'. end_suspended me pid g = Some g' \<and> run_inv rp H g' \<and> suspended_ended pid g g'"
  using assms(1,3)
proof (induction "length (rs_items (rq_suspended g))" arbitrary: g rule: less_induct)
  case less
  show ?case
  proof (cases "position (same_pid g pid) (rs_items (rq_suspended g))")
    case None
    then have "mates_suspended g pid = {}" by (auto simp: mates_suspended_def position_None)
    then show ?thesis using less.prems(1) None by (subst end_suspended.simps) (simp add: suspended_ended_def)
  next
    case (Some i)
    let ?th = "rs_items (rq_suspended g) ! i"
    let ?r = "g\<lparr>rq_suspended := Reserved_remove (rq_suspended g) i\<rparr>"
    let ?m = "set_ending ?r ?th"
    have i: "i < length (rs_items (rq_suspended g))" "same_pid g pid ?th" using position_Some [OF Some] by auto
    then have th: "?th \<in> set (rs_items (rq_suspended g))" by simp
    have m: "run_inv rp (add_mset ?th H) ?m"
      unfolding set_ending_def by (rule run_inv_hand [OF take_suspended_inv [OF less.prems(1) i(1)]]) simp_all
    have km: "keeps g ?m" by (rule keeps_trans [of g ?r]) simp_all
    have idle: "?th \<notin> idle_threads ?m" using queued_not_idle(4) [OF less.prems(1) th] keeps_idle_threads [OF km] by simp
    have on: "rq_cpu_online ?m me" using less.prems(2) by (simp add: set_ending_def)
    obtain g1 where g1: "resume_parked me ?m ?th DISP_TERMINATE 0 = Some g1" "run_inv rp H g1" "keeps ?m g1" "rq_blocked g1 = rq_blocked ?m"
        "rq_suspended g1 = rq_suspended ?m" "rq_reaper g1 = rq_reaper ?m" "rq_ended_pids g1 = rq_ended_pids ?m" "rq_ending g1 = rq_ending ?m"
        "\<forall>x. rt_ending (rq_thread g1 x) = rt_ending (rq_thread ?m x)" "queued g1 = insert ?th (queued ?m)"
      using resume_parked_inv [OF m assms(2) on idle] by blast
    have k1: "keeps g g1" by (rule keeps_trans [OF km g1(3)])
    have pid: "same_pid g1 pid x = same_pid g pid x" for x using k1 by (simp add: keeps_def same_pid_def)
    have s1: "set (rs_items (rq_suspended g1)) = set (rs_items (rq_suspended g)) - {?th}"
      using g1(5) set_removed [OF run_inv_distinct(3) [OF less.prems(1)] i(1)] by (simp add: set_ending_def)
    then have ms: "mates_suspended g1 pid = mates_suspended g pid - {?th}" by (auto simp: mates_suspended_def pid)
    have "length (rs_items (rq_suspended g1)) < length (rs_items (rq_suspended g))"
      using g1(5) i(1) by (simp add: set_ending_def Reserved_remove_def)
    moreover have "rq_cpu_online g1 me" using k1 less.prems(2) by (simp add: keeps_def)
    ultimately obtain g' where g': "end_suspended me pid g1 = Some g'" "run_inv rp H g'" "suspended_ended pid g1 g'"
      using less.hyps [OF _ g1(2)] by blast
    have "end_suspended me pid g = Some g'" using g'(1) by (subst end_suspended.simps) (simp add: Some g1(1) Let_def)
    moreover have f: "rq_blocked ?m = rq_blocked g" "rq_reaper ?m = rq_reaper g" "rq_ended_pids ?m = rq_ended_pids g" "rq_ending ?m = rq_ending g"
      "queued ?m = queued g" "\<And>x. rt_ending (rq_thread ?m x) \<longleftrightarrow> rt_ending (rq_thread g x) \<or> x = ?th" by (auto simp: set_ending_def queued_def)
    have mem: "?th \<in> mates_suspended g pid" using i(2) th by (simp add: mates_suspended_def)
    have "suspended_ended pid g g'"
      unfolding suspended_ended_def
    proof (intro conjI allI)
      note e = g'(3) [unfolded suspended_ended_def ms s1]
      show "keeps g g'" using keeps_trans [OF k1] e by blast
      show "rt_ending (rq_thread g' x) \<longleftrightarrow> rt_ending (rq_thread g x) \<or> x \<in> mates_suspended g pid" for x using e g1(9) f(6) mem by auto
      show "set (rs_items (rq_suspended g')) = set (rs_items (rq_suspended g)) - mates_suspended g pid" using e mem by auto
      show "queued g' = queued g \<union> mates_suspended g pid" using e g1(10) f(5) mem by auto
    qed (use g'(3) g1(4,6-8) f in \<open>simp_all add: suspended_ended_def\<close>)
    ultimately show ?thesis using g'(2) by blast
  qed
qed

section \<open>All of them\<close>

definition live :: "RunState \<Rightarrow> u64 set" where
  "live g = queued g \<union> {th. \<exists>c<MAX_CPUS. rq_current g c = Some th} \<union> set (rs_items (rq_blocked g)) \<union> set (rs_items (rq_suspended g))"

lemma has_live_siblings_iff: "has_live_siblings g pid \<longleftrightarrow> (\<exists>th\<in>live g. same_pid g pid th)"
  by (auto simp: has_live_siblings_def live_def queued_def same_pid_def Let_def atLeast0LessThan split: option.splits)

text \<open>
  Every thread of the process is marked: the queued and the running, each running one with its
  processor's copy and a reschedule interrupt; the blocked, made runnable where the wake handshake lets
  it; the suspended, made runnable.
\<close>

definition all_ended :: "nat \<Rightarrow> u32 \<Rightarrow> (u64 \<Rightarrow> bool) \<Rightarrow> RunState \<Rightarrow> RunState \<Rightarrow> bool" where
  "all_ended me pid claims g g' \<longleftrightarrow>
     (\<forall>th\<in>live g. same_pid g pid th \<longrightarrow> rt_ending (rq_thread g' th))
     \<and> (\<forall>c<MAX_CPUS. runs_mate g pid c \<longrightarrow> rq_ending g' c)
     \<and> mates_suspended g' pid = {} \<and> mates_suspended g pid \<subseteq> queued g'
     \<and> (\<forall>th\<in>set (to_mark g pid). claims th \<longrightarrow> th \<in> queued g' \<and> th \<notin> set (rs_items (rq_blocked g')))"

lemma end_siblings_inv:
  assumes "run_inv rp H g" "me < MAX_CPUS" "rq_cpu_online g me"
  shows "\<exists>g'. end_siblings me g pid claims = Some g' \<and> run_inv rp H g' \<and> keeps g g' \<and> all_ended me pid claims g g'
    \<and> rq_reaper g' = rq_reaper g \<and> rq_ended_pids g' = rq_ended_pids g"
proof -
  define g1 where "g1 = fold (mark_cpu me pid) [0..<MAX_CPUS] g"
  have all: "set [0..<MAX_CPUS] = {..<MAX_CPUS}" by auto
  note m = mark_cpus_inv [OF assms(1), of "[0..<MAX_CPUS]" me pid, folded g1_def, unfolded all]
  have i1: "run_inv rp H g1" and p1: "same_places g g1" and k1: "keeps g g1" and n1: "rq_ended_pids g1 = rq_ended_pids g"
    and e1: "\<And>th. rt_ending (rq_thread g1 th) \<longleftrightarrow> rt_ending (rq_thread g th) \<or> (\<exists>c<MAX_CPUS. th \<in> mates g pid c)"
    and c1: "\<And>d. d < MAX_CPUS \<Longrightarrow> runs_mate g pid d \<Longrightarrow> rq_ending g1 d" using m by auto
  have "rq_cpu_online g1 me" using k1 assms(3) by (simp add: keeps_def)
  from mark_blocked_inv [OF i1 assms(2) this] obtain g2 where
    g2: "mark_blocked me pid claims g1 = Some g2" "run_inv rp H g2" "blocked_marked pid claims g1 g2" by blast
  have k2: "keeps g g2" using keeps_trans [OF k1] g2(3) by (simp add: blocked_marked_def)
  have "rq_cpu_online g2 me" using k2 assms(3) by (simp add: keeps_def)
  from end_suspended_inv [OF g2(2) assms(2) this] obtain g' where
    g': "end_suspended me pid g2 = Some g'" "run_inv rp H g'" "suspended_ended pid g2 g'" by blast
  have k: "keeps g g'" using keeps_trans [OF k2] g'(3) by (simp add: suspended_ended_def)
  have pid: "same_pid x pid th = same_pid g pid th" if "keeps g x" for x th using that by (simp add: keeps_def same_pid_def)
  have s1: "rq_suspended g1 = rq_suspended g" "rq_blocked g1 = rq_blocked g" "rq_reaper g1 = rq_reaper g" using p1 by (simp_all add: same_places_def)
  have s2: "rq_suspended g2 = rq_suspended g" using g2(3) s1 by (simp add: blocked_marked_def)
  have ms2: "mates_suspended g2 pid = mates_suspended g pid" by (simp add: mates_suspended_def s2 pid [OF k2])
  have end2: "rt_ending (rq_thread g2 th) \<longleftrightarrow> rt_ending (rq_thread g1 th) \<or> th \<in> set (to_mark g1 pid)" for th using g2(3) by (simp add: blocked_marked_def)
  have end': "rt_ending (rq_thread g' th) \<longleftrightarrow> rt_ending (rq_thread g2 th) \<or> th \<in> mates_suspended g pid" for th
    using g'(3) ms2 by (simp add: suspended_ended_def)
  have tm: "set (to_mark g1 pid) = {th \<in> set (rs_items (rq_blocked g)). same_pid g pid th \<and> \<not> rt_ending (rq_thread g1 th)}"
    by (simp add: set_to_mark s1 pid [OF k1])
  have "rt_ending (rq_thread g' th)"
    if "same_pid g pid th" "th \<in> live g" for th
  proof -
    have "(\<exists>c<MAX_CPUS. th \<in> mates g pid c) \<or> th \<in> set (rs_items (rq_blocked g)) \<or> th \<in> mates_suspended g pid"
      using that by (auto simp: live_def queued_def mates_def mates_suspended_def)
    then show ?thesis using that(1) by (auto simp: end' end2 e1 tm)
  qed
  moreover have "rq_ending g' c" if "c < MAX_CPUS" "runs_mate g pid c" for c
    using c1 [OF that] g2(3) g'(3) by (simp add: blocked_marked_def suspended_ended_def)
  moreover have "mates_suspended g' pid = {}" using g'(3) ms2 s2 pid [OF k] by (auto simp: suspended_ended_def mates_suspended_def)
  moreover have "mates_suspended g pid \<subseteq> queued g'" using g'(3) ms2 by (auto simp: suspended_ended_def)
  moreover have "th \<in> queued g' \<and> th \<notin> set (rs_items (rq_blocked g'))" if "th \<in> set (to_mark g pid)" "claims th" for th
  proof -
    have "\<not> rt_ending (rq_thread g1 th)"
    proof -
      have b: "th \<in> set (rs_items (rq_blocked g))" "\<not> rt_ending (rq_thread g th)" using that(1) by (simp_all add: set_to_mark)
      have "rt_state (rq_thread g th) = TBlocked" using run_invD(8) [OF assms(1)] b(1) by (auto simp: states_ok_def listed_def)
      moreover have "rt_state (rq_thread g th) \<noteq> TBlocked" if "c < MAX_CPUS" "th \<in> mates g pid c" for c
        using run_invD(8) [OF assms(1)] that unfolding states_ok_def listed_def mates_def by fastforce
      ultimately show ?thesis using b(2) by (auto simp: e1)
    qed
    then have "th \<in> set (to_mark g1 pid)" using that(1) by (auto simp: set_to_mark s1 pid [OF k1])
    then show ?thesis using that(2) g2(3) g'(3) by (auto simp: blocked_marked_def suspended_ended_def)
  qed
  ultimately have "all_ended me pid claims g g'" unfolding all_ended_def by blast
  moreover have "end_siblings me g pid claims = Some g'" by (simp add: end_siblings_def g1_def [symmetric] g2(1) g'(1))
  moreover have "rq_reaper g' = rq_reaper g" "rq_ended_pids g' = rq_ended_pids g"
    using g'(3) g2(3) s1 n1 by (simp_all add: suspended_ended_def blocked_marked_def)
  ultimately show ?thesis using g'(2) k by blast
qed

end
