(* ===== verification/Run_Steps.thy ===== *)
theory Run_Steps
  imports Run_Ending
begin

text \<open>
  The run queues as a state machine: the operations of \<^verbatim>\<open>kernel/src/sched.rs\<close>, \<^verbatim>\<open>sched/spawn.rs\<close> and
  \<^verbatim>\<open>sched/exit.rs\<close> as steps of any processor in any order, and that every step keeps the invariant.
\<close>

section \<open>Operations and when they run\<close>

text \<open>The first argument of an operation is the processor it runs on, where it matters.\<close>

datatype run_op =
    OpYield nat
  | OpTick nat "u64 list"
  | OpIpi nat
  | OpPreemptOff nat
  | OpPreemptOn nat
  | OpReplay nat
  | OpBlock nat
  | OpExitThread nat "u64 list"
  | OpExitProcess nat "u64 \<Rightarrow> bool" "u64 list"
  | OpSuspend nat "u64 list"
  | OpWake nat u64
  | OpResume nat u64 u8 u32
  | OpParkReaper nat bool
  | OpWakeReaper nat
  | OpTakePid
  | OpReap nat nat
  | OpCommit nat u64
  | OpSpawn nat u64 SchedClass u8 u8 u8
  | OpStartUser nat u64 u32 SchedClass u8 u8 u8 bool
  | OpAffinity u64 u8
  | OpBringUp nat u64 u64
  | OpTakeDown bool nat

fun run_exec :: "run_op \<Rightarrow> RunState \<Rightarrow> RunState option" where
  "run_exec (OpYield me) g = yield_now me g"
| "run_exec (OpTick me woken) g = on_timer_tick me g woken"
| "run_exec (OpIpi me) g = on_reschedule_ipi me g"
| "run_exec (OpPreemptOff me) g = Some (preempt_disable me g)"
| "run_exec (OpPreemptOn me) g = map_option fst (preempt_enable me g)"
| "run_exec (OpReplay me) g = switch_if_idle me g"
| "run_exec (OpBlock me) g = block_current me g"
| "run_exec (OpExitThread me woken) g = exit_thread me g woken"
| "run_exec (OpExitProcess me claims woken) g = exit_process me g claims woken"
| "run_exec (OpSuspend me woken) g = map_option fst (suspend_with_fault me g woken)"
| "run_exec (OpWake me th) g = map_option fst (rq_make_runnable me g th)"
| "run_exec (OpResume me th tag code) g = map_option fst (resume_suspended me g th tag code)"
| "run_exec (OpParkReaper me backlog) g = park_reaper me g backlog"
| "run_exec (OpWakeReaper me) g = wake_reaper me g"
| "run_exec OpTakePid g = Some (fst (take_ended_pid g))"
| "run_exec (OpReap me n) g = Some (fst (drain_reap me n g))"
| "run_exec (OpCommit c th) g = Some (commit_switch g th)"
| "run_exec (OpSpawn me th cls priority nice affinity) g = map_option fst (spawn_inner me g th cls priority nice affinity)"
| "run_exec (OpStartUser me th pid cls priority nice affinity ending) g =
     map_option fst (start_user me g th pid cls priority nice affinity ending)"
| "run_exec (OpAffinity th affinity) g = Some (set_thread_affinity g th affinity)"
| "run_exec (OpBringUp me boot idle) g = Some (ap_init me g boot idle)"
| "run_exec (OpTakeDown bound me) g = Some (clear_online_bit bound me g)"

text \<open>
  Code on a processor runs once it has left the stack it last switched from. A thread leaves its
  processor of its own will only with preemption enabled, and the idle thread never blocks or exits.
  Only the reaper parks itself; a new thread's address is no other thread's. Processors come up once,
  while the thread count has room.
\<close>

definition may_leave :: "RunState \<Rightarrow> nat \<Rightarrow> bool" where
  "may_leave g me \<longleftrightarrow> runs g me \<and> rq_preempt_off g me = 0"

definition may_stop :: "RunState \<Rightarrow> nat \<Rightarrow> bool" where
  "may_stop g me \<longleftrightarrow> may_leave g me \<and> \<not> current_is_idle me g"

fun may_run :: "u64 \<Rightarrow> run_op \<Rightarrow> RunState \<Rightarrow> bool" where
  "may_run rp (OpYield me) g \<longleftrightarrow> may_leave g me"
| "may_run rp (OpTick me woken) g \<longleftrightarrow> runs g me"
| "may_run rp (OpIpi me) g \<longleftrightarrow> runs g me"
| "may_run rp (OpPreemptOff me) g \<longleftrightarrow> runs g me"
| "may_run rp (OpPreemptOn me) g \<longleftrightarrow> runs g me \<and> rq_preempt_off g me \<noteq> 0"
| "may_run rp (OpReplay me) g \<longleftrightarrow> may_leave g me"
| "may_run rp (OpBlock me) g \<longleftrightarrow> may_stop g me"
| "may_run rp (OpExitThread me woken) g \<longleftrightarrow> may_stop g me"
| "may_run rp (OpExitProcess me claims woken) g \<longleftrightarrow> may_stop g me"
| "may_run rp (OpSuspend me woken) g \<longleftrightarrow> may_stop g me"
| "may_run rp (OpWake me th) g \<longleftrightarrow> runs g me"
| "may_run rp (OpResume me th tag code) g \<longleftrightarrow> runs g me"
| "may_run rp (OpParkReaper me backlog) g \<longleftrightarrow> may_stop g me \<and> rq_current g me = Some rp"
| "may_run rp (OpWakeReaper me) g \<longleftrightarrow> runs g me"
| "may_run rp OpTakePid g \<longleftrightarrow> True"
| "may_run rp (OpReap me n) g \<longleftrightarrow> runs g me"
| "may_run rp (OpCommit c th) g \<longleftrightarrow> c < MAX_CPUS \<and> rq_switching g c = Some th"
| "may_run rp (OpSpawn me th cls priority nice affinity) g \<longleftrightarrow> runs g me \<and> th \<notin># tracked g"
| "may_run rp (OpStartUser me th pid cls priority nice affinity ending) g \<longleftrightarrow> runs g me \<and> th \<notin># tracked g"
| "may_run rp (OpAffinity th affinity) g \<longleftrightarrow> True"
| "may_run rp (OpBringUp me boot idle) g \<longleftrightarrow> me < MAX_CPUS \<and> \<not> rq_cpu_online g me \<and> boot \<noteq> idle \<and> boot \<notin># tracked g
     \<and> idle \<notin># tracked g \<and> rq_threads g < MAX_THREADS"
| "may_run rp (OpTakeDown bound me) g \<longleftrightarrow> True"

inductive run_reach :: "u64 \<Rightarrow> RunState \<Rightarrow> bool" for rp where
  start: "distinct [boot, idle, rp] \<Longrightarrow> run_reach rp (run_init boot idle rp)"
| step: "run_reach rp g \<Longrightarrow> may_run rp op g \<Longrightarrow> run_exec op g = Some g' \<Longrightarrow> run_reach rp g'"

section \<open>From one hold of the lock to the next\<close>

lemma settled_keeps: "settled_run rp g \<Longrightarrow> run_inv rp {#} g' \<Longrightarrow> keeps g g' \<Longrightarrow> settled_run rp g'"
  by (simp add: settled_run_def all_run_def keeps_def)

lemma runs_keeps: "runs g me \<Longrightarrow> keeps g g' \<Longrightarrow> runs g' me"
  by (simp add: runs_def keeps_def)

lemma settled_fields:
  assumes "settled_run rp g"
  shows "settled_run rp (count_event g c h)" "settled_run rp (g\<lparr>rq_quantum := q\<rparr>)" "settled_run rp (g\<lparr>rq_online_mask := m\<rparr>)"
    "settled_run rp (g\<lparr>rq_preempt_off := p\<rparr>)" "settled_run rp (g\<lparr>rq_resched_pending := b\<rparr>)"
  using assms run_inv_fields [of rp "{#}" g] by (simp_all add: settled_run_def all_run_def)

lemma runs_fields [simp]:
  "runs (count_event g c h) me = runs g me" "runs (g\<lparr>rq_quantum := q\<rparr>) me = runs g me" "runs (g\<lparr>rq_resched_pending := b\<rparr>) me = runs g me"
  "runs (set_thread g th f) me = runs g me"
  by (simp_all add: runs_def)

text \<open>What a thread's processor does not look at may change.\<close>

lemma settled_thread:
  assumes "settled_run rp g"
    and "\<And>t. rt_state (f t) = rt_state t \<and> rt_on_cpu (f t) = rt_on_cpu t \<and> rt_ending (f t) = rt_ending t"
  shows "settled_run rp (set_thread g th f)"
  using assms run_inv_same [of rp "{#}" g "set_thread g th f"] by (simp add: settled_run_def all_run_def)

lemma switch_if_idle_settled:
  assumes "settled_run rp g" "runs g me" "rq_preempt_off g me = 0"
  shows "\<exists>g'. switch_if_idle me g = Some g' \<and> settled_run rp g'"
  using switch_to_next_inv [OF assms] assms(1) by (auto simp: switch_if_idle_def)

lemma yield_now_settled:
  assumes "settled_run rp g" "may_leave g me"
  shows "\<exists>g'. yield_now me g = Some g' \<and> settled_run rp g'"
  using switch_to_next_inv [OF assms(1), of me] assms by (auto simp: yield_now_def may_leave_def)

lemma on_reschedule_ipi_settled:
  assumes "settled_run rp g" "runs g me"
  shows "\<exists>g'. on_reschedule_ipi me g = Some g' \<and> settled_run rp g'"
proof -
  let ?g = "count_event g me (\<lambda>s. s\<lparr>st_resched_ipis := st_resched_ipis s + 1\<rparr>)"
  have g: "settled_run rp ?g" "runs ?g me" using settled_fields(1) [OF assms(1)] assms(2) by simp_all
  show ?thesis
  proof (cases "0 < rq_preempt_off g me")
    case True
    then show ?thesis using settled_fields(5) [OF g(1)] by (simp add: on_reschedule_ipi_def resched_if_idle_def)
  next
    case False
    then show ?thesis using switch_if_idle_settled [OF g] by (simp add: on_reschedule_ipi_def resched_if_idle_def word_gt_0)
  qed
qed

lemma accrue_vruntime_settled:
  assumes "settled_run rp g"
  shows "settled_run rp (accrue_vruntime me g)" "runs (accrue_vruntime me g) me = runs g me"
  using settled_thread [OF assms] assms by (simp_all add: accrue_vruntime_def split: option.splits)

lemma on_timer_tick_settled:
  assumes "settled_run rp g" "runs g me"
  shows "\<exists>g'. on_timer_tick me g woken = Some g' \<and> settled_run rp g'"
proof -
  have me: "run_inv rp {#} g" "me < MAX_CPUS" "rq_cpu_online g me" using assms by (simp_all add: settled_run_def runs_def)
  then obtain w where w: "wake_each me g woken = Some w" "run_inv rp {#} w" "wakes g woken w" using wake_each_inv [OF me] by blast
  have sw: "settled_run rp w" and rw: "runs w me"
    using settled_keeps [OF assms(1) w(2) wakes_keeps [OF w(3)]] runs_keeps [OF assms(2) wakes_keeps [OF w(3)]] by simp_all
  define h where "h = count_event (accrue_vruntime me w) me (\<lambda>s. s\<lparr>st_ticks := st_ticks s + 1\<rparr>)"
  define q where "q = tick_quantum (rq_quantum h me) (ready_list h me \<noteq> [])"
  define k where "k = h\<lparr>rq_quantum := (rq_quantum h)(me := fst q)\<rparr>"
  have k: "settled_run rp k" "runs k me" "ready_list k me = ready_list h me"
    using accrue_vruntime_settled [OF sw, of me] rw by (simp_all add: k_def h_def settled_fields)
  have q: "snd q \<Longrightarrow> ready_list k me \<noteq> []" by (auto simp: q_def tick_quantum_def Let_def k(3) split: if_splits)
  have "on_timer_tick me g woken =
     (if 0 < rq_preempt_off k me
      then Some (if snd q \<or> (ready_list h me = [] \<and> current_is_idle me k \<and> steal_available k me)
                 then k\<lparr>rq_resched_pending := (rq_resched_pending k)(me := True)\<rparr> else k)
      else if snd q then switch_to_next me k
      else if ready_list h me = [] \<and> current_is_idle me k \<and> steal_available k me then switch_to_next me k
      else Some k)"
    unfolding on_timer_tick_def w(1) k_def q_def h_def by (simp add: Let_def case_prod_beta)
  moreover have "\<exists>g'. switch_to_next me k = Some g' \<and> settled_run rp g'"
    if "rq_preempt_off k me = 0" "ready_list k me \<noteq> [] \<or> steal_available k me"
    using switch_to_next_inv [OF k(1,2) that(1)] that(2) by blast
  ultimately show ?thesis using q settled_fields(5) [OF k(1)] k(1) by (auto simp: word_gt_0)
qed

section \<open>Leaving the processor\<close>

abbreviation taken :: "RunState \<Rightarrow> nat \<Rightarrow> RunState" where
  "taken g me \<equiv> g\<lparr>rq_current := (rq_current g)(me := None)\<rparr>"

lemma stopping:
  assumes "settled_run rp g" "may_stop g me"
  obtains th where "rq_current g me = Some th" "take_current me g = Some (taken g me, th)" "run_inv rp {#th#} (taken g me)"
    "th \<notin> idle_threads g" "me < MAX_CPUS" "rq_cpu_online g me"
proof -
  have r: "runs g me" "\<not> current_is_idle me g" using assms(2) by (simp_all add: may_stop_def may_leave_def)
  obtain th where th: "rq_current g me = Some th" using running [OF assms(1) r(1)] by blast
  have i: "run_inv rp {#} g" "me < MAX_CPUS" "rq_cpu_online g me" using assms(1) r(1) by (simp_all add: settled_run_def runs_def)
  have "th \<notin> idle_threads g" using running_idle [OF i(1,2) th] r(2) th by (auto simp: current_is_idle_def)
  then show thesis using that th take_current_eq [OF th] take_current_inv [OF i(1,2) th] i by simp
qed

lemma stop_settled:
  assumes "settled_run rp g" "may_stop g me" "rq_current g me = Some th" "th \<notin> idle_threads g"
    "run_inv rp {#th#} g1" "keeps (taken g me) g1" "to = ParkReaper \<Longrightarrow> th = rp \<and> rs_items (rq_ended_pids g1) = []"
  shows "\<exists>g'. switch_away me g1 th to = Some g' \<and> settled_run rp g'"
proof -
  have r: "runs g me" "rq_preempt_off g me = 0" using assms(2) by (simp_all add: may_stop_def may_leave_def)
  have "idle_threads g1 = idle_threads g" using keeps_idle_threads [OF assms(6)] by (simp add: idle_threads_def online_set_def)
  then have "may_switch rp me g1 th to" using assms(4,7) by (auto simp: may_switch_def)
  then show ?thesis using switch_from_inv [OF assms(1) r(1) assms(3) r(2) assms(5,6)] by blast
qed

lemma block_current_settled:
  assumes "settled_run rp g" "may_stop g me"
  shows "\<exists>g'. block_current me g = Some g' \<and> settled_run rp g'"
proof -
  obtain th where th: "rq_current g me = Some th" "take_current me g = Some (taken g me, th)" "run_inv rp {#th#} (taken g me)"
      "th \<notin> idle_threads g" using stopping [OF assms] .
  show ?thesis using stop_settled [OF assms th(1,4,3) keeps_refl, of ParkBlocked] by (simp add: block_current_def th(2))
qed

lemma park_reaper_settled:
  assumes "settled_run rp g" "may_stop g me" "rq_current g me = Some rp"
  shows "\<exists>g'. park_reaper me g backlog = Some g' \<and> settled_run rp g'"
proof (cases "rs_items (rq_ended_pids g) \<noteq> [] \<or> backlog")
  case True
  then show ?thesis using assms(1) by (auto simp: park_reaper_def)
next
  case False
  obtain th where th: "rq_current g me = Some th" "take_current me g = Some (taken g me, th)" "run_inv rp {#th#} (taken g me)"
      "th \<notin> idle_threads g" using stopping [OF assms(1,2)] .
  have "th = rp" using th(1) assms(3) by simp
  then show ?thesis using stop_settled [OF assms(1,2) th(1,4,3) keeps_refl, of ParkReaper] False by (simp add: park_reaper_def th(2))
qed

lemma suspend_with_fault_settled:
  assumes "settled_run rp g" "may_stop g me"
  shows "\<exists>g' b. suspend_with_fault me g woken = Some (g', b) \<and> settled_run rp g'"
proof -
  obtain th where th: "rq_current g me = Some th" "take_current me g = Some (taken g me, th)" "run_inv rp {#th#} (taken g me)"
      "th \<notin> idle_threads g" "me < MAX_CPUS" "rq_cpu_online g me" using stopping [OF assms] .
  have on: "rq_cpu_online (taken g me) me" using th(6) by simp
  obtain w where w: "wake_each me (taken g me) woken = Some w" "run_inv rp {#th#} w" "wakes (taken g me) woken w"
    using wake_each_inv [OF th(3,5) on] by blast
  have "\<exists>g'. switch_away me w th ParkSuspended = Some g' \<and> settled_run rp g'"
    by (rule stop_settled [OF assms th(1,4) w(2) wakes_keeps [OF w(3)]]) simp
  then show ?thesis using assms(1) by (auto simp: suspend_with_fault_def th(1,2) w(1))
qed

lemma exit_tail_settled:
  assumes "settled_run rp g" "may_stop g me" "rq_current g me = Some th" "th \<notin> idle_threads g"
    "run_inv rp {#th#} g1" "keeps (taken g me) g1"
  shows "\<exists>g2 b g'. end_process_if_last me g1 th woken = Some (g2, b) \<and> switch_away me g2 th ParkExited = Some g' \<and> settled_run rp g'"
proof -
  have me: "me < MAX_CPUS" "rq_cpu_online g1 me" using assms(2,6) by (simp_all add: may_stop_def may_leave_def runs_def keeps_def)
  obtain g2 b where g2: "end_process_if_last me g1 th woken = Some (g2, b)" "run_inv rp {#th#} g2" "keeps g1 g2"
    using end_process_if_last_inv [OF assms(5) me] by blast
  have "\<exists>g'. switch_away me g2 th ParkExited = Some g' \<and> settled_run rp g'"
    by (rule stop_settled [OF assms(1-4) g2(2) keeps_trans [OF assms(6) g2(3)]]) simp
  then show ?thesis using g2(1) by blast
qed

lemma exit_thread_settled:
  assumes "settled_run rp g" "may_stop g me"
  shows "\<exists>g'. exit_thread me g woken = Some g' \<and> settled_run rp g'"
proof -
  obtain th where th: "rq_current g me = Some th" "take_current me g = Some (taken g me, th)" "run_inv rp {#th#} (taken g me)"
      "th \<notin> idle_threads g" using stopping [OF assms] .
  show ?thesis using exit_tail_settled [OF assms th(1,4,3) keeps_refl, of woken] by (auto simp: exit_thread_def th(2))
qed

lemma exit_process_settled:
  assumes "settled_run rp g" "may_stop g me"
  shows "\<exists>g'. exit_process me g claims woken = Some g' \<and> settled_run rp g'"
proof -
  obtain th where th: "rq_current g me = Some th" "take_current me g = Some (taken g me, th)" "run_inv rp {#th#} (taken g me)"
      "th \<notin> idle_threads g" "me < MAX_CPUS" "rq_cpu_online g me" using stopping [OF assms] .
  let ?ends = "if rt_has_process (rq_thread (taken g me) th) then end_siblings me (taken g me) (rt_pid (rq_thread (taken g me) th)) claims
    else Some (taken g me)"
  have on: "rq_cpu_online (taken g me) me" using th(6) by simp
  obtain g1 where g1: "?ends = Some g1" "run_inv rp {#th#} g1" "keeps (taken g me) g1"
    using end_siblings_inv [OF th(3,5) on, of "rt_pid (rq_thread (taken g me) th)" claims] th(3) by (cases "rt_has_process (rq_thread (taken g me) th)") auto
  show ?thesis using exit_tail_settled [OF assms th(1,4) g1(2,3), of woken] g1(1) by (auto simp: exit_process_def th(2))
qed

section \<open>Waking\<close>

lemma wake_settled:
  assumes "settled_run rp g" "runs g me"
  shows "\<exists>g' b. rq_make_runnable me g th = Some (g', b) \<and> settled_run rp g'"
    and "\<exists>g'. wake_reaper me g = Some g' \<and> settled_run rp g'"
proof -
  have i: "run_inv rp {#} g" "me < MAX_CPUS" "rq_cpu_online g me" using assms by (simp_all add: settled_run_def runs_def)
  show "\<exists>g' b. rq_make_runnable me g th = Some (g', b) \<and> settled_run rp g'"
    using make_runnable_inv [OF i, of th] settled_keeps [OF assms(1)] wakes_keeps by blast
  have "\<exists>g'. wake_reaper me (g\<lparr>rq_ended_pids := rq_ended_pids g\<rparr>) = Some g' \<and> run_inv rp {#} g' \<and> keeps g g'"
    using wake_reaper_inv [OF i, of "rq_ended_pids g"] by blast
  then show "\<exists>g'. wake_reaper me g = Some g' \<and> settled_run rp g'" using settled_keeps [OF assms(1)] by auto
qed

lemma resume_suspended_settled:
  assumes "settled_run rp g" "runs g me"
  shows "\<exists>g' b. resume_suspended me g th tag code = Some (g', b) \<and> settled_run rp g'"
proof (cases "position (\<lambda>r. r = th) (rs_items (rq_suspended g))")
  case None
  then show ?thesis using assms(1) by (auto simp: resume_suspended_def)
next
  case (Some i)
  let ?r = "g\<lparr>rq_suspended := Reserved_remove (rq_suspended g) i\<rparr>"
  have inv: "run_inv rp {#} g" "me < MAX_CPUS" "rq_cpu_online ?r me" using assms by (simp_all add: settled_run_def runs_def)
  note p = position_eq [OF Some]
  have th: "run_inv rp {#th#} ?r" using take_suspended_inv [OF inv(1) p(1)] p(2) by simp
  have "th \<in> set (rs_items (rq_suspended g))" using p(1,2) nth_mem by blast
  then have "th \<notin> idle_threads ?r" using queued_not_idle(4) [OF inv(1)] keeps_idle_threads [of g ?r] by simp
  then obtain g' where g': "resume_parked me ?r th tag code = Some g'" "run_inv rp {#} g'" "keeps ?r g'"
    using resume_parked_inv [OF th inv(2,3)] by blast
  have "keeps g g'" by (rule keeps_trans [OF _ g'(3)]) simp
  then show ?thesis using settled_keeps [OF assms(1) g'(2)] g'(1) Some by (auto simp: resume_suspended_def)
qed

end
