(* ===== verification/Run_Births.thy ===== *)
theory Run_Births
  imports Run_Steps
begin

text \<open>
  New threads and processors, the reclaiming of exited threads and the commit of a switch keep the
  invariant; so every state the kernel reaches has it, and no operation fails there.
\<close>

lemma cpu_ok_cong:
  "rq_ready g' c = rq_ready g c \<Longrightarrow> rq_reap g' c = rq_reap g c \<Longrightarrow> rq_current g' c = rq_current g c \<Longrightarrow> rq_idle g' c = rq_idle g c
    \<Longrightarrow> rq_idle_addr g' c = rq_idle_addr g c \<Longrightarrow> rq_cpu_online g' c = rq_cpu_online g c \<Longrightarrow> cpu_ok H g' c = cpu_ok H g c"
  by (simp add: cpu_ok_def at_cpu_def)

section \<open>New threads\<close>

lemma run_inv_unknown:
  assumes "run_inv rp H g" "th \<notin># tracked g + H"
  shows "run_inv rp H (g\<lparr>rq_thread := (rq_thread g)(th := t)\<rparr>)" (is "run_inv _ _ ?g")
proof (rule run_inv_move [OF assms(1)])
  note i = run_invD [OF assms(1)]
  have u: "th \<notin># tracked g" using assms(2) by simp
  have p: "same_places g ?g" by (simp add: same_places_def)
  show "cpu_ok H ?g c" if "c < MAX_CPUS" for c using i(5) [OF that] by (simp add: same_places_parts [OF p])
  show "states_ok ?g" using states_ok_untracked [OF i(8) u, of "\<lambda>_. t"] by (simp add: set_thread_def)
  show "switch_ok (tracked g + H) ?g" using i(9) assms(2) unfolding switch_ok_def by auto
  show "ending_ok ?g" using i(10) untracked_places(3) [OF u] by (simp add: ending_ok_def)
  show "reaper_ok rp ?g" using i(11) by (simp add: reaper_ok_def)
qed (use run_invD(6,7) [OF assms(1)] in simp_all)

lemma run_inv_admit:
  assumes "run_inv rp H g" "th \<notin># tracked g + H" "\<not> rt_on_cpu (rq_thread g th)" "rq_threads g < MAX_THREADS"
  shows "run_inv rp (add_mset th H) (g\<lparr>rq_threads := rq_threads g + 1\<rparr>)" (is "run_inv _ _ ?g")
proof -
  note i = run_invD [OF assms(1)]
  have n: "count (tracked g) th = 0" "count H th = 0" using assms(2) by (simp_all add: not_in_iff)
  have "count (tracked g + add_mset th H) x \<le> 1" for x using i(1) [of x] n by (cases "x = th") simp_all
  moreover have "cpu_ok (add_mset th H) ?g c" if "c < MAX_CPUS" for c
    using cpu_ok_more [OF i(5) [OF that], of th] cpu_ok_cong [of ?g c g "add_mset th H"] by simp
  moreover have "switch_ok (tracked g + add_mset th H) ?g"
    using i(9) assms(3) unfolding switch_ok_def by auto
  moreover have "states_ok ?g" using i(8) by (simp add: states_ok_def listed_def)
  ultimately show ?thesis using i(2,4,6,7,10,11) assms(4)
    by (simp add: run_inv_def online_set_def ending_ok_def reaper_ok_def)
qed

lemma place_new_settled:
  assumes "settled_run rp g" "runs g me" "th \<notin># tracked g" "rt_state t = TReady" "\<not> rt_on_cpu t"
  shows "\<exists>g' b. place_thread me (g\<lparr>rq_thread := (rq_thread g)(th := t)\<rparr>) th False = Some (g', b) \<and> settled_run rp g'
    \<and> (b \<longleftrightarrow> rq_threads g < MAX_THREADS)"
proof -
  let ?g = "g\<lparr>rq_thread := (rq_thread g)(th := t)\<rparr>"
  have g: "run_inv rp {#} g" "me < MAX_CPUS" "rq_cpu_online g me" using assms(1,2) by (simp_all add: settled_run_def runs_def)
  have u: "run_inv rp {#} ?g" using run_inv_unknown [OF g(1)] assms(3) by simp
  show ?thesis
  proof (cases "rq_threads g < MAX_THREADS")
    case False
    then show ?thesis using u assms(1) by (auto simp: place_thread_def Let_def settled_run_def all_run_def)
  next
    case True
    have "run_inv rp {#th#} (?g\<lparr>rq_threads := rq_threads ?g + 1\<rparr>)"
      by (rule run_inv_admit [OF u]) (use assms(3,5) True in simp_all)
    moreover have "th \<notin> idle_threads ?g" using idle_threads_there [OF u] assms(3) by auto
    ultimately obtain g' where "place_thread me ?g th False = Some (g', True)" "run_inv rp {#} g'" "keeps ?g g'"
      using place_thread_inv [of rp th "{#}" False ?g me] g(2,3) assms(4) by auto
    then show ?thesis using assms(1) True by (auto simp: settled_run_def all_run_def keeps_def)
  qed
qed

lemma spawn_inner_settled:
  assumes "settled_run rp g" "runs g me" "th \<notin># tracked g"
  shows "\<exists>g' b. spawn_inner me g th cls priority nice affinity = Some (g', b) \<and> settled_run rp g' \<and> (b \<longleftrightarrow> rq_threads g < MAX_THREADS)"
  unfolding spawn_inner_def make_thread_def by (rule place_new_settled [OF assms]) (simp_all add: new_thread_def)

lemma start_user_settled:
  assumes "settled_run rp g" "runs g me" "th \<notin># tracked g"
  shows "\<exists>g' b. start_user me g th pid cls priority nice affinity ending = Some (g', b) \<and> settled_run rp g' \<and> (b \<longleftrightarrow> rq_threads g < MAX_THREADS)"
proof -
  let ?t = "(new_thread pid True TReady)\<lparr>rt_class := cls, rt_priority := priority, rt_nice := nice, rt_cpu_mask := affinity, rt_ending := ending\<rparr>"
  have "start_user me g th pid cls priority nice affinity ending = place_thread me (g\<lparr>rq_thread := (rq_thread g)(th := ?t)\<rparr>) th False"
    by (simp add: start_user_def place_spawned_def make_thread_def set_thread_def new_thread_def)
  then show ?thesis using place_new_settled [OF assms, of ?t] by (simp add: new_thread_def)
qed

section \<open>The commit of a switch\<close>

lemma commit_switch_settled:
  assumes "settled_run rp g" "c < MAX_CPUS" "rq_switching g c = Some th"
  shows "settled_run rp (commit_switch g th)" (is "settled_run _ ?g")
proof -
  have inv: "run_inv rp {#} g" using assms(1) by (simp add: settled_run_def)
  note i = run_invD [OF inv]
  have f: "rq_ready ?g = rq_ready g" "rq_reap ?g = rq_reap g" "rq_current ?g = rq_current g" "rq_idle ?g = rq_idle g"
    "rq_blocked ?g = rq_blocked g" "rq_suspended ?g = rq_suspended g" "rq_reaper ?g = rq_reaper g" "rq_cpu_online ?g = rq_cpu_online g"
    "rq_idle_addr ?g = rq_idle_addr g" "rq_ending ?g = rq_ending g" "rq_ended_pids ?g = rq_ended_pids g" "rq_threads ?g = rq_threads g"
    "\<And>x. rt_state (rq_thread ?g x) = rt_state (rq_thread g x) \<and> rt_ending (rq_thread ?g x) = rt_ending (rq_thread g x)"
    "\<And>x. rt_on_cpu (rq_thread ?g x) \<longleftrightarrow> rt_on_cpu (rq_thread g x) \<and> x \<noteq> th"
    "\<And>d. rq_switching ?g d = (if rq_switching g d = Some th then None else rq_switching g d)"
    by (simp_all add: commit_switch_def)
  have t: "tracked ?g = tracked g" "listed ?g = listed g" using f(1-7) by (intro tracked_cong listed_cong; simp)+
  have "run_inv rp {#} ?g"
  proof (rule run_inv_move [OF inv])
    show "cpu_ok {#} ?g d" if "d < MAX_CPUS" for d using i(5) [OF that] cpu_ok_cong [of ?g d g "{#}"] by (simp add: f)
    show "states_ok ?g" using i(8) by (simp add: states_ok_def t f)
    show "switch_ok (tracked g + {#}) ?g"
    proof (rule switch_okI)
      show "\<exists>d<MAX_CPUS. rq_switching ?g d = Some x" if "x \<in># tracked g + {#}" "rt_on_cpu (rq_thread ?g x)" for x
        using switch_ok_named [OF i(9) that(1)] that(2) f(14,15) by fastforce
      fix d x assume d: "d < MAX_CPUS" "rq_switching ?g d = Some x"
      then have x: "x \<noteq> th" "rq_switching g d = Some x" by (simp_all add: f split: if_splits)
      show "x \<in># tracked g + {#} \<and> rt_on_cpu (rq_thread ?g x)" using switch_okD(1,2) [OF i(9) d(1) x(2)] x(1) by (simp add: f)
      show "rq_current ?g e \<noteq> Some x" if "e < MAX_CPUS" for e using switch_okD(3) [OF i(9) d(1) x(2) that] by (simp add: f)
      show "x \<notin> set (rs_items (rq_reap ?g e)) \<and> rq_switching ?g e \<noteq> Some x" if "e < MAX_CPUS" "e \<noteq> d" for e
        using switch_okD(4,5) [OF i(9) d(1) x(2) that] by (simp add: f)
    qed
  qed (use i in \<open>simp_all add: t f ending_ok_def reaper_ok_def\<close>)
  then show ?thesis using assms(1) by (simp add: settled_run_def all_run_def f)
qed

section \<open>Reclaiming exited threads\<close>

text \<open>There is a counted thread to reclaim, and its context is committed.\<close>

lemma reapable:
  assumes "run_inv rp {#} g" "runs g me" "th \<in> set (rs_items (rq_reap g me))"
  shows "0 < rq_threads g" "\<not> rt_on_cpu (rq_thread g th)" "c < MAX_CPUS \<Longrightarrow> rq_current g c \<noteq> Some th" "c < MAX_CPUS \<Longrightarrow> rq_switching g c \<noteq> Some th"
proof -
  note i = run_invD [OF assms(1)]
  have me: "me < MAX_CPUS" "rq_switching g me = None" using assms(2) by (simp_all add: runs_def)
  have t: "th \<in># tracked g" by (rule places_tracked(2) [OF me(1) assms(3)])
  show sw: "c < MAX_CPUS \<Longrightarrow> rq_switching g c \<noteq> Some th" for c using switch_okD(4) [OF i(9)] me assms(3) by (metis option.distinct(1))
  then show "\<not> rt_on_cpu (rq_thread g th)" using switch_ok_named [OF i(9)] t by auto
  have "rt_state (rq_thread g th) = TExited" using i(8) me(1) assms(3) by (auto simp: states_ok_def listed_def)
  moreover have "rt_state (rq_thread g th) = TRunning" if "c < MAX_CPUS" "rq_current g c = Some th"
    using i(8) that unfolding states_ok_def listed_def by blast
  ultimately show "c < MAX_CPUS \<Longrightarrow> rq_current g c \<noteq> Some th" by auto
  have "th \<notin> idle_threads g" by (rule queued_not_idle(2) [OF assms(1) me(1) assms(3)])
  have fin: "finite (idle_threads g)" by (simp add: idle_threads_def online_set_def)
  have "insert th (idle_threads g) \<subseteq> set_mset (tracked g)" using idle_threads_there [OF assms(1)] t by simp
  then have "card (insert th (idle_threads g)) \<le> card (set_mset (tracked g))" by (intro card_mono) simp_all
  moreover have "card (idle_threads g) = card (online_set g)" unfolding idle_threads_def by (rule card_image [OF i(4)])
  moreover have "size (tracked g) = card (set_mset (tracked g))" using i(1) by (intro size_once) simp
  ultimately show "0 < rq_threads g" using i(2) fin \<open>th \<notin> idle_threads g\<close> by simp
qed

definition reaped :: "nat \<Rightarrow> RunState \<Rightarrow> RunState" where
  "reaped me g = g\<lparr>rq_reap := (rq_reap g)(me := (rq_reap g me)\<lparr>rs_items := butlast (rs_items (rq_reap g me))\<rparr>), rq_threads := rq_threads g - 1\<rparr>"

lemma drain_reap_Suc:
  "drain_reap me (Suc n) g = (if rs_items (rq_reap g me) = [] then (g, [])
     else (fst (drain_reap me n (reaped me g)), last (rs_items (rq_reap g me)) # snd (drain_reap me n (reaped me g))))"
  by (simp add: reaped_def Let_def case_prod_beta)

lemma reaped_tracked:
  assumes "me < MAX_CPUS" "rs_items (rq_reap g me) \<noteq> []"
  shows "tracked g = add_mset (last (rs_items (rq_reap g me))) (tracked (reaped me g))"
proof -
  let ?q = "rs_items (rq_reap g me)"
  have "tracked (reaped me g) = tracked (g\<lparr>rq_reap := (rq_reap g)(me := (rq_reap g me)\<lparr>rs_items := butlast ?q\<rparr>)\<rparr>)"
    by (simp add: reaped_def tracked_cong)
  then have "tracked (reaped me g) + mset ?q = tracked g + mset (butlast ?q)" using tracked_reap [OF assms(1)] by simp
  moreover have "mset ?q = add_mset (last ?q) (mset (butlast ?q))" using assms(2) by (metis append_butlast_last_id mset.simps(2) mset_append union_mset_add_mset_right add.right_neutral mset.simps(1))
  ultimately show ?thesis by simp
qed

lemma reaped_inv:
  assumes "run_inv rp {#} g" "runs g me" "rs_items (rq_reap g me) \<noteq> []"
  shows "run_inv rp {#} (reaped me g)"
proof -
  let ?q = "rs_items (rq_reap g me)"
  let ?g = "reaped me g"
  have me: "me < MAX_CPUS" "rq_cpu_online g me" using assms(2) by (simp_all add: runs_def)
  note i = run_invD [OF assms(1)] and r = reapable [OF assms(1,2) last_in_set [OF assms(3)]]
  note t = reaped_tracked [OF me(1) assms(3)]
  have sub: "set (butlast ?q) \<subseteq> set ?q" by (auto dest: in_set_butlastD)
  have f: "rq_ready ?g = rq_ready g" "rq_current ?g = rq_current g" "rq_idle ?g = rq_idle g" "rq_switching ?g = rq_switching g"
    "rq_blocked ?g = rq_blocked g" "rq_suspended ?g = rq_suspended g" "rq_reaper ?g = rq_reaper g" "rq_cpu_online ?g = rq_cpu_online g"
    "rq_idle_addr ?g = rq_idle_addr g" "rq_ending ?g = rq_ending g" "rq_ended_pids ?g = rq_ended_pids g" "rq_threads ?g = rq_threads g - 1"
    "rq_thread ?g = rq_thread g" by (simp_all add: reaped_def)
  have rp: "set (rs_items (rq_reap ?g d)) \<subseteq> set (rs_items (rq_reap g d))" "rs_cap (rq_reap ?g d) = rs_cap (rq_reap g d)"
    "d \<noteq> me \<Longrightarrow> rq_reap ?g d = rq_reap g d" for d using sub by (auto simp: reaped_def)
  have "count (tracked ?g) x \<le> 1" for x using i(1) [of x] by (auto simp: t split: if_splits)
  moreover have "rq_threads ?g + card (online_set ?g) = size (tracked ?g)" using i(2) r(1) by (simp add: t f online_set_def)
  moreover have "cpu_ok {#} ?g d" if "d < MAX_CPUS" for d
    using i(5) [OF that] cpu_ok_cong [of ?g d g "{#}"] me(2) rp(2,3) [of d] by (cases "d = me") (simp_all add: f cpu_ok_def)
  moreover have "states_ok ?g" by (rule states_ok_fewer [OF i(8)]) (use rp(1) in \<open>unfold listed_def f, blast, simp\<close>)
  moreover have "switch_ok (tracked ?g) ?g"
  proof (rule switch_okI)
    show "x \<in># tracked ?g \<and> rt_on_cpu (rq_thread ?g x)" if "d < MAX_CPUS" "rq_switching ?g d = Some x" for d x
      using switch_okD(1,2) [OF i(9) that(1)] that r(4) by (auto simp: f t)
    show "\<exists>d<MAX_CPUS. rq_switching ?g d = Some x" if "x \<in># tracked ?g" "rt_on_cpu (rq_thread ?g x)" for x
      using switch_ok_named [OF i(9)] that by (simp add: f t)
    show "rq_current ?g e \<noteq> Some x" if "d < MAX_CPUS" "rq_switching ?g d = Some x" "e < MAX_CPUS" for d e x
      using switch_okD(3) [OF i(9) that(1)] that by (simp add: f)
    show "x \<notin> set (rs_items (rq_reap ?g e)) \<and> rq_switching ?g e \<noteq> Some x"
      if "d < MAX_CPUS" "rq_switching ?g d = Some x" "e < MAX_CPUS" "e \<noteq> d" for d e x
      using switch_okD(4,5) [OF i(9) that(1) _ that(3,4), of x] that(2) rp(1) [of e] by (auto simp: f)
  qed
  ultimately show ?thesis using i(3,4,6,7,10,11) by (simp add: run_inv_def f online_set_def ending_ok_def reaper_ok_def)
qed

text \<open>What the drain hands over is off every list, with its context committed, and runs nowhere.\<close>

lemma drain_reap_settled:
  assumes "settled_run rp g" "runs g me"
  shows "settled_run rp (fst (drain_reap me n g)) \<and> tracked g = tracked (fst (drain_reap me n g)) + mset (snd (drain_reap me n g))
    \<and> (\<forall>th\<in>set (snd (drain_reap me n g)). th \<in> set (rs_items (rq_reap g me)))"
  using assms
proof (induction n arbitrary: g)
  case (Suc n)
  let ?q = "rs_items (rq_reap g me)"
  show ?case
  proof (cases "?q = []")
    case False
    have inv: "run_inv rp {#} g" using Suc.prems(1) by (simp add: settled_run_def)
    have r: "settled_run rp (reaped me g)" "runs (reaped me g) me"
      using reaped_inv [OF inv Suc.prems(2) False] Suc.prems by (simp_all add: settled_run_def all_run_def reaped_def runs_def)
    have "rs_items (rq_reap (reaped me g) me) = butlast ?q" by (simp add: reaped_def)
    moreover have "tracked g = add_mset (last ?q) (tracked (reaped me g))" using Suc.prems(2) False by (intro reaped_tracked) (simp_all add: runs_def)
    ultimately show ?thesis using Suc.IH [OF r] False unfolding drain_reap_Suc by (auto dest: in_set_butlastD)
  qed (use Suc.prems in simp)
qed simp

section \<open>A processor comes up\<close>

lemma offline_empty:
  assumes "run_inv rp {#} g" "me < MAX_CPUS" "\<not> rq_cpu_online g me"
  shows "ready_list g me = []" "rs_items (rq_reap g me) = []" "rq_current g me = None" "rq_idle g me = None"
proof -
  have "at_cpu g me = {#}" using run_invD(5) [OF assms(1,2)] assms(3) by (simp add: cpu_ok_def)
  then show "ready_list g me = []" "rs_items (rq_reap g me) = []" "rq_current g me = None" "rq_idle g me = None"
    by (auto simp: at_cpu_def) (metis in_slot multiset_nonemptyE not_Some_eq set_mset_empty empty_iff)+
qed

lemma ap_init_tracked:
  assumes "run_inv rp {#} g" "me < MAX_CPUS" "\<not> rq_cpu_online g me"
  shows "tracked (ap_init me g boot idle) = tracked g + {#boot, idle#}"
proof -
  let ?g = "ap_init me g boot idle"
  have "tracked ?g + at_cpu g me = tracked g + at_cpu ?g me"
    by (rule tracked_cpu [OF assms(2)]) (simp_all add: ap_init_def at_cpu_def off_cpu_def)
  then show ?thesis using offline_empty [OF assms] by (simp add: at_cpu_def ap_init_def thread_list_def)
qed

lemma ap_init_fields:
  "rq_current (ap_init me g boot idle) = (rq_current g)(me := Some boot)" "rq_idle (ap_init me g boot idle) = (rq_idle g)(me := Some idle)"
  "rq_idle_addr (ap_init me g boot idle) = (rq_idle_addr g)(me := idle)" "rq_reap (ap_init me g boot idle) = (rq_reap g)(me := thread_list)"
  "rq_ready (ap_init me g boot idle) = (rq_ready g)(me := thread_list)" "rq_cpu_online (ap_init me g boot idle) = (rq_cpu_online g)(me := True)"
  "rq_threads (ap_init me g boot idle) = rq_threads g + 1" "rq_switching (ap_init me g boot idle) = rq_switching g"
  "rq_ending (ap_init me g boot idle) = rq_ending g" "rq_blocked (ap_init me g boot idle) = rq_blocked g"
  "rq_suspended (ap_init me g boot idle) = rq_suspended g" "rq_reaper (ap_init me g boot idle) = rq_reaper g"
  "rq_ended_pids (ap_init me g boot idle) = rq_ended_pids g"
  "rq_thread (ap_init me g boot idle) = (rq_thread g)(boot := new_thread 0 False TRunning, idle := new_thread 0 False TReady)"
  by (simp_all add: ap_init_def)

lemma ap_init_parts:
  assumes "run_inv rp {#} g" "me < MAX_CPUS" "\<not> rq_cpu_online g me" "boot \<noteq> idle" "boot \<notin># tracked g" "idle \<notin># tracked g"
  defines "g' \<equiv> ap_init me g boot idle"
  shows "d < MAX_CPUS \<Longrightarrow> cpu_ok {#} g' d" "states_ok g'" "switch_ok (tracked g') g'" "ending_ok g'"
proof -
  note i = run_invD [OF assms(1)] and f = ap_init_fields [of me g boot idle, folded g'_def]
  note u = untracked_places [OF assms(5)] untracked_places [OF assms(6)] and t = ap_init_tracked [OF assms(1-3), of boot idle, folded g'_def]
  show "cpu_ok {#} g' d" if "d < MAX_CPUS" for d
    using i(5) [OF that] cpu_ok_cong [of g' d g "{#}"] by (cases "d = me") (simp_all add: f, simp add: cpu_ok_def f thread_list_def)
  have l: "x = boot \<and> s = TRunning \<or> x = idle \<and> s = TReady \<or> listed g x s" if "listed g' x s" for x s
    using that by (auto simp: listed_def f thread_list_def split: if_splits; blast)
  have "rt_state (rq_thread g' x) = s" if "listed g' x s" for x s
    using l [OF that] i(8) assms(4-6) listed_tracked [of g x s] by (auto simp: f states_ok_def new_thread_def)
  then show "states_ok g'" by (simp add: states_ok_def)
  show "ending_ok g'" using i(10) assms(2,3) u(3,10) by (simp add: ending_ok_def f new_thread_def)
  show "switch_ok (tracked g') g'"
  proof (rule switch_okI)
    show "\<exists>c<MAX_CPUS. rq_switching g' c = Some x" if "x \<in># tracked g'" "rt_on_cpu (rq_thread g' x)" for x
      using switch_ok_named [OF i(9), of x] that by (auto simp: f t new_thread_def split: if_splits)
    fix c x assume c: "c < MAX_CPUS" "rq_switching g' c = Some x"
    then have sw: "rq_switching g c = Some x" by (simp add: f)
    have x: "x \<in># tracked g" "x \<noteq> boot" "x \<noteq> idle" using switch_okD(1) [OF i(9) c(1) sw] assms(5,6) by auto
    show "x \<in># tracked g' \<and> rt_on_cpu (rq_thread g' x)" using switch_okD(2) [OF i(9) c(1) sw] x by (simp add: f t)
    show "rq_current g' e \<noteq> Some x" if "e < MAX_CPUS" for e using switch_okD(3) [OF i(9) c(1) sw that] x by (simp add: f)
    show "x \<notin> set (rs_items (rq_reap g' e)) \<and> rq_switching g' e \<noteq> Some x" if "e < MAX_CPUS" "e \<noteq> c" for e
      using switch_okD(4,5) [OF i(9) c(1) sw that] by (simp add: f thread_list_def)
  qed
qed

lemma ap_init_settled:
  assumes "settled_run rp g" "me < MAX_CPUS" "\<not> rq_cpu_online g me" "boot \<noteq> idle" "boot \<notin># tracked g" "idle \<notin># tracked g"
    "rq_threads g < MAX_THREADS"
  shows "settled_run rp (ap_init me g boot idle)" (is "settled_run _ ?g")
proof -
  have inv: "run_inv rp {#} g" using assms(1) by (simp add: settled_run_def)
  note i = run_invD [OF inv] and f = ap_init_fields [of me g boot idle] and p = ap_init_parts [OF inv assms(2-6)]
  note t = ap_init_tracked [OF inv assms(2,3), of boot idle]
  have on: "online_set ?g = insert me (online_set g)" "me \<notin> online_set g" "finite (online_set g)"
    using assms(2,3) by (auto simp: online_set_def f)
  have "count (tracked ?g) x \<le> 1" for x
    using i(1) [of x] assms(4-6) by (auto simp: t not_in_iff split: if_splits)
  moreover have "rq_threads ?g + card (online_set ?g) = size (tracked ?g)" using i(2) on by (simp add: t f)
  moreover have "inj_on (rq_idle_addr ?g) (online_set ?g)"
  proof -
    have "idle \<notin> idle_threads g" using idle_threads_there [OF inv] assms(6) by auto
    then have "idle \<notin> rq_idle_addr ?g ` online_set g" using on(2) by (auto simp: idle_threads_def f split: if_splits)
    moreover have "inj_on (rq_idle_addr ?g) (online_set g)" using i(4) on(2) by (auto simp: inj_on_def f)
    ultimately show ?thesis using on by (simp add: f)
  qed
  moreover have "reaper_ok rp ?g" using i(11) by (simp add: reaper_ok_def f)
  ultimately have "run_inv rp {#} ?g" using i(6,7) p assms(7) by (simp add: run_inv_def f)
  then show ?thesis using assms(1) by (simp add: settled_run_def all_run_def f)
qed

section \<open>The start\<close>

lemma run_init_tracked:
  "at_cpu (run_init boot idle rp) c = (if c = 0 then {#rp, boot, idle#} else {#})" "tracked (run_init boot idle rp) = {#rp, boot, idle#}"
proof -
  show at: "at_cpu (run_init boot idle rp) c = (if c = 0 then {#rp, boot, idle#} else {#})" for c
    by (simp add: at_cpu_def run_init_def thread_list_def unreserved_def)
  show "tracked (run_init boot idle rp) = {#rp, boot, idle#}"
    by (simp add: tracked_def at off_cpu_def sum.remove [of _ 0] MAX_CPUS_def) (simp add: run_init_def thread_list_def)
qed

lemma run_init_settled:
  assumes "distinct [boot, idle, rp]"
  shows "settled_run rp (run_init boot idle rp)" (is "settled_run _ ?g")
proof -
  note at = run_init_tracked(1) [of boot idle rp] and t = run_init_tracked(2) [of boot idle rp]
  have on: "online_set ?g = {0}" by (auto simp: online_set_def run_init_def MAX_CPUS_def)
  have "cpu_ok {#} ?g c" for c by (simp add: cpu_ok_def at) (simp add: run_init_def thread_list_def unreserved_def)
  moreover have "states_ok ?g"
    using assms by (auto simp: states_ok_def listed_def run_init_def thread_list_def unreserved_def new_thread_def split: if_splits)
  moreover have "switch_ok (tracked ?g + {#}) ?g" by (simp add: switch_ok_def run_init_def new_thread_def)
  moreover have "ending_ok ?g" "reaper_ok rp ?g" by (simp_all add: ending_ok_def reaper_ok_def run_init_def new_thread_def)
  moreover have "rq_threads ?g = 2" "rs_cap (rq_blocked ?g) = MAX_THREADS" "rs_cap (rq_suspended ?g) = MAX_THREADS"
    by (simp_all add: run_init_def thread_list_def)
  moreover have "all_run ?g" by (simp add: all_run_def run_init_def)
  ultimately show ?thesis using assms by (auto simp: settled_run_def run_inv_def t on MAX_THREADS_def)
qed

section \<open>Every step\<close>

lemma take_ended_pid_settled:
  assumes "settled_run rp g"
  shows "settled_run rp (fst (take_ended_pid g))"
proof (cases "rs_items (rq_ended_pids g) = []")
  case False
  let ?g = "fst (take_ended_pid g)"
  have inv: "run_inv rp {#} g" using assms by (simp add: settled_run_def)
  note i = run_invD [OF inv]
  have p: "same_places g ?g" "rq_thread ?g = rq_thread g" "rq_ending ?g = rq_ending g" "rq_cpu_online ?g = rq_cpu_online g" "rq_current ?g = rq_current g"
    using False by (simp_all add: take_ended_pid_def same_places_def)
  have r: "rq_reaper g = None" using i(11) False by (cases "rq_reaper g") (auto simp: reaper_ok_def)
  have "run_inv rp {#} ?g"
  proof (rule run_inv_move [OF inv])
    show "reaper_ok rp ?g" using r p(1) by (simp add: reaper_ok_def same_places_def)
    show "states_ok ?g" using i(8) by (simp add: states_ok_def same_places_parts [OF p(1)] p)
    show "switch_ok (tracked g + {#}) ?g" using i(9) p by (simp add: switch_ok_def same_places_def)
    show "ending_ok ?g" using i(10) p by (simp add: ending_ok_def)
    show "cpu_ok {#} ?g c" if "c < MAX_CPUS" for c using i(5) [OF that] by (simp add: same_places_parts [OF p(1)])
  qed (use p(1) i(6,7) same_places_parts(1) [OF p(1)] in \<open>simp_all add: same_places_def\<close>)
  then show ?thesis using assms p by (simp add: settled_run_def all_run_def)
qed (use assms in \<open>simp add: take_ended_pid_def\<close>)

lemma preempt_settled:
  assumes "settled_run rp g"
  shows "settled_run rp (preempt_disable me g)" "rq_preempt_off g me \<noteq> 0 \<Longrightarrow> \<exists>g' b. preempt_enable me g = Some (g', b) \<and> settled_run rp g'"
  using settled_fields(4,5) [OF assms] settled_fields(5) [OF settled_fields(4) [OF assms]]
  by (auto simp: preempt_disable_def preempt_enable_def Let_def)

lemma run_exec_settled:
  assumes "settled_run rp g" "may_run rp op g"
  shows "\<exists>g'. run_exec op g = Some g' \<and> settled_run rp g'"
proof (cases op)
  case (OpReplay me)
  then show ?thesis using switch_if_idle_settled [OF assms(1), of me] assms(2) by (simp add: may_leave_def)
next
  case (OpReap me n)
  then show ?thesis using drain_reap_settled [OF assms(1), of me n] assms(2) by simp
next
  case (OpAffinity th affinity)
  then show ?thesis using settled_thread [OF assms(1)] assms(2) by (simp add: set_thread_affinity_def)
next
  case (OpTakeDown bound me)
  then show ?thesis using settled_fields(3) [OF assms(1)] assms(1) assms(2) by (simp add: clear_online_bit_def)
next
  case (OpSpawn me th cls priority nice affinity)
  then show ?thesis using spawn_inner_settled [OF assms(1), of me th cls priority nice affinity] assms(2) by auto
next
  case (OpStartUser me th pid cls priority nice affinity ending)
  then show ?thesis using start_user_settled [OF assms(1), of me th pid cls priority nice affinity ending] assms(2) by auto
next
  case (OpYield me)
  then show ?thesis using yield_now_settled [OF assms(1), of me] assms(2) by simp
next
  case (OpTick me woken)
  then show ?thesis using on_timer_tick_settled [OF assms(1), of me woken] assms(2) by simp
next
  case (OpIpi me)
  then show ?thesis using on_reschedule_ipi_settled [OF assms(1), of me] assms(2) by simp
next
  case (OpPreemptOff me)
  then show ?thesis using preempt_settled(1) [OF assms(1), of me] assms(2) by simp
next
  case (OpPreemptOn me)
  then show ?thesis using preempt_settled(2) [OF assms(1), of me] assms(2) by auto
next
  case (OpBlock me)
  then show ?thesis using block_current_settled [OF assms(1), of me] assms(2) by simp
next
  case (OpExitThread me woken)
  then show ?thesis using exit_thread_settled [OF assms(1), of me woken] assms(2) by simp
next
  case (OpExitProcess me claims woken)
  then show ?thesis using exit_process_settled [OF assms(1), of me claims woken] assms(2) by simp
next
  case (OpSuspend me woken)
  then show ?thesis using suspend_with_fault_settled [OF assms(1), of me woken] assms(2) by auto
next
  case (OpWake me th)
  then show ?thesis using wake_settled(1) [OF assms(1), of me th] assms(2) by auto
next
  case (OpResume me th tag code)
  then show ?thesis using resume_suspended_settled [OF assms(1), of me th tag code] assms(2) by auto
next
  case (OpParkReaper me backlog)
  then show ?thesis using park_reaper_settled [OF assms(1), of me backlog] assms(2) by simp
next
  case (OpWakeReaper me)
  then show ?thesis using wake_settled(2) [OF assms(1), of me] assms(2) by simp
next
  case OpTakePid
  then show ?thesis using take_ended_pid_settled [OF assms(1)] assms(2) by simp
next
  case (OpCommit c th)
  then show ?thesis using commit_switch_settled [OF assms(1), of c th] assms(2) by simp
next
  case (OpBringUp me boot idle)
  then show ?thesis using ap_init_settled [OF assms(1), of me boot idle] assms(2) by simp
qed

lemma run_reach_settled: "run_reach rp g \<Longrightarrow> settled_run rp g"
proof (induction rule: run_reach.induct)
  case (start boot idle)
  then show ?case by (rule run_init_settled)
next
  case (step g op g')
  then show ?case using run_exec_settled [of rp g op] by simp
qed

end
