(* ===== verification/Run_Outcome.thy ===== *)
theory Run_Outcome
  imports Run_Births
begin

text \<open>What the operations achieve: the end of a process reaches all its threads, and a new thread goes where it should.\<close>

section \<open>The end of a process\<close>

lemma pick_next_lists: "same_lists g (fst (pick_next me g))"
proof (cases rule: dequeue_front_cases [of g me])
  case empty
  show ?thesis
  proof (cases rule: steal_one_cases [of me g])
    case none
    then show ?thesis using empty by (simp add: pick_next_def same_lists_def)
  next
    case (stolen c i h)
    then show ?thesis using empty by (simp add: pick_next_def same_lists_def seed_vruntime_inv)
  qed
next
  case (picked i f)
  then show ?thesis by (simp add: pick_next_def same_lists_def)
qed

lemma switch_away_exited:
  assumes "switch_away me g prev ParkExited = Some g'"
  shows "same_marks g g'" "prev \<in> set (rs_items (rq_reap g' me))"
proof -
  define P where "P = (case pick_next me g of
              (g, Some n) \<Rightarrow> Some (g, n)
            | (g, None) \<Rightarrow>
                (case rq_idle g me of
                   None \<Rightarrow> None
                 | Some n \<Rightarrow> Some (g\<lparr>rq_idle := (rq_idle g)(me := None)\<rparr>, n)))"
  note away = assms [unfolded switch_away_def P_def [symmetric] Let_def]
  obtain g1 n where g1: "P = Some (g1, n)" using away by (cases P) auto
  obtain h r where h: "pick_next me g = (h, r)" by fastforce
  have "same_lists g h" using pick_next_lists [of g me] h by simp
  then have "same_marks g h" by (simp add: same_lists_def same_marks_def)
  moreover have "g1 = h \<or> g1 = h\<lparr>rq_idle := (rq_idle h)(me := None)\<rparr>" using g1 unfolding P_def h by (simp split: option.splits)
  ultimately have m1: "same_marks g g1" by (elim disjE) (simp_all add: same_marks_def)
  obtain g2 where g2: "park me g1 prev ParkExited = Some g2"
      "switch_into me ((set_state g2 n TRunning)\<lparr>rq_current := (rq_current (set_state g2 n TRunning))(me := Some n)\<rparr>) prev n = Some g'"
    using away unfolding g1 by (cases "park me g1 prev ParkExited") simp_all
  have m2: "same_marks g1 g2" "prev \<in> set (rs_items (rq_reap g2 me))"
    using g2(1) by (auto simp: park_def Let_def set_state_def same_marks_def Reserved_push_def split: if_splits)
  have m3: "same_marks g2 g'" "rq_reap g' = rq_reap g2"
    using g2(2) by (auto simp: switch_into_def Let_def set_state_def same_marks_def commit_switch_def split: if_splits)
  show "same_marks g g'" by (rule same_marks_trans [OF m1 same_marks_trans [OF m2(1) m3(1)]])
  show "prev \<in> set (rs_items (rq_reap g' me))" using m2(2) m3(2) by simp
qed

text \<open>
  The threads of the process other than the one that exits: each is marked; one that runs has its
  processor's copy of the mark; none is suspended; none the wake handshake claims is blocked.
\<close>

definition siblings :: "RunState \<Rightarrow> u64 \<Rightarrow> u64 set" where
  "siblings g th = {x \<in> live g. x \<noteq> th \<and> same_pid g (rt_pid (rq_thread g th)) x}"

definition process_ends :: "nat \<Rightarrow> (u64 \<Rightarrow> bool) \<Rightarrow> RunState \<Rightarrow> u64 \<Rightarrow> RunState \<Rightarrow> bool" where
  "process_ends me claims g th g' \<longleftrightarrow>
     (\<forall>x\<in>siblings g th. rt_ending (rq_thread g' x) \<and> x \<notin> set (rs_items (rq_suspended g'))
        \<and> (\<forall>c<MAX_CPUS. rq_current g c = Some x \<longrightarrow> rq_current g' c = Some x \<and> rq_ending g' c)
        \<and> (x \<in> set (rs_items (rq_blocked g)) \<and> \<not> rt_ending (rq_thread g x) \<and> claims x \<longrightarrow> x \<notin> set (rs_items (rq_blocked g'))))
     \<and> th \<in> set (rs_items (rq_reap g' me))"

lemma live_taken:
  assumes "rq_current g me = Some th" "x \<in> live g" "x \<noteq> th"
  shows "x \<in> live (taken g me)"
proof (cases "\<exists>c<MAX_CPUS. rq_current g c = Some x")
  case True
  then obtain c where "c < MAX_CPUS" "rq_current g c = Some x" by blast
  then have "c \<noteq> me" "rq_current (taken g me) c = Some x" using assms(1,3) by auto
  then show ?thesis using \<open>c < MAX_CPUS\<close> unfolding live_def by blast
qed (use assms(2) in \<open>auto simp: live_def queued_def\<close>)

lemma exit_process_ends:
  assumes "settled_run rp g" "may_stop g me" "rq_current g me = Some th" "rt_has_process (rq_thread g th)"
  shows "\<exists>g'. exit_process me g claims woken = Some g' \<and> process_ends me claims g th g'"
proof -
  let ?t = "taken g me"
  let ?pid = "rt_pid (rq_thread g th)"
  obtain th' where "rq_current g me = Some th'" "take_current me g = Some (?t, th')" "run_inv rp {#th'#} ?t"
      "th' \<notin> idle_threads g" "me < MAX_CPUS" "rq_cpu_online g me" using stopping [OF assms(1,2)] .
  then have th: "take_current me g = Some (?t, th)" "run_inv rp {#th#} ?t" "th \<notin> idle_threads g" and me: "me < MAX_CPUS" "rq_cpu_online ?t me"
    using assms(3) by simp_all
  obtain g1 where g1: "end_siblings me ?t ?pid claims = Some g1" "run_inv rp {#th#} g1" "keeps ?t g1" "all_ended me ?pid claims ?t g1"
    using end_siblings_inv [OF th(2) me] by blast
  have on: "rq_cpu_online g1 me" using g1(3) me(2) by (simp add: keeps_def)
  obtain g2 b where g2: "end_process_if_last me g1 th woken = Some (g2, b)" "run_inv rp {#th#} g2" "keeps g1 g2" "same_marks g1 g2"
    using end_process_if_last_inv [OF g1(2) me(1) on] by blast
  have k: "keeps ?t g2" by (rule keeps_trans [OF g1(3) g2(3)])
  have r: "runs g me" "rq_preempt_off g me = 0" using assms(2) by (simp_all add: may_stop_def may_leave_def)
  have "idle_threads g2 = idle_threads g" using keeps_idle_threads [OF k] by (simp add: idle_threads_def online_set_def)
  then have "may_switch rp me g2 th ParkExited" using th(3) by (simp add: may_switch_def)
  then obtain g' n where g': "switch_away me g2 th ParkExited = Some g'" "settled_run rp g'" "rq_current g' = (rq_current g)(me := Some n)"
    using switch_from_inv [OF assms(1) r(1) assms(3) r(2) g2(2) k] by blast
  have m: "same_marks g1 g'" by (rule same_marks_trans [OF g2(4) switch_away_exited(1) [OF g'(1)]])
  have eq: "exit_process me g claims woken = Some g'" using assms(4) by (simp add: exit_process_def th(1) g1(1) g2(1) g'(1))
  have sp: "same_pid ?t ?pid x = same_pid g ?pid x" "same_pid g1 ?pid x = same_pid g ?pid x" for x using g1(3) by (simp_all add: same_pid_def keeps_def)
  have "rt_ending (rq_thread g' x) \<and> x \<notin> set (rs_items (rq_suspended g'))
        \<and> (\<forall>c<MAX_CPUS. rq_current g c = Some x \<longrightarrow> rq_current g' c = Some x \<and> rq_ending g' c)
        \<and> (x \<in> set (rs_items (rq_blocked g)) \<and> \<not> rt_ending (rq_thread g x) \<and> claims x \<longrightarrow> x \<notin> set (rs_items (rq_blocked g')))"
    if "x \<in> siblings g th" for x
  proof (intro conjI allI impI)
    have x: "x \<in> live ?t" "same_pid g ?pid x" "x \<noteq> th" using that live_taken [OF assms(3), of x] by (simp_all add: siblings_def)
    show e: "rt_ending (rq_thread g' x)" using g1(4) x m sp by (simp add: all_ended_def same_marks_def)
    show "x \<notin> set (rs_items (rq_suspended g'))" using g1(4) x(2) m sp by (auto simp: all_ended_def same_marks_def mates_suspended_def)
    fix c assume c: "c < MAX_CPUS" "rq_current g c = Some x"
    then show cur: "rq_current g' c = Some x" using x(3) assms(3) g'(3) by auto
    show "rq_ending g' c" using run_invD(10) [of rp "{#}" g'] g'(2) c(1) cur e by (simp add: settled_run_def ending_ok_def)
  next
    assume "x \<in> set (rs_items (rq_blocked g)) \<and> \<not> rt_ending (rq_thread g x) \<and> claims x"
    then show "x \<notin> set (rs_items (rq_blocked g'))"
      using that g1(4) m sp by (auto simp: siblings_def all_ended_def same_marks_def set_to_mark)
  qed
  then have "process_ends me claims g th g'" using switch_away_exited(2) [OF g'(1)] by (simp add: process_ends_def)
  then show ?thesis using eq by blast
qed

section \<open>Where a new thread goes\<close>

text \<open>The processors a thread of this affinity may be placed on, and those that take work at all.\<close>

definition open_to :: "RunState \<Rightarrow> u8 \<Rightarrow> nat set" where
  "open_to g affinity = {c. c < MAX_CPUS \<and> cpu_accepts_work g c (rq_online_mask g) \<and> bit affinity c}"

definition taking_work :: "RunState \<Rightarrow> nat set" where
  "taking_work g = {c. c < MAX_CPUS \<and> cpu_accepts_work g c (rq_online_mask g)}"

definition well_placed :: "nat \<Rightarrow> RunState \<Rightarrow> u8 \<Rightarrow> nat \<Rightarrow> bool" where
  "well_placed me g affinity c \<longleftrightarrow>
     (if open_to g affinity \<noteq> {} then least_loaded g (open_to g affinity) c
      else if taking_work g \<noteq> {} then least_loaded g (taking_work g) c else c = me)"

lemma least_loaded_cong: "rq_ready g' = rq_ready g \<Longrightarrow> least_loaded g' C c = least_loaded g C c"
  by (simp add: least_loaded_def)

lemma pick_target_well_placed:
  assumes "rq_ready g' = rq_ready g" "rq_cpu_online g' = rq_cpu_online g" "rt_cpu_mask (rq_thread g' th) = affinity"
  shows "well_placed me g affinity (pick_target_cpu me g' th (rq_online_mask g))"
proof -
  have acc: "accepting g' (rq_online_mask g) = taking_work g" using assms(2) by (simp add: accepting_def taking_work_def cpu_accepts_work_def)
  then have perm: "permitted g' th (rq_online_mask g) = open_to g affinity"
    using assms(3) by (auto simp: permitted_def open_to_def taking_work_def)
  show ?thesis using pick_target_cpu_spec [of g' th "rq_online_mask g" me] unfolding well_placed_def acc perm least_loaded_cong [OF assms(1)] .
qed

lemma start_user_outcome:
  assumes "settled_run rp g" "runs g me" "th \<notin># tracked g" "rq_threads g < MAX_THREADS"
  shows "\<exists>g' c. start_user me g th pid cls priority nice affinity ending = Some (g', True) \<and> well_placed me g affinity c
    \<and> c < MAX_CPUS \<and> rq_cpu_online g c \<and> rq_ready g' = (rq_ready g)(c := (rq_ready g c)\<lparr>rs_items := ready_list g c @ [th]\<rparr>)
    \<and> rt_ending (rq_thread g' th) = ending \<and> rq_ipis g' = rq_ipis g @ (if c = me then [] else [c])"
proof -
  let ?t = "(new_thread pid True TReady)\<lparr>rt_class := cls, rt_priority := priority, rt_nice := nice, rt_cpu_mask := affinity, rt_ending := ending\<rparr>"
  let ?g = "g\<lparr>rq_thread := (rq_thread g)(th := ?t)\<rparr>"
  let ?c = "pick_target_cpu me ?g th (rq_online_mask g)"
  have eq: "start_user me g th pid cls priority nice affinity ending = place_thread me ?g th False"
    by (simp add: start_user_def place_spawned_def make_thread_def set_thread_def new_thread_def)
  have g: "run_inv rp {#} g" "me < MAX_CPUS" "rq_cpu_online ?g me" using assms(1,2) by (simp_all add: settled_run_def runs_def)
  have u: "run_inv rp {#} ?g" using run_inv_unknown [OF g(1)] assms(3) by simp
  have adm: "run_inv rp {#th#} (?g\<lparr>rq_threads := rq_threads ?g + 1\<rparr>)"
    by (rule run_inv_admit [OF u]) (use assms(3,4) in \<open>simp_all add: new_thread_def\<close>)
  have "th \<notin> idle_threads ?g" using idle_threads_there [OF u] assms(3) by auto
  then obtain g' where g': "place_thread me ?g th False = Some (g', True)" "same_lists ?g g'" "?c < MAX_CPUS"
      "rq_ready g' = (rq_ready ?g)(?c := (rq_ready ?g ?c)\<lparr>rs_items := ready_list ?g ?c @ [th]\<rparr>)" "rq_ipis g' = rq_ipis ?g @ (if ?c = me then [] else [?c])"
    using place_thread_inv [of rp th "{#}" False ?g me] adm g(2,3) by (auto simp: new_thread_def)
  have "well_placed me g affinity ?c" by (rule pick_target_well_placed) simp_all
  moreover have "rq_cpu_online g ?c" using placed_online(1) [OF g(2,3)] by simp
  ultimately show ?thesis using g' unfolding eq by (intro exI [of _ g'] exI [of _ ?c]) (simp add: same_lists_def)
qed

end
