(* ===== verification/Run_Properties.thy ===== *)
theory Run_Properties
  imports Run_Outcome
begin

text \<open>
  What the run queues promise, in every state the steps of \<^verbatim>\<open>Run_Steps\<close> reach from \<^verbatim>\<open>init\<close>, with any
  number of processors up and their operations in any order.
\<close>

section \<open>Runs\<close>

fun run_all :: "u64 \<Rightarrow> run_op list \<Rightarrow> RunState \<Rightarrow> RunState option" where
  "run_all rp [] g = Some g"
| "run_all rp (op # ops) g = (if may_run rp op g then Option.bind (run_exec op g) (run_all rp ops) else None)"

lemma run_all_reach: "run_reach rp g \<Longrightarrow> run_all rp ops g = Some g' \<Longrightarrow> run_reach rp g'"
proof (induction ops arbitrary: g)
  case (Cons op ops)
  then obtain h where "may_run rp op g" "run_exec op g = Some h" "run_all rp ops h = Some g'"
    by (auto simp: bind_eq_Some_conv split: if_splits)
  then show ?case using Cons.IH run_reach.step [OF Cons.prems(1)] by blast
qed simp

text \<open>The boot thread has exited; and a process of two threads, the real-time one of which runs.\<close>

definition rx_boot :: RunState where "rx_boot = run_init 1 2 3"

definition rx_exited :: RunState where
  "rx_exited = the (run_all 3 [OpExitThread 0 [], OpCommit 0 1] rx_boot)"

definition rx_process :: RunState where
  "rx_process = the (run_all 3 [OpStartUser 0 4 7 RealTime 0 0 (-1) False, OpStartUser 0 5 7 TimeShared 0 0 (-1) False, OpYield 0, OpCommit 0 1] rx_boot)"

lemma rx_boot_reach: "run_reach 3 rx_boot"
  unfolding rx_boot_def by (rule run_reach.start) simp

lemma rx_run:
  assumes "\<not> Option.is_none (run_all 3 ops rx_boot)"
  shows "run_reach 3 (the (run_all 3 ops rx_boot))"
  using assms run_all_reach [OF rx_boot_reach, of ops] by (cases "run_all 3 ops rx_boot") simp_all

lemma rx_reach: "run_reach 3 rx_exited" "run_reach 3 rx_process"
  unfolding rx_exited_def rx_process_def by (rule rx_run, code_simp)+

section \<open>Properties\<close>

text \<open>
  C5. No operation of the run queues fails. In every reachable state, every operation that may run
  there returns, to a state reached again: its assertions hold, no reserved list is full, the running and the idle
  thread it takes are there, and the loops over the threads of an ending process end.
\<close>

theorem run_never_fails:
  assumes "run_reach rp g" "may_run rp op g"
  shows "\<exists>g'. run_exec op g = Some g' \<and> run_reach rp g'"
proof -
  obtain g' where "run_exec op g = Some g'" using run_exec_settled [OF run_reach_settled [OF assms(1)] assms(2)] by blast
  then show ?thesis using run_reach.step [OF assms] by blast
qed

theorem run_never_fails_witness:
  "\<exists>g'. run_exec (OpExitProcess 0 (\<lambda>_. True) []) rx_process = Some g' \<and> run_reach 3 g'"
proof -
  have "may_run 3 (OpExitProcess 0 (\<lambda>_. True) []) rx_process" by code_simp
  then show ?thesis by (rule run_never_fails [OF rx_reach(2)])
qed

text \<open>
  C6. Every thread is in one place, and its state says which: over all the run queues, the running and
  the idle threads, the reap lists, the blocked, the suspended and the reaper's slot, no thread occurs
  twice; a thread's state is the one of the list it is on. Every processor that is up runs a thread, and its copy
  of the thread's mark to end is right. The thread count is the number of threads that are not idle threads, at
  most \<^verbatim>\<open>MAX_THREADS\<close>. The reaper is not parked while an ended process waits for it.
\<close>

theorem threads_in_one_place:
  assumes "run_reach rp g"
  shows "(\<forall>th. count (tracked g) th \<le> 1) \<and> (\<forall>th s. listed g th s \<longrightarrow> rt_state (rq_thread g th) = s)
    \<and> (\<forall>c<MAX_CPUS. rq_cpu_online g c \<longrightarrow> (\<exists>th. rq_current g c = Some th \<and> rq_ending g c = rt_ending (rq_thread g th)))
    \<and> rq_threads g + card (online_set g) = size (tracked g) \<and> rq_threads g \<le> MAX_THREADS
    \<and> (rq_reaper g \<noteq> None \<longrightarrow> rs_items (rq_ended_pids g) = [])"
proof (intro conjI)
  have s: "run_inv rp {#} g" "all_run g" using run_reach_settled [OF assms] by (simp_all add: settled_run_def)
  note i = run_invD [OF s(1)]
  show "\<forall>th. count (tracked g) th \<le> 1" using i(1) by simp
  show "\<forall>th s. listed g th s \<longrightarrow> rt_state (rq_thread g th) = s" using i(8) by (simp add: states_ok_def)
  show "\<forall>c<MAX_CPUS. rq_cpu_online g c \<longrightarrow> (\<exists>th. rq_current g c = Some th \<and> rq_ending g c = rt_ending (rq_thread g th))"
    using i(10) s(2) by (auto simp: all_run_def ending_ok_def)
  show "rq_threads g + card (online_set g) = size (tracked g)" "rq_threads g \<le> MAX_THREADS" using i(2,3) by simp_all
  show "rq_reaper g \<noteq> None \<longrightarrow> rs_items (rq_ended_pids g) = []" using i(11) by (auto simp: reaper_ok_def)
qed

theorem threads_in_one_place_witness:
  "(\<forall>th. count (tracked rx_process) th \<le> 1) \<and> rt_state (rq_thread rx_process 4) = TRunning \<and> rq_threads rx_process \<le> MAX_THREADS"
proof -
  have c: "rq_current rx_process 0 = Some 4" by code_simp
  have l: "listed rx_process 4 TRunning" unfolding listed_def by (rule disjI1, rule exI [of _ 0]) (simp add: c MAX_CPUS_def)
  show ?thesis using threads_in_one_place [OF rx_reach(2)] l by blast
qed

text \<open>
  C38. A thread's stack is left before it is used or freed. In every reachable state a running thread's context is committed;
  and a thread that a processor takes off its reap list to free has its context committed, runs nowhere,
  and is on no list afterwards.
\<close>

theorem stacks_left:
  assumes "run_reach rp g" "runs g me"
  shows "(\<forall>c<MAX_CPUS. \<forall>th. rq_current g c = Some th \<longrightarrow> \<not> rt_on_cpu (rq_thread g th))
    \<and> (\<forall>th\<in>set (snd (drain_reap me n g)). \<not> rt_on_cpu (rq_thread g th)
         \<and> (\<forall>c<MAX_CPUS. rq_current g c \<noteq> Some th \<and> rq_switching g c \<noteq> Some th) \<and> th \<notin># tracked (fst (drain_reap me n g)))"
proof (intro conjI allI impI ballI)
  have s: "settled_run rp g" by (rule run_reach_settled [OF assms(1)])
  then have inv: "run_inv rp {#} g" by (simp add: settled_run_def)
  show "\<not> rt_on_cpu (rq_thread g th)" if "c < MAX_CPUS" "rq_current g c = Some th" for c th by (rule running_committed [OF inv that])
  fix th assume th: "th \<in> set (snd (drain_reap me n g))"
  note d = drain_reap_settled [OF s assms(2), of n]
  have r: "th \<in> set (rs_items (rq_reap g me))" using d th by blast
  show "\<not> rt_on_cpu (rq_thread g th)" by (rule reapable(2) [OF inv assms(2) r])
  show "rq_current g c \<noteq> Some th" "rq_switching g c \<noteq> Some th" if "c < MAX_CPUS" for c
    using reapable(3,4) [OF inv assms(2) r that] by simp_all
  have "count (tracked g) th \<le> 1" using run_invD(1) [OF inv, of th] by simp
  moreover have "count (tracked g) th = count (tracked (fst (drain_reap me n g))) th + count (mset (snd (drain_reap me n g))) th" using d by simp
  moreover have "0 < count (mset (snd (drain_reap me n g))) th" using th by simp
  ultimately have "count (tracked (fst (drain_reap me n g))) th = 0" by linarith
  then show "th \<notin># tracked (fst (drain_reap me n g))" by (simp add: not_in_iff)
qed

theorem stacks_left_witness:
  "snd (drain_reap 0 4 rx_exited) = [1] \<and> \<not> rt_on_cpu (rq_thread rx_exited 1) \<and> 1 \<notin># tracked (fst (drain_reap 0 4 rx_exited))"
proof -
  have d: "snd (drain_reap 0 4 rx_exited) = [1]" by code_simp
  have r: "runs rx_exited 0" by code_simp
  show ?thesis using stacks_left [OF rx_reach(1) r, of 4] d by simp
qed

text \<open>
  C39. A switch runs the right thread. When a processor reschedules in a reachable state, what runs next is
  the first of the least scheduling key in its own queue (real-time by priority before time-shared by virtual
  runtime); if that is empty, a thread it may run and whose context is committed, from the longest of the other processors' queues
  that have one; if there is none, its idle thread.
\<close>

theorem switch_runs_next:
  assumes "run_reach rp g" "may_leave g me" "current_is_idle me g \<Longrightarrow> ready_list g me \<noteq> [] \<or> steal_available g me"
  shows "\<exists>g' n. switch_to_next me g = Some g' \<and> rq_current g' = (rq_current g)(me := Some n) \<and> next_ok me g n"
  using switch_to_next_inv [OF run_reach_settled [OF assms(1)], of me] assms(2,3) unfolding may_leave_def by blast

theorem switch_runs_next_witness:
  "\<exists>g' n. switch_to_next 0 rx_process = Some g' \<and> rq_current g' = (rq_current rx_process)(0 := Some n) \<and> next_ok 0 rx_process n"
proof (rule switch_runs_next [OF rx_reach(2)])
  show "may_leave rx_process 0" by code_simp
  show "ready_list rx_process 0 \<noteq> [] \<or> steal_available rx_process 0" by (rule disjI1) code_simp
qed

text \<open>
  C7. The exit of a process reaches every thread of it. When the running thread of a process exits the process, it goes
  to its processor's reap list, and every other thread of the process, queued, running, blocked or suspended, is
  marked to end: one that runs on another processor still does, with that processor's copy of the mark set; none
  is left suspended; and none that was blocked unmarked and whose wait the handshake gives to this waker is left blocked.
\<close>

theorem exit_reaches_all:
  assumes "run_reach rp g" "may_stop g me" "rq_current g me = Some th" "rt_has_process (rq_thread g th)"
  shows "\<exists>g'. exit_process me g claims woken = Some g' \<and> process_ends me claims g th g'"
  by (rule exit_process_ends [OF run_reach_settled [OF assms(1)] assms(2-4)])

theorem exit_reaches_all_witness:
  "\<exists>g'. exit_process 0 rx_process (\<lambda>_. True) [] = Some g' \<and> rt_ending (rq_thread g' 5) \<and> 4 \<in> set (rs_items (rq_reap g' 0))"
proof -
  have c: "may_stop rx_process 0" "rq_current rx_process 0 = Some 4" "rt_has_process (rq_thread rx_process 4)" by code_simp+
  have r: "5 \<in> set (ready_list rx_process 0)" "rt_pid (rq_thread rx_process 5) = rt_pid (rq_thread rx_process 4)" by code_simp+
  have "5 \<in> live rx_process" using r(1) by (auto simp: live_def queued_def MAX_CPUS_def intro!: bexI [of _ 0])
  then have "5 \<in> siblings rx_process 4" using r(2) by (simp add: siblings_def same_pid_def)
  then show ?thesis using exit_reaches_all [OF rx_reach(2) c, of "\<lambda>_. True" "[]"] unfolding process_ends_def by blast
qed

text \<open>
  C40. A new user thread is placed, whenever the thread count has room, at the end of the queue of a processor that is up:
  one the thread may run on that takes work and has the shortest queue of those, else the shortest of any that takes work, else
  the spawning processor; that processor is interrupted unless it is the spawning one, and a thread of an exiting
  process is already marked to end.
\<close>

theorem new_thread_placed:
  assumes "run_reach rp g" "runs g me" "th \<notin># tracked g" "rq_threads g < MAX_THREADS"
  shows "\<exists>g' c. start_user me g th pid cls priority nice affinity ending = Some (g', True) \<and> well_placed me g affinity c
    \<and> c < MAX_CPUS \<and> rq_cpu_online g c \<and> rq_ready g' = (rq_ready g)(c := (rq_ready g c)\<lparr>rs_items := ready_list g c @ [th]\<rparr>)
    \<and> rt_ending (rq_thread g' th) = ending \<and> rq_ipis g' = rq_ipis g @ (if c = me then [] else [c])"
  by (rule start_user_outcome [OF run_reach_settled [OF assms(1)] assms(2-4)])

theorem new_thread_placed_witness:
  "\<exists>g' c. start_user 0 rx_process 6 9 RealTime 3 0 1 True = Some (g', True) \<and> well_placed 0 rx_process 1 c \<and> rt_ending (rq_thread g' 6)"
proof -
  have "runs rx_process 0" "6 \<notin># tracked rx_process" "rq_threads rx_process < MAX_THREADS" by code_simp+
  from new_thread_placed [OF rx_reach(2) this, of 9 RealTime 3 0 1 True] show ?thesis by blast
qed

end
