(* ===== verification/Spec2Isabelle.thy ===== *)
theory Spec2Isabelle
  imports Handle_Properties Buddy_Properties Deadline_Slots Ipc_Ring Notification Sched_Properties Run_Properties
begin

text \<open>
  \<^bold>\<open>Nitrox: a verification library for the capability kernel\<close>

  Nitrox is a capability operating system in Rust. A process names kernel objects only through
  handles, and asks the kernel to act on the object behind one. The library models the parts of the
  kernel that decide who may do what, who runs, and who is told: the handle table, the physical
  memory allocator, and the scheduler with the objects a thread can wait on. Paths below are under
  \<^verbatim>\<open>src/kernel/src\<close>.

  \<^bold>\<open>The parts and how they meet.\<close> The handle table maps a handle to an object, rights and an owner; it
  holds one reference on the object, counted in the object's header. A lookup takes its own reference
  without a lock, so a close waits for the lookups that may still see the object (grace periods). The
  scheduler keeps everything else under one lock, \<^verbatim>\<open>SCHED\<close>: run queues, the blocked list, the
  deadline heap, and the state of every object a thread can wait on. A wait registers the thread with
  each object and parks it in one hold; an event on an object takes its waiters and makes them
  runnable in one hold; the timer tick drains the deadlines that have come. Channels carry messages,
  which may carry handles to other objects; a userspace server's registration matches replies to the
  lookups and page fills it was asked for.

  \<^bold>\<open>Conventions.\<close> Integers keep their width as words; a pointer to a kernel object is its address, a
  64-bit word with 0 the null pointer. A function returning an option has \<^verbatim>\<open>None\<close> where the code
  panics, trips a debug assertion, exhausts a reserve or never returns; a sum has \<^verbatim>\<open>Inl\<close> for the code's
  error. Whether an allocation succeeds is an argument, and so is what other processors do while a
  lock is released. A definition carries the name of the code it models.

  \<^bold>\<open>Handles\<close> (\<^verbatim>\<open>handle\<close>, \<^verbatim>\<open>libkern/handle.rs\<close>, \<^verbatim>\<open>object/header.rs\<close>).
  \<^item> \<^verbatim>\<open>Handle_Values\<close>: the packed handle, the rights and the object types. \<^verbatim>\<open>Prng\<close>: the slot shuffle's
    generator. \<^verbatim>\<open>Handle_Segment\<close>: entries and the construction of a segment. \<^verbatim>\<open>Object_Header\<close>: counts.
  \<^item> \<^verbatim>\<open>Handle_Grace\<close> and \<^verbatim>\<open>Deferred_Queue\<close>: the epoch tracker and the ring of deferred closes.
    \<^verbatim>\<open>Handle_Table\<close>: every operation of the table, the exit sweep and the install set.
  \<^item> \<^verbatim>\<open>Handle_Invariant\<close>, \<^verbatim>\<open>Handle_Alloc\<close>, \<^verbatim>\<open>Handle_Close\<close>: each slot is live, free or deferred, and exactly one
    of them; what each operation does to the map from handles to capabilities. \<^verbatim>\<open>Handle_Lookup\<close>,
    \<^verbatim>\<open>Handle_Kernel\<close>, \<^verbatim>\<open>Handle_Sweep\<close>: reference counts across table and callers.
  \<^item> \<^verbatim>\<open>Handle_Confinement\<close>: the contract of a capability table as a locale, and what any sequence of
    calls against it can give a process; the table is an interpretation of it. \<^verbatim>\<open>Handle_Claims\<close>,
    \<^verbatim>\<open>Handle_Count\<close>, \<^verbatim>\<open>Handle_Example\<close>: claims and install sets, the diagnostic count, a concrete state.
  \<^item> \<^verbatim>\<open>Handle_Seqlock\<close> and \<^verbatim>\<open>Handle_Reclaim\<close>: the lock-free reader and the close protocol as interleavings
    of single loads and stores. \<^verbatim>\<open>Handle_Properties\<close>: authority is confined, processes are isolated, no
    lookup uses freed memory, no snapshot is torn, and the effect of every operation.

  \<^bold>\<open>Physical memory\<close> (\<^verbatim>\<open>mm/buddy.rs\<close>). \<^verbatim>\<open>Buddy\<close> is the allocator with its lists threaded through the free
  pages and its pair bitmap; \<^verbatim>\<open>Buddy_Blocks\<close> the abstract system of free blocks; \<^verbatim>\<open>Buddy_Invariant\<close>,
  \<^verbatim>\<open>Buddy_Lists\<close>, \<^verbatim>\<open>Buddy_Alloc\<close> the representation and its operations; \<^verbatim>\<open>Buddy_Init\<close> and \<^verbatim>\<open>Buddy_New\<close>
  construction from the boot memory map; \<^verbatim>\<open>Buddy_Properties\<close>: loans never overlap, an allocation fails
  only when no run of free frames fits, and the allocator starts with exactly the usable frames.

  \<^bold>\<open>Waiting, time and messages\<close> (\<^verbatim>\<open>sched\<close>, \<^verbatim>\<open>object\<close>).
  \<^item> \<^verbatim>\<open>Deadline_Heap\<close>, \<^verbatim>\<open>Deadline_Slots\<close>: the binary heap as an earliest-first queue (a locale), and the
    promise of slots that makes every later push succeed. \<^verbatim>\<open>Ipc_Ring\<close>, \<^verbatim>\<open>Notification\<close>: the two queues.
  \<^item> \<^verbatim>\<open>Waitables\<close>, \<^verbatim>\<open>Us_Reg\<close>: the objects and registrations. \<^verbatim>\<open>Sched\<close>, \<^verbatim>\<open>Sched_Wait\<close>, \<^verbatim>\<open>Sched_Ipc\<close>: the
    operations under the lock, a wait as its two holds. The record \<^verbatim>\<open>SchedState\<close> has the live objects,
    the threads' wait fields, the registrations, the blocked list and the heap; threads made
    runnable are listed in the order of their placement.
  \<^item> \<^verbatim>\<open>Sched_Invariant\<close>, \<^verbatim>\<open>Sched_Deadlines\<close>, \<^verbatim>\<open>Sched_Endpoints\<close>: the invariants of waiting, of deadlines
    and of channels; \<^verbatim>\<open>Sched_Waiting\<close>, \<^verbatim>\<open>Sched_Keeps\<close>, \<^verbatim>\<open>Sched_Timers\<close>, \<^verbatim>\<open>Sched_Tick\<close>,
    \<^verbatim>\<open>Sched_Blocking\<close>, \<^verbatim>\<open>Sched_Messages\<close>, \<^verbatim>\<open>Sched_Servers\<close>, \<^verbatim>\<open>Sched_Closing\<close>, \<^verbatim>\<open>Sched_Life\<close>: that each
    operation keeps them and returns.
  \<^item> \<^verbatim>\<open>Sched_Steps\<close>: the transition system whose step is one hold of the lock, and its reachable states.
    \<^verbatim>\<open>Sched_Streams\<close>: an endpoint as a stream of messages (a locale). \<^verbatim>\<open>Sched_Properties\<close>: no wakeup is
    lost, the tick delivers every deadline that has come, messages are neither lost, doubled nor
    reordered, a blocking send is delivered or failed, channels form no cycle of references.

  \<^bold>\<open>Run queues\<close> (\<^verbatim>\<open>sched.rs\<close>, \<^verbatim>\<open>sched/placement.rs\<close>, \<^verbatim>\<open>sched/exit.rs\<close>, \<^verbatim>\<open>sched/spawn.rs\<close>, \<^verbatim>\<open>sched/preempt.rs\<close>).
  \<^item> \<^verbatim>\<open>Run_Queue\<close>: picking, placement, stealing, parking and the switch. \<^verbatim>\<open>Run_Life\<close>: boot, spawning, the
    tick, preemption control, exit, suspension and the reaper. The record \<^verbatim>\<open>RunState\<close> has the fields of
    the scheduler's state that concern which thread runs where; the threads an event makes runnable
    are an argument.
  \<^item> \<^verbatim>\<open>Run_Invariant\<close>, \<^verbatim>\<open>Run_Moves\<close>: every thread is in one place, its state says which, and no list is
    ever full for a thread in hand. \<^verbatim>\<open>Run_Picking\<close>: what the loops choose. \<^verbatim>\<open>Run_Switching\<close>, \<^verbatim>\<open>Run_Exit\<close>,
    \<^verbatim>\<open>Run_Ending\<close>: that placement, waking, switching and the end of a process keep the invariant and return.
  \<^item> \<^verbatim>\<open>Run_Steps\<close>: the transition system whose step is one operation on one processor, with the conditions the
    callers meet, and the commit of a switch as a step of its own. \<^verbatim>\<open>Run_Births\<close>: new threads and processors,
    reclaiming, and that every step keeps the invariant. \<^verbatim>\<open>Run_Outcome\<close>: what the exit of a process and a
    placement achieve. \<^verbatim>\<open>Run_Properties\<close>: no operation fails, every thread is in one place, stacks are left
    before they are used or freed, the right thread runs next, and a process's exit reaches all its threads.

  \<^bold>\<open>Bounds and loops.\<close> Loops over an array recurse on the list of its indices; a loop with no bound in the
  code is a \<^verbatim>\<open>partial_function\<close> or has fuel, and is shown to return: the generator's rejection loop for
  every state of it, the exit sweep, the tick's loop over the heap from every reachable state, the loops over
  the blocked and the suspended threads of an exiting process. The
  tick's loop is stated for every time but the last a 64-bit clock can show, at which a periodic timer
  re-arms at the time it fires. The processor limit, the thread limit and the sizes of reserves
  are the code's.

  \<^bold>\<open>Not modelled.\<close> The architecture layer, drivers, buses and block I/O (device registers and
  interrupts); page tables, the slab allocator and kernel stacks; processes, namespaces, files, memory
  objects and devices, of which the scheduler takes what it needs as arguments; the decoding of
  system calls; spinlocks, which appear as the atomicity of an operation; start-up, logging and the
  framebuffer console; everything in userspace, which meets the kernel at the system calls; and the
  build tools. Of the modelled parts: the file cache of a userspace server, the wake of threads that
  wait for the entropy seed, the registers of a faulting thread, the list of deferred drops, and the
  part of a context switch that touches page tables and processor state.
\<close>

end
